(* ===== verification/Dex_Prelude.thy ===== *)
theory Dex_Prelude
  imports Main "HOL-Library.Word" "HOL-Library.Signed_Division" "HOL-Library.Monad_Syntax"
begin

text \<open>
  What every component shares: results with an error branch, the machine integers of the
  source with the Rust operations on them (\<open>checked_add\<close>, \<open>saturating_sub\<close>, casts
  with \<open>as\<close>), and generic lemmas on lists, options and sums.

  Integers. A Rust \<open>i128\<close>, \<open>u32\<close>, \<open>u64\<close> or \<open>u128\<close> that the code only adds,
  compares and divides is an \<open>int\<close> or \<open>nat\<close>; the width shows in the operations, which
  write out the range (the release profile of the workspace sets \<open>overflow-checks = true\<close>,
  so a plain \<open>+\<close>, \<open>-\<close> or \<open>*\<close> that leaves the range is a panic, never a wrap).
  Where the code works on bits (the 256-bit arithmetic), limbs are words of their width.
\<close>

named_theorems res_simps "inversion of successful results"
named_theorems range_simps "definitions of the integer ranges"

section \<open>Results\<close>

text \<open>
  A call either fails (\<open>Inl\<close>) or returns (\<open>Inr\<close>). A Soroban call that panics rolls
  every effect back, so a failed call carries no state.
\<close>

definition and_then :: "('e + 'a) \<Rightarrow> ('a \<Rightarrow> 'e + 'b) \<Rightarrow> 'e + 'b" where
  "and_then m f = (case m of Inl e \<Rightarrow> Inl e | Inr x \<Rightarrow> f x)"

definition ensure :: "bool \<Rightarrow> 'e \<Rightarrow> 'e + unit" where
  "ensure b e = (if b then Inr () else Inl e)"

definition or_fail :: "'a option \<Rightarrow> 'e \<Rightarrow> 'e + 'a" where
  "or_fail x e = (case x of None \<Rightarrow> Inl e | Some y \<Rightarrow> Inr y)"

lemma and_then_Inl [simp]: "and_then (Inl e) f = Inl e"
  by (simp add: and_then_def)

lemma and_then_Inr [simp]: "and_then (Inr x) f = f x"
  by (simp add: and_then_def)

lemma ensure_True [simp]: "ensure True e = Inr ()"
  by (simp add: ensure_def)

lemma ensure_False [simp]: "ensure False e = Inl e"
  by (simp add: ensure_def)

lemma or_fail_Some [simp]: "or_fail (Some y) e = Inr y"
  by (simp add: or_fail_def)

lemma or_fail_None [simp]: "or_fail None e = Inl e"
  by (simp add: or_fail_def)

lemma and_then_eq_Inr [res_simps]:
  "and_then m f = Inr y \<longleftrightarrow> (\<exists>x. m = Inr x \<and> f x = Inr y)"
  by (cases m) auto

lemma and_then_eq_Inl [res_simps]:
  "and_then m f = Inl e \<longleftrightarrow> m = Inl e \<or> (\<exists>x. m = Inr x \<and> f x = Inl e)"
  by (cases m) auto

lemma ensure_eq_Inr [res_simps]: "ensure b e = Inr u \<longleftrightarrow> b"
  by (simp add: ensure_def)

lemma ensure_eq_Inl [res_simps]: "ensure b e = Inl e' \<longleftrightarrow> \<not> b \<and> e' = e"
  by (auto simp: ensure_def)

lemma if_ensure_eq_Inr [res_simps]:
  "(if b then ensure p e else ensure q e') = Inr u \<longleftrightarrow> (if b then p else q)"
  by (simp add: ensure_def)

lemma or_fail_eq_Inr [res_simps]: "or_fail x e = Inr y \<longleftrightarrow> x = Some y"
  by (cases x) auto

lemma or_fail_eq_Inl [res_simps]: "or_fail x e = Inl e' \<longleftrightarrow> x = None \<and> e' = e"
  by (cases x) auto

section \<open>Machine integers\<close>

abbreviation i128_max :: int where "i128_max \<equiv> 2 ^ 127 - 1"
abbreviation i128_min :: int where "i128_min \<equiv> - (2 ^ 127)"
definition u128_max :: nat where [range_simps]: "u128_max = 2 ^ 128 - 1"
definition u32_max :: nat where [range_simps]: "u32_max = 2 ^ 32 - 1"
definition u64_max :: nat where [range_simps]: "u64_max = 2 ^ 64 - 1"
abbreviation i32_max :: int where "i32_max \<equiv> 2 ^ 31 - 1"
abbreviation i32_min :: int where "i32_min \<equiv> - (2 ^ 31)"

definition in_i128 :: "int \<Rightarrow> bool" where [range_simps]:
  "in_i128 x \<longleftrightarrow> i128_min \<le> x \<and> x \<le> i128_max"

definition i128_checked_add :: "int \<Rightarrow> int \<Rightarrow> int option" where
  "i128_checked_add a b = (if in_i128 (a + b) then Some (a + b) else None)"

definition i128_checked_sub :: "int \<Rightarrow> int \<Rightarrow> int option" where
  "i128_checked_sub a b = (if in_i128 (a - b) then Some (a - b) else None)"

definition i128_checked_mul :: "int \<Rightarrow> int \<Rightarrow> int option" where
  "i128_checked_mul a b = (if in_i128 (a * b) then Some (a * b) else None)"

definition as_u128 :: "int \<Rightarrow> int" where
  "as_u128 x = x mod 2 ^ 128"

definition as_i128 :: "int \<Rightarrow> int" where
  "as_i128 x = (x + 2 ^ 127) mod 2 ^ 128 - 2 ^ 127"

definition u32_saturating_add :: "nat \<Rightarrow> nat \<Rightarrow> nat" where
  "u32_saturating_add a b = min (a + b) u32_max"

definition u32_saturating_mul :: "nat \<Rightarrow> nat \<Rightarrow> nat" where
  "u32_saturating_mul a b = min (a * b) u32_max"

definition u32_checked_add :: "nat \<Rightarrow> nat \<Rightarrow> nat option" where
  "u32_checked_add a b = (if a + b \<le> u32_max then Some (a + b) else None)"

definition u64_checked_add :: "nat \<Rightarrow> nat \<Rightarrow> nat option" where
  "u64_checked_add a b = (if a + b \<le> u64_max then Some (a + b) else None)"

definition u128_checked_add :: "nat \<Rightarrow> nat \<Rightarrow> nat option" where
  "u128_checked_add a b = (if a + b \<le> u128_max then Some (a + b) else None)"

definition u128_checked_mul :: "nat \<Rightarrow> nat \<Rightarrow> nat option" where
  "u128_checked_mul a b = (if a * b \<le> u128_max then Some (a * b) else None)"

definition u128_checked_sub :: "nat \<Rightarrow> nat \<Rightarrow> nat option" where
  "u128_checked_sub a b = (if b \<le> a then Some (a - b) else None)"

definition u128_saturating_mul :: "nat \<Rightarrow> nat \<Rightarrow> nat" where
  "u128_saturating_mul a b = min (a * b) u128_max"

definition u128_saturating_add :: "nat \<Rightarrow> nat \<Rightarrow> nat" where
  "u128_saturating_add a b = min (a + b) u128_max"

lemma i128_checked_add_eq_Some [res_simps]:
  "i128_checked_add a b = Some c \<longleftrightarrow> c = a + b \<and> in_i128 (a + b)"
  by (auto simp: i128_checked_add_def)

lemma i128_checked_sub_eq_Some [res_simps]:
  "i128_checked_sub a b = Some c \<longleftrightarrow> c = a - b \<and> in_i128 (a - b)"
  by (auto simp: i128_checked_sub_def)

lemma i128_checked_mul_eq_Some [res_simps]:
  "i128_checked_mul a b = Some c \<longleftrightarrow> c = a * b \<and> in_i128 (a * b)"
  by (auto simp: i128_checked_mul_def)

lemma u32_checked_add_eq_Some [res_simps]:
  "u32_checked_add a b = Some c \<longleftrightarrow> c = a + b \<and> a + b \<le> u32_max"
  by (auto simp: u32_checked_add_def)

lemma u64_checked_add_eq_Some [res_simps]:
  "u64_checked_add a b = Some c \<longleftrightarrow> c = a + b \<and> a + b \<le> u64_max"
  by (auto simp: u64_checked_add_def)

lemma u128_checked_add_eq_Some [res_simps]:
  "u128_checked_add a b = Some c \<longleftrightarrow> c = a + b \<and> a + b \<le> u128_max"
  by (auto simp: u128_checked_add_def)

lemma u128_checked_mul_eq_Some [res_simps]:
  "u128_checked_mul a b = Some c \<longleftrightarrow> c = a * b \<and> a * b \<le> u128_max"
  by (auto simp: u128_checked_mul_def)

lemma u128_checked_sub_eq_Some [res_simps]:
  "u128_checked_sub a b = Some c \<longleftrightarrow> c = a - b \<and> b \<le> a"
  by (auto simp: u128_checked_sub_def)

lemma as_u128_id: "0 \<le> x \<Longrightarrow> x < 2 ^ 128 \<Longrightarrow> as_u128 x = x"
  by (simp add: as_u128_def)

lemma as_i128_id: "in_i128 x \<Longrightarrow> as_i128 x = x"
  by (simp add: as_i128_def in_i128_def)

lemma as_i128_in_i128: "in_i128 (as_i128 x)"
proof -
  have "0 \<le> (x + 2 ^ 127) mod 2 ^ 128" "(x + 2 ^ 127) mod 2 ^ 128 < (2 :: int) ^ 128"
    by (rule pos_mod_sign, simp) (rule pos_mod_bound, simp)
  then show ?thesis
    unfolding as_i128_def in_i128_def by simp
qed

text \<open>The truncating division of the source agrees with \<open>div\<close> on non-negative values.\<close>

lemma sdiv_pos: "0 \<le> a \<Longrightarrow> 0 < b \<Longrightarrow> a sdiv b = a div (b :: int)"
  by (simp add: signed_divide_int_def sgn_if abs_if)

section \<open>Lists\<close>

text \<open>Indexing that panics out of range.\<close>

definition nth_opt :: "'a list \<Rightarrow> nat \<Rightarrow> 'a option" where
  "nth_opt xs i = (if i < length xs then Some (xs ! i) else None)"

lemma sum_list_map_nonneg:
  "(\<And>x. x \<in> set xs \<Longrightarrow> 0 \<le> f x) \<Longrightarrow> (0 :: int) \<le> sum_list (map f xs)"
  by (induction xs) simp_all

lemma member_le_sum_list_int:
  fixes f :: "'a \<Rightarrow> int"
  assumes "\<And>y. y \<in> set xs \<Longrightarrow> 0 \<le> f y" and "x \<in> set xs"
  shows "f x \<le> sum_list (map f xs)"
  using assms
proof (induction xs)
  case Nil
  then show ?case by simp
next
  case (Cons z zs)
  have "0 \<le> sum_list (map f zs)"
    by (rule sum_list_map_nonneg) (use Cons.prems in auto)
  with Cons show ?case by (cases "x = z") (auto simp: add_increasing)
qed

end
