(* ===== verification/Soroban_Host.thy ===== *)
theory Soroban_Host
  imports Dex_Prelude
begin

text \<open>
  What the contracts see of the Soroban host, of the token contracts and of the DEX pools.
  None of that code is in the repository: it is the parameter \<open>host\<close> of every model
  definition that makes such a call, a record with one field per external function the
  contracts invoke, over an arbitrary type \<open>'w\<close> of external state (every balance, allowance
  and pool of the ledger). A call that traps is \<open>None\<close>; the transaction then rolls back.
\<close>

type_synonym address = nat

text \<open>How a contract call can fail: one of the contract's own error codes, a missing
  authorisation, a bare \<open>panic!\<close>, or a call into another contract that trapped.\<close>

datatype 'e failure = Error 'e | AuthMissing address | Panicked string | CallTrapped

type_synonym ('e, 'a) res = "'e failure + 'a"

text \<open>
  The invocation a contract function runs in: the addresses that authorised it
  (\<open>require_auth\<close>), the contract's own address and the ledger sequence number.
\<close>

record env =
  env_auth :: "address \<Rightarrow> bool"
  env_self :: address
  env_sequence :: nat

definition require_auth :: "env \<Rightarrow> address \<Rightarrow> ('e, unit) res" where
  "require_auth env a = ensure (env_auth env a) (AuthMissing a)"

lemma require_auth_eq_Inr [res_simps]: "require_auth env a = Inr u \<longleftrightarrow> env_auth env a"
  by (simp add: require_auth_def ensure_eq_Inr)

text \<open>Entries handed to \<open>authorize_as_current_contract\<close>: the calls the next external call
  may make in the name of the calling contract.\<close>

datatype auth_entry =
    AuthTransfer (auth_token: address) address address (auth_amount: int)
  | AuthApprove (auth_token: address) address address (auth_amount: int) nat

text \<open>
  The external functions. Tokens (SEP-41 / Stellar Asset Contract): \<open>transfer token from to
  amount\<close>, \<open>balance\<close>, \<open>approve\<close>, \<open>transfer_from token spender from to amount\<close>. Pools:
  one field per function that \<open>execute_step_inner\<close> invokes; the list is what
  \<open>authorize_as_current_contract\<close> granted for that call.
\<close>

record ('w, 'h) host =
  token_transfer :: "address \<Rightarrow> address \<Rightarrow> address \<Rightarrow> int \<Rightarrow> 'w \<Rightarrow> 'w option"
  token_balance :: "address \<Rightarrow> address \<Rightarrow> 'w \<Rightarrow> int"
  token_approve :: "address \<Rightarrow> address \<Rightarrow> address \<Rightarrow> int \<Rightarrow> nat \<Rightarrow> 'w \<Rightarrow> 'w option"
  token_transfer_from :: "address \<Rightarrow> address \<Rightarrow> address \<Rightarrow> address \<Rightarrow> int \<Rightarrow> 'w \<Rightarrow> 'w option"
  aquarius_swap :: "auth_entry list \<Rightarrow> address \<Rightarrow> address \<Rightarrow> nat \<Rightarrow> nat \<Rightarrow> int \<Rightarrow> int \<Rightarrow> 'w
    \<Rightarrow> (int \<times> 'w) option"
  soroswap_reserves :: "address \<Rightarrow> 'w \<Rightarrow> ((int \<times> int) \<times> 'w) option"
  soroswap_swap :: "address \<Rightarrow> int \<Rightarrow> int \<Rightarrow> address \<Rightarrow> 'w \<Rightarrow> 'w option"
  phoenix_swap :: "auth_entry list \<Rightarrow> address \<Rightarrow> address \<Rightarrow> address \<Rightarrow> int \<Rightarrow> 'w \<Rightarrow> 'w option"
  sushi_hints :: "address \<Rightarrow> 'w \<Rightarrow> ('h \<times> 'w) option"
  sushi_swap :: "auth_entry list \<Rightarrow> address \<Rightarrow> address \<Rightarrow> address \<Rightarrow> bool \<Rightarrow> int \<Rightarrow> int \<Rightarrow> 'h \<Rightarrow> 'w
    \<Rightarrow> 'w option"
  comet_swap :: "auth_entry list \<Rightarrow> address \<Rightarrow> address \<Rightarrow> int \<Rightarrow> address \<Rightarrow> int \<Rightarrow> int \<Rightarrow> address \<Rightarrow> 'w
    \<Rightarrow> ((int \<times> int) \<times> 'w) option"

end
