(* ===== verification/Contract_Types.thy ===== *)
theory Contract_Types
  imports Soroban_Host
begin

text \<open>The types all three contracts share (\<open>contracts/shared-types/src/lib.rs\<close>).\<close>

datatype dex_type = Aquarius | SoroswapPair | Phoenix | Sushi | CometDex

record swap_step =
  dex_id :: address
  dex_type_of :: dex_type
  token_in :: address
  token_out :: address
  in_idx :: nat
  out_idx :: nat

record sub_route =
  amount_in :: int
  steps :: "swap_step list"

text \<open>The total of the route amounts (weights, on the way back of a round trip).\<close>

definition routes_total :: "sub_route list \<Rightarrow> int" where
  "routes_total rs = sum_list (map amount_in rs)"

lemma routes_total_simps [simp]:
  "routes_total [] = 0"
  "routes_total (r # rs) = amount_in r + routes_total rs"
  by (simp_all add: routes_total_def)

lemma routes_total_append [simp]: "routes_total (rs @ qs) = routes_total rs + routes_total qs"
  by (simp add: routes_total_def)

end
