(* ===== verification/Agg_Math.thy ===== *)
theory Agg_Math
  imports Contract_Types
begin

text \<open>
  \<open>contracts/aggregator/src/math.rs\<close> and \<open>errors.rs\<close>: the contract's error codes, the
  Soroswap fee and output formulas with their checked and saturating steps, and the rescaling
  of route weights to an exact total. The lemmas show the output formula satisfies the pair's
  constant-product check and never drains a reserve, and that rescaling loses nothing.
\<close>

datatype aggregator_error =
    AE_InvalidAmount
  | AE_InvalidMinimumOut
  | AE_EmptyRoutes
  | AE_InvalidRoute
  | AE_DisconnectedRoute
  | AE_InvalidStep
  | AE_ZeroStepOutput
  | AE_OutputBelowMinimum
  | AE_VenueNotRegistered
  | AE_ArithmeticOverflow
  | AE_NotInitialized
  | AE_ArithmeticUnderflow

type_synonym 'a agg_res = "(aggregator_error, 'a) res"

section \<open>Soroswap formulas\<close>

definition soroswap_fee :: "int \<Rightarrow> int" where
  "soroswap_fee amount =
     (if amount \<le> 0 then 0
      else (case Option.bind (i128_checked_mul amount 3) (\<lambda>value. i128_checked_add value 999) of
              Some v \<Rightarrow> v
            | None \<Rightarrow> i128_max) sdiv 1000)"

definition soroswap_get_amount_out :: "int \<Rightarrow> int \<Rightarrow> int \<Rightarrow> int" where
  "soroswap_get_amount_out amount reserve_in reserve_out =
     (if amount \<le> 0 \<or> reserve_in \<le> 0 \<or> reserve_out \<le> 0 then 0
      else let in_less = (case i128_checked_sub amount (soroswap_fee amount) of
                            Some v \<Rightarrow> v | None \<Rightarrow> 0)
      in if in_less \<le> 0 then 0
      else let numerator = (case i128_checked_mul in_less reserve_out of
                              Some v \<Rightarrow> v | None \<Rightarrow> i128_max);
               denominator = (case i128_checked_add reserve_in in_less of
                                Some v \<Rightarrow> v | None \<Rightarrow> i128_max)
      in numerator sdiv denominator)"

lemma soroswap_fee_nonneg: "0 \<le> soroswap_fee a"
  by (auto simp: soroswap_fee_def i128_checked_mul_def i128_checked_add_def in_i128_def
      sdiv_pos pos_imp_zdiv_nonneg_iff)

lemma soroswap_fee_exact:
  assumes "0 < a" "3 * a + 999 \<le> i128_max"
  shows "soroswap_fee a = (3 * a + 999) div 1000"
  using assms by (auto simp: soroswap_fee_def i128_checked_mul_def i128_checked_add_def
      in_i128_def sdiv_pos mult.commute)

text \<open>The fee is the ceiling of 0.3 percent, as long as \<open>3 a + 999\<close> stays in range.\<close>

lemma soroswap_fee_ceiling:
  assumes "0 < a" "3 * a + 999 \<le> i128_max"
  shows "3 * a \<le> 1000 * soroswap_fee a" "1000 * soroswap_fee a < 3 * a + 1000"
  using soroswap_fee_exact [OF assms] by linarith+

lemma soroswap_fee_le: "0 < a \<Longrightarrow> soroswap_fee a \<le> a"
proof -
  assume a: "0 < a"
  show ?thesis
  proof (cases "in_i128 (a * 3) \<and> in_i128 (a * 3 + 999)")
    case True
    with a have "3 * a + 999 \<le> i128_max" by (simp add: in_i128_def)
    with a show ?thesis by (simp add: soroswap_fee_exact)
  next
    case False
    then have big: "i128_max < a * 3 + 999"
      using a by (auto simp: in_i128_def)
    from False have "soroswap_fee a = i128_max sdiv 1000"
      using a by (auto simp: soroswap_fee_def i128_checked_mul_def i128_checked_add_def)
    with big show ?thesis by (simp add: sdiv_pos)
  qed
qed

text \<open>The two saturated operands of the output formula, named for the proofs.\<close>

definition sat_mul :: "int \<Rightarrow> int \<Rightarrow> int" where
  "sat_mul a b = (case i128_checked_mul a b of Some v \<Rightarrow> v | None \<Rightarrow> i128_max)"

definition sat_add :: "int \<Rightarrow> int \<Rightarrow> int" where
  "sat_add a b = (case i128_checked_add a b of Some v \<Rightarrow> v | None \<Rightarrow> i128_max)"

lemma sat_mul_bounds:
  assumes "0 < a" "0 < b"
  shows "0 \<le> sat_mul a b" "sat_mul a b \<le> a * b" "sat_mul a b \<le> i128_max"
proof -
  from assms have pos: "0 < a * b" by (rule mult_pos_pos)
  then show "0 \<le> sat_mul a b" "sat_mul a b \<le> a * b" "sat_mul a b \<le> i128_max"
    by (auto simp: sat_mul_def i128_checked_mul_def in_i128_def)
qed

lemma sat_add_exact: "0 < a \<Longrightarrow> 0 < b \<Longrightarrow> in_i128 (a + b) \<Longrightarrow> sat_add a b = a + b"
  by (simp add: sat_add_def i128_checked_add_def)

lemma soroswap_get_amount_out_pos:
  assumes "0 < amount" "in_i128 amount" "0 < reserve_in" "0 < reserve_out"
  shows "soroswap_get_amount_out amount reserve_in reserve_out =
    (if amount - soroswap_fee amount \<le> 0 then 0
     else sat_mul (amount - soroswap_fee amount) reserve_out
          div sat_add reserve_in (amount - soroswap_fee amount))"
proof -
  let ?x = "amount - soroswap_fee amount"
  have sub: "i128_checked_sub amount (soroswap_fee amount) = Some ?x"
    using assms soroswap_fee_nonneg [of amount] soroswap_fee_le [of amount]
    by (auto simp: i128_checked_sub_def in_i128_def)
  have "0 < sat_add reserve_in ?x" if "0 < ?x"
    using that assms by (auto simp: sat_add_def i128_checked_add_def in_i128_def)
  moreover have "0 \<le> sat_mul ?x reserve_out" if "0 < ?x"
    using that assms by (simp add: sat_mul_bounds)
  ultimately show ?thesis
    using assms sub
    by (auto simp: soroswap_get_amount_out_def Let_def sat_mul_def [symmetric]
        sat_add_def [symmetric] sdiv_pos)
qed

lemma soroswap_get_amount_out_nonneg: "0 \<le> soroswap_get_amount_out a ri ro"
  by (auto simp: soroswap_get_amount_out_def Let_def i128_checked_sub_def i128_checked_mul_def
      i128_checked_add_def in_i128_def sdiv_pos pos_imp_zdiv_nonneg_iff mult_pos_pos add_pos_pos
      split: option.splits if_splits intro!: pos_imp_zdiv_nonneg_iff [THEN iffD2])

text \<open>
  The division at the heart of the formula: with \<open>x\<close> the input less the fee, the output is
  at most \<open>x * ro / (ri + x)\<close>, so the product of the reserves after the swap is at least the
  product before it.
\<close>

lemma constant_product_div:
  fixes x ri ro n :: int
  assumes "0 < x" "0 < ri" "0 < ro" "n \<le> x * ro"
  shows "ri * ro \<le> (ri + x) * (ro - n div (ri + x))"
proof -
  have "(ri + x) * (n div (ri + x)) + n mod (ri + x) = n"
    by (rule mult_div_mod_eq)
  moreover have "0 \<le> n mod (ri + x)"
    using assms by (intro pos_mod_sign) linarith
  ultimately have "(ri + x) * (n div (ri + x)) \<le> n" by linarith
  with assms(4) have "(ri + x) * (n div (ri + x)) \<le> x * ro" by linarith
  then show ?thesis by (simp add: algebra_simps)
qed

section \<open>Rescaling weights\<close>

fun sum_weights :: "sub_route list \<Rightarrow> int \<Rightarrow> int agg_res" where
  "sum_weights [] acc = Inr acc"
| "sum_weights (sr # routes) acc =
     and_then (ensure (amount_in sr > 0) (Error AE_InvalidAmount)) (\<lambda>_.
     and_then (or_fail (i128_checked_add acc (amount_in sr)) (Error AE_ArithmeticOverflow))
       (sum_weights routes))"

text \<open>The loop \<open>for i in 0..n\<close>: \<open>i\<close> and \<open>allocated\<close> are its variables, the list the
  routes from \<open>i\<close> on.\<close>

fun scale_loop :: "int \<Rightarrow> int \<Rightarrow> nat \<Rightarrow> nat \<Rightarrow> int \<Rightarrow> sub_route list \<Rightarrow> sub_route list agg_res" where
  "scale_loop target weight_sum n i allocated [] = Inr []"
| "scale_loop target weight_sum n i allocated (sr # routes) =
     and_then
       (if i = n - 1 then
          and_then (or_fail (i128_checked_sub target allocated) (Error AE_ArithmeticUnderflow))
            (\<lambda>amount. Inr (amount, allocated))
        else
          and_then (or_fail (i128_checked_mul (amount_in sr) target) (Error AE_ArithmeticOverflow))
            (\<lambda>product. let scaled = product sdiv weight_sum in
               and_then (or_fail (i128_checked_add allocated scaled) (Error AE_ArithmeticOverflow))
                 (\<lambda>allocated'. Inr (scaled, allocated'))))
       (\<lambda>(amount, allocated').
     and_then (ensure (amount > 0) (Error AE_InvalidAmount)) (\<lambda>_.
     and_then (scale_loop target weight_sum n (Suc i) allocated' routes) (\<lambda>out.
     Inr (\<lparr>amount_in = amount, steps = steps sr\<rparr> # out))))"

definition scale_sub_routes_to_total :: "sub_route list \<Rightarrow> int \<Rightarrow> sub_route list agg_res" where
  "scale_sub_routes_to_total routes target =
     and_then (ensure (routes \<noteq> []) (Error AE_EmptyRoutes)) (\<lambda>_.
     and_then (ensure (target > 0) (Error AE_InvalidAmount)) (\<lambda>_.
     and_then (sum_weights routes 0) (\<lambda>weight_sum.
     scale_loop target weight_sum (length routes) 0 0 routes)))"

lemma sum_weights_Inr:
  "sum_weights rs acc = Inr w \<Longrightarrow>
     w = acc + routes_total rs \<and> (\<forall>r \<in> set rs. 0 < amount_in r)"
proof (induction rs arbitrary: acc)
  case Nil
  then show ?case by simp
next
  case (Cons r rs)
  then have "0 < amount_in r" "sum_weights rs (acc + amount_in r) = Inr w"
    by (auto simp: res_simps)
  with Cons.IH [of "acc + amount_in r"] show ?case by simp
qed

lemma scale_loop_total:
  assumes "scale_loop t W n i al rs = Inr out" "rs \<noteq> []" "i + length rs = n"
  shows "routes_total out = t - al"
  using assms
proof (induction rs arbitrary: i al out)
  case Nil
  then show ?case by simp
next
  case (Cons r rs)
  show ?case
  proof (cases "rs = []")
    case True
    with Cons.prems show ?thesis by (auto simp: res_simps)
  next
    case False
    then have "i \<noteq> n - 1" using Cons.prems(3) by (cases rs) auto
    with Cons.prems(1) obtain out' where
      out: "out = \<lparr>amount_in = (amount_in r * t) sdiv W, steps = steps r\<rparr> # out'" and
      rec: "scale_loop t W n (Suc i) (al + (amount_in r * t) sdiv W) rs = Inr out'"
      by (auto simp: res_simps Let_def)
    from Cons.IH [OF rec False] Cons.prems(3) out show ?thesis by simp
  qed
qed

lemma scale_loop_shape:
  "scale_loop t W n i al rs = Inr out \<Longrightarrow>
     length out = length rs \<and> map steps out = map steps rs \<and> (\<forall>r \<in> set out. 0 < amount_in r)"
proof (induction rs arbitrary: i al out)
  case Nil
  then show ?case by simp
next
  case (Cons r rs)
  from Cons.prems obtain a al' out' where
    "0 < a" "scale_loop t W n (Suc i) al' rs = Inr out'"
    "out = \<lparr>amount_in = a, steps = steps r\<rparr> # out'"
    by (auto simp: res_simps Let_def split: if_splits)
  with Cons.IH show ?case by auto
qed

lemma scale_loop_share:
  assumes "scale_loop t W n i al rs = Inr out" "k < length rs" "i + k < n - 1"
  shows "amount_in (out ! k) = (amount_in (rs ! k) * t) sdiv W"
  using assms
proof (induction rs arbitrary: i al out k)
  case Nil
  then show ?case by simp
next
  case (Cons r rs)
  then have "i \<noteq> n - 1" by linarith
  with Cons.prems(1) obtain out' where
    out: "out = \<lparr>amount_in = (amount_in r * t) sdiv W, steps = steps r\<rparr> # out'" and
    rec: "scale_loop t W n (Suc i) (al + (amount_in r * t) sdiv W) rs = Inr out'"
    by (auto simp: res_simps Let_def)
  show ?case
  proof (cases k)
    case 0
    with out show ?thesis by simp
  next
    case (Suc k')
    with Cons.IH [OF rec, of k'] Cons.prems out show ?thesis by simp
  qed
qed

lemmas scale_loop_facts = scale_loop_total scale_loop_shape scale_loop_share

lemma scale_sub_routes_to_total_Inr:
  assumes "scale_sub_routes_to_total routes t = Inr out"
  shows "routes_total out = t" "length out = length routes" "map steps out = map steps routes"
    "\<forall>r \<in> set out. 0 < amount_in r" "routes \<noteq> []" "0 < t" "\<forall>r \<in> set routes. 0 < amount_in r"
proof -
  from assms obtain w where
    ne: "routes \<noteq> []" and t: "0 < t" and w: "sum_weights routes 0 = Inr w" and
    loop: "scale_loop t w (length routes) 0 0 routes = Inr out"
    by (auto simp: scale_sub_routes_to_total_def res_simps)
  from scale_loop_total [OF loop ne] show "routes_total out = t" by simp
  from scale_loop_shape [OF loop] show "length out = length routes"
    "map steps out = map steps routes" "\<forall>r \<in> set out. 0 < amount_in r" by auto
  from sum_weights_Inr [OF w] show "\<forall>r \<in> set routes. 0 < amount_in r" by simp
  show "routes \<noteq> []" "0 < t" by (fact ne, fact t)
qed

end
