(* ===== verification/Agg_Invoke.thy ===== *)
theory Agg_Invoke
  imports Agg_Math
begin

text \<open>
  \<open>contracts/aggregator/src/storage.rs\<close>, \<open>events.rs\<close> and \<open>invoke.rs\<close>: the contract's
  state, the events it publishes, and the execution of one step on a DEX and of one path of
  steps. The lemmas give the frame of an execution (it touches only the event log and the
  external state) and the exact log a path leaves.
\<close>

section \<open>State and events\<close>

datatype agg_event =
    SwapPublished address address address int int nat
  | RtPublished address address address int int nat bool
  | LegPublished (leg_hop: nat) (leg_tag: nat) (leg_dex: address) (leg_token_in: address) (leg_amount: int)

text \<open>Instance storage \<open>Admin\<close>, persistent storage \<open>Venue(tag, dex_id)\<close> (present with
  value true, or absent), the installed WASM, the event log, and everything outside.\<close>

record 'w agg_state =
  agg_admin :: "address option"
  agg_venues :: "(nat \<times> address) set"
  agg_wasm :: nat
  agg_events :: "agg_event list"
  agg_ext :: 'w

definition publish :: "agg_event \<Rightarrow> 'w agg_state \<Rightarrow> 'w agg_state" where
  "publish e s = s\<lparr>agg_events := agg_events s @ [e]\<rparr>"

fun dex_tag :: "dex_type \<Rightarrow> nat" where
  "dex_tag Aquarius = 0"
| "dex_tag SoroswapPair = 1"
| "dex_tag Phoenix = 2"
| "dex_tag Sushi = 3"
| "dex_tag CometDex = 4"

lemma dex_tag_inj: "dex_tag a = dex_tag b \<longleftrightarrow> a = b"
  by (cases a; cases b) simp_all

section \<open>One step\<close>

definition comet_approval_ledger :: "env \<Rightarrow> nat" where
  "comet_approval_ledger env =
     u32_saturating_mul (u32_saturating_add (env_sequence env div 100000) 1) 100000"

text \<open>\<open>MIN_SQRT_RATIO + 1\<close> and \<open>MAX_SQRT_RATIO - 1\<close>, as the code writes them: a decimal and
  the big-endian bytes \<open>ff fd 89 63 ef d1 fc 6a 50 64 88 49 5d 95 1d 52 63 98 8d 25\<close>.\<close>

definition sushi_price_limit :: "bool \<Rightarrow> int" where
  "sushi_price_limit zero_for_one =
     (if zero_for_one then 4295128740 else 0xfffd8963efd1fc6a506488495d951d5263988d25)"

text \<open>One definition per arm of the \<open>match\<close> of \<open>execute_step_inner\<close>: the output the arm reports
  and the external state after it. \<open>pull\<close> is the transfer the contract authorises for the pool.\<close>

definition pull :: "env \<Rightarrow> swap_step \<Rightarrow> int \<Rightarrow> auth_entry list" where
  "pull env st amount = [AuthTransfer (token_in st) (env_self env) (dex_id st) amount]"

definition aquarius_step ::
    "('w, 'h) host \<Rightarrow> env \<Rightarrow> swap_step \<Rightarrow> int \<Rightarrow> 'w \<Rightarrow> (int \<times> 'w) agg_res" where
  "aquarius_step H env st amount w =
     and_then (or_fail (aquarius_swap H (pull env st amount) (dex_id st) (env_self env) (in_idx st)
                  (out_idx st) (as_u128 amount) 0 w) CallTrapped) (\<lambda>(received, w').
     Inr (as_i128 received, w'))"

definition soroswap_step ::
    "('w, 'h) host \<Rightarrow> env \<Rightarrow> swap_step \<Rightarrow> int \<Rightarrow> 'w \<Rightarrow> (int \<times> 'w) agg_res" where
  "soroswap_step H env st amount w =
     and_then (or_fail (soroswap_reserves H (dex_id st) w) CallTrapped) (\<lambda>((r0, r1), w1).
     let me = env_self env;
         a2b = (in_idx st = 0 \<and> out_idx st = 1);
         (reserve_in, reserve_out) = (if a2b then (r0, r1) else (r1, r0));
         expected_out = soroswap_get_amount_out amount reserve_in reserve_out
     in if expected_out \<le> 0 then Inr (0, w1)
     else let balance_before = token_balance H (token_out st) me w1 in
     and_then (or_fail (token_transfer H (token_in st) me (dex_id st) amount w1) CallTrapped) (\<lambda>w2.
     let (amount0_out, amount1_out) = (if a2b then (0, expected_out) else (expected_out, 0)) in
     and_then (or_fail (soroswap_swap H (dex_id st) amount0_out amount1_out me w2) CallTrapped) (\<lambda>w3.
     and_then (or_fail (i128_checked_sub (token_balance H (token_out st) me w3) balance_before)
                 (Error AE_ArithmeticUnderflow)) (\<lambda>received.
     Inr (received, w3)))))"

definition phoenix_step ::
    "('w, 'h) host \<Rightarrow> env \<Rightarrow> swap_step \<Rightarrow> int \<Rightarrow> 'w \<Rightarrow> (int \<times> 'w) agg_res" where
  "phoenix_step H env st amount w =
     (let me = env_self env;
          balance_before = token_balance H (token_out st) me w in
     and_then (or_fail (phoenix_swap H (pull env st amount) (dex_id st) me (token_in st) amount w)
                 CallTrapped) (\<lambda>w1.
     and_then (or_fail (i128_checked_sub (token_balance H (token_out st) me w1) balance_before)
                 (Error AE_ArithmeticUnderflow)) (\<lambda>received.
     Inr (received, w1))))"

definition sushi_step ::
    "('w, 'h) host \<Rightarrow> env \<Rightarrow> swap_step \<Rightarrow> int \<Rightarrow> 'w \<Rightarrow> (int \<times> 'w) agg_res" where
  "sushi_step H env st amount w =
     (let me = env_self env;
          zero_for_one = (in_idx st = 0 \<and> out_idx st = 1) in
     and_then (or_fail (sushi_hints H (dex_id st) w) CallTrapped) (\<lambda>(hints, w1).
     let balance_before = token_balance H (token_out st) me w1 in
     and_then (or_fail (sushi_swap H (pull env st amount) (dex_id st) me me zero_for_one amount
                  (sushi_price_limit zero_for_one) hints w1) CallTrapped) (\<lambda>w2.
     and_then (or_fail (i128_checked_sub (token_balance H (token_out st) me w2) balance_before)
                 (Error AE_ArithmeticUnderflow)) (\<lambda>received.
     Inr (received, w2)))))"

definition comet_step ::
    "('w, 'h) host \<Rightarrow> env \<Rightarrow> swap_step \<Rightarrow> int \<Rightarrow> 'w \<Rightarrow> (int \<times> 'w) agg_res" where
  "comet_step H env st amount w =
     (let me = env_self env;
          allow = [AuthApprove (token_in st) me (dex_id st) amount (comet_approval_ledger env)] in
     and_then (or_fail (comet_swap H allow (dex_id st) (token_in st) amount (token_out st) 0
                  i128_max me w) CallTrapped) (\<lambda>((amount_out, _), w1).
     Inr (amount_out, w1)))"

definition execute_step_inner ::
    "('w, 'h) host \<Rightarrow> env \<Rightarrow> swap_step \<Rightarrow> int \<Rightarrow> 'w \<Rightarrow> (int \<times> 'w) agg_res" where
  "execute_step_inner H env st amount w =
     (case dex_type_of st of
       Aquarius \<Rightarrow> aquarius_step H env st amount w
     | SoroswapPair \<Rightarrow> soroswap_step H env st amount w
     | Phoenix \<Rightarrow> phoenix_step H env st amount w
     | Sushi \<Rightarrow> sushi_step H env st amount w
     | CometDex \<Rightarrow> comet_step H env st amount w)"

lemmas execute_step_arms = execute_step_inner_def aquarius_step_def soroswap_step_def phoenix_step_def
  sushi_step_def comet_step_def pull_def

definition execute_step ::
    "('w, 'h) host \<Rightarrow> env \<Rightarrow> swap_step \<Rightarrow> int \<Rightarrow> nat \<Rightarrow> 'w agg_state \<Rightarrow> (int \<times> 'w agg_state) agg_res"
    where
  "execute_step H env st amount hop_idx s =
     and_then (execute_step_inner H env st amount (agg_ext s)) (\<lambda>(output, w).
     Inr (output, publish (LegPublished hop_idx (dex_tag (dex_type_of st)) (dex_id st) (token_in st) amount)
                    (s\<lparr>agg_ext := w\<rparr>)))"

section \<open>A path of steps\<close>

text \<open>The loop of \<open>execute_path\<close>: \<open>i\<close> is the enumeration index of the first of the remaining
  steps, \<open>max_depth\<close> the counter the caller passes by reference.\<close>

fun path_loop ::
    "('w, 'h) host \<Rightarrow> env \<Rightarrow> nat \<Rightarrow> nat \<Rightarrow> swap_step list \<Rightarrow> int \<Rightarrow> nat \<Rightarrow> 'w agg_state
      \<Rightarrow> (int \<times> nat \<times> 'w agg_state) agg_res" where
  "path_loop H env path_base i [] current max_depth s = Inr (current, max_depth, s)"
| "path_loop H env path_base i (st # sts) current max_depth s =
     and_then (ensure (token_in st \<noteq> token_out st) (Error AE_InvalidStep)) (\<lambda>_.
     and_then (ensure (in_idx st \<noteq> out_idx st) (Error AE_InvalidStep)) (\<lambda>_.
     let hop_offset = min i u32_max;
         hop_idx = u32_saturating_add path_base hop_offset
     in and_then (execute_step H env st current hop_idx s) (\<lambda>(current', s').
     and_then (ensure (current' > 0) (Error AE_ZeroStepOutput)) (\<lambda>_.
     let depth = u32_saturating_add hop_offset 1;
         max_depth' = (if depth > max_depth then depth else max_depth)
     in path_loop H env path_base (Suc i) sts current' max_depth' s'))))"

definition execute_path ::
    "('w, 'h) host \<Rightarrow> env \<Rightarrow> swap_step list \<Rightarrow> int \<Rightarrow> nat \<Rightarrow> nat \<Rightarrow> 'w agg_state
      \<Rightarrow> (int \<times> nat \<times> 'w agg_state) agg_res" where
  "execute_path H env sts amount path_base max_depth s =
     and_then (ensure (amount > 0) (Error AE_InvalidAmount)) (\<lambda>_.
     path_loop H env path_base 0 sts amount max_depth s)"

section \<open>Frame and log\<close>

text \<open>What an execution may change: the log grows, the external state moves, storage stays.\<close>

definition extends_log :: "'w agg_state \<Rightarrow> agg_event list \<Rightarrow> 'w agg_state \<Rightarrow> bool" where
  "extends_log s evs s' \<longleftrightarrow> agg_events s' = agg_events s @ evs \<and> agg_admin s' = agg_admin s
     \<and> agg_venues s' = agg_venues s \<and> agg_wasm s' = agg_wasm s"

lemma extends_log_refl [intro!, simp]: "extends_log s [] s"
  by (simp add: extends_log_def)

lemma extends_log_trans [intro]:
  "extends_log s evs s' \<Longrightarrow> extends_log s' evs' s'' \<Longrightarrow> extends_log s (evs @ evs') s''"
  by (simp add: extends_log_def)

lemma extends_log_ext [simp]:
  "extends_log s evs (s'\<lparr>agg_ext := w\<rparr>) = extends_log s evs s'"
  "extends_log (s\<lparr>agg_ext := w\<rparr>) evs s' = extends_log s evs s'"
  by (simp_all add: extends_log_def)

lemma extends_log_publish [simp]: "extends_log s [e] (publish e s)"
  by (simp add: extends_log_def publish_def)

lemma publish_ext [simp]:
  "agg_ext (publish e s) = agg_ext s" "agg_admin (publish e s) = agg_admin s"
  "agg_venues (publish e s) = agg_venues s" "agg_wasm (publish e s) = agg_wasm s"
  "agg_events (publish e s) = agg_events s @ [e]"
  by (simp_all add: publish_def)

definition leg_of :: "nat \<Rightarrow> swap_step \<Rightarrow> int \<Rightarrow> agg_event" where
  "leg_of hop st amount = LegPublished hop (dex_tag (dex_type_of st)) (dex_id st) (token_in st) amount"

lemma execute_step_Inr:
  assumes "execute_step H env st a hop s = Inr (out, s')"
  shows "extends_log s [leg_of hop st a] s'"
    "execute_step_inner H env st a (agg_ext s) = Inr (out, agg_ext s')"
  using assms by (auto simp: execute_step_def res_simps leg_of_def extends_log_def)

text \<open>The legs a path publishes: one per step, in order, the hop indices counting up from
  \<open>path_base\<close>, the first with the path's input and every one with a positive amount.\<close>

definition path_legs :: "nat \<Rightarrow> nat \<Rightarrow> swap_step list \<Rightarrow> int \<Rightarrow> agg_event list \<Rightarrow> bool" where
  "path_legs base i sts amount evs \<longleftrightarrow>
     length evs = length sts \<and>
     (\<forall>k < length sts. \<exists>a > 0. (k = 0 \<longrightarrow> a = amount) \<and>
        evs ! k = leg_of (u32_saturating_add base (min (i + k) u32_max)) (sts ! k) a)"

lemma path_legs_Nil [simp]: "path_legs base i [] amount []"
  by (simp add: path_legs_def)

lemma path_legs_Cons:
  assumes "0 < amount" "path_legs base (Suc i) sts amount' evs"
  shows "path_legs base i (st # sts) amount
    (leg_of (u32_saturating_add base (min i u32_max)) st amount # evs)"
  unfolding path_legs_def
proof (intro conjI allI impI)
  show "length (leg_of (u32_saturating_add base (min i u32_max)) st amount # evs)
    = length (st # sts)"
    using assms(2) by (simp add: path_legs_def)
next
  fix k assume k: "k < length (st # sts)"
  show "\<exists>a > 0. (k = 0 \<longrightarrow> a = amount) \<and>
    (leg_of (u32_saturating_add base (min i u32_max)) st amount # evs) ! k =
    leg_of (u32_saturating_add base (min (i + k) u32_max)) ((st # sts) ! k) a"
  proof (cases k)
    case 0
    with assms(1) show ?thesis by auto
  next
    case (Suc j)
    with k assms(2) show ?thesis by (auto simp: path_legs_def)
  qed
qed

definition step_ok :: "swap_step \<Rightarrow> bool" where
  "step_ok st \<longleftrightarrow> token_in st \<noteq> token_out st \<and> in_idx st \<noteq> out_idx st"

lemma path_loop_Inr:
  assumes "path_loop H env base i sts current md s = Inr (out, md', s')" "0 < current"
  shows "0 < out \<and> list_all step_ok sts \<and> md \<le> md' \<and>
    (\<exists>evs. extends_log s evs s' \<and> path_legs base i sts current evs)"
  using assms
proof (induction sts arbitrary: i current md s)
  case Nil
  then show ?case by auto
next
  case (Cons st sts)
  let ?hop = "u32_saturating_add base (min i u32_max)"
  let ?d = "u32_saturating_add (min i u32_max) 1"
  let ?md = "if ?d > md then ?d else md"
  from Cons.prems(1) obtain c s1 where ok: "step_ok st" and
    step: "execute_step H env st current ?hop s = Inr (c, s1)" and pos: "0 < c" and
    rec: "path_loop H env base (Suc i) sts c ?md s1 = Inr (out, md', s')"
    by (auto simp: res_simps Let_def step_ok_def simp del: One_nat_def)
  from Cons.IH [OF rec pos] obtain evs where
    IH: "0 < out" "list_all step_ok sts" "?md \<le> md'" "extends_log s1 evs s'"
      "path_legs base (Suc i) sts c evs" by auto
  have "extends_log s ([leg_of ?hop st current] @ evs) s'"
    using execute_step_Inr(1) [OF step] IH(4) by (rule extends_log_trans)
  moreover have "path_legs base i (st # sts) current (leg_of ?hop st current # evs)"
    using Cons.prems(2) IH(5) by (rule path_legs_Cons)
  ultimately show ?case using ok IH by (auto split: if_splits)
qed

lemma execute_path_Inr:
  assumes "execute_path H env sts amount base md s = Inr (out, md', s')"
  shows "0 < amount" "0 < out" "list_all step_ok sts" "md \<le> md'"
    "\<exists>evs. extends_log s evs s' \<and> path_legs base 0 sts amount evs"
proof -
  from assms have *: "0 < amount" "path_loop H env base 0 sts amount md s = Inr (out, md', s')"
    by (auto simp: execute_path_def res_simps)
  from path_loop_Inr [OF *(2,1)] *(1) show "0 < amount" "0 < out" "list_all step_ok sts" "md \<le> md'"
    "\<exists>evs. extends_log s evs s' \<and> path_legs base 0 sts amount evs" by auto
qed

end
