(* ===== verification/Aggregator.thy ===== *)
theory Aggregator
  imports Agg_Invoke
begin

text \<open>
  The aggregator contract: \<open>admin.rs\<close>, \<open>auth.rs\<close>, \<open>validate.rs\<close>, \<open>swap.rs\<close>,
  \<open>round_trip.rs\<close> and the entry points of \<open>lib.rs\<close> under
  \<open>contracts/aggregator/src/\<close>. A call takes the contract state and returns the new one;
  a failed call returns its error only, as the transaction rolls back. The lemmas characterise
  the validation exactly and give what every successful call guarantees.
\<close>

section \<open>Administration\<close>

definition get_admin :: "'w agg_state \<Rightarrow> address agg_res" where
  "get_admin s = or_fail (agg_admin s) (Panicked ''Not initialized'')"

definition require_admin :: "env \<Rightarrow> 'w agg_state \<Rightarrow> address agg_res" where
  "require_admin env s =
     and_then (get_admin s) (\<lambda>admin.
     and_then (require_auth env admin) (\<lambda>_. Inr admin))"

definition initialize :: "env \<Rightarrow> address \<Rightarrow> 'w agg_state \<Rightarrow> 'w agg_state agg_res" where
  "initialize env admin s =
     and_then (require_auth env admin) (\<lambda>_.
     and_then (ensure (agg_admin s = None) (Panicked ''Already initialized'')) (\<lambda>_.
     Inr (s\<lparr>agg_admin := Some admin\<rparr>)))"

definition upgrade :: "env \<Rightarrow> nat \<Rightarrow> 'w agg_state \<Rightarrow> 'w agg_state agg_res" where
  "upgrade env new_wasm_hash s =
     and_then (require_admin env s) (\<lambda>_. Inr (s\<lparr>agg_wasm := new_wasm_hash\<rparr>))"

definition set_venue :: "env \<Rightarrow> dex_type \<Rightarrow> address \<Rightarrow> bool \<Rightarrow> 'w agg_state \<Rightarrow> 'w agg_state agg_res" where
  "set_venue env dt d allowed s =
     and_then (require_admin env s) (\<lambda>_.
     Inr (s\<lparr>agg_venues := (if allowed then insert (dex_tag dt, d) (agg_venues s)
                           else agg_venues s - {(dex_tag dt, d)})\<rparr>))"

definition is_venue :: "dex_type \<Rightarrow> address \<Rightarrow> 'w agg_state \<Rightarrow> bool" where
  "is_venue dt d s \<longleftrightarrow> (dex_tag dt, d) \<in> agg_venues s"

section \<open>Validation\<close>

fun validate_connected :: "swap_step \<Rightarrow> swap_step list \<Rightarrow> unit agg_res" where
  "validate_connected previous [] = Inr ()"
| "validate_connected previous (current # rest) =
     and_then (ensure (token_out previous = token_in current) (Error AE_DisconnectedRoute)) (\<lambda>_.
     validate_connected current rest)"

fun validate_loop :: "address \<Rightarrow> address \<Rightarrow> sub_route list \<Rightarrow> int \<Rightarrow> int agg_res" where
  "validate_loop tin tout [] total_in = Inr total_in"
| "validate_loop tin tout (sr # routes) total_in =
     and_then (ensure (amount_in sr > 0) (Error AE_InvalidAmount)) (\<lambda>_.
     and_then (or_fail (i128_checked_add total_in (amount_in sr)) (Error AE_ArithmeticOverflow)) (\<lambda>total_in'.
     case steps sr of
       [] \<Rightarrow> Inl (Error AE_InvalidRoute)
     | first_step # rest \<Rightarrow>
         let last_step = last (steps sr) in
         and_then (ensure (token_in first_step = tin) (Error AE_InvalidRoute)) (\<lambda>_.
         and_then (ensure (token_out last_step = tout) (Error AE_InvalidRoute)) (\<lambda>_.
         and_then (validate_connected first_step rest) (\<lambda>_.
         validate_loop tin tout routes total_in')))))"

definition validate_sub_routes :: "address \<Rightarrow> address \<Rightarrow> sub_route list \<Rightarrow> int agg_res" where
  "validate_sub_routes tin tout routes =
     and_then (ensure (routes \<noteq> []) (Error AE_EmptyRoutes)) (\<lambda>_.
     validate_loop tin tout routes 0)"

fun validate_venue_steps :: "swap_step list \<Rightarrow> 'w agg_state \<Rightarrow> unit agg_res" where
  "validate_venue_steps [] s = Inr ()"
| "validate_venue_steps (st # sts) s =
     and_then (ensure (is_venue (dex_type_of st) (dex_id st) s) (Error AE_VenueNotRegistered)) (\<lambda>_.
     validate_venue_steps sts s)"

fun validate_registered_venues :: "sub_route list \<Rightarrow> 'w agg_state \<Rightarrow> unit agg_res" where
  "validate_registered_venues [] s = Inr ()"
| "validate_registered_venues (route # routes) s =
     and_then (validate_venue_steps (steps route) s) (\<lambda>_. validate_registered_venues routes s)"

section \<open>Swaps\<close>

fun sub_routes_loop ::
    "('w, 'h) host \<Rightarrow> env \<Rightarrow> nat \<Rightarrow> sub_route list \<Rightarrow> nat \<Rightarrow> int \<Rightarrow> 'w agg_state
      \<Rightarrow> (int \<times> nat \<times> 'w agg_state) agg_res" where
  "sub_routes_loop H env path_base [] max_depth total_output s = Inr (total_output, max_depth, s)"
| "sub_routes_loop H env path_base (sr # routes) max_depth total_output s =
     and_then (execute_path H env (steps sr) (amount_in sr) path_base max_depth s)
       (\<lambda>(output, max_depth', s').
     and_then (or_fail (i128_checked_add total_output output) (Error AE_ArithmeticOverflow)) (\<lambda>total'.
     sub_routes_loop H env path_base routes max_depth' total' s'))"

text \<open>Returns the total output, the advanced \<open>leg_counter\<close> and the state.\<close>

definition execute_sub_routes ::
    "('w, 'h) host \<Rightarrow> env \<Rightarrow> sub_route list \<Rightarrow> nat \<Rightarrow> 'w agg_state \<Rightarrow> (int \<times> nat \<times> 'w agg_state) agg_res"
    where
  "execute_sub_routes H env routes leg_counter s =
     and_then (sub_routes_loop H env leg_counter routes 0 0 s) (\<lambda>(total_output, max_depth, s').
     and_then (or_fail (u32_checked_add leg_counter max_depth) (Error AE_ArithmeticOverflow)) (\<lambda>counter'.
     Inr (total_output, counter', s')))"

definition agg_transfer ::
    "('w, 'h) host \<Rightarrow> address \<Rightarrow> address \<Rightarrow> address \<Rightarrow> int \<Rightarrow> 'w agg_state \<Rightarrow> 'w agg_state agg_res" where
  "agg_transfer H token src dst amount s =
     and_then (or_fail (token_transfer H token src dst amount (agg_ext s)) CallTrapped) (\<lambda>w.
     Inr (s\<lparr>agg_ext := w\<rparr>))"

definition swap ::
    "('w, 'h) host \<Rightarrow> env \<Rightarrow> address \<Rightarrow> address \<Rightarrow> address \<Rightarrow> sub_route list \<Rightarrow> int \<Rightarrow> 'w agg_state
      \<Rightarrow> (int \<times> 'w agg_state) agg_res" where
  "swap H env user tin tout routes min_amount_out s =
     and_then (require_auth env user) (\<lambda>_.
     and_then (ensure (tin \<noteq> tout) (Error AE_InvalidRoute)) (\<lambda>_.
     and_then (ensure (min_amount_out > 0) (Error AE_InvalidMinimumOut)) (\<lambda>_.
     and_then (validate_sub_routes tin tout routes) (\<lambda>total_in.
     and_then (agg_transfer H tin user (env_self env) total_in s) (\<lambda>s1.
     and_then (execute_sub_routes H env routes 0 s1) (\<lambda>(total_output, _, s2).
     and_then (ensure (total_output \<ge> min_amount_out) (Error AE_OutputBelowMinimum)) (\<lambda>_.
     and_then (agg_transfer H tout (env_self env) user total_output s2) (\<lambda>s3.
     Inr (total_output,
       publish (SwapPublished user tin tout total_in total_output (length routes)) s3)))))))))"

definition swap_restricted ::
    "('w, 'h) host \<Rightarrow> env \<Rightarrow> address \<Rightarrow> address \<Rightarrow> address \<Rightarrow> sub_route list \<Rightarrow> int \<Rightarrow> 'w agg_state
      \<Rightarrow> (int \<times> 'w agg_state) agg_res" where
  "swap_restricted H env user tin tout routes min_amount_out s =
     and_then (validate_registered_venues routes s) (\<lambda>_.
     swap H env user tin tout routes min_amount_out s)"

definition round_trip_swap ::
    "('w, 'h) host \<Rightarrow> env \<Rightarrow> address \<Rightarrow> address \<Rightarrow> address \<Rightarrow> int \<Rightarrow> sub_route list \<Rightarrow> sub_route list \<Rightarrow> int
      \<Rightarrow> 'w agg_state \<Rightarrow> (int \<times> 'w agg_state) agg_res" where
  "round_trip_swap H env user base_token bridge_token amount leg_out leg_back min_amount_out s =
     and_then (require_auth env user) (\<lambda>_.
     and_then (ensure (amount > 0) (Error AE_InvalidAmount)) (\<lambda>_.
     and_then (ensure (min_amount_out \<ge> amount) (Error AE_InvalidMinimumOut)) (\<lambda>_.
     and_then (ensure (base_token \<noteq> bridge_token) (Error AE_InvalidRoute)) (\<lambda>_.
     and_then (validate_sub_routes base_token bridge_token leg_out) (\<lambda>leg_out_in.
     and_then (validate_sub_routes bridge_token base_token leg_back) (\<lambda>_.
     and_then (ensure (leg_out_in = amount) (Error AE_InvalidAmount)) (\<lambda>_.
     let is_split = (length leg_out > 1 \<or> length leg_back > 1) in
     and_then (agg_transfer H base_token user (env_self env) amount s) (\<lambda>s1.
     and_then (execute_sub_routes H env leg_out 0 s1) (\<lambda>(bridge_total, counter1, s2).
     and_then (ensure (bridge_total > 0) (Error AE_ZeroStepOutput)) (\<lambda>_.
     and_then (scale_sub_routes_to_total leg_back bridge_total) (\<lambda>scaled_back.
     and_then (execute_sub_routes H env scaled_back counter1 s2) (\<lambda>(base_total, counter2, s3).
     and_then (ensure (base_total \<ge> min_amount_out) (Error AE_OutputBelowMinimum)) (\<lambda>_.
     and_then (agg_transfer H base_token (env_self env) user base_total s3) (\<lambda>s4.
     Inr (base_total,
       publish (RtPublished user base_token bridge_token amount base_total counter2 is_split) s4)))))))))))))))"

section \<open>What validation accepts\<close>

fun connected :: "swap_step list \<Rightarrow> bool" where
  "connected (a # b # sts) \<longleftrightarrow> token_out a = token_in b \<and> connected (b # sts)"
| "connected _ \<longleftrightarrow> True"

text \<open>A route the contract accepts between two tokens: a positive amount and a non-empty chain
  of steps from the one token to the other.\<close>

definition route_ok :: "address \<Rightarrow> address \<Rightarrow> sub_route \<Rightarrow> bool" where
  "route_ok tin tout r \<longleftrightarrow> amount_in r > 0 \<and> steps r \<noteq> [] \<and> token_in (hd (steps r)) = tin
     \<and> token_out (last (steps r)) = tout \<and> connected (steps r)"

lemma validate_connected_iff: "validate_connected p sts = Inr () \<longleftrightarrow> connected (p # sts)"
  by (induction sts arbitrary: p) (auto simp: res_simps)

lemma routes_total_nonneg: "list_all (route_ok tin tout) rs \<Longrightarrow> 0 \<le> routes_total rs"
  by (induction rs) (auto simp: route_ok_def)

lemma validate_loop_Inr_iff:
  assumes "0 \<le> acc" "acc \<le> i128_max"
  shows "validate_loop tin tout rs acc = Inr t \<longleftrightarrow>
    list_all (route_ok tin tout) rs \<and> t = acc + routes_total rs \<and> t \<le> i128_max"
  using assms
proof (induction rs arbitrary: acc)
  case Nil
  then show ?case by auto
next
  case (Cons r rs)
  show ?case
  proof (cases "0 < amount_in r \<and> acc + amount_in r \<le> i128_max")
    case True
    with Cons.prems have add: "i128_checked_add acc (amount_in r) = Some (acc + amount_in r)"
      by (simp add: i128_checked_add_def in_i128_def)
    have IH: "validate_loop tin tout rs (acc + amount_in r) = Inr t \<longleftrightarrow>
      list_all (route_ok tin tout) rs \<and> t = acc + amount_in r + routes_total rs \<and> t \<le> i128_max"
      by (rule Cons.IH) (use True Cons.prems in auto)
    show ?thesis
      using True add IH
      by (cases "steps r")
        (auto simp: res_simps route_ok_def [of tin tout r] validate_connected_iff Let_def add.assoc)
  next
    case False
    then show ?thesis
      using Cons.prems routes_total_nonneg [of tin tout rs]
      by (auto simp: res_simps route_ok_def [of tin tout r] in_i128_def)
  qed
qed

lemma validate_sub_routes_Inr_iff:
  "validate_sub_routes tin tout rs = Inr t \<longleftrightarrow>
    rs \<noteq> [] \<and> list_all (route_ok tin tout) rs \<and> t = routes_total rs \<and> t \<le> i128_max"
  by (auto simp: validate_sub_routes_def res_simps validate_loop_Inr_iff)

definition registered :: "'w agg_state \<Rightarrow> sub_route list \<Rightarrow> bool" where
  "registered s rs \<longleftrightarrow> (\<forall>r \<in> set rs. \<forall>st \<in> set (steps r). is_venue (dex_type_of st) (dex_id st) s)"

lemma validate_venue_steps_iff:
  "validate_venue_steps sts s = Inr () \<longleftrightarrow> (\<forall>st \<in> set sts. is_venue (dex_type_of st) (dex_id st) s)"
  by (induction sts) (auto simp: res_simps)

lemma validate_registered_venues_iff:
  "validate_registered_venues rs s = Inr () \<longleftrightarrow> registered s rs"
  by (induction rs) (auto simp: res_simps registered_def validate_venue_steps_iff)

lemma validate_registered_venues_error:
  "validate_registered_venues rs s = Inl e \<Longrightarrow> e = Error AE_VenueNotRegistered"
proof (induction rs)
  case (Cons r rs)
  have "validate_venue_steps sts s = Inl e \<Longrightarrow> e = Error AE_VenueNotRegistered" for sts
    by (induction sts) (auto simp: res_simps)
  with Cons show ?case by (auto simp: res_simps)
qed simp

section \<open>What a successful call guarantees\<close>

text \<open>The legs of a list of routes that run in parallel from the same base index.\<close>

fun routes_legs :: "nat \<Rightarrow> sub_route list \<Rightarrow> agg_event list \<Rightarrow> bool" where
  "routes_legs base [] evs \<longleftrightarrow> evs = []"
| "routes_legs base (r # rs) evs \<longleftrightarrow>
     path_legs base 0 (steps r) (amount_in r) (take (length (steps r)) evs)
     \<and> routes_legs base rs (drop (length (steps r)) evs)"

lemma sub_routes_loop_Inr:
  assumes "sub_routes_loop H env base rs md acc s = Inr (out, md', s')"
  shows "(\<exists>evs. extends_log s evs s' \<and> routes_legs base rs evs)"
    and "list_all (\<lambda>r. 0 < amount_in r \<and> list_all step_ok (steps r)) rs"
    and "acc + int (length rs) \<le> out"
proof -
  have "(\<exists>evs. extends_log s evs s' \<and> routes_legs base rs evs) \<and>
    list_all (\<lambda>r. 0 < amount_in r \<and> list_all step_ok (steps r)) rs \<and> acc + int (length rs) \<le> out"
    using assms
  proof (induction rs arbitrary: md acc s)
    case Nil
    then show ?case by auto
  next
    case (Cons r rs)
    then obtain o1 md1 s1 where
      path: "execute_path H env (steps r) (amount_in r) base md s = Inr (o1, md1, s1)" and
      rec: "sub_routes_loop H env base rs md1 (acc + o1) s1 = Inr (out, md', s')"
      by (auto simp: res_simps)
    from execute_path_Inr [OF path] obtain evs1 where
      p: "0 < amount_in r" "0 < o1" "list_all step_ok (steps r)" "extends_log s evs1 s1"
        "path_legs base 0 (steps r) (amount_in r) evs1" by auto
    from Cons.IH [OF rec] obtain evs where
      IH: "extends_log s1 evs s'" "routes_legs base rs evs"
        "list_all (\<lambda>r. 0 < amount_in r \<and> list_all step_ok (steps r)) rs"
        "acc + o1 + int (length rs) \<le> out" by auto
    have "length evs1 = length (steps r)" using p(5) by (simp add: path_legs_def)
    with p(5) IH(2) have "routes_legs base (r # rs) (evs1 @ evs)" by simp
    moreover have "extends_log s (evs1 @ evs) s'"
      using p(4) IH(1) by (rule extends_log_trans)
    ultimately show ?case using p IH by auto
  qed
  then show "(\<exists>evs. extends_log s evs s' \<and> routes_legs base rs evs)"
    "list_all (\<lambda>r. 0 < amount_in r \<and> list_all step_ok (steps r)) rs"
    "acc + int (length rs) \<le> out" by auto
qed

lemma execute_sub_routes_Inr:
  assumes "execute_sub_routes H env rs c s = Inr (out, c', s')"
  shows "\<exists>evs. extends_log s evs s' \<and> routes_legs c rs evs"
    and "list_all (\<lambda>r. 0 < amount_in r \<and> list_all step_ok (steps r)) rs"
    and "int (length rs) \<le> out" and "c \<le> c'"
  using assms sub_routes_loop_Inr [of H env c rs 0 0 s]
  by (auto simp: execute_sub_routes_def res_simps)

lemma agg_transfer_Inr [res_simps]:
  "agg_transfer H t a b x s = Inr s' \<longleftrightarrow>
     (\<exists>w. token_transfer H t a b x (agg_ext s) = Some w \<and> s' = s\<lparr>agg_ext := w\<rparr>)"
  by (auto simp: agg_transfer_def res_simps)

text \<open>The whole of a successful \<open>swap\<close>, as one elimination rule for the proofs that follow.\<close>

lemma swap_cases:
  assumes "swap H env user tin tout routes min_out s = Inr (out, s')"
  obtains w1 c s2 w3 where
    "env_auth env user" "tin \<noteq> tout" "0 < min_out" "routes \<noteq> []"
    "list_all (route_ok tin tout) routes" "routes_total routes \<le> i128_max"
    "token_transfer H tin user (env_self env) (routes_total routes) (agg_ext s) = Some w1"
    "execute_sub_routes H env routes 0 (s\<lparr>agg_ext := w1\<rparr>) = Inr (out, c, s2)"
    "min_out \<le> out"
    "token_transfer H tout (env_self env) user out (agg_ext s2) = Some w3"
    "s' = publish (SwapPublished user tin tout (routes_total routes) out (length routes))
            (s2\<lparr>agg_ext := w3\<rparr>)"
  using assms by (auto simp: swap_def res_simps validate_sub_routes_Inr_iff)

lemma round_trip_cases:
  assumes "round_trip_swap H env user base bridge amount leg_out leg_back min_out s = Inr (out, s')"
  obtains w1 bridge_total c1 s2 scaled c2 s3 w4 where
    "env_auth env user" "0 < amount" "amount \<le> min_out" "base \<noteq> bridge"
    "list_all (route_ok base bridge) leg_out" "routes_total leg_out = amount"
    "list_all (route_ok bridge base) leg_back"
    "token_transfer H base user (env_self env) amount (agg_ext s) = Some w1"
    "execute_sub_routes H env leg_out 0 (s\<lparr>agg_ext := w1\<rparr>) = Inr (bridge_total, c1, s2)"
    "0 < bridge_total" "scale_sub_routes_to_total leg_back bridge_total = Inr scaled"
    "execute_sub_routes H env scaled c1 s2 = Inr (out, c2, s3)" "min_out \<le> out"
    "token_transfer H base (env_self env) user out (agg_ext s3) = Some w4"
    "s' = publish (RtPublished user base bridge amount out c2
            (length leg_out > 1 \<or> length leg_back > 1)) (s3\<lparr>agg_ext := w4\<rparr>)"
  using assms
  by (auto simp: round_trip_swap_def res_simps validate_sub_routes_Inr_iff Let_def)

end
