(* ===== verification/Token_Ledger.thy ===== *)
theory Token_Ledger
  imports Aggregator
begin

text \<open>
  The contract between the aggregator and the outside: the SEP-41 law of tokens (a transfer
  moves exactly the amount) and the Soroban law of authorisation (a pool cannot debit a holder
  that signed nothing for it and granted no allowance). The locales state these laws for any
  host; the lemmas inside follow the user's balances through a swap. \<open>ledger_host\<close> is a
  concrete host (a balance map and constant-rate pools) on which both are interpreted.
\<close>

text \<open>The balances a caller of the aggregator sees, through the aggregator's state.\<close>

definition ext_balance :: "('w, 'h) host \<Rightarrow> address \<Rightarrow> address \<Rightarrow> 'w agg_state \<Rightarrow> int" where
  "ext_balance H t c s = token_balance H t c (agg_ext s)"

section \<open>The laws\<close>

locale token_contract =
  fixes transfer :: "address \<Rightarrow> address \<Rightarrow> address \<Rightarrow> int \<Rightarrow> 'w \<Rightarrow> 'w option"
    and balance :: "address \<Rightarrow> address \<Rightarrow> 'w \<Rightarrow> int"
  assumes transfer_balance:
    "transfer t a b x w = Some w' \<Longrightarrow>
       balance t' c w' = balance t' c w - (if t' = t \<and> c = a then x else 0)
                                        + (if t' = t \<and> c = b then x else 0)"
    and transfer_amount_nonneg: "transfer t a b x w = Some w' \<Longrightarrow> 0 \<le> x"
begin

lemma transfer_frame:
  "transfer t a b x w = Some w' \<Longrightarrow> c \<noteq> a \<Longrightarrow> c \<noteq> b \<Longrightarrow> balance t' c w' = balance t' c w"
  by (simp add: transfer_balance)

lemma transfer_other_token:
  "transfer t a b x w = Some w' \<Longrightarrow> t' \<noteq> t \<Longrightarrow> balance t' c w' = balance t' c w"
  by (simp add: transfer_balance)

lemma transfer_no_debit:
  "transfer t a b x w = Some w' \<Longrightarrow> c \<noteq> a \<Longrightarrow> balance t' c w \<le> balance t' c w'"
  using transfer_amount_nonneg [of t a b x w w'] by (simp add: transfer_balance)

end

locale guarded_host = token_contract "token_transfer H" "token_balance H"
  for H :: "('w, 'h) host" +
  fixes guarded :: "address \<Rightarrow> bool"
  assumes aquarius_guard: "aquarius_swap H au p u i j x m w = Some (r, w') \<Longrightarrow> guarded c \<Longrightarrow>
      token_balance H t c w \<le> token_balance H t c w'"
    and reserves_guard: "soroswap_reserves H p w = Some (rs, w') \<Longrightarrow> guarded c \<Longrightarrow>
      token_balance H t c w \<le> token_balance H t c w'"
    and soroswap_guard: "soroswap_swap H p x y u w = Some w' \<Longrightarrow> guarded c \<Longrightarrow>
      token_balance H t c w \<le> token_balance H t c w'"
    and phoenix_guard: "phoenix_swap H au p u ti x w = Some w' \<Longrightarrow> guarded c \<Longrightarrow>
      token_balance H t c w \<le> token_balance H t c w'"
    and hints_guard: "sushi_hints H p w = Some (h, w') \<Longrightarrow> guarded c \<Longrightarrow>
      token_balance H t c w \<le> token_balance H t c w'"
    and sushi_guard: "sushi_swap H au p u v z x l h w = Some w' \<Longrightarrow> guarded c \<Longrightarrow>
      token_balance H t c w \<le> token_balance H t c w'"
    and comet_guard: "comet_swap H au p ti x to m mp u w = Some (op, w') \<Longrightarrow> guarded c \<Longrightarrow>
      token_balance H t c w \<le> token_balance H t c w'"
begin

lemmas pool_guards = aquarius_guard reserves_guard soroswap_guard phoenix_guard hints_guard
  sushi_guard comet_guard

text \<open>No step, path or list of routes debits a guarded holder other than the contract.\<close>

lemma execute_step_inner_guard:
  assumes "execute_step_inner H env st x w = Inr (out, w')" "guarded c" "c \<noteq> env_self env"
  shows "token_balance H t c w \<le> token_balance H t c w'"
proof (cases "dex_type_of st")
  case Aquarius
  with assms show ?thesis
    by (auto simp: execute_step_arms res_simps Let_def dest: aquarius_guard)
next
  case SoroswapPair
  with assms obtain r0 r1 w1 where
    w1: "soroswap_reserves H (dex_id st) w = Some ((r0, r1), w1)" and
    cont: "w' = w1 \<or> (\<exists>x0 x1 w2. token_transfer H (token_in st) (env_self env) (dex_id st) x w1 = Some w2
      \<and> soroswap_swap H (dex_id st) x0 x1 (env_self env) w2 = Some w')"
    by (force simp: execute_step_arms res_simps Let_def split: if_splits prod.splits)
  have le1: "token_balance H t c w \<le> token_balance H t c w1"
    using w1 assms(2) by (rule reserves_guard)
  from cont show ?thesis
  proof
    assume "w' = w1" with le1 show ?thesis by simp
  next
    assume "\<exists>x0 x1 w2. token_transfer H (token_in st) (env_self env) (dex_id st) x w1 = Some w2
      \<and> soroswap_swap H (dex_id st) x0 x1 (env_self env) w2 = Some w'"
    then obtain x0 x1 w2 where
      tr: "token_transfer H (token_in st) (env_self env) (dex_id st) x w1 = Some w2" and
      sw: "soroswap_swap H (dex_id st) x0 x1 (env_self env) w2 = Some w'" by blast
    note le1
    also have "token_balance H t c w1 \<le> token_balance H t c w2"
      using tr assms(3) by (rule transfer_no_debit)
    also have "\<dots> \<le> token_balance H t c w'"
      using sw assms(2) by (rule soroswap_guard)
    finally show ?thesis .
  qed
next
  case Phoenix
  with assms show ?thesis
    by (auto simp: execute_step_arms res_simps Let_def dest: phoenix_guard)
next
  case Sushi
  with assms obtain h w1 z l where
    w1: "sushi_hints H (dex_id st) w = Some (h, w1)" and
    w2: "sushi_swap H [AuthTransfer (token_in st) (env_self env) (dex_id st) x] (dex_id st)
      (env_self env) (env_self env) z x l h w1 = Some w'"
    by (auto simp: execute_step_arms res_simps Let_def)
  show ?thesis
    using hints_guard [OF w1 assms(2), of t] sushi_guard [OF w2 assms(2), of t] by linarith
next
  case CometDex
  with assms show ?thesis
    by (auto simp: execute_step_arms res_simps Let_def dest: comet_guard)
qed

lemma path_loop_guard:
  assumes "path_loop H env base i sts x md s = Inr (out, md', s')" "guarded c" "c \<noteq> env_self env"
  shows "token_balance H t c (agg_ext s) \<le> token_balance H t c (agg_ext s')"
  using assms(1)
proof (induction sts arbitrary: i x md s)
  case (Cons st sts)
  then obtain y s1 i' md1 where
    step: "execute_step H env st x i' s = Inr (y, s1)" and
    rec: "path_loop H env base (Suc i) sts y md1 s1 = Inr (out, md', s')"
    by (auto simp: res_simps Let_def simp del: One_nat_def)
  show ?case
    using execute_step_inner_guard [OF execute_step_Inr(2) [OF step] assms(2,3), of t]
      Cons.IH [OF rec] by linarith
qed simp

lemma sub_routes_loop_guard:
  assumes "sub_routes_loop H env base rs md acc s = Inr (out, md', s')" "guarded c" "c \<noteq> env_self env"
  shows "token_balance H t c (agg_ext s) \<le> token_balance H t c (agg_ext s')"
  using assms(1)
proof (induction rs arbitrary: md acc s)
  case (Cons r rs)
  then obtain o1 md1 s1 where
    path: "path_loop H env base 0 (steps r) (amount_in r) md s = Inr (o1, md1, s1)" and
    rec: "sub_routes_loop H env base rs md1 (acc + o1) s1 = Inr (out, md', s')"
    by (auto simp: res_simps execute_path_def)
  show ?case
    using path_loop_guard [OF path assms(2,3), of t] Cons.IH [OF rec] by linarith
qed simp

lemma execute_sub_routes_guard:
  assumes "execute_sub_routes H env rs n s = Inr (out, n', s')" "guarded c" "c \<noteq> env_self env"
  shows "token_balance H t c (agg_ext s) \<le> token_balance H t c (agg_ext s')"
  using assms sub_routes_loop_guard [of env n rs 0 0 s] by (auto simp: execute_sub_routes_def res_simps)

text \<open>The user of a swap pays at most the routed total and receives at least the output.\<close>

lemma swap_user_balance:
  assumes "swap H env user tin tout routes m s = Inr (out, s')"
    and "guarded user" "user \<noteq> env_self env"
  shows "token_balance H t user (agg_ext s) - (if t = tin then routes_total routes else 0)
      + (if t = tout then out else 0) \<le> token_balance H t user (agg_ext s')"
  using assms(1)
proof (rule swap_cases)
  fix w1 c s2 w3
  assume tr1: "token_transfer H tin user (env_self env) (routes_total routes) (agg_ext s) = Some w1"
    and run: "execute_sub_routes H env routes 0 (s\<lparr>agg_ext := w1\<rparr>) = Inr (out, c, s2)"
    and tr2: "token_transfer H tout (env_self env) user out (agg_ext s2) = Some w3"
    and s': "s' = publish (SwapPublished user tin tout (routes_total routes) out (length routes))
      (s2\<lparr>agg_ext := w3\<rparr>)"
  show ?thesis
    using transfer_balance [OF tr1, of t user] transfer_balance [OF tr2, of t user]
      execute_sub_routes_guard [OF run assms(2,3), of t] assms(3) s' by auto
qed

lemma swap_third_party:
  assumes "swap H env user tin tout routes m s = Inr (out, s')"
    and "guarded c" "c \<noteq> env_self env" "c \<noteq> user"
  shows "token_balance H t c (agg_ext s) \<le> token_balance H t c (agg_ext s')"
  using assms(1)
proof (rule swap_cases)
  fix w1 n s2 w3
  assume tr1: "token_transfer H tin user (env_self env) (routes_total routes) (agg_ext s) = Some w1"
    and run: "execute_sub_routes H env routes 0 (s\<lparr>agg_ext := w1\<rparr>) = Inr (out, n, s2)"
    and tr2: "token_transfer H tout (env_self env) user out (agg_ext s2) = Some w3"
    and s': "s' = publish (SwapPublished user tin tout (routes_total routes) out (length routes))
      (s2\<lparr>agg_ext := w3\<rparr>)"
  show ?thesis
    using transfer_no_debit [OF tr1, of c t] transfer_no_debit [OF tr2, of c t]
      execute_sub_routes_guard [OF run assms(2,3), of t] assms(3,4) s' by auto
qed

lemma round_trip_balance:
  assumes "round_trip_swap H env user base bridge amount lo lb m s = Inr (out, s')"
    and "guarded c" "c \<noteq> env_self env"
  shows "token_balance H t c (agg_ext s) + (if t = base \<and> c = user then out - amount else 0)
    \<le> token_balance H t c (agg_ext s')"
  using assms(1)
proof (rule round_trip_cases)
  fix w1 bt c1 s2 scaled c2 s3 w4
  assume tr1: "token_transfer H base user (env_self env) amount (agg_ext s) = Some w1"
    and run1: "execute_sub_routes H env lo 0 (s\<lparr>agg_ext := w1\<rparr>) = Inr (bt, c1, s2)"
    and run2: "execute_sub_routes H env scaled c1 s2 = Inr (out, c2, s3)"
    and tr2: "token_transfer H base (env_self env) user out (agg_ext s3) = Some w4"
    and s': "s' = publish (RtPublished user base bridge amount out c2
      (length lo > 1 \<or> length lb > 1)) (s3\<lparr>agg_ext := w4\<rparr>)"
  show ?thesis
    using transfer_balance [OF tr1, of t c] transfer_balance [OF tr2, of t c]
      execute_sub_routes_guard [OF run1 assms(2,3), of t]
      execute_sub_routes_guard [OF run2 assms(2,3), of t] assms(3) s' by auto
qed

end

section \<open>A concrete host\<close>

text \<open>
  Balances and allowances as maps. A pool holds a token pair and swaps one for one out of its
  own balance; it serves the Aquarius interface, the others trap.
\<close>

record ledger =
  lg_balance :: "address \<Rightarrow> address \<Rightarrow> int"
  lg_allowance :: "address \<Rightarrow> address \<Rightarrow> address \<Rightarrow> int"
  lg_pool :: "address \<Rightarrow> (address \<times> address) option"

definition ledger_move :: "address \<Rightarrow> address \<Rightarrow> address \<Rightarrow> int \<Rightarrow> ledger \<Rightarrow> ledger option" where
  "ledger_move t a b x w =
     (if 0 \<le> x \<and> x \<le> lg_balance w t a then
        let w1 = w\<lparr>lg_balance := (lg_balance w)(t := (lg_balance w t)(a := lg_balance w t a - x))\<rparr>
        in Some (w1\<lparr>lg_balance := (lg_balance w1)(t := (lg_balance w1 t)(b := lg_balance w1 t b + x))\<rparr>)
      else None)"

definition ledger_approve :: "address \<Rightarrow> address \<Rightarrow> address \<Rightarrow> int \<Rightarrow> nat \<Rightarrow> ledger \<Rightarrow> ledger option" where
  "ledger_approve t a sp x exp w =
     Some (w\<lparr>lg_allowance := (lg_allowance w)(t := (lg_allowance w t)(a := (lg_allowance w t a)(sp := x)))\<rparr>)"

definition ledger_transfer_from ::
    "address \<Rightarrow> address \<Rightarrow> address \<Rightarrow> address \<Rightarrow> int \<Rightarrow> ledger \<Rightarrow> ledger option" where
  "ledger_transfer_from t sp a b x w =
     (if x \<le> lg_allowance w t a sp then
        Option.bind (ledger_approve t a sp (lg_allowance w t a sp - x) 0 w) (ledger_move t a b x)
      else None)"

definition ledger_pool_swap ::
    "auth_entry list \<Rightarrow> address \<Rightarrow> address \<Rightarrow> nat \<Rightarrow> nat \<Rightarrow> int \<Rightarrow> int \<Rightarrow> ledger \<Rightarrow> (int \<times> ledger) option"
    where
  "ledger_pool_swap auths p u i j x m w =
     (case lg_pool w p of
        None \<Rightarrow> None
      | Some (ta, tb) \<Rightarrow>
          let ti = (if i = 0 then ta else tb); to = (if j = 0 then ta else tb) in
          if AuthTransfer ti u p x \<in> set auths then
            Option.bind (ledger_move ti u p x w) (\<lambda>w1.
            Option.bind (ledger_move to p u x w1) (\<lambda>w2. Some (x, w2)))
          else None)"

text \<open>A pool call moves balances of the pool and of its caller only. The guarded holders of this
  host are plain accounts: they are not pools and never call one directly.\<close>

definition ledger_host :: "(address \<Rightarrow> bool) \<Rightarrow> (ledger, unit) host" where
  "ledger_host guarded = \<lparr>
     token_transfer = ledger_move,
     token_balance = (\<lambda>t c w. lg_balance w t c),
     token_approve = ledger_approve,
     token_transfer_from = ledger_transfer_from,
     aquarius_swap = (\<lambda>au p u i j x m w.
       if guarded p \<or> guarded u then None else ledger_pool_swap au p u i j x m w),
     soroswap_reserves = (\<lambda>p w. None),
     soroswap_swap = (\<lambda>p x y u w. None),
     phoenix_swap = (\<lambda>au p u ti x w. None),
     sushi_hints = (\<lambda>p w. None),
     sushi_swap = (\<lambda>au p u v z x l h w. None),
     comet_swap = (\<lambda>au p ti x to m mp u w. None)\<rparr>"

lemma ledger_move_balance:
  "ledger_move t a b x w = Some w' \<Longrightarrow>
     lg_balance w' t' c = lg_balance w t' c - (if t' = t \<and> c = a then x else 0)
                                            + (if t' = t \<and> c = b then x else 0)"
  by (auto simp: ledger_move_def Let_def split: if_splits)

lemma ledger_move_nonneg: "ledger_move t a b x w = Some w' \<Longrightarrow> 0 \<le> x"
  by (auto simp: ledger_move_def split: if_splits)

lemma ledger_pool_swap_frame:
  assumes "ledger_pool_swap au p u i j x m w = Some (r, w')" "c \<noteq> p" "c \<noteq> u"
  shows "lg_balance w' t c = lg_balance w t c"
  using assms
  by (auto simp: ledger_pool_swap_def Let_def ledger_move_balance bind_eq_Some_conv
      split: option.splits prod.splits if_splits)

interpretation ledger_tokens: token_contract ledger_move "\<lambda>t c w. lg_balance w t c"
  by unfold_locales (auto simp: ledger_move_balance dest: ledger_move_nonneg)

lemma ledger_host_guarded: "guarded_host (ledger_host g) g"
proof unfold_locales
  fix t a b x and w w' :: ledger and t' c
  assume "token_transfer (ledger_host g) t a b x w = Some w'"
  then show "token_balance (ledger_host g) t' c w' = token_balance (ledger_host g) t' c w
      - (if t' = t \<and> c = a then x else 0) + (if t' = t \<and> c = b then x else 0)"
    by (simp add: ledger_host_def ledger_move_balance)
next
  fix t a b x and w w' :: ledger
  assume "token_transfer (ledger_host g) t a b x w = Some w'"
  then show "0 \<le> x" by (simp add: ledger_host_def ledger_move_nonneg)
next
  fix au p u i j x m r t c and w w' :: ledger
  assume "aquarius_swap (ledger_host g) au p u i j x m w = Some (r, w')" and c: "g c"
  then have sw: "ledger_pool_swap au p u i j x m w = Some (r, w')" and "\<not> g p" "\<not> g u"
    by (auto simp: ledger_host_def split: if_splits)
  with c have "c \<noteq> p" "c \<noteq> u" by auto
  with sw show "token_balance (ledger_host g) t c w \<le> token_balance (ledger_host g) t c w'"
    by (simp add: ledger_host_def ledger_pool_swap_frame)
qed (simp_all add: ledger_host_def)

interpretation ledger_pools: guarded_host "ledger_host g" g for g
  by (rule ledger_host_guarded)

end
