(* ===== verification/Sample_Ledger.thy ===== *)
theory Sample_Ledger
  imports Token_Ledger
begin

text \<open>
  One concrete deployment on \<open>ledger_host\<close>, on which the properties of the contracts are
  instantiated: the holder 1, the aggregator 2, the holder 3, the administrator 9, and an
  Aquarius pool 5 that trades the tokens 10 and 11 one for one. Holders 1 and 3 are guarded.
\<close>

definition sample_guard :: "address \<Rightarrow> bool" where
  "sample_guard c \<longleftrightarrow> c = 1 \<or> c = 3"

definition sample_ledger :: ledger where
  "sample_ledger = \<lparr>
     lg_balance = (\<lambda>t c. if c = 5 then 5000 else if t = 10 \<and> (c = 1 \<or> c = 3) then 1000 else 0),
     lg_allowance = (\<lambda>t a sp. 0),
     lg_pool = (\<lambda>p. if p = 5 then Some (10, 11) else None)\<rparr>"

definition sample_host :: "(ledger, unit) host" where
  "sample_host = ledger_host sample_guard"

definition sample_agg :: "ledger agg_state" where
  "sample_agg = \<lparr>agg_admin = Some 9, agg_venues = {(0, 5)}, agg_wasm = 0, agg_events = [],
     agg_ext = sample_ledger\<rparr>"

text \<open>Calls to the aggregator, signed by one address.\<close>

definition signed_by :: "address \<Rightarrow> env" where
  "signed_by a = \<lparr>env_auth = (\<lambda>b. b = a), env_self = 2, env_sequence = 100\<rparr>"

definition route_there :: "int \<Rightarrow> sub_route" where
  "route_there x = \<lparr>amount_in = x, steps = [\<lparr>dex_id = 5, dex_type_of = Aquarius, token_in = 10,
     token_out = 11, in_idx = 0, out_idx = 1\<rparr>]\<rparr>"

definition route_back :: "int \<Rightarrow> sub_route" where
  "route_back x = \<lparr>amount_in = x, steps = [\<lparr>dex_id = 5, dex_type_of = Aquarius, token_in = 11,
     token_out = 10, in_idx = 1, out_idx = 0\<rparr>]\<rparr>"

lemmas sample_defs = sample_host_def sample_agg_def sample_ledger_def sample_guard_def signed_by_def
  route_there_def route_back_def ledger_host_def ledger_pool_swap_def ledger_move_def

lemmas aggregator_defs = swap_def swap_restricted_def execute_sub_routes_def execute_path_def
  execute_step_def execute_step_arms validate_sub_routes_def agg_transfer_def require_auth_def
  round_trip_swap_def is_venue_def publish_def

lemma sample_guarded: "guarded_host sample_host sample_guard"
  unfolding sample_host_def by (rule ledger_host_guarded)

lemma sample_swap:
  "\<exists>s'. swap_restricted sample_host (signed_by 1) 1 10 11 [route_there 60, route_there 40] 95 sample_agg
     = Inr (100, s')"
  "\<exists>s'. swap sample_host (signed_by 1) 1 10 11 [route_there 60, route_there 40] 95 sample_agg
     = Inr (100, s')"
  by (simp_all add: sample_defs aggregator_defs range_simps i128_checked_add_def as_u128_def
      as_i128_def u32_saturating_add_def u32_checked_add_def in_i128_def)

lemma sample_round_trip:
  "\<exists>s'. round_trip_swap sample_host (signed_by 1) 1 10 11 100 [route_there 100] [route_back 1] 100
     sample_agg = Inr (100, s')"
  by (simp add: sample_defs aggregator_defs range_simps i128_checked_add_def as_u128_def
      as_i128_def u32_saturating_add_def u32_checked_add_def in_i128_def
      scale_sub_routes_to_total_def i128_checked_sub_def)

end
