(* ===== verification/Aggregator_Properties.thy ===== *)
theory Aggregator_Properties
  imports Sample_Ledger
begin

text \<open>
  What the aggregator contract promises its callers: the guarantees of a successful swap, of a
  swap restricted to registered venues and of a round trip, exact route validation and weight
  rescaling, the Soroswap output formula, and the administration of the venue registry. Each
  property with a hypothesis is instantiated on the deployment of \<open>Sample_Ledger\<close>.
\<close>

section \<open>Swaps\<close>

text \<open>C8: A successful \<open>swap\<close> was signed by the user, exchanges two different tokens, returns at
  least the positive minimum the user asked for, ran only valid routes with positive amounts and
  proper steps, leaves the admin, the venue registry and the code alone, and publishes one leg per
  step, in order, followed by the swap itself.\<close>

theorem swap_guarantee:
  assumes "swap H env user tin tout routes min_out s = Inr (out, s')"
  shows "env_auth env user \<and> tin \<noteq> tout \<and> 0 < min_out \<and> min_out \<le> out
    \<and> list_all (route_ok tin tout) routes \<and> list_all (\<lambda>r. list_all step_ok (steps r)) routes
    \<and> (\<exists>legs. routes_legs 0 routes legs
        \<and> extends_log s (legs @ [SwapPublished user tin tout (routes_total routes) out (length routes)]) s')"
  using assms
proof (rule swap_cases)
  fix w1 c s2 w3
  assume pre: "env_auth env user" "tin \<noteq> tout" "0 < min_out" "list_all (route_ok tin tout) routes"
    "min_out \<le> out"
    and run: "execute_sub_routes H env routes 0 (s\<lparr>agg_ext := w1\<rparr>) = Inr (out, c, s2)"
    and s': "s' = publish (SwapPublished user tin tout (routes_total routes) out (length routes))
            (s2\<lparr>agg_ext := w3\<rparr>)"
  from execute_sub_routes_Inr [OF run] obtain legs where
    legs: "extends_log s legs s2" "routes_legs 0 routes legs"
      "list_all (\<lambda>r. 0 < amount_in r \<and> list_all step_ok (steps r)) routes" by auto
  have "extends_log s (legs @ [SwapPublished user tin tout (routes_total routes) out (length routes)]) s'"
    unfolding s' by (rule extends_log_trans [OF legs(1)]) (simp add: extends_log_def)
  with pre legs show ?thesis by (auto simp: list_all_iff)
qed

theorem swap_guarantee_witness:
  "\<exists>s'. swap sample_host (signed_by 1) 1 10 11 [route_there 60, route_there 40] 95 sample_agg = Inr (100, s')
    \<and> last (agg_events s') = SwapPublished 1 10 11 100 100 2"
proof -
  obtain s' where s': "swap sample_host (signed_by 1) 1 10 11 [route_there 60, route_there 40] 95 sample_agg
      = Inr (100, s')" using sample_swap(2) by blast
  from swap_guarantee [OF this] have "last (agg_events s') = SwapPublished 1 10 11 100 100 2"
    by (auto simp: extends_log_def route_there_def)
  with s' show ?thesis by blast
qed

text \<open>C6: On a host whose tokens move what they say and whose pools cannot debit holders that
  signed nothing for them, a successful \<open>swap\<close> costs the user at most the routed total of the
  input token and credits at least the demanded minimum of the output token, no other balance of
  the user falls, and no balance of any other such holder falls.\<close>

theorem swap_balances:
  assumes "guarded_host H guarded" "guarded user" "user \<noteq> env_self env"
    and "swap H env user tin tout routes min_out s = Inr (out, s')"
  shows "ext_balance H tin user s - routes_total routes \<le> ext_balance H tin user s'
    \<and> ext_balance H tout user s + min_out \<le> ext_balance H tout user s'
    \<and> (\<forall>t. t = tin \<or> ext_balance H t user s \<le> ext_balance H t user s')
    \<and> (\<forall>t c. guarded c \<and> c \<noteq> env_self env \<and> c \<noteq> user \<longrightarrow> ext_balance H t c s \<le> ext_balance H t c s')"
proof -
  have bounds: "tin \<noteq> tout" "0 < min_out" "min_out \<le> out"
    using swap_cases [OF assms(4)] by blast+
  note user = guarded_host.swap_user_balance [OF assms(1,4,2,3)]
  have other: "ext_balance H t c s \<le> ext_balance H t c s'"
    if "guarded c" "c \<noteq> env_self env" "c \<noteq> user" for t c
    using guarded_host.swap_third_party [OF assms(1,4) that] by (simp add: ext_balance_def)
  have rest: "ext_balance H t user s \<le> ext_balance H t user s'" if "t \<noteq> tin" for t
    using user [of t] that bounds by (auto simp: ext_balance_def split: if_splits)
  show ?thesis
    using user [of tin] user [of tout] bounds other rest by (auto simp: ext_balance_def)
qed

theorem swap_balances_witness:
  "\<exists>s'. swap sample_host (signed_by 1) 1 10 11 [route_there 60, route_there 40] 95 sample_agg = Inr (100, s')
    \<and> 900 \<le> ext_balance sample_host 10 1 s' \<and> 95 \<le> ext_balance sample_host 11 1 s'
    \<and> 1000 \<le> ext_balance sample_host 10 3 s'"
proof -
  obtain s' where s': "swap sample_host (signed_by 1) 1 10 11 [route_there 60, route_there 40] 95 sample_agg
      = Inr (100, s')" using sample_swap(2) by blast
  have start: "ext_balance sample_host 10 1 sample_agg = 1000" "ext_balance sample_host 11 1 sample_agg = 0"
    "ext_balance sample_host 10 3 sample_agg = 1000"
    by (simp_all add: sample_defs ext_balance_def)
  have roles: "sample_guard 1" "sample_guard 3" "1 \<noteq> env_self (signed_by 1)"
    "(3::address) \<noteq> env_self (signed_by 1) \<and> (3::address) \<noteq> 1"
    by (simp_all add: sample_guard_def signed_by_def)
  note ok = swap_balances [OF sample_guarded roles(1,3) s']
  from ok start have "900 \<le> ext_balance sample_host 10 1 s'" "95 \<le> ext_balance sample_host 11 1 s'"
    by (auto simp: route_there_def)
  moreover from ok roles(2,4) start(3) have "1000 \<le> ext_balance sample_host 10 3 s'" by metis
  ultimately show ?thesis using s' by blast
qed

text \<open>\<open>swap_restricted\<close> is \<open>swap\<close> on routes through registered venues only: if one step
  names an unregistered pair of a DEX type and a pool it fails with \<open>VenueNotRegistered\<close>, before
  any other check and any transfer.\<close>

lemma swap_restricted_exact:
  "swap_restricted H env user tin tout routes m s =
     (if registered s routes then swap H env user tin tout routes m s
      else Inl (Error AE_VenueNotRegistered))"
proof (cases "validate_registered_venues routes s")
  case (Inl e)
  then have "\<not> registered s routes" by (simp add: validate_registered_venues_iff [symmetric])
  with Inl validate_registered_venues_error [OF Inl] show ?thesis by (simp add: swap_restricted_def)
next
  case (Inr u)
  then have "registered s routes" by (simp add: validate_registered_venues_iff [symmetric])
  with Inr show ?thesis by (simp add: swap_restricted_def)
qed

text \<open>A successful \<open>round_trip_swap\<close> returns at least the base amount put in: its minimum is
  at least the amount, the forward routes are valid and sum to exactly the amount, the way back
  spends exactly the bridge tokens the way out returned, over the given routes, and on a host that
  cannot debit unsigned holders the user ends with no less of any token, and with the profit in
  base token.\<close>

lemma round_trip_guarantee:
  assumes "round_trip_swap H env user base bridge amount leg_out leg_back min_out s = Inr (out, s')"
    and "guarded_host H guarded" "guarded user" "user \<noteq> env_self env"
  shows "env_auth env user \<and> 0 < amount \<and> amount \<le> min_out \<and> min_out \<le> out
    \<and> routes_total leg_out = amount
    \<and> (\<exists>bridge_total scaled. scale_sub_routes_to_total leg_back bridge_total = Inr scaled
        \<and> routes_total scaled = bridge_total \<and> map steps scaled = map steps leg_back)
    \<and> ext_balance H base user s + (out - amount) \<le> ext_balance H base user s'
    \<and> (\<forall>t. ext_balance H t user s \<le> ext_balance H t user s')"
  using assms(1)
proof (rule round_trip_cases)
  fix bridge_total scaled
  assume pre: "env_auth env user" "0 < amount" "amount \<le> min_out" "routes_total leg_out = amount"
    "min_out \<le> out"
    and scale: "scale_sub_routes_to_total leg_back bridge_total = Inr scaled"
  have bal: "ext_balance H t user s + (if t = base then out - amount else 0) \<le> ext_balance H t user s'" for t
    using guarded_host.round_trip_balance [OF assms(2,1,3,4), of t] by (simp add: ext_balance_def)
  have "ext_balance H t user s \<le> ext_balance H t user s'" for t
    using bal [of t] pre by (cases "t = base") auto
  with pre bal [of base] scale_sub_routes_to_total_Inr(1,3) [OF scale] scale show ?thesis by auto
qed

lemma round_trip_guarantee_witness:
  "\<exists>s'. round_trip_swap sample_host (signed_by 1) 1 10 11 100 [route_there 100] [route_back 1] 100
     sample_agg = Inr (100, s') \<and> 1000 \<le> ext_balance sample_host 10 1 s'"
proof -
  obtain s' where s': "round_trip_swap sample_host (signed_by 1) 1 10 11 100 [route_there 100]
      [route_back 1] 100 sample_agg = Inr (100, s')" using sample_round_trip by blast
  have roles: "sample_guard 1" "1 \<noteq> env_self (signed_by 1)" "ext_balance sample_host 10 1 sample_agg = 1000"
    by (simp_all add: sample_defs ext_balance_def)
  from round_trip_guarantee [OF s' sample_guarded roles(1,2)] roles(3) s' show ?thesis by auto
qed

section \<open>Validation and arithmetic\<close>

text \<open>\<open>validate_sub_routes\<close> accepts exactly the non-empty lists of routes that each have a
  positive amount and a connected, non-empty chain of steps from the input to the output token, and
  whose amounts sum to at most \<open>i128::MAX\<close>; it then returns that sum.\<close>

lemma validate_sub_routes_exact:
  "validate_sub_routes tin tout routes = Inr total_in \<longleftrightarrow>
     routes \<noteq> [] \<and> list_all (route_ok tin tout) routes \<and> total_in = routes_total routes
     \<and> routes_total routes \<le> i128_max"
  using validate_sub_routes_Inr_iff [of tin tout routes total_in] by auto

text \<open>Rescaling weights to a total is exact: the new amounts are positive, sum to the target
  without losing a unit, keep every route's steps, and every route but the last gets its
  proportional share rounded down.\<close>

lemma scale_sub_routes_exact:
  assumes "scale_sub_routes_to_total routes target = Inr scaled"
  shows "routes_total scaled = target \<and> map steps scaled = map steps routes
    \<and> list_all (\<lambda>r. 0 < amount_in r) scaled
    \<and> (\<forall>k < length routes - 1.
         amount_in (scaled ! k) = amount_in (routes ! k) * target div routes_total routes)"
proof -
  from assms obtain w where ne: "routes \<noteq> []" "0 < target" and w: "sum_weights routes 0 = Inr w"
    and loop: "scale_loop target w (length routes) 0 0 routes = Inr scaled"
    by (auto simp: scale_sub_routes_to_total_def res_simps)
  from sum_weights_Inr [OF w] have W: "w = routes_total routes" and pos: "\<forall>r \<in> set routes. 0 < amount_in r"
    by auto
  have total_pos: "0 < routes_total routes"
    using ne(1) pos by (induction routes) (auto, metis add_pos_pos routes_total_simps(1) add.right_neutral)
  have share: "amount_in (scaled ! k) = amount_in (routes ! k) * target div routes_total routes"
    if "k < length routes - 1" for k
  proof -
    from that have k: "k < length routes" by simp
    have "0 < amount_in (routes ! k)" using pos k by simp
    with scale_loop_share [OF loop k] that total_pos ne(2) show ?thesis
      by (simp add: W sdiv_pos mult_nonneg_nonneg)
  qed
  with scale_sub_routes_to_total_Inr [OF assms] show ?thesis by (simp add: list_all_iff)
qed

lemma scale_sub_routes_exact_witness:
  "\<exists>scaled. scale_sub_routes_to_total [route_back 1, route_back 2] 100 = Inr scaled
     \<and> routes_total scaled = 100 \<and> amount_in (scaled ! 0) = 33"
proof -
  have run: "scale_sub_routes_to_total [route_back 1, route_back 2] 100 = Inr [route_back 33, route_back 67]"
    by (simp add: scale_sub_routes_to_total_def route_back_def i128_checked_add_def i128_checked_mul_def
        i128_checked_sub_def range_simps sdiv_pos)
  from scale_sub_routes_exact [OF this] run show ?thesis by (auto simp: route_back_def)
qed

text \<open>The Soroswap output never empties the reserve and keeps the constant product after the
  fee: with \<open>x\<close> the input less its 0.3 percent fee, the product of the reserves does not fall, as
  long as the new input reserve still fits \<open>i128\<close>.\<close>

lemma soroswap_constant_product:
  assumes "0 < amount" "0 < reserve_in" "0 < reserve_out" "reserve_in + amount \<le> i128_max"
  defines "out \<equiv> soroswap_get_amount_out amount reserve_in reserve_out"
  shows "0 \<le> out \<and> out < reserve_out
    \<and> reserve_in * reserve_out \<le> (reserve_in + (amount - soroswap_fee amount)) * (reserve_out - out)"
proof -
  define x where "x = amount - soroswap_fee amount"
  have x: "0 \<le> x" "x \<le> amount"
    using soroswap_fee_le [OF assms(1)] soroswap_fee_nonneg [of amount] by (auto simp: x_def)
  have out: "out = (if x \<le> 0 then 0 else sat_mul x reserve_out div sat_add reserve_in x)"
    unfolding out_def x_def
    by (rule soroswap_get_amount_out_pos) (use assms in \<open>auto simp: in_i128_def\<close>)
  show ?thesis
  proof (cases "0 < x")
    case True
    then have out': "out = sat_mul x reserve_out div (reserve_in + x)"
      using out sat_add_exact [of reserve_in x] assms(2,4) x by (simp add: in_i128_def)
    have n: "sat_mul x reserve_out \<le> x * reserve_out" "0 \<le> sat_mul x reserve_out"
      using True assms(3) by (simp_all add: sat_mul_bounds)
    have prod: "reserve_in * reserve_out \<le> (reserve_in + x) * (reserve_out - out)"
      unfolding out' using constant_product_div [OF True assms(2,3) n(1)] .
    have "0 < reserve_in * reserve_out" using assms(2,3) by simp
    with prod have "0 < (reserve_in + x) * (reserve_out - out)" by linarith
    then have "out < reserve_out" using True assms(2) by (simp add: zero_less_mult_iff)
    moreover have "0 \<le> out" using n(2) True assms(2) by (simp add: out' pos_imp_zdiv_nonneg_iff)
    ultimately show ?thesis using prod by (simp add: x_def)
  next
    case False
    with x have "x = 0" by simp
    moreover from this out have "out = 0" by simp
    ultimately show ?thesis using assms(3) by (simp add: x_def)
  qed
qed

lemma soroswap_constant_product_witness:
  "(0::int) \<le> soroswap_get_amount_out 1000 5000 5000 \<and> soroswap_get_amount_out 1000 5000 5000 = 831
    \<and> soroswap_get_amount_out 1000 5000 5000 < 5000"
proof -
  have "soroswap_get_amount_out 1000 5000 5000 = 831"
    by (simp add: soroswap_get_amount_out_def soroswap_fee_def i128_checked_mul_def i128_checked_add_def
        i128_checked_sub_def range_simps sdiv_pos)
  with soroswap_constant_product [of 1000 5000 5000] show ?thesis by simp
qed

section \<open>Administration\<close>

text \<open>The venue registry changes only by the administrator's hand, and only in the one entry
  named: \<open>set_venue\<close> fails before \<open>initialize\<close>, fails without the administrator's
  authorisation, and otherwise sets exactly the membership of that DEX type and pool.\<close>

lemma set_venue_exact:
  "set_venue env dt d allowed s =
     (case agg_admin s of
        None \<Rightarrow> Inl (Panicked ''Not initialized'')
      | Some admin \<Rightarrow>
          if env_auth env admin
          then Inr (s\<lparr>agg_venues := {(tag, p). if tag = dex_tag dt \<and> p = d then allowed
                                              else (tag, p) \<in> agg_venues s}\<rparr>)
          else Inl (AuthMissing admin))"
proof -
  have "(if allowed then insert (dex_tag dt, d) (agg_venues s) else agg_venues s - {(dex_tag dt, d)})
    = {(tag, p). if tag = dex_tag dt \<and> p = d then allowed else (tag, p) \<in> agg_venues s}"
    by auto
  then show ?thesis
    by (simp add: set_venue_def require_admin_def get_admin_def require_auth_def ensure_def
        split: option.split)
qed

end
