(* ===== verification/Order_Escrow.thy ===== *)
theory Order_Escrow
  imports Contract_Types
begin

text \<open>
  The order escrow contract (\<open>contracts/order-escrow/src/lib.rs\<close>, \<open>errors.rs\<close>): limit and
  DCA orders, their creation, fills, cancellation and reclaim. The token and the aggregator it
  calls are the fields of \<open>escrow_host\<close>. Each entry point maps the contract state to the new
  state and its result, or to the error that rolled it back.
\<close>

datatype escrow_error =
    EE_NotInitialized
  | EE_AlreadyInitialized
  | EE_InvalidAmount
  | EE_InvalidLimit
  | EE_SameToken
  | EE_ExpirationInPast
  | EE_ExpirationTooFar
  | EE_OrderNotFound
  | EE_OrderNotOpen
  | EE_OrderExpired
  | EE_OrderNotExpired
  | EE_AmountExceedsRemaining
  | EE_InvalidRouteAmount
  | EE_MinimumOutBelowLimit
  | EE_InvalidChunk
  | EE_InvalidInterval
  | EE_StartLedgerInPast
  | EE_InvalidMinimumRate
  | EE_ChunkNotDue
  | EE_ArithmeticOverflow

type_synonym 'a escrow_res = "(escrow_error, 'a) res"

datatype order_status = Open | Filled | Cancelled | Expired

record limit_order =
  lo_owner :: address
  lo_token_in :: address
  lo_token_out :: address
  lo_remaining :: int
  lo_limit_e7 :: int
  lo_expires :: nat
  lo_status :: order_status

record dca_order =
  do_owner :: address
  do_token_in :: address
  do_token_out :: address
  do_remaining :: int
  do_chunk :: int
  do_interval :: nat
  do_next_ledger :: nat
  do_min_rate_e7 :: int
  do_expires :: nat
  do_status :: order_status

datatype escrow_event =
    OrderCreated nat address address address int int nat
  | OrderCancelled nat address int
  | OrderExpiredEvent nat address int
  | OrderFilled nat address int int int
  | DcaCreated nat address address address int int nat nat int nat
  | DcaFilled nat address int int int nat
  | DcaCancelled nat address int
  | DcaExpired nat address int

text \<open>Instance storage \<open>Admin\<close>, \<open>Aggregator\<close>, \<open>NextOrderId\<close>, \<open>NextDcaOrderId\<close>;
  persistent storage \<open>Order(id)\<close>, \<open>DcaOrder(id)\<close>; the WASM, the event log and the
  external state.\<close>

record 'w escrow =
  es_admin :: "address option"
  es_aggregator :: "address option"
  es_next_order_id :: "nat option"
  es_next_dca_id :: "nat option"
  es_orders :: "nat \<Rightarrow> limit_order option"
  es_dca_orders :: "nat \<Rightarrow> dca_order option"
  es_wasm :: nat
  es_events :: "escrow_event list"
  es_ext :: 'w

text \<open>\<open>eh_transfer token from to amount\<close>; \<open>eh_swap_restricted aggregator auths user token_in
  token_out sub_routes min_amount_out\<close>, the cross-contract call of \<open>AggregatorContractClient\<close>
  with what \<open>authorize_as_current_contract\<close> granted before it.\<close>

record 'w escrow_host =
  eh_transfer :: "address \<Rightarrow> address \<Rightarrow> address \<Rightarrow> int \<Rightarrow> 'w \<Rightarrow> 'w option"
  eh_swap_restricted :: "address \<Rightarrow> auth_entry list \<Rightarrow> address \<Rightarrow> address \<Rightarrow> address \<Rightarrow> sub_route list
    \<Rightarrow> int \<Rightarrow> 'w \<Rightarrow> (int \<times> 'w) option"

definition LEDGERS_PER_DAY :: nat where "LEDGERS_PER_DAY = 17280"

definition MAX_ORDER_LIFETIME :: nat where "MAX_ORDER_LIFETIME = 30 * LEDGERS_PER_DAY"

definition RATE_SCALE_E7 :: int where "RATE_SCALE_E7 = 10000000"

definition required_min_out :: "int \<Rightarrow> int \<Rightarrow> int" where
  "required_min_out amount limit_e7 =
     (case map_option (\<lambda>value. value sdiv RATE_SCALE_E7) (i128_checked_mul amount limit_e7) of
        Some v \<Rightarrow> v
      | None \<Rightarrow> i128_max)"

definition authorize_swap_as_current_contract ::
    "address \<Rightarrow> address \<Rightarrow> address \<Rightarrow> int \<Rightarrow> auth_entry list" where
  "authorize_swap_as_current_contract aggregator escrow tin amount =
     [AuthTransfer tin escrow aggregator amount]"

definition es_publish :: "escrow_event \<Rightarrow> 'w escrow \<Rightarrow> 'w escrow" where
  "es_publish e s = s\<lparr>es_events := es_events s @ [e]\<rparr>"

definition es_transfer ::
    "'w escrow_host \<Rightarrow> address \<Rightarrow> address \<Rightarrow> address \<Rightarrow> int \<Rightarrow> 'w escrow \<Rightarrow> 'w escrow escrow_res" where
  "es_transfer H token src dst amount s =
     and_then (or_fail (eh_transfer H token src dst amount (es_ext s)) CallTrapped) (\<lambda>w.
     Inr (s\<lparr>es_ext := w\<rparr>))"

definition es_initialize :: "env \<Rightarrow> address \<Rightarrow> address \<Rightarrow> 'w escrow \<Rightarrow> 'w escrow escrow_res" where
  "es_initialize env admin aggregator s =
     and_then (ensure (es_admin s = None) (Error EE_AlreadyInitialized)) (\<lambda>_.
     and_then (require_auth env admin) (\<lambda>_.
     Inr (s\<lparr>es_admin := Some admin, es_aggregator := Some aggregator,
            es_next_order_id := Some 0, es_next_dca_id := Some 0\<rparr>)))"

definition es_upgrade :: "env \<Rightarrow> nat \<Rightarrow> 'w escrow \<Rightarrow> 'w escrow escrow_res" where
  "es_upgrade env new_wasm_hash s =
     and_then (or_fail (es_admin s) (Error EE_NotInitialized)) (\<lambda>admin.
     and_then (require_auth env admin) (\<lambda>_.
     Inr (s\<lparr>es_wasm := new_wasm_hash\<rparr>)))"

section \<open>Limit orders\<close>

definition create_limit ::
    "'w escrow_host \<Rightarrow> env \<Rightarrow> address \<Rightarrow> address \<Rightarrow> address \<Rightarrow> int \<Rightarrow> int \<Rightarrow> nat \<Rightarrow> 'w escrow
      \<Rightarrow> (nat \<times> 'w escrow) escrow_res" where
  "create_limit H env owner tin tout amount limit_e7 expires s =
     and_then (require_auth env owner) (\<lambda>_.
     and_then (ensure (amount > 0) (Error EE_InvalidAmount)) (\<lambda>_.
     and_then (ensure (limit_e7 > 0) (Error EE_InvalidLimit)) (\<lambda>_.
     and_then (ensure (tin \<noteq> tout) (Error EE_SameToken)) (\<lambda>_.
     and_then (ensure (expires > env_sequence env) (Error EE_ExpirationInPast)) (\<lambda>_.
     and_then (ensure (expires \<le> u32_saturating_add (env_sequence env) MAX_ORDER_LIFETIME)
                 (Error EE_ExpirationTooFar)) (\<lambda>_.
     and_then (or_fail (es_next_order_id s) (Error EE_NotInitialized)) (\<lambda>order_id.
     and_then (es_transfer H tin owner (env_self env) amount s) (\<lambda>s1.
     let order = \<lparr>lo_owner = owner, lo_token_in = tin, lo_token_out = tout, lo_remaining = amount,
                  lo_limit_e7 = limit_e7, lo_expires = expires, lo_status = Open\<rparr>;
         s2 = s1\<lparr>es_orders := (es_orders s1)(order_id \<mapsto> order)\<rparr> in
     and_then (or_fail (u64_checked_add order_id 1) (Error EE_ArithmeticOverflow)) (\<lambda>next_id.
     let s3 = s2\<lparr>es_next_order_id := Some next_id\<rparr> in
     Inr (order_id, es_publish (OrderCreated order_id owner tin tout amount limit_e7 expires) s3))))))))))"

definition cancel :: "'w escrow_host \<Rightarrow> env \<Rightarrow> nat \<Rightarrow> 'w escrow \<Rightarrow> 'w escrow escrow_res" where
  "cancel H env order_id s =
     and_then (or_fail (es_orders s order_id) (Error EE_OrderNotFound)) (\<lambda>order.
     and_then (require_auth env (lo_owner order)) (\<lambda>_.
     and_then (ensure (lo_status order = Open) (Error EE_OrderNotOpen)) (\<lambda>_.
     let refunded = lo_remaining order in
     and_then (es_transfer H (lo_token_in order) (env_self env) (lo_owner order) refunded s) (\<lambda>s1.
     let order' = order\<lparr>lo_remaining := 0, lo_status := Cancelled\<rparr>;
         s2 = s1\<lparr>es_orders := (es_orders s1)(order_id \<mapsto> order')\<rparr> in
     Inr (es_publish (OrderCancelled order_id (lo_owner order) refunded) s2)))))"

definition reclaim_expired :: "'w escrow_host \<Rightarrow> env \<Rightarrow> nat \<Rightarrow> 'w escrow \<Rightarrow> 'w escrow escrow_res" where
  "reclaim_expired H env order_id s =
     and_then (or_fail (es_orders s order_id) (Error EE_OrderNotFound)) (\<lambda>order.
     and_then (ensure (lo_status order = Open) (Error EE_OrderNotOpen)) (\<lambda>_.
     and_then (ensure (env_sequence env > lo_expires order) (Error EE_OrderNotExpired)) (\<lambda>_.
     let refunded = lo_remaining order in
     and_then (es_transfer H (lo_token_in order) (env_self env) (lo_owner order) refunded s) (\<lambda>s1.
     let order' = order\<lparr>lo_remaining := 0, lo_status := Expired\<rparr>;
         s2 = s1\<lparr>es_orders := (es_orders s1)(order_id \<mapsto> order')\<rparr> in
     Inr (es_publish (OrderExpiredEvent order_id (lo_owner order) refunded) s2)))))"

fun routed_amount_loop :: "sub_route list \<Rightarrow> int \<Rightarrow> int escrow_res" where
  "routed_amount_loop [] routed = Inr routed"
| "routed_amount_loop (route # routes) routed =
     and_then (or_fail (i128_checked_add routed (amount_in route)) (Error EE_ArithmeticOverflow))
       (routed_amount_loop routes)"

text \<open>The common tail of \<open>fill\<close> and \<open>fill_dca\<close> up to the payout: read the aggregator,
  authorise the pull, swap, pay the owner.\<close>

definition swap_and_pay ::
    "'w escrow_host \<Rightarrow> env \<Rightarrow> address \<Rightarrow> address \<Rightarrow> address \<Rightarrow> int \<Rightarrow> sub_route list \<Rightarrow> int \<Rightarrow> 'w escrow
      \<Rightarrow> (int \<times> 'w escrow) escrow_res" where
  "swap_and_pay H env owner tin tout amount routes min_amount_out s =
     and_then (or_fail (es_aggregator s) (Error EE_NotInitialized)) (\<lambda>aggregator.
     let escrow = env_self env;
         auths = authorize_swap_as_current_contract aggregator escrow tin amount in
     and_then (or_fail (eh_swap_restricted H aggregator auths escrow tin tout routes min_amount_out
                  (es_ext s)) CallTrapped) (\<lambda>(amount_out, w).
     and_then (es_transfer H tout escrow owner amount_out (s\<lparr>es_ext := w\<rparr>)) (\<lambda>s'.
     Inr (amount_out, s'))))"

definition fill ::
    "'w escrow_host \<Rightarrow> env \<Rightarrow> nat \<Rightarrow> int \<Rightarrow> sub_route list \<Rightarrow> int \<Rightarrow> 'w escrow
      \<Rightarrow> (int \<times> 'w escrow) escrow_res" where
  "fill H env order_id amount routes min_amount_out s =
     and_then (or_fail (es_orders s order_id) (Error EE_OrderNotFound)) (\<lambda>order.
     and_then (ensure (lo_status order = Open) (Error EE_OrderNotOpen)) (\<lambda>_.
     and_then (ensure (env_sequence env < lo_expires order) (Error EE_OrderExpired)) (\<lambda>_.
     and_then (ensure (amount > 0) (Error EE_InvalidAmount)) (\<lambda>_.
     and_then (ensure (amount \<le> lo_remaining order) (Error EE_AmountExceedsRemaining)) (\<lambda>_.
     and_then (routed_amount_loop routes 0) (\<lambda>routed.
     and_then (ensure (routed = amount) (Error EE_InvalidRouteAmount)) (\<lambda>_.
     and_then (ensure (min_amount_out \<ge> required_min_out amount (lo_limit_e7 order))
                 (Error EE_MinimumOutBelowLimit)) (\<lambda>_.
     and_then (swap_and_pay H env (lo_owner order) (lo_token_in order) (lo_token_out order) amount
                 routes min_amount_out s) (\<lambda>(amount_out, s1).
     let order1 = order\<lparr>lo_remaining := lo_remaining order - amount\<rparr>;
         order2 = (if lo_remaining order1 = 0 then order1\<lparr>lo_status := Filled\<rparr> else order1);
         s2 = s1\<lparr>es_orders := (es_orders s1)(order_id \<mapsto> order2)\<rparr> in
     Inr (amount_out,
       es_publish (OrderFilled order_id (lo_owner order) amount amount_out (lo_remaining order2)) s2))))))))))"

section \<open>DCA orders\<close>

definition create_dca ::
    "'w escrow_host \<Rightarrow> env \<Rightarrow> address \<Rightarrow> address \<Rightarrow> address \<Rightarrow> int \<Rightarrow> int \<Rightarrow> nat \<Rightarrow> nat \<Rightarrow> int \<Rightarrow> nat \<Rightarrow> 'w escrow
      \<Rightarrow> (nat \<times> 'w escrow) escrow_res" where
  "create_dca H env owner tin tout amount chunk interval start min_rate expires s =
     and_then (require_auth env owner) (\<lambda>_.
     let current = env_sequence env in
     and_then (ensure (amount > 0) (Error EE_InvalidAmount)) (\<lambda>_.
     and_then (ensure (\<not> (chunk \<le> 0 \<or> chunk > amount)) (Error EE_InvalidChunk)) (\<lambda>_.
     and_then (ensure (interval \<noteq> 0) (Error EE_InvalidInterval)) (\<lambda>_.
     and_then (ensure (start \<ge> current) (Error EE_StartLedgerInPast)) (\<lambda>_.
     and_then (ensure (min_rate \<ge> 0) (Error EE_InvalidMinimumRate)) (\<lambda>_.
     and_then (ensure (tin \<noteq> tout) (Error EE_SameToken)) (\<lambda>_.
     and_then (ensure (expires > start) (Error EE_ExpirationInPast)) (\<lambda>_.
     and_then (ensure (expires \<le> u32_saturating_add current MAX_ORDER_LIFETIME)
                 (Error EE_ExpirationTooFar)) (\<lambda>_.
     and_then (or_fail (es_next_dca_id s) (Error EE_NotInitialized)) (\<lambda>order_id.
     and_then (es_transfer H tin owner (env_self env) amount s) (\<lambda>s1.
     let order = \<lparr>do_owner = owner, do_token_in = tin, do_token_out = tout, do_remaining = amount,
                  do_chunk = chunk, do_interval = interval, do_next_ledger = start,
                  do_min_rate_e7 = min_rate, do_expires = expires, do_status = Open\<rparr>;
         s2 = s1\<lparr>es_dca_orders := (es_dca_orders s1)(order_id \<mapsto> order)\<rparr> in
     and_then (or_fail (u64_checked_add order_id 1) (Error EE_ArithmeticOverflow)) (\<lambda>next_id.
     let s3 = s2\<lparr>es_next_dca_id := Some next_id\<rparr> in
     Inr (order_id,
       es_publish (DcaCreated order_id owner tin tout amount chunk interval start min_rate expires) s3)))))))))))))"

definition fill_dca ::
    "'w escrow_host \<Rightarrow> env \<Rightarrow> nat \<Rightarrow> sub_route list \<Rightarrow> int \<Rightarrow> 'w escrow \<Rightarrow> (int \<times> 'w escrow) escrow_res" where
  "fill_dca H env order_id routes min_amount_out s =
     and_then (or_fail (es_dca_orders s order_id) (Error EE_OrderNotFound)) (\<lambda>order.
     let current = env_sequence env in
     and_then (ensure (do_status order = Open) (Error EE_OrderNotOpen)) (\<lambda>_.
     and_then (ensure (current < do_expires order) (Error EE_OrderExpired)) (\<lambda>_.
     and_then (ensure (current \<ge> do_next_ledger order) (Error EE_ChunkNotDue)) (\<lambda>_.
     let amount = (if do_remaining order < do_chunk order then do_remaining order else do_chunk order) in
     and_then (routed_amount_loop routes 0) (\<lambda>routed.
     and_then (ensure (routed = amount) (Error EE_InvalidRouteAmount)) (\<lambda>_.
     and_then (if do_min_rate_e7 order > 0
               then ensure (min_amount_out \<ge> required_min_out amount (do_min_rate_e7 order))
                      (Error EE_MinimumOutBelowLimit)
               else ensure (min_amount_out > 0) (Error EE_InvalidAmount)) (\<lambda>_.
     and_then (swap_and_pay H env (do_owner order) (do_token_in order) (do_token_out order) amount
                 routes min_amount_out s) (\<lambda>(amount_out, s1).
     let order1 = order\<lparr>do_remaining := do_remaining order - amount\<rparr>;
         order2 = (if do_remaining order1 = 0 then order1\<lparr>do_status := Filled\<rparr>
                   else order1\<lparr>do_next_ledger := u32_saturating_add current (do_interval order)\<rparr>);
         s2 = s1\<lparr>es_dca_orders := (es_dca_orders s1)(order_id \<mapsto> order2)\<rparr> in
     Inr (amount_out,
       es_publish (DcaFilled order_id (do_owner order) amount amount_out (do_remaining order2)
         (do_next_ledger order2)) s2)))))))))"

definition cancel_dca :: "'w escrow_host \<Rightarrow> env \<Rightarrow> nat \<Rightarrow> 'w escrow \<Rightarrow> 'w escrow escrow_res" where
  "cancel_dca H env order_id s =
     and_then (or_fail (es_dca_orders s order_id) (Error EE_OrderNotFound)) (\<lambda>order.
     and_then (require_auth env (do_owner order)) (\<lambda>_.
     and_then (ensure (do_status order = Open) (Error EE_OrderNotOpen)) (\<lambda>_.
     let refunded = do_remaining order in
     and_then (es_transfer H (do_token_in order) (env_self env) (do_owner order) refunded s) (\<lambda>s1.
     let order' = order\<lparr>do_remaining := 0, do_status := Cancelled\<rparr>;
         s2 = s1\<lparr>es_dca_orders := (es_dca_orders s1)(order_id \<mapsto> order')\<rparr> in
     Inr (es_publish (DcaCancelled order_id (do_owner order) refunded) s2)))))"

definition reclaim_expired_dca :: "'w escrow_host \<Rightarrow> env \<Rightarrow> nat \<Rightarrow> 'w escrow \<Rightarrow> 'w escrow escrow_res" where
  "reclaim_expired_dca H env order_id s =
     and_then (or_fail (es_dca_orders s order_id) (Error EE_OrderNotFound)) (\<lambda>order.
     and_then (ensure (do_status order = Open) (Error EE_OrderNotOpen)) (\<lambda>_.
     and_then (ensure (env_sequence env > do_expires order) (Error EE_OrderNotExpired)) (\<lambda>_.
     let refunded = do_remaining order in
     and_then (es_transfer H (do_token_in order) (env_self env) (do_owner order) refunded s) (\<lambda>s1.
     let order' = order\<lparr>do_remaining := 0, do_status := Expired\<rparr>;
         s2 = s1\<lparr>es_dca_orders := (es_dca_orders s1)(order_id \<mapsto> order')\<rparr> in
     Inr (es_publish (DcaExpired order_id (do_owner order) refunded) s2)))))"

end
