(* ===== verification/Escrow_Steps.thy ===== *)
theory Escrow_Steps
  imports Order_Escrow
begin

text \<open>
  The order escrow as a state machine: what each successful entry point did (one elimination
  rule per operation), the step relation of a deployed escrow, and the invariants that hold for
  any token and any aggregator, lawful or not: the shape of stored orders, the order life cycle
  and the agreement of the event log with what is still escrowed.
\<close>

section \<open>What each successful call did\<close>

lemma es_transfer_Inr [res_simps]:
  "es_transfer H t a b x s = Inr s' \<longleftrightarrow>
     (\<exists>w. eh_transfer H t a b x (es_ext s) = Some w \<and> s' = s\<lparr>es_ext := w\<rparr>)"
  by (auto simp: es_transfer_def res_simps)

lemma create_limit_cases:
  assumes "create_limit H env owner tin tout amount limit_e7 expires s = Inr (i, s')"
  obtains w where
    "env_auth env owner" "0 < amount" "0 < limit_e7" "tin \<noteq> tout" "env_sequence env < expires"
    "expires \<le> u32_saturating_add (env_sequence env) MAX_ORDER_LIFETIME"
    "es_next_order_id s = Some i" "i < u64_max"
    "eh_transfer H tin owner (env_self env) amount (es_ext s) = Some w"
    "s' = s\<lparr>es_orders := (es_orders s)(i \<mapsto> \<lparr>lo_owner = owner, lo_token_in = tin, lo_token_out = tout,
              lo_remaining = amount, lo_limit_e7 = limit_e7, lo_expires = expires, lo_status = Open\<rparr>),
            es_next_order_id := Some (Suc i),
            es_events := es_events s @ [OrderCreated i owner tin tout amount limit_e7 expires],
            es_ext := w\<rparr>"
  using assms by (auto simp: create_limit_def es_publish_def res_simps Let_def)

lemma cancel_cases:
  assumes "cancel H env i s = Inr s'"
  obtains ord w where
    "es_orders s i = Some ord" "env_auth env (lo_owner ord)" "lo_status ord = Open"
    "eh_transfer H (lo_token_in ord) (env_self env) (lo_owner ord) (lo_remaining ord) (es_ext s) = Some w"
    "s' = s\<lparr>es_orders := (es_orders s)(i \<mapsto> ord\<lparr>lo_remaining := 0, lo_status := Cancelled\<rparr>),
            es_events := es_events s @ [OrderCancelled i (lo_owner ord) (lo_remaining ord)],
            es_ext := w\<rparr>"
  using assms by (auto simp: cancel_def es_publish_def res_simps Let_def)

lemma reclaim_expired_cases:
  assumes "reclaim_expired H env i s = Inr s'"
  obtains ord w where
    "es_orders s i = Some ord" "lo_status ord = Open" "lo_expires ord < env_sequence env"
    "eh_transfer H (lo_token_in ord) (env_self env) (lo_owner ord) (lo_remaining ord) (es_ext s) = Some w"
    "s' = s\<lparr>es_orders := (es_orders s)(i \<mapsto> ord\<lparr>lo_remaining := 0, lo_status := Expired\<rparr>),
            es_events := es_events s @ [OrderExpiredEvent i (lo_owner ord) (lo_remaining ord)],
            es_ext := w\<rparr>"
  using assms by (auto simp: reclaim_expired_def es_publish_def res_simps Let_def)

lemma routed_amount_loop_Inr:
  "routed_amount_loop rs acc = Inr t \<Longrightarrow> t = acc + routes_total rs"
proof (induction rs arbitrary: acc)
  case (Cons r rs)
  then have "routed_amount_loop rs (acc + amount_in r) = Inr t" by (auto simp: res_simps)
  from Cons.IH [OF this] show ?case by simp
qed simp

text \<open>A limit order after a fill of \<open>amount\<close>, a DCA order after its chunk.\<close>

definition limit_after :: "int \<Rightarrow> limit_order \<Rightarrow> limit_order" where
  "limit_after amount ord =
     (if lo_remaining ord - amount = 0 then ord\<lparr>lo_remaining := 0, lo_status := Filled\<rparr>
      else ord\<lparr>lo_remaining := lo_remaining ord - amount\<rparr>)"

lemma limit_after_simps [simp]:
  "lo_owner (limit_after x ord) = lo_owner ord"
  "lo_token_in (limit_after x ord) = lo_token_in ord"
  "lo_token_out (limit_after x ord) = lo_token_out ord"
  "lo_remaining (limit_after x ord) = lo_remaining ord - x"
  "lo_limit_e7 (limit_after x ord) = lo_limit_e7 ord"
  "lo_expires (limit_after x ord) = lo_expires ord"
  "lo_status (limit_after x ord) = (if lo_remaining ord = x then Filled else lo_status ord)"
  by (simp_all add: limit_after_def)

definition dca_chunk :: "dca_order \<Rightarrow> int" where
  "dca_chunk ord = (if do_remaining ord < do_chunk ord then do_remaining ord else do_chunk ord)"

definition dca_after :: "nat \<Rightarrow> dca_order \<Rightarrow> dca_order" where
  "dca_after current ord =
     (let amount = dca_chunk ord in
      if do_remaining ord - amount = 0 then ord\<lparr>do_remaining := 0, do_status := Filled\<rparr>
      else ord\<lparr>do_remaining := do_remaining ord - amount,
               do_next_ledger := u32_saturating_add current (do_interval ord)\<rparr>)"

lemma dca_after_simps [simp]:
  "do_owner (dca_after c ord) = do_owner ord"
  "do_token_in (dca_after c ord) = do_token_in ord"
  "do_token_out (dca_after c ord) = do_token_out ord"
  "do_remaining (dca_after c ord) = do_remaining ord - dca_chunk ord"
  "do_chunk (dca_after c ord) = do_chunk ord"
  "do_interval (dca_after c ord) = do_interval ord"
  "do_min_rate_e7 (dca_after c ord) = do_min_rate_e7 ord"
  "do_expires (dca_after c ord) = do_expires ord"
  "do_status (dca_after c ord) = (if do_remaining ord = dca_chunk ord then Filled else do_status ord)"
  "do_next_ledger (dca_after c ord) = (if do_remaining ord = dca_chunk ord then do_next_ledger ord
     else u32_saturating_add c (do_interval ord))"
  by (simp_all add: dca_after_def Let_def)

lemma swap_and_pay_Inr [res_simps]:
  "swap_and_pay H env owner tin tout amount rs m s = Inr (out, s') \<longleftrightarrow>
     (\<exists>aggregator w1 w2. es_aggregator s = Some aggregator
        \<and> eh_swap_restricted H aggregator [AuthTransfer tin (env_self env) aggregator amount]
            (env_self env) tin tout rs m (es_ext s) = Some (out, w1)
        \<and> eh_transfer H tout (env_self env) owner out w1 = Some w2
        \<and> s' = s\<lparr>es_ext := w2\<rparr>)"
  by (auto simp: swap_and_pay_def authorize_swap_as_current_contract_def res_simps Let_def)

lemma fill_cases:
  assumes "fill H env i amount rs m s = Inr (out, s')"
  obtains ord aggregator w1 w2 where
    "es_orders s i = Some ord" "lo_status ord = Open" "env_sequence env < lo_expires ord"
    "0 < amount" "amount \<le> lo_remaining ord" "routes_total rs = amount"
    "required_min_out amount (lo_limit_e7 ord) \<le> m" "es_aggregator s = Some aggregator"
    "eh_swap_restricted H aggregator [AuthTransfer (lo_token_in ord) (env_self env) aggregator amount]
       (env_self env) (lo_token_in ord) (lo_token_out ord) rs m (es_ext s) = Some (out, w1)"
    "eh_transfer H (lo_token_out ord) (env_self env) (lo_owner ord) out w1 = Some w2"
    "s' = s\<lparr>es_orders := (es_orders s)(i \<mapsto> limit_after amount ord),
            es_events := es_events s @ [OrderFilled i (lo_owner ord) amount out (lo_remaining ord - amount)],
            es_ext := w2\<rparr>"
proof -
  let ?upd = "\<lambda>ord. let order1 = ord\<lparr>lo_remaining := lo_remaining ord - amount\<rparr>
    in if lo_remaining order1 = 0 then order1\<lparr>lo_status := Filled\<rparr> else order1"
  have upd: "?upd ord = limit_after amount ord" for ord by (simp add: limit_after_def)
  have total: "routed_amount_loop rs 0 = Inr amount \<Longrightarrow> routes_total rs = amount"
    using routed_amount_loop_Inr [of rs 0 amount] by simp
  from assms obtain ord s1 where ord: "es_orders s i = Some ord"
    and run: "swap_and_pay H env (lo_owner ord) (lo_token_in ord) (lo_token_out ord) amount rs m s
      = Inr (out, s1)"
    and routed: "routed_amount_loop rs 0 = Inr amount"
    and guards: "lo_status ord = Open" "env_sequence env < lo_expires ord" "0 < amount"
      "amount \<le> lo_remaining ord" "required_min_out amount (lo_limit_e7 ord) \<le> m"
    and s': "s' = es_publish (OrderFilled i (lo_owner ord) amount out
        (lo_remaining (limit_after amount ord)))
      (s1\<lparr>es_orders := (es_orders s1)(i \<mapsto> limit_after amount ord)\<rparr>)"
    unfolding fill_def Let_def upd [unfolded Let_def] by (clarsimp simp: res_simps)
  from run obtain aggregator w1 w2 where
    "es_aggregator s = Some aggregator"
    "eh_swap_restricted H aggregator [AuthTransfer (lo_token_in ord) (env_self env) aggregator amount]
       (env_self env) (lo_token_in ord) (lo_token_out ord) rs m (es_ext s) = Some (out, w1)"
    "eh_transfer H (lo_token_out ord) (env_self env) (lo_owner ord) out w1 = Some w2"
    "s1 = s\<lparr>es_ext := w2\<rparr>"
    unfolding swap_and_pay_Inr by blast
  from that [OF ord guards(1-4) total [OF routed] guards(5) this(1-3)] this(4) s'
  show ?thesis by (simp add: es_publish_def)
qed

lemma create_dca_cases:
  assumes "create_dca H env owner tin tout amount chunk interval start min_rate expires s = Inr (i, s')"
  obtains w where
    "env_auth env owner" "0 < amount" "0 < chunk" "chunk \<le> amount" "0 < interval"
    "env_sequence env \<le> start" "0 \<le> min_rate" "tin \<noteq> tout" "start < expires"
    "expires \<le> u32_saturating_add (env_sequence env) MAX_ORDER_LIFETIME"
    "es_next_dca_id s = Some i" "i < u64_max"
    "eh_transfer H tin owner (env_self env) amount (es_ext s) = Some w"
    "s' = s\<lparr>es_dca_orders := (es_dca_orders s)(i \<mapsto> \<lparr>do_owner = owner, do_token_in = tin,
              do_token_out = tout, do_remaining = amount, do_chunk = chunk, do_interval = interval,
              do_next_ledger = start, do_min_rate_e7 = min_rate, do_expires = expires,
              do_status = Open\<rparr>),
            es_next_dca_id := Some (Suc i),
            es_events := es_events s
              @ [DcaCreated i owner tin tout amount chunk interval start min_rate expires],
            es_ext := w\<rparr>"
  using assms by (auto simp: create_dca_def es_publish_def res_simps Let_def)

lemma fill_dca_cases:
  assumes "fill_dca H env i rs m s = Inr (out, s')"
  obtains ord aggregator w1 w2 where
    "es_dca_orders s i = Some ord" "do_status ord = Open" "env_sequence env < do_expires ord"
    "do_next_ledger ord \<le> env_sequence env" "routes_total rs = dca_chunk ord"
    "if do_min_rate_e7 ord > 0 then required_min_out (dca_chunk ord) (do_min_rate_e7 ord) \<le> m
     else 0 < m"
    "es_aggregator s = Some aggregator"
    "eh_swap_restricted H aggregator
       [AuthTransfer (do_token_in ord) (env_self env) aggregator (dca_chunk ord)]
       (env_self env) (do_token_in ord) (do_token_out ord) rs m (es_ext s) = Some (out, w1)"
    "eh_transfer H (do_token_out ord) (env_self env) (do_owner ord) out w1 = Some w2"
    "s' = s\<lparr>es_dca_orders := (es_dca_orders s)(i \<mapsto> dca_after (env_sequence env) ord),
            es_events := es_events s @ [DcaFilled i (do_owner ord) (dca_chunk ord) out
              (do_remaining ord - dca_chunk ord) (do_next_ledger (dca_after (env_sequence env) ord))],
            es_ext := w2\<rparr>"
proof -
  let ?upd = "\<lambda>ord. let order1 = ord\<lparr>do_remaining := do_remaining ord - dca_chunk ord\<rparr>
    in if do_remaining order1 = 0 then order1\<lparr>do_status := Filled\<rparr>
       else order1\<lparr>do_next_ledger := u32_saturating_add (env_sequence env) (do_interval ord)\<rparr>"
  have upd: "?upd ord = dca_after (env_sequence env) ord" for ord
    by (simp add: dca_after_def Let_def)
  have total: "routed_amount_loop rs 0 = Inr amount \<Longrightarrow> routes_total rs = amount" for amount
    using routed_amount_loop_Inr [of rs 0 amount] by simp
  from assms obtain ord s1 where ord: "es_dca_orders s i = Some ord"
    and run: "swap_and_pay H env (do_owner ord) (do_token_in ord) (do_token_out ord) (dca_chunk ord)
      rs m s = Inr (out, s1)"
    and routed: "routed_amount_loop rs 0 = Inr (dca_chunk ord)"
    and guards: "do_status ord = Open" "env_sequence env < do_expires ord"
      "do_next_ledger ord \<le> env_sequence env"
      "if do_min_rate_e7 ord > 0 then required_min_out (dca_chunk ord) (do_min_rate_e7 ord) \<le> m
       else 0 < m"
    and s': "s' = es_publish (DcaFilled i (do_owner ord) (dca_chunk ord) out
        (do_remaining (dca_after (env_sequence env) ord))
        (do_next_ledger (dca_after (env_sequence env) ord)))
      (s1\<lparr>es_dca_orders := (es_dca_orders s1)(i \<mapsto> dca_after (env_sequence env) ord)\<rparr>)"
    unfolding fill_dca_def Let_def dca_chunk_def [symmetric] upd [unfolded Let_def]
    by (clarsimp simp: res_simps simp del: dca_after_simps split del: if_split)
  from run obtain aggregator w1 w2 where
    "es_aggregator s = Some aggregator"
    "eh_swap_restricted H aggregator
       [AuthTransfer (do_token_in ord) (env_self env) aggregator (dca_chunk ord)]
       (env_self env) (do_token_in ord) (do_token_out ord) rs m (es_ext s) = Some (out, w1)"
    "eh_transfer H (do_token_out ord) (env_self env) (do_owner ord) out w1 = Some w2"
    "s1 = s\<lparr>es_ext := w2\<rparr>"
    unfolding swap_and_pay_Inr by blast
  from that [OF ord guards(1-3) total [OF routed] guards(4) this(1-3)] this(4) s'
  show ?thesis by (simp add: es_publish_def)
qed

lemma cancel_dca_cases:
  assumes "cancel_dca H env i s = Inr s'"
  obtains ord w where
    "es_dca_orders s i = Some ord" "env_auth env (do_owner ord)" "do_status ord = Open"
    "eh_transfer H (do_token_in ord) (env_self env) (do_owner ord) (do_remaining ord) (es_ext s) = Some w"
    "s' = s\<lparr>es_dca_orders := (es_dca_orders s)(i \<mapsto> ord\<lparr>do_remaining := 0, do_status := Cancelled\<rparr>),
            es_events := es_events s @ [DcaCancelled i (do_owner ord) (do_remaining ord)],
            es_ext := w\<rparr>"
  using assms by (auto simp: cancel_dca_def es_publish_def res_simps Let_def)

lemma reclaim_expired_dca_cases:
  assumes "reclaim_expired_dca H env i s = Inr s'"
  obtains ord w where
    "es_dca_orders s i = Some ord" "do_status ord = Open" "do_expires ord < env_sequence env"
    "eh_transfer H (do_token_in ord) (env_self env) (do_owner ord) (do_remaining ord) (es_ext s) = Some w"
    "s' = s\<lparr>es_dca_orders := (es_dca_orders s)(i \<mapsto> ord\<lparr>do_remaining := 0, do_status := Expired\<rparr>),
            es_events := es_events s @ [DcaExpired i (do_owner ord) (do_remaining ord)],
            es_ext := w\<rparr>"
  using assms by (auto simp: reclaim_expired_dca_def es_publish_def res_simps Let_def)

section \<open>The deployed escrow\<close>

text \<open>
  One step is one successful entry point of the contract at address \<open>me\<close>, in a ledger
  context where \<open>me\<close> itself signed nothing (a contract address has no signature, and the host
  forbids re-entry) and the sequence number is a \<open>u32\<close>, or a transaction elsewhere that moves the external state by \<open>outside\<close>.
  A run is between two upgrades: \<open>es_upgrade\<close> replaces this code.
\<close>

definition invoked :: "address \<Rightarrow> env \<Rightarrow> bool" where
  "invoked me env \<longleftrightarrow>
     env_self env = me \<and> \<not> env_auth env me \<and> env_sequence env \<le> u32_max"

inductive escrow_step ::
    "'w escrow_host \<Rightarrow> address \<Rightarrow> ('w \<Rightarrow> 'w \<Rightarrow> bool) \<Rightarrow> 'w escrow \<Rightarrow> 'w escrow \<Rightarrow> bool"
  for H me outside where
  step_initialize: "invoked me env \<Longrightarrow> es_initialize env admin aggregator s = Inr s' \<Longrightarrow>
    escrow_step H me outside s s'"
| step_create_limit: "invoked me env \<Longrightarrow>
    create_limit H env owner tin tout amount limit_e7 expires s = Inr (i, s') \<Longrightarrow>
    escrow_step H me outside s s'"
| step_cancel: "invoked me env \<Longrightarrow> cancel H env i s = Inr s' \<Longrightarrow> escrow_step H me outside s s'"
| step_reclaim: "invoked me env \<Longrightarrow> reclaim_expired H env i s = Inr s' \<Longrightarrow>
    escrow_step H me outside s s'"
| step_fill: "invoked me env \<Longrightarrow> fill H env i amount rs m s = Inr (out, s') \<Longrightarrow>
    escrow_step H me outside s s'"
| step_create_dca: "invoked me env \<Longrightarrow>
    create_dca H env owner tin tout amount chunk interval start min_rate expires s = Inr (i, s') \<Longrightarrow>
    escrow_step H me outside s s'"
| step_fill_dca: "invoked me env \<Longrightarrow> fill_dca H env i rs m s = Inr (out, s') \<Longrightarrow>
    escrow_step H me outside s s'"
| step_cancel_dca: "invoked me env \<Longrightarrow> cancel_dca H env i s = Inr s' \<Longrightarrow>
    escrow_step H me outside s s'"
| step_reclaim_dca: "invoked me env \<Longrightarrow> reclaim_expired_dca H env i s = Inr s' \<Longrightarrow>
    escrow_step H me outside s s'"
| step_outside: "outside (es_ext s) w \<Longrightarrow> escrow_step H me outside s (s\<lparr>es_ext := w\<rparr>)"

text \<open>A freshly installed contract, before \<open>initialize\<close>.\<close>

definition escrow_start :: "'w escrow \<Rightarrow> bool" where
  "escrow_start s \<longleftrightarrow> es_admin s = None \<and> es_aggregator s = None \<and> es_next_order_id s = None
     \<and> es_next_dca_id s = None \<and> es_orders s = Map.empty \<and> es_dca_orders s = Map.empty
     \<and> es_events s = []"

section \<open>Well-formed storage\<close>

definition limit_wf :: "address \<Rightarrow> limit_order \<Rightarrow> bool" where
  "limit_wf me ord \<longleftrightarrow> lo_owner ord \<noteq> me \<and> lo_token_in ord \<noteq> lo_token_out ord \<and> 0 < lo_limit_e7 ord
     \<and> 0 \<le> lo_remaining ord \<and> (0 < lo_remaining ord \<longleftrightarrow> lo_status ord = Open)"

definition dca_wf :: "address \<Rightarrow> dca_order \<Rightarrow> bool" where
  "dca_wf me ord \<longleftrightarrow> do_owner ord \<noteq> me \<and> do_token_in ord \<noteq> do_token_out ord \<and> 0 < do_chunk ord
     \<and> 0 < do_interval ord \<and> 0 \<le> do_min_rate_e7 ord
     \<and> 0 \<le> do_remaining ord \<and> (0 < do_remaining ord \<longleftrightarrow> do_status ord = Open)"

definition ids_used :: "nat option \<Rightarrow> nat" where
  "ids_used n = (case n of None \<Rightarrow> 0 | Some k \<Rightarrow> k)"

lemma ids_used_simps [simp]: "ids_used None = 0" "ids_used (Some k) = k"
  by (simp_all add: ids_used_def)

text \<open>What an event says of the escrowed amount of one order.\<close>

fun limit_flow :: "nat \<Rightarrow> escrow_event \<Rightarrow> int" where
  "limit_flow i (OrderCreated j _ _ _ amount _ _) = (if i = j then amount else 0)"
| "limit_flow i (OrderFilled j _ amount _ _) = (if i = j then - amount else 0)"
| "limit_flow i (OrderCancelled j _ refunded) = (if i = j then - refunded else 0)"
| "limit_flow i (OrderExpiredEvent j _ refunded) = (if i = j then - refunded else 0)"
| "limit_flow i _ = 0"

fun dca_flow :: "nat \<Rightarrow> escrow_event \<Rightarrow> int" where
  "dca_flow i (DcaCreated j _ _ _ amount _ _ _ _ _) = (if i = j then amount else 0)"
| "dca_flow i (DcaFilled j _ amount _ _ _) = (if i = j then - amount else 0)"
| "dca_flow i (DcaCancelled j _ refunded) = (if i = j then - refunded else 0)"
| "dca_flow i (DcaExpired j _ refunded) = (if i = j then - refunded else 0)"
| "dca_flow i _ = 0"

definition limit_remaining :: "'w escrow \<Rightarrow> nat \<Rightarrow> int" where
  "limit_remaining s i = (case es_orders s i of None \<Rightarrow> 0 | Some ord \<Rightarrow> lo_remaining ord)"

definition dca_remaining :: "'w escrow \<Rightarrow> nat \<Rightarrow> int" where
  "dca_remaining s i = (case es_dca_orders s i of None \<Rightarrow> 0 | Some ord \<Rightarrow> do_remaining ord)"

definition storage_wf :: "address \<Rightarrow> 'w escrow \<Rightarrow> bool" where
  "storage_wf me s \<longleftrightarrow>
     (\<forall>i ord. es_orders s i = Some ord \<longrightarrow> limit_wf me ord \<and> i < ids_used (es_next_order_id s))
   \<and> (\<forall>i ord. es_dca_orders s i = Some ord \<longrightarrow> dca_wf me ord \<and> i < ids_used (es_next_dca_id s))
   \<and> (es_admin s = None \<longrightarrow> es_next_order_id s = None \<and> es_next_dca_id s = None)"

definition log_agrees :: "'w escrow \<Rightarrow> bool" where
  "log_agrees s \<longleftrightarrow>
     (\<forall>i. (\<Sum>e\<leftarrow>es_events s. limit_flow i e) = limit_remaining s i)
   \<and> (\<forall>i. (\<Sum>e\<leftarrow>es_events s. dca_flow i e) = dca_remaining s i)"

lemma escrow_start_wf: "escrow_start s \<Longrightarrow> storage_wf me s"
  by (simp add: escrow_start_def storage_wf_def)

lemma escrow_start_log: "escrow_start s \<Longrightarrow> log_agrees s"
  by (simp add: escrow_start_def log_agrees_def limit_remaining_def dca_remaining_def)

lemma storage_wf_limitD:
  "storage_wf me s \<Longrightarrow> es_orders s i = Some ord \<Longrightarrow> limit_wf me ord"
  by (simp add: storage_wf_def)

lemma storage_wf_dcaD:
  "storage_wf me s \<Longrightarrow> es_dca_orders s i = Some ord \<Longrightarrow> dca_wf me ord"
  by (simp add: storage_wf_def)

lemma storage_wf_fresh:
  "storage_wf me s \<Longrightarrow> es_next_order_id s = Some i \<Longrightarrow> es_orders s i = None"
  "storage_wf me s \<Longrightarrow> es_next_dca_id s = Some i \<Longrightarrow> es_dca_orders s i = None"
proof -
  assume wf: "storage_wf me s"
  { assume n: "es_next_order_id s = Some i"
    have "es_orders s i \<noteq> Some ord" for ord using wf n by (auto simp: storage_wf_def)
    then show "es_orders s i = None" by (cases "es_orders s i") auto }
  { assume n: "es_next_dca_id s = Some i"
    have "es_dca_orders s i \<noteq> Some ord" for ord using wf n by (auto simp: storage_wf_def)
    then show "es_dca_orders s i = None" by (cases "es_dca_orders s i") auto }
qed

lemma dca_chunk_bounds: "dca_wf me ord \<Longrightarrow> do_status ord = Open \<Longrightarrow>
   0 < dca_chunk ord \<and> dca_chunk ord \<le> do_remaining ord \<and> dca_chunk ord \<le> do_chunk ord"
  by (auto simp: dca_chunk_def dca_wf_def)

lemma initialize_Inr: "es_initialize env admin aggregator s = Inr s' \<longleftrightarrow>
   es_admin s = None \<and> env_auth env admin
   \<and> s' = s\<lparr>es_admin := Some admin, es_aggregator := Some aggregator,
            es_next_order_id := Some 0, es_next_dca_id := Some 0\<rparr>"
  by (auto simp: es_initialize_def res_simps)

text \<open>The shape of one step: at most one order of one kind changes, and it changes the way
  \<open>limit_change\<close> or \<open>dca_change\<close> allow.\<close>

definition limit_change :: "address \<Rightarrow> limit_order option \<Rightarrow> limit_order \<Rightarrow> bool" where
  "limit_change me before ord \<longleftrightarrow> limit_wf me ord \<and>
     (case before of None \<Rightarrow> lo_status ord = Open
      | Some old \<Rightarrow> lo_status old = Open \<and> lo_remaining ord < lo_remaining old
          \<and> lo_owner ord = lo_owner old \<and> lo_token_in ord = lo_token_in old
          \<and> lo_token_out ord = lo_token_out old \<and> lo_limit_e7 ord = lo_limit_e7 old
          \<and> lo_expires ord = lo_expires old)"

definition dca_change :: "address \<Rightarrow> dca_order option \<Rightarrow> dca_order \<Rightarrow> bool" where
  "dca_change me before ord \<longleftrightarrow> dca_wf me ord \<and>
     (case before of None \<Rightarrow> do_status ord = Open
      | Some old \<Rightarrow> do_status old = Open \<and> do_remaining ord < do_remaining old
          \<and> do_owner ord = do_owner old \<and> do_token_in ord = do_token_in old
          \<and> do_token_out ord = do_token_out old \<and> do_chunk ord = do_chunk old
          \<and> do_interval ord = do_interval old \<and> do_min_rate_e7 ord = do_min_rate_e7 old
          \<and> do_expires ord = do_expires old \<and> do_next_ledger old \<le> do_next_ledger ord)"

inductive escrow_shape :: "address \<Rightarrow> 'w escrow \<Rightarrow> 'w escrow \<Rightarrow> bool" for me s s' where
  shape_same: "es_orders s' = es_orders s \<Longrightarrow> es_dca_orders s' = es_dca_orders s \<Longrightarrow>
    es_events s' = es_events s \<Longrightarrow> ids_used (es_next_order_id s') = ids_used (es_next_order_id s) \<Longrightarrow>
    ids_used (es_next_dca_id s') = ids_used (es_next_dca_id s) \<Longrightarrow>
    (es_admin s' = None \<longrightarrow> es_next_order_id s' = None \<and> es_next_dca_id s' = None) \<Longrightarrow>
    escrow_shape me s s'"
| shape_limit: "limit_change me (es_orders s i) ord \<Longrightarrow> es_orders s' = (es_orders s)(i \<mapsto> ord) \<Longrightarrow>
    es_dca_orders s' = es_dca_orders s \<Longrightarrow> es_events s' = es_events s @ [e] \<Longrightarrow>
    (\<And>j. limit_flow j e = (if j = i then lo_remaining ord - limit_remaining s i else 0)) \<Longrightarrow>
    (\<And>j. dca_flow j e = 0) \<Longrightarrow>
    ids_used (es_next_order_id s) \<le> ids_used (es_next_order_id s') \<Longrightarrow>
    i < ids_used (es_next_order_id s') \<Longrightarrow> es_next_dca_id s' = es_next_dca_id s \<Longrightarrow>
    es_admin s' \<noteq> None \<Longrightarrow> escrow_shape me s s'"
| shape_dca: "dca_change me (es_dca_orders s i) ord \<Longrightarrow>
    es_dca_orders s' = (es_dca_orders s)(i \<mapsto> ord) \<Longrightarrow>
    es_orders s' = es_orders s \<Longrightarrow> es_events s' = es_events s @ [e] \<Longrightarrow>
    (\<And>j. dca_flow j e = (if j = i then do_remaining ord - dca_remaining s i else 0)) \<Longrightarrow>
    (\<And>j. limit_flow j e = 0) \<Longrightarrow>
    ids_used (es_next_dca_id s) \<le> ids_used (es_next_dca_id s') \<Longrightarrow>
    i < ids_used (es_next_dca_id s') \<Longrightarrow> es_next_order_id s' = es_next_order_id s \<Longrightarrow>
    es_admin s' \<noteq> None \<Longrightarrow> escrow_shape me s s'"

lemma storage_wf_admin:
  assumes "storage_wf me s"
  shows "es_next_order_id s = Some n \<Longrightarrow> es_admin s \<noteq> None"
    "es_next_dca_id s = Some n \<Longrightarrow> es_admin s \<noteq> None"
    "es_orders s i = Some ord \<Longrightarrow> es_admin s \<noteq> None"
    "es_dca_orders s i = Some dord \<Longrightarrow> es_admin s \<noteq> None"
  using assms by (auto simp: storage_wf_def)

lemma storage_wf_ids:
  assumes "storage_wf me s"
  shows "es_orders s i = Some ord \<Longrightarrow> i < ids_used (es_next_order_id s)"
    "es_dca_orders s i = Some dord \<Longrightarrow> i < ids_used (es_next_dca_id s)"
  using assms by (auto simp: storage_wf_def)

lemma dca_after_change:
  assumes "dca_wf me ord" "do_status ord = Open" "do_next_ledger ord \<le> c" "c \<le> u32_max"
  shows "dca_change me (Some ord) (dca_after c ord)"
  using dca_chunk_bounds [OF assms(1,2)] assms
  by (auto simp: dca_change_def dca_wf_def u32_saturating_add_def)

lemma escrow_step_shape:
  assumes "escrow_step H me outside s s'" and wf: "storage_wf me s"
  shows "escrow_shape me s s'"
  using assms(1)
proof cases
  case (step_initialize env admin aggregator)
  with wf show ?thesis
    by (intro shape_same) (auto simp: initialize_Inr storage_wf_def)
next
  case (step_create_limit env owner tin tout amount limit_e7 expires i)
  then show ?thesis
    using storage_wf_fresh(1) [OF wf, of i] storage_wf_admin(1) [OF wf, of i]
    by (elim create_limit_cases, intro shape_limit [where i = i])
      (auto simp: limit_change_def limit_wf_def limit_remaining_def invoked_def)
next
  case (step_cancel env i)
  from step_cancel(2) show ?thesis
    by (rule cancel_cases, intro shape_limit [where i = i])
      (insert storage_wf_limitD [OF wf] storage_wf_admin(3) [OF wf] storage_wf_ids(1) [OF wf],
       auto simp: limit_change_def limit_wf_def limit_remaining_def)
next
  case (step_reclaim env i)
  from step_reclaim(2) show ?thesis
    by (rule reclaim_expired_cases, intro shape_limit [where i = i])
      (insert storage_wf_limitD [OF wf] storage_wf_admin(3) [OF wf] storage_wf_ids(1) [OF wf],
       auto simp: limit_change_def limit_wf_def limit_remaining_def)
next
  case (step_fill env i amount rs m out)
  from step_fill(2) show ?thesis
    by (rule fill_cases, intro shape_limit [where i = i])
      (insert storage_wf_limitD [OF wf] storage_wf_admin(3) [OF wf] storage_wf_ids(1) [OF wf],
       auto simp: limit_change_def limit_wf_def limit_remaining_def)
next
  case (step_create_dca env owner tin tout amount chunk interval start min_rate expires i)
  then show ?thesis
    using storage_wf_fresh(2) [OF wf, of i] storage_wf_admin(2) [OF wf, of i]
    by (elim create_dca_cases, intro shape_dca [where i = i])
      (auto simp: dca_change_def dca_wf_def dca_remaining_def invoked_def)
next
  case (step_fill_dca env i rs m out)
  from step_fill_dca(2) show ?thesis
    by (rule fill_dca_cases, intro shape_dca [where i = i])
      (insert storage_wf_dcaD [OF wf] storage_wf_admin(4) [OF wf] storage_wf_ids(2) [OF wf],
       insert step_fill_dca(1), auto simp: dca_remaining_def dca_after_change invoked_def)
next
  case (step_cancel_dca env i)
  from step_cancel_dca(2) show ?thesis
    by (rule cancel_dca_cases, intro shape_dca [where i = i])
      (insert storage_wf_dcaD [OF wf] storage_wf_admin(4) [OF wf] storage_wf_ids(2) [OF wf],
       auto simp: dca_change_def dca_wf_def dca_remaining_def)
next
  case (step_reclaim_dca env i)
  from step_reclaim_dca(2) show ?thesis
    by (rule reclaim_expired_dca_cases, intro shape_dca [where i = i])
      (insert storage_wf_dcaD [OF wf] storage_wf_admin(4) [OF wf] storage_wf_ids(2) [OF wf],
       auto simp: dca_change_def dca_wf_def dca_remaining_def)
next
  case (step_outside w)
  with wf show ?thesis by (intro shape_same) (auto simp: storage_wf_def)
qed

section \<open>Invariants of every run\<close>

lemma escrow_shape_wf:
  assumes "escrow_shape me s s'" "storage_wf me s"
  shows "storage_wf me s'"
  using assms
proof cases
  case shape_same
  with assms(2) show ?thesis by (simp add: storage_wf_def)
next
  case (shape_limit i ord e)
  then show ?thesis
    using assms(2) by (fastforce simp: storage_wf_def limit_change_def)
next
  case (shape_dca i ord e)
  then show ?thesis
    using assms(2) by (fastforce simp: storage_wf_def dca_change_def)
qed

lemma escrow_shape_log:
  assumes "escrow_shape me s s'" "log_agrees s"
  shows "log_agrees s'"
  using assms(1)
proof cases
  case shape_same
  with assms(2) show ?thesis by (simp add: log_agrees_def limit_remaining_def dca_remaining_def)
next
  case (shape_limit i ord e)
  have "limit_remaining s' j = limit_remaining s j + limit_flow j e"
    "dca_remaining s' j = dca_remaining s j" for j
    using shape_limit(2,3,5) by (auto simp: limit_remaining_def dca_remaining_def)
  with assms(2) show ?thesis by (simp add: log_agrees_def shape_limit(4,6))
next
  case (shape_dca i ord e)
  have "dca_remaining s' j = dca_remaining s j + dca_flow j e"
    "limit_remaining s' j = limit_remaining s j" for j
    using shape_dca(2,3,5) by (auto simp: limit_remaining_def dca_remaining_def)
  with assms(2) show ?thesis by (simp add: log_agrees_def shape_dca(4,6))
qed

abbreviation escrow_run where
  "escrow_run H me outside \<equiv> (escrow_step H me outside)\<^sup>*\<^sup>*"

lemma escrow_run_wf:
  assumes "escrow_run H me outside s s'" "storage_wf me s"
  shows "storage_wf me s'"
  using assms by (induction) (blast intro: escrow_shape_wf escrow_step_shape)+

lemma escrow_run_log:
  assumes "escrow_run H me outside s s'" "storage_wf me s" "log_agrees s"
  shows "log_agrees s'"
  using assms by (induction) (blast intro: escrow_shape_log escrow_step_shape escrow_run_wf)+

text \<open>How a stored order may change over a run: its terms never, its remainder only down, and
  not at all once it is closed.\<close>

definition limit_evolves :: "limit_order \<Rightarrow> limit_order \<Rightarrow> bool" where
  "limit_evolves old ord \<longleftrightarrow> lo_owner ord = lo_owner old \<and> lo_token_in ord = lo_token_in old
     \<and> lo_token_out ord = lo_token_out old \<and> lo_limit_e7 ord = lo_limit_e7 old
     \<and> lo_expires ord = lo_expires old \<and> lo_remaining ord \<le> lo_remaining old
     \<and> (lo_status old \<noteq> Open \<longrightarrow> ord = old)"

definition dca_evolves :: "dca_order \<Rightarrow> dca_order \<Rightarrow> bool" where
  "dca_evolves old ord \<longleftrightarrow> do_owner ord = do_owner old \<and> do_token_in ord = do_token_in old
     \<and> do_token_out ord = do_token_out old \<and> do_chunk ord = do_chunk old
     \<and> do_interval ord = do_interval old \<and> do_min_rate_e7 ord = do_min_rate_e7 old
     \<and> do_expires ord = do_expires old \<and> do_next_ledger old \<le> do_next_ledger ord
     \<and> do_remaining ord \<le> do_remaining old
     \<and> (do_status old \<noteq> Open \<longrightarrow> ord = old)"

lemma limit_evolves_refl [simp]: "limit_evolves ord ord"
  by (simp add: limit_evolves_def)

lemma dca_evolves_refl [simp]: "dca_evolves ord ord"
  by (simp add: dca_evolves_def)

lemma limit_evolves_trans: "limit_evolves a b \<Longrightarrow> limit_evolves b c \<Longrightarrow> limit_evolves a c"
  by (auto simp: limit_evolves_def)

lemma dca_evolves_trans: "dca_evolves a b \<Longrightarrow> dca_evolves b c \<Longrightarrow> dca_evolves a c"
  by (auto simp: dca_evolves_def)

lemma escrow_shape_evolves:
  assumes "escrow_shape me s s'"
  shows "es_orders s i = Some old \<Longrightarrow> \<exists>ord. es_orders s' i = Some ord \<and> limit_evolves old ord"
    and "es_dca_orders s i = Some dold \<Longrightarrow>
      \<exists>ord. es_dca_orders s' i = Some ord \<and> dca_evolves dold ord"
  using assms
  by (auto elim!: escrow_shape.cases simp: limit_change_def limit_evolves_def dca_change_def dca_evolves_def)

lemma escrow_run_evolves:
  assumes "escrow_run H me outside s s'" "storage_wf me s"
  shows "es_orders s i = Some old \<Longrightarrow> \<exists>ord. es_orders s' i = Some ord \<and> limit_evolves old ord"
    and "es_dca_orders s i = Some dold \<Longrightarrow>
      \<exists>ord. es_dca_orders s' i = Some ord \<and> dca_evolves dold ord"
proof -
  have "(\<forall>old. es_orders s i = Some old \<longrightarrow> (\<exists>ord. es_orders s' i = Some ord \<and> limit_evolves old ord)) \<and>
    (\<forall>old. es_dca_orders s i = Some old \<longrightarrow> (\<exists>ord. es_dca_orders s' i = Some ord \<and> dca_evolves old ord))"
    using assms(1)
  proof induction
    case (step s1 s2)
    have shape: "escrow_shape me s1 s2"
      using step(2) escrow_run_wf [OF step(1) assms(2)] by (rule escrow_step_shape)
    show ?case
      using step.IH escrow_shape_evolves [OF shape, of i]
      by (meson limit_evolves_trans dca_evolves_trans)
  qed simp
  then show "es_orders s i = Some old \<Longrightarrow> \<exists>ord. es_orders s' i = Some ord \<and> limit_evolves old ord"
    and "es_dca_orders s i = Some dold \<Longrightarrow>
      \<exists>ord. es_dca_orders s' i = Some ord \<and> dca_evolves dold ord" by blast+
qed

end
