(* ===== verification/Escrow_Solvency.thy ===== *)
theory Escrow_Solvency
  imports Escrow_Steps Token_Ledger
begin

text \<open>
  The escrow against its world: \<open>escrow_world\<close> states what it relies on (tokens move what they
  say, the aggregator returns at least the minimum and takes at most the routed total), and the
  lemmas inside it show that the contract always holds what its open orders are owed and pays
  every fill at the order's rate. \<open>deployed_escrow_host\<close> is the escrow calling this
  repository's own aggregator; the sublocale shows the aggregator gives the laws over any
  guarded host.
\<close>

section \<open>What the escrow owes\<close>

definition limit_owed :: "'w escrow \<Rightarrow> address \<Rightarrow> nat \<Rightarrow> int" where
  "limit_owed s t i = (case es_orders s i of None \<Rightarrow> 0
     | Some ord \<Rightarrow> if lo_token_in ord = t then lo_remaining ord else 0)"

definition dca_owed :: "'w escrow \<Rightarrow> address \<Rightarrow> nat \<Rightarrow> int" where
  "dca_owed s t i = (case es_dca_orders s i of None \<Rightarrow> 0
     | Some ord \<Rightarrow> if do_token_in ord = t then do_remaining ord else 0)"

definition locked :: "'w escrow \<Rightarrow> address \<Rightarrow> int" where
  "locked s t = (\<Sum>i<ids_used (es_next_order_id s). limit_owed s t i)
     + (\<Sum>i<ids_used (es_next_dca_id s). dca_owed s t i)"

lemma sum_replace_one:
  fixes f g :: "nat \<Rightarrow> int"
  assumes "n \<le> n'" "i < n'" "\<And>j. n \<le> j \<Longrightarrow> f j = 0" "\<And>j. j \<noteq> i \<Longrightarrow> g j = f j"
  shows "(\<Sum>j<n'. g j) = (\<Sum>j<n. f j) + g i - f i"
proof -
  have "(\<Sum>j<n. f j) = (\<Sum>j<n'. f j)"
    by (rule sum.mono_neutral_left) (use assms(1,3) in auto)
  moreover have "(\<Sum>j<n'. f j) = f i + (\<Sum>j\<in>{..<n'} - {i}. f j)"
    "(\<Sum>j<n'. g j) = g i + (\<Sum>j\<in>{..<n'} - {i}. g j)"
    using assms(2) by (simp_all add: sum.remove)
  moreover have "(\<Sum>j\<in>{..<n'} - {i}. g j) = (\<Sum>j\<in>{..<n'} - {i}. f j)"
    by (rule sum.cong) (use assms(4) in auto)
  ultimately show ?thesis by simp
qed

lemma owed_unused:
  assumes "storage_wf me s"
  shows "ids_used (es_next_order_id s) \<le> j \<Longrightarrow> limit_owed s t j = 0"
    "ids_used (es_next_dca_id s) \<le> j \<Longrightarrow> dca_owed s t j = 0"
  using storage_wf_ids [OF assms, of j]
  by (auto simp: limit_owed_def dca_owed_def not_less [symmetric] split: option.split)

lemma locked_limit:
  assumes "storage_wf me s" "es_orders s' = (es_orders s)(i \<mapsto> ord)"
    "es_dca_orders s' = es_dca_orders s" "es_next_dca_id s' = es_next_dca_id s"
    "ids_used (es_next_order_id s) \<le> ids_used (es_next_order_id s')"
    "i < ids_used (es_next_order_id s')"
  shows "locked s' t = locked s t + (if lo_token_in ord = t then lo_remaining ord else 0)
    - limit_owed s t i"
proof -
  have "(\<Sum>j<ids_used (es_next_order_id s'). limit_owed s' t j)
      = (\<Sum>j<ids_used (es_next_order_id s). limit_owed s t j) + limit_owed s' t i - limit_owed s t i"
    by (rule sum_replace_one)
      (use assms owed_unused(1) [OF assms(1)] in \<open>auto simp: limit_owed_def\<close>)
  moreover have "limit_owed s' t i = (if lo_token_in ord = t then lo_remaining ord else 0)"
    using assms(2) by (simp add: limit_owed_def)
  ultimately show ?thesis using assms(3,4) by (simp add: locked_def dca_owed_def)
qed

lemma locked_dca:
  assumes "storage_wf me s" "es_dca_orders s' = (es_dca_orders s)(i \<mapsto> ord)"
    "es_orders s' = es_orders s" "es_next_order_id s' = es_next_order_id s"
    "ids_used (es_next_dca_id s) \<le> ids_used (es_next_dca_id s')"
    "i < ids_used (es_next_dca_id s')"
  shows "locked s' t = locked s t + (if do_token_in ord = t then do_remaining ord else 0)
    - dca_owed s t i"
proof -
  have "(\<Sum>j<ids_used (es_next_dca_id s'). dca_owed s' t j)
      = (\<Sum>j<ids_used (es_next_dca_id s). dca_owed s t j) + dca_owed s' t i - dca_owed s t i"
    by (rule sum_replace_one)
      (use assms owed_unused(2) [OF assms(1)] in \<open>auto simp: dca_owed_def\<close>)
  moreover have "dca_owed s' t i = (if do_token_in ord = t then do_remaining ord else 0)"
    using assms(2) by (simp add: dca_owed_def)
  ultimately show ?thesis using assms(3,4) by (simp add: locked_def limit_owed_def)
qed

section \<open>What it relies on\<close>

locale escrow_world = token_contract "eh_transfer H" balance
  for H :: "'w escrow_host" and balance :: "address \<Rightarrow> address \<Rightarrow> 'w \<Rightarrow> int" +
  fixes protected :: "address \<Rightarrow> bool" and me :: address
  assumes me_protected: "protected me"
    and swap_minimum: "eh_swap_restricted H aggr au me tin tout rs m w = Some (out, w') \<Longrightarrow> m \<le> out"
    and swap_settles: "eh_swap_restricted H aggr au me tin tout rs m w = Some (out, w') \<Longrightarrow>
      protected c \<Longrightarrow>
      balance t c w - (if c = me \<and> t = tin then routes_total rs else 0)
        + (if c = me \<and> t = tout then out else 0) \<le> balance t c w'"
begin

definition keeps :: "'w \<Rightarrow> 'w \<Rightarrow> bool" where
  "keeps w w' \<longleftrightarrow> (\<forall>t. balance t me w \<le> balance t me w')"

definition solvent :: "'w escrow \<Rightarrow> bool" where
  "solvent s \<longleftrightarrow> (\<forall>t. locked s t \<le> balance t me (es_ext s))"

lemma create_limit_solvent:
  assumes "create_limit H env owner tin tout amount limit_e7 expires s = Inr (i, s')"
    "invoked me env" "storage_wf me s" "solvent s"
  shows "solvent s'"
  using assms(1)
proof (rule create_limit_cases)
  fix w
  assume a: "env_auth env owner" "es_next_order_id s = Some i"
    "eh_transfer H tin owner (env_self env) amount (es_ext s) = Some w"
    and s': "s' = s\<lparr>es_orders := (es_orders s)(i \<mapsto> \<lparr>lo_owner = owner, lo_token_in = tin,
              lo_token_out = tout, lo_remaining = amount, lo_limit_e7 = limit_e7,
              lo_expires = expires, lo_status = Open\<rparr>),
            es_next_order_id := Some (Suc i),
            es_events := es_events s @ [OrderCreated i owner tin tout amount limit_e7 expires],
            es_ext := w\<rparr>"
  have "locked s' t = locked s t + (if tin = t then amount else 0) - limit_owed s t i" for t
    using locked_limit [OF assms(3), of s' i] a(2) s' by simp
  moreover have "limit_owed s t i = 0" for t
    using storage_wf_fresh(1) [OF assms(3) a(2)] by (simp add: limit_owed_def)
  moreover have "owner \<noteq> me" using a(1) assms(2) by (auto simp: invoked_def)
  ultimately show ?thesis
    using assms(2,4) transfer_balance [OF a(3)] s' by (auto simp: solvent_def invoked_def)
qed

lemma create_dca_solvent:
  assumes "create_dca H env owner tin tout amount chunk interval start min_rate expires s = Inr (i, s')"
    "invoked me env" "storage_wf me s" "solvent s"
  shows "solvent s'"
  using assms(1)
proof (rule create_dca_cases)
  fix w
  assume a: "env_auth env owner" "es_next_dca_id s = Some i"
    "eh_transfer H tin owner (env_self env) amount (es_ext s) = Some w"
    and s': "s' = s\<lparr>es_dca_orders := (es_dca_orders s)(i \<mapsto> \<lparr>do_owner = owner, do_token_in = tin,
              do_token_out = tout, do_remaining = amount, do_chunk = chunk, do_interval = interval,
              do_next_ledger = start, do_min_rate_e7 = min_rate, do_expires = expires,
              do_status = Open\<rparr>),
            es_next_dca_id := Some (Suc i),
            es_events := es_events s
              @ [DcaCreated i owner tin tout amount chunk interval start min_rate expires],
            es_ext := w\<rparr>"
  have "locked s' t = locked s t + (if tin = t then amount else 0) - dca_owed s t i" for t
    using locked_dca [OF assms(3), of s' i] a(2) s' by simp
  moreover have "dca_owed s t i = 0" for t
    using storage_wf_fresh(2) [OF assms(3) a(2)] by (simp add: dca_owed_def)
  moreover have "owner \<noteq> me" using a(1) assms(2) by (auto simp: invoked_def)
  ultimately show ?thesis
    using assms(2,4) transfer_balance [OF a(3)] s' by (auto simp: solvent_def invoked_def)
qed

text \<open>Every other entry point writes one existing order and pays out at most what it freed.\<close>

lemma limit_release_solvent:
  assumes "storage_wf me s" "solvent s" "es_orders s i = Some ord"
    "es_orders s' = (es_orders s)(i \<mapsto> ord')" "lo_token_in ord' = lo_token_in ord"
    "es_dca_orders s' = es_dca_orders s" "es_next_dca_id s' = es_next_dca_id s"
    "es_next_order_id s' = es_next_order_id s"
    "\<And>t. balance t me (es_ext s) - (if t = lo_token_in ord then lo_remaining ord - lo_remaining ord' else 0)
       \<le> balance t me (es_ext s')"
  shows "solvent s'"
proof -
  have "locked s' t = locked s t - (if t = lo_token_in ord then lo_remaining ord - lo_remaining ord' else 0)"
    for t
    using locked_limit [OF assms(1), of s' i ord'] storage_wf_ids(1) [OF assms(1,3)] assms(3-8)
    by (auto simp: limit_owed_def)
  note change = this
  have "locked s' t \<le> balance t me (es_ext s')" for t
  proof -
    have "locked s t \<le> balance t me (es_ext s)" using assms(2) by (simp add: solvent_def)
    then show ?thesis using change [of t] assms(9) [of t] by linarith
  qed
  then show ?thesis by (simp add: solvent_def)
qed

lemma dca_release_solvent:
  assumes "storage_wf me s" "solvent s" "es_dca_orders s i = Some ord"
    "es_dca_orders s' = (es_dca_orders s)(i \<mapsto> ord')" "do_token_in ord' = do_token_in ord"
    "es_orders s' = es_orders s" "es_next_order_id s' = es_next_order_id s"
    "es_next_dca_id s' = es_next_dca_id s"
    "\<And>t. balance t me (es_ext s) - (if t = do_token_in ord then do_remaining ord - do_remaining ord' else 0)
       \<le> balance t me (es_ext s')"
  shows "solvent s'"
proof -
  have "locked s' t = locked s t - (if t = do_token_in ord then do_remaining ord - do_remaining ord' else 0)"
    for t
    using locked_dca [OF assms(1), of s' i ord'] storage_wf_ids(2) [OF assms(1,3)] assms(3-8)
    by (auto simp: dca_owed_def)
  note change = this
  have "locked s' t \<le> balance t me (es_ext s')" for t
  proof -
    have "locked s t \<le> balance t me (es_ext s)" using assms(2) by (simp add: solvent_def)
    then show ?thesis using change [of t] assms(9) [of t] by linarith
  qed
  then show ?thesis by (simp add: solvent_def)
qed

text \<open>A swap followed by its payout costs the escrow at most the routed total of the input.\<close>

lemma swap_payout_balance:
  assumes "eh_swap_restricted H aggr au me tin tout rs m w = Some (out, w1)"
    "eh_transfer H tout me owner out w1 = Some w2"
  shows "balance t me w - (if t = tin then routes_total rs else 0) \<le> balance t me w2"
  using swap_settles [OF assms(1) me_protected, of t] transfer_balance [OF assms(2), of t me]
    transfer_amount_nonneg [OF assms(2)] by (auto split: if_splits)

text \<open>And the owner's balance rises by what the swap returned.\<close>

lemma swap_payout_owner:
  assumes "eh_swap_restricted H aggr au me tin tout rs m w = Some (out, w1)"
    "eh_transfer H tout me owner out w1 = Some w2" "protected owner" "owner \<noteq> me"
  shows "balance t owner w + (if t = tout then out else 0) \<le> balance t owner w2" "m \<le> out"
  using swap_settles [OF assms(1,3), of t] transfer_balance [OF assms(2), of t owner] assms(4)
    swap_minimum [OF assms(1)] by auto

lemma escrow_step_solvent:
  assumes "escrow_step H me keeps s s'" "storage_wf me s" "solvent s"
  shows "solvent s'"
  using assms(1)
proof cases
  case (step_initialize env admin aggregator)
  then have "es_admin s = None"
    and s': "s' = s\<lparr>es_admin := Some admin, es_aggregator := Some aggregator,
      es_next_order_id := Some 0, es_next_dca_id := Some 0\<rparr>"
    by (auto simp: initialize_Inr)
  then have "es_next_order_id s = None" "es_next_dca_id s = None"
    using assms(2) by (auto simp: storage_wf_def)
  then show ?thesis using assms(3) s' by (simp add: solvent_def locked_def)
next
  case (step_create_limit env owner tin tout amount limit_e7 expires i)
  from step_create_limit(2,1) assms(2,3) show ?thesis by (rule create_limit_solvent)
next
  case (step_cancel env i)
  from step_cancel(2) show ?thesis
  proof (rule cancel_cases)
    fix ord w
    assume o: "es_orders s i = Some ord"
      and tr: "eh_transfer H (lo_token_in ord) (env_self env) (lo_owner ord) (lo_remaining ord) (es_ext s) = Some w"
      and s': "s' = s\<lparr>es_orders := (es_orders s)(i \<mapsto> ord\<lparr>lo_remaining := 0, lo_status := Cancelled\<rparr>),
            es_events := es_events s @ [OrderCancelled i (lo_owner ord) (lo_remaining ord)],
            es_ext := w\<rparr>"
    show ?thesis
      by (rule limit_release_solvent [OF assms(2,3) o,
          where ord' = "ord\<lparr>lo_remaining := 0, lo_status := Cancelled\<rparr>"])
        (use s' transfer_balance [OF tr] transfer_amount_nonneg [OF tr] step_cancel(1) in
          \<open>auto simp: invoked_def\<close>)
  qed
next
  case (step_reclaim env i)
  from step_reclaim(2) show ?thesis
  proof (rule reclaim_expired_cases)
    fix ord w
    assume o: "es_orders s i = Some ord"
      and tr: "eh_transfer H (lo_token_in ord) (env_self env) (lo_owner ord) (lo_remaining ord) (es_ext s) = Some w"
      and s': "s' = s\<lparr>es_orders := (es_orders s)(i \<mapsto> ord\<lparr>lo_remaining := 0, lo_status := Expired\<rparr>),
            es_events := es_events s @ [OrderExpiredEvent i (lo_owner ord) (lo_remaining ord)],
            es_ext := w\<rparr>"
    show ?thesis
      by (rule limit_release_solvent [OF assms(2,3) o,
          where ord' = "ord\<lparr>lo_remaining := 0, lo_status := Expired\<rparr>"])
        (use s' transfer_balance [OF tr] transfer_amount_nonneg [OF tr] step_reclaim(1) in
          \<open>auto simp: invoked_def\<close>)
  qed
next
  case (step_fill env i amount rs m out)
  from step_fill(1) have me: "env_self env = me" by (simp add: invoked_def)
  from step_fill(2) show ?thesis
  proof (rule fill_cases)
    fix ord aggr w1 w2
    assume o: "es_orders s i = Some ord" and total: "routes_total rs = amount"
      and sw: "eh_swap_restricted H aggr [AuthTransfer (lo_token_in ord) (env_self env) aggr amount]
        (env_self env) (lo_token_in ord) (lo_token_out ord) rs m (es_ext s) = Some (out, w1)"
      and pay: "eh_transfer H (lo_token_out ord) (env_self env) (lo_owner ord) out w1 = Some w2"
      and s': "s' = s\<lparr>es_orders := (es_orders s)(i \<mapsto> limit_after amount ord),
            es_events := es_events s @ [OrderFilled i (lo_owner ord) amount out (lo_remaining ord - amount)],
            es_ext := w2\<rparr>"
    show ?thesis
      by (rule limit_release_solvent [OF assms(2,3) o, where ord' = "limit_after amount ord"])
        (simp_all add: s' swap_payout_balance [OF sw [unfolded me] pay [unfolded me], unfolded total]
           cong: if_cong split del: if_split)
  qed
next
  case (step_create_dca env owner tin tout amount chunk interval start min_rate expires i)
  from step_create_dca(2,1) assms(2,3) show ?thesis by (rule create_dca_solvent)
next
  case (step_fill_dca env i rs m out)
  from step_fill_dca(1) have me: "env_self env = me" by (simp add: invoked_def)
  from step_fill_dca(2) show ?thesis
  proof (rule fill_dca_cases)
    fix ord aggr w1 w2
    assume o: "es_dca_orders s i = Some ord" and total: "routes_total rs = dca_chunk ord"
      and sw: "eh_swap_restricted H aggr
        [AuthTransfer (do_token_in ord) (env_self env) aggr (dca_chunk ord)]
        (env_self env) (do_token_in ord) (do_token_out ord) rs m (es_ext s) = Some (out, w1)"
      and pay: "eh_transfer H (do_token_out ord) (env_self env) (do_owner ord) out w1 = Some w2"
      and s': "s' = s\<lparr>es_dca_orders := (es_dca_orders s)(i \<mapsto> dca_after (env_sequence env) ord),
            es_events := es_events s @ [DcaFilled i (do_owner ord) (dca_chunk ord) out
              (do_remaining ord - dca_chunk ord) (do_next_ledger (dca_after (env_sequence env) ord))],
            es_ext := w2\<rparr>"
    show ?thesis
      by (rule dca_release_solvent [OF assms(2,3) o,
          where ord' = "dca_after (env_sequence env) ord"])
        (simp_all add: s' swap_payout_balance [OF sw [unfolded me] pay [unfolded me], unfolded total]
           cong: if_cong split del: if_split)
  qed
next
  case (step_cancel_dca env i)
  from step_cancel_dca(2) show ?thesis
  proof (rule cancel_dca_cases)
    fix ord w
    assume o: "es_dca_orders s i = Some ord"
      and tr: "eh_transfer H (do_token_in ord) (env_self env) (do_owner ord) (do_remaining ord) (es_ext s) = Some w"
      and s': "s' = s\<lparr>es_dca_orders := (es_dca_orders s)(i \<mapsto> ord\<lparr>do_remaining := 0, do_status := Cancelled\<rparr>),
            es_events := es_events s @ [DcaCancelled i (do_owner ord) (do_remaining ord)],
            es_ext := w\<rparr>"
    show ?thesis
      by (rule dca_release_solvent [OF assms(2,3) o,
          where ord' = "ord\<lparr>do_remaining := 0, do_status := Cancelled\<rparr>"])
        (use s' transfer_balance [OF tr] transfer_amount_nonneg [OF tr] step_cancel_dca(1) in
          \<open>auto simp: invoked_def\<close>)
  qed
next
  case (step_reclaim_dca env i)
  from step_reclaim_dca(2) show ?thesis
  proof (rule reclaim_expired_dca_cases)
    fix ord w
    assume o: "es_dca_orders s i = Some ord"
      and tr: "eh_transfer H (do_token_in ord) (env_self env) (do_owner ord) (do_remaining ord) (es_ext s) = Some w"
      and s': "s' = s\<lparr>es_dca_orders := (es_dca_orders s)(i \<mapsto> ord\<lparr>do_remaining := 0, do_status := Expired\<rparr>),
            es_events := es_events s @ [DcaExpired i (do_owner ord) (do_remaining ord)],
            es_ext := w\<rparr>"
    show ?thesis
      by (rule dca_release_solvent [OF assms(2,3) o,
          where ord' = "ord\<lparr>do_remaining := 0, do_status := Expired\<rparr>"])
        (use s' transfer_balance [OF tr] transfer_amount_nonneg [OF tr] step_reclaim_dca(1) in
          \<open>auto simp: invoked_def\<close>)
  qed
next
  case (step_outside w)
  with assms(3) show ?thesis
    by (auto simp: solvent_def keeps_def locked_def limit_owed_def dca_owed_def intro: order_trans)
qed

lemma escrow_run_solvent:
  assumes "escrow_run H me keeps s s'" "storage_wf me s" "solvent s"
  shows "solvent s'"
  using assms
  by induction (blast intro: escrow_step_solvent escrow_run_wf)+

end

section \<open>The deployed escrow\<close>

text \<open>
  The escrow's world when the aggregator at address \<open>aggr\<close> is this repository's: the external
  state of the escrow is the aggregator's state, whose own external state is the ledger. The
  aggregator sees the calling contract as the only address that authorised it, may pull exactly
  what \<open>authorize_as_current_contract\<close> granted, and reads the ledger sequence with \<open>clock\<close>.
\<close>

definition deployed_escrow_host ::
    "('w, 'h) host \<Rightarrow> address \<Rightarrow> ('w \<Rightarrow> nat) \<Rightarrow> 'w agg_state escrow_host" where
  "deployed_escrow_host H aggr clock = \<lparr>
     eh_transfer = (\<lambda>t a b x s. map_option (\<lambda>w. s\<lparr>agg_ext := w\<rparr>) (token_transfer H t a b x (agg_ext s))),
     eh_swap_restricted = (\<lambda>aggregator au user tin tout rs m s.
       if aggregator = aggr \<and> AuthTransfer tin user aggr (routes_total rs) \<in> set au then
         (case swap_restricted H \<lparr>env_auth = (\<lambda>a. a = user), env_self = aggr,
                                  env_sequence = clock (agg_ext s)\<rparr> user tin tout rs m s of
            Inl _ \<Rightarrow> None | Inr r \<Rightarrow> Some r)
       else None)\<rparr>"

locale deployed_escrow = guarded_host H guarded
  for H :: "('w, 'h) host" and guarded :: "address \<Rightarrow> bool" +
  fixes me aggr :: address and clock :: "'w \<Rightarrow> nat"
  assumes me_guarded: "guarded me" and me_aggr: "me \<noteq> aggr"

sublocale deployed_escrow \<subseteq> world: escrow_world "deployed_escrow_host H aggr clock"
  "ext_balance H" "\<lambda>c. guarded c \<and> c \<noteq> aggr" me
proof unfold_locales
  fix t a b x w w' t' c
  assume "eh_transfer (deployed_escrow_host H aggr clock) t a b x w = Some w'"
  then show "ext_balance H t' c w' = ext_balance H t' c w - (if t' = t \<and> c = a then x else 0)
      + (if t' = t \<and> c = b then x else 0)"
    by (auto simp: deployed_escrow_host_def ext_balance_def transfer_balance)
next
  fix t a b x w w'
  assume "eh_transfer (deployed_escrow_host H aggr clock) t a b x w = Some w'"
  then show "0 \<le> x" by (auto simp: deployed_escrow_host_def dest: transfer_amount_nonneg)
next
  show "guarded me \<and> me \<noteq> aggr" using me_guarded me_aggr by simp
next
  fix aggregator au tin tout rs m w out w'
  assume "eh_swap_restricted (deployed_escrow_host H aggr clock) aggregator au me tin tout rs m w
    = Some (out, w')"
  then obtain env where "swap H env me tin tout rs m w = Inr (out, w')"
    by (auto simp: deployed_escrow_host_def swap_restricted_def res_simps split: if_splits sum.splits)
  then show "m \<le> out" by (rule swap_cases)
next
  fix aggregator au tin tout rs m w out w' t c
  assume run: "eh_swap_restricted (deployed_escrow_host H aggr clock) aggregator au me tin tout rs m w
    = Some (out, w')" and c: "guarded c \<and> c \<noteq> aggr"
  let ?env = "\<lparr>env_auth = (\<lambda>a. a = me), env_self = aggr, env_sequence = clock (agg_ext w)\<rparr>"
  have self: "env_self ?env = aggr" by simp
  have sw: "swap H ?env me tin tout rs m w = Inr (out, w')"
    using run by (auto simp: deployed_escrow_host_def swap_restricted_def res_simps
      split: if_splits sum.splits)
  show "ext_balance H t c w - (if c = me \<and> t = tin then routes_total rs else 0)
      + (if c = me \<and> t = tout then out else 0) \<le> ext_balance H t c w'"
    using swap_user_balance [OF sw me_guarded, of t] swap_third_party [OF sw, of c t] self c me_aggr
    by (cases "c = me") (auto simp: ext_balance_def)
qed

text \<open>What happens in the ledger between two calls of the escrow: anything that does not debit it.\<close>

definition escrow_undisturbed :: "('w, 'h) host \<Rightarrow> address \<Rightarrow> 'w agg_state \<Rightarrow> 'w agg_state \<Rightarrow> bool" where
  "escrow_undisturbed H me w w' \<longleftrightarrow> (\<forall>t. ext_balance H t me w \<le> ext_balance H t me w')"

abbreviation deployed_run where
  "deployed_run H me aggr clock \<equiv>
     escrow_run (deployed_escrow_host H aggr clock) me (escrow_undisturbed H me)"

context deployed_escrow
begin

lemma deployed_run_solvent:
  assumes "deployed_run H me aggr clock s s'" "storage_wf me s"
    and "\<forall>t. locked s t \<le> ext_balance H t me (es_ext s)"
  shows "locked s' t \<le> ext_balance H t me (es_ext s')"
proof -
  have "escrow_undisturbed H me = world.keeps"
    by (intro ext) (simp add: escrow_undisturbed_def world.keeps_def)
  with assms world.escrow_run_solvent [of s s'] show ?thesis by (simp add: world.solvent_def)
qed

lemmas deployed_swap_payout = world.swap_payout_owner world.swap_payout_balance

end

lemma deployed_escrowI:
  "guarded_host H guarded \<Longrightarrow> guarded me \<Longrightarrow> me \<noteq> aggr \<Longrightarrow> deployed_escrow H guarded me aggr"
  by (simp add: deployed_escrow_def deployed_escrow_axioms_def)

text \<open>A single order is owed no more than everything together.\<close>

lemma limit_owed_le_locked:
  assumes "storage_wf me s" "es_orders s i = Some ord"
  shows "lo_remaining ord \<le> locked s (lo_token_in ord)"
proof -
  have nonneg: "0 \<le> limit_owed s t j" "0 \<le> dca_owed s t j" for t j
    using assms(1) by (auto simp: limit_owed_def dca_owed_def storage_wf_def limit_wf_def dca_wf_def
        split: option.split)
  have "lo_remaining ord = limit_owed s (lo_token_in ord) i"
    using assms(2) by (simp add: limit_owed_def)
  also have "\<dots> \<le> (\<Sum>j<ids_used (es_next_order_id s). limit_owed s (lo_token_in ord) j)"
    using storage_wf_ids(1) [OF assms] nonneg by (intro member_le_sum) auto
  also have "\<dots> \<le> locked s (lo_token_in ord)"
    by (simp add: locked_def sum_nonneg nonneg)
  finally show ?thesis .
qed

lemma dca_owed_le_locked:
  assumes "storage_wf me s" "es_dca_orders s i = Some ord"
  shows "do_remaining ord \<le> locked s (do_token_in ord)"
proof -
  have nonneg: "0 \<le> limit_owed s t j" "0 \<le> dca_owed s t j" for t j
    using assms(1) by (auto simp: limit_owed_def dca_owed_def storage_wf_def limit_wf_def dca_wf_def
        split: option.split)
  have "do_remaining ord = dca_owed s (do_token_in ord) i"
    using assms(2) by (simp add: dca_owed_def)
  also have "\<dots> \<le> (\<Sum>j<ids_used (es_next_dca_id s). dca_owed s (do_token_in ord) j)"
    using storage_wf_ids(2) [OF assms] nonneg by (intro member_le_sum) auto
  also have "\<dots> \<le> locked s (do_token_in ord)"
    by (simp add: locked_def sum_nonneg nonneg)
  finally show ?thesis .
qed

text \<open>On the concrete ledger: any escrow address, with the aggregator at the next one.\<close>

interpretation ledger_escrow: deployed_escrow "ledger_host (\<lambda>c. c = me)" "\<lambda>c. c = me" me "Suc me" clock
  for me clock
  by unfold_locales auto

end
