(* ===== verification/Escrow_Properties.thy ===== *)
theory Escrow_Properties
  imports Escrow_Solvency Sample_Ledger
begin

text \<open>
  What the order escrow promises over whole runs of its step relation: solvency against this
  repository's aggregator, the owner's right to cancel, the price of a fill, the life of an order,
  the audit trail of its events, and the schedule of DCA orders. The sample run creates a limit
  and a DCA order on the deployment of \<open>Sample_Ledger\<close>, with the escrow at address 1.
\<close>

section \<open>A sample run\<close>

definition escrow_call :: "address \<Rightarrow> nat \<Rightarrow> env" where
  "escrow_call a seq = \<lparr>env_auth = (\<lambda>b. b = a), env_self = 1, env_sequence = seq\<rparr>"

definition sample_escrow_host :: "ledger agg_state escrow_host" where
  "sample_escrow_host = deployed_escrow_host sample_host 2 (\<lambda>w. 100)"

definition escrow_fresh :: "ledger agg_state escrow" where
  "escrow_fresh = \<lparr>es_admin = None, es_aggregator = None, es_next_order_id = None, es_next_dca_id = None,
     es_orders = Map.empty, es_dca_orders = Map.empty, es_wasm = 0, es_events = [], es_ext = sample_agg\<rparr>"

definition escrow_ready :: "ledger agg_state escrow" where
  "escrow_ready = projr (es_initialize (escrow_call 9 50) 9 2 escrow_fresh)"

definition escrow_limit :: "ledger agg_state escrow" where
  "escrow_limit = snd (projr (create_limit sample_escrow_host (escrow_call 3 60) 3 10 11 200 9000000 500
     escrow_ready))"

definition escrow_filled :: "ledger agg_state escrow" where
  "escrow_filled = snd (projr (fill sample_escrow_host (escrow_call 7 70) 0 100 [route_there 100] 90
     escrow_limit))"

definition escrow_dca :: "ledger agg_state escrow" where
  "escrow_dca = snd (projr (create_dca sample_escrow_host (escrow_call 3 80) 3 10 11 300 100 20 90 0 500
     escrow_filled))"

definition escrow_dca_filled :: "ledger agg_state escrow" where
  "escrow_dca_filled = snd (projr (fill_dca sample_escrow_host (escrow_call 7 90) 0 [route_there 100] 1
     escrow_dca))"

lemmas escrow_sample_defs = sample_escrow_host_def deployed_escrow_host_def escrow_fresh_def
  escrow_call_def es_initialize_def create_limit_def fill_def create_dca_def fill_dca_def
  es_transfer_def es_publish_def swap_and_pay_def authorize_swap_as_current_contract_def
  required_min_out_def RATE_SCALE_E7_def MAX_ORDER_LIFETIME_def LEDGERS_PER_DAY_def
  i128_checked_add_def i128_checked_mul_def u64_checked_add_def u32_saturating_add_def
  u32_checked_add_def as_u128_def as_i128_def range_simps

lemma sample_initialize: "es_initialize (escrow_call 9 50) 9 2 escrow_fresh = Inr escrow_ready"
  by (simp add: escrow_ready_def escrow_sample_defs require_auth_def)

lemma escrow_ready_simps [simp]:
  "es_next_order_id escrow_ready = Some 0" "es_next_dca_id escrow_ready = Some 0"
  "es_aggregator escrow_ready = Some 2" "es_orders escrow_ready = Map.empty"
  "es_dca_orders escrow_ready = Map.empty" "es_ext escrow_ready = sample_agg"
  by (simp_all add: escrow_ready_def escrow_sample_defs require_auth_def)

lemma sample_create_limit: "create_limit sample_escrow_host (escrow_call 3 60) 3 10 11 200 9000000 500
   escrow_ready = Inr (0, escrow_limit)"
  by (simp add: escrow_limit_def escrow_sample_defs sample_defs require_auth_def sdiv_pos)


lemma escrow_limit_simps [simp]:
  "es_orders escrow_limit = [0 \<mapsto> \<lparr>lo_owner = 3, lo_token_in = 10, lo_token_out = 11,
     lo_remaining = 200, lo_limit_e7 = 9000000, lo_expires = 500, lo_status = Open\<rparr>]"
  "es_aggregator escrow_limit = Some 2" "es_next_dca_id escrow_limit = Some 0"
  by (simp_all add: escrow_limit_def escrow_sample_defs sample_defs require_auth_def sdiv_pos)

lemma sample_fill: "fill sample_escrow_host (escrow_call 7 70) 0 100 [route_there 100] 90 escrow_limit
   = Inr (100, escrow_filled)"
  by (simp add: escrow_filled_def escrow_limit_def escrow_sample_defs sample_defs aggregator_defs sdiv_pos)

lemma sample_create_dca: "create_dca sample_escrow_host (escrow_call 3 80) 3 10 11 300 100 20 90 0 500
   escrow_filled = Inr (0, escrow_dca)"
  by (simp add: escrow_dca_def escrow_filled_def escrow_limit_def escrow_sample_defs sample_defs
      aggregator_defs sdiv_pos)

lemma sample_fill_dca: "fill_dca sample_escrow_host (escrow_call 7 90) 0 [route_there 100] 1 escrow_dca
   = Inr (100, escrow_dca_filled)"
  by (simp add: escrow_dca_filled_def escrow_dca_def escrow_filled_def escrow_limit_def
      escrow_sample_defs sample_defs aggregator_defs sdiv_pos)



text \<open>The sample run as a run of the step relation.\<close>

lemma escrow_call_invoked: "a \<noteq> 1 \<Longrightarrow> seq \<le> u32_max \<Longrightarrow> invoked 1 (escrow_call a seq)"
  by (simp add: invoked_def escrow_call_def)

lemma escrow_fresh_start: "escrow_start escrow_fresh"
  by (simp add: escrow_start_def escrow_fresh_def)

lemma sample_run_limit:
  "deployed_run sample_host 1 2 (\<lambda>w. 100) escrow_fresh escrow_limit"
proof -
  let ?R = "escrow_step sample_escrow_host 1 (escrow_undisturbed sample_host 1)"
  have "?R escrow_fresh escrow_ready" "?R escrow_ready escrow_limit"
    by (rule escrow_step.step_initialize [OF escrow_call_invoked sample_initialize]
          escrow_step.step_create_limit [OF escrow_call_invoked sample_create_limit];
        simp add: u32_max_def)+
  then show ?thesis by (simp add: sample_escrow_host_def)
qed

lemma sample_run_filled:
  "deployed_run sample_host 1 2 (\<lambda>w. 100) escrow_limit escrow_filled"
proof -
  let ?R = "escrow_step sample_escrow_host 1 (escrow_undisturbed sample_host 1)"
  have "?R escrow_limit escrow_filled"
    by (rule escrow_step.step_fill [OF escrow_call_invoked sample_fill]; simp add: u32_max_def)
  then show ?thesis by (simp add: sample_escrow_host_def)
qed

lemmas sample_run = rtranclp_trans [OF sample_run_limit sample_run_filled]

lemma sample_dca_wf: "storage_wf 1 escrow_dca"
proof -
  let ?R = "escrow_step sample_escrow_host 1 (escrow_undisturbed sample_host 1)"
  have "?R escrow_filled escrow_dca"
    by (rule escrow_step.step_create_dca [OF escrow_call_invoked sample_create_dca]; simp add: u32_max_def)
  then have "deployed_run sample_host 1 2 (\<lambda>w. 100) escrow_fresh escrow_dca"
    using sample_run by (simp add: sample_escrow_host_def)
  then show ?thesis using escrow_start_wf [OF escrow_fresh_start] by (rule escrow_run_wf)
qed

lemma sample_dca_order: "es_dca_orders escrow_dca 0 = Some \<lparr>do_owner = 3, do_token_in = 10,
   do_token_out = 11, do_remaining = 300, do_chunk = 100, do_interval = 20, do_next_ledger = 90,
   do_min_rate_e7 = 0, do_expires = 500, do_status = Open\<rparr>"
  by (simp add: escrow_dca_def escrow_filled_def escrow_limit_def escrow_sample_defs sample_defs
      aggregator_defs sdiv_pos)

lemma sample_dca_filled_order: "es_dca_orders escrow_dca_filled 0 = Some \<lparr>do_owner = 3,
   do_token_in = 10, do_token_out = 11, do_remaining = 200, do_chunk = 100, do_interval = 20,
   do_next_ledger = 110, do_min_rate_e7 = 0, do_expires = 500, do_status = Open\<rparr>"
  by (simp add: escrow_dca_filled_def escrow_dca_def escrow_filled_def escrow_limit_def
      escrow_sample_defs sample_defs aggregator_defs sdiv_pos)

definition escrow_dca_twice :: "ledger agg_state escrow" where
  "escrow_dca_twice = snd (projr (fill_dca sample_escrow_host (escrow_call 7 110) 0 [route_there 100] 1
     escrow_dca_filled))"

lemma sample_fill_dca2: "fill_dca sample_escrow_host (escrow_call 7 110) 0 [route_there 100] 1
   escrow_dca_filled = Inr (100, escrow_dca_twice)"
  by (simp add: escrow_dca_twice_def escrow_dca_filled_def escrow_dca_def escrow_filled_def
      escrow_limit_def escrow_sample_defs sample_defs aggregator_defs sdiv_pos)

section \<open>Custody\<close>

text \<open>C1: The escrow is always solvent. Over every run of successful calls of a freshly installed
  escrow that calls this repository's aggregator, on a host whose tokens move what they say and
  whose pools cannot debit a contract that authorised nothing, the escrow's balance of every token
  covers the remaining amounts of all its limit and DCA orders in that token.\<close>

theorem escrow_always_solvent:
  assumes "guarded_host H guarded" "guarded me" "me \<noteq> aggr"
    and "escrow_start s0" "\<forall>t. 0 \<le> ext_balance H t me (es_ext s0)"
    and "deployed_run H me aggr clock s0 s"
  shows "locked s t \<le> ext_balance H t me (es_ext s)"
proof (rule deployed_escrow.deployed_run_solvent [OF deployed_escrowI [OF assms(1-3)] assms(6)])
  show "storage_wf me s0" by (rule escrow_start_wf [OF assms(4)])
  show "\<forall>t. locked s0 t \<le> ext_balance H t me (es_ext s0)"
    using assms(4,5) by (simp add: locked_def escrow_start_def)
qed

theorem escrow_always_solvent_witness:
  "locked escrow_filled 10 \<le> ext_balance sample_host 10 1 (es_ext escrow_filled)"
  by (rule escrow_always_solvent [OF sample_guarded _ _ escrow_fresh_start _ sample_run])
    (simp_all add: sample_guard_def ext_balance_def escrow_fresh_def sample_defs)




section \<open>Fills\<close>

lemma required_min_out_floor:
  assumes "0 < amount" "0 \<le> limit_e7"
  shows "required_min_out amount limit_e7 =
    (if amount * limit_e7 \<le> i128_max then amount * limit_e7 div 10000000 else i128_max)"
proof -
  have "0 \<le> amount * limit_e7" using assms by simp
  then show ?thesis
    by (simp add: required_min_out_def i128_checked_mul_def in_i128_def sdiv_pos RATE_SCALE_E7_def)
qed

text \<open>C2: A successful \<open>fill\<close> of a stored limit order happens while the order is open and not
  expired, for a positive amount within the remainder; it pays the owner at least the limit price
  for that amount (rounded down to a unit), takes at most that amount of the input token from the
  escrow and nothing of any other token, and reduces the remainder by exactly the amount, closing
  the order when nothing is left. Any caller may fill: the guarantee does not rest on who calls.\<close>

theorem fill_pays_limit_price:
  assumes "guarded_host H guarded" "guarded me" "me \<noteq> aggr" "storage_wf me s" "invoked me env"
    and run: "fill (deployed_escrow_host H aggr clock) env i amount routes min_out s = Inr (out, s')"
    and ord: "es_orders s i = Some ord" "guarded (lo_owner ord)" "lo_owner ord \<noteq> aggr"
  shows "lo_status ord = Open \<and> env_sequence env < lo_expires ord
    \<and> 0 < amount \<and> amount \<le> lo_remaining ord
    \<and> (if amount * lo_limit_e7 ord \<le> i128_max then amount * lo_limit_e7 ord div 10000000 else i128_max) \<le> out
    \<and> ext_balance H (lo_token_out ord) (lo_owner ord) (es_ext s) + out
        \<le> ext_balance H (lo_token_out ord) (lo_owner ord) (es_ext s')
    \<and> (\<forall>t. ext_balance H t me (es_ext s) - (if t = lo_token_in ord then amount else 0)
        \<le> ext_balance H t me (es_ext s'))
    \<and> es_orders s' = (es_orders s)(i \<mapsto>
        ord\<lparr>lo_remaining := lo_remaining ord - amount,
            lo_status := (if lo_remaining ord = amount then Filled else Open)\<rparr>)"
  using run
proof (rule fill_cases)
  fix ord' aggregator w1 w2
  assume o: "es_orders s i = Some ord'"
    and g: "lo_status ord' = Open" "env_sequence env < lo_expires ord'" "0 < amount"
      "amount \<le> lo_remaining ord'" "routes_total routes = amount"
      "required_min_out amount (lo_limit_e7 ord') \<le> min_out"
    and sw: "eh_swap_restricted (deployed_escrow_host H aggr clock) aggregator
       [AuthTransfer (lo_token_in ord') (env_self env) aggregator amount]
       (env_self env) (lo_token_in ord') (lo_token_out ord') routes min_out (es_ext s) = Some (out, w1)"
    and pay: "eh_transfer (deployed_escrow_host H aggr clock) (lo_token_out ord') (env_self env)
       (lo_owner ord') out w1 = Some w2"
    and s': "s' = s\<lparr>es_orders := (es_orders s)(i \<mapsto> limit_after amount ord'),
            es_events := es_events s @ [OrderFilled i (lo_owner ord') amount out (lo_remaining ord' - amount)],
            es_ext := w2\<rparr>"
  have eq: "ord' = ord" using o ord(1) by simp
  have me: "env_self env = me" using assms(5) by (simp add: invoked_def)
  have wf: "limit_wf me ord" using assms(4) ord(1) by (rule storage_wf_limitD)
  note world = deployed_escrowI [OF assms(1-3)]
  note payout = deployed_escrow.deployed_swap_payout [OF world sw [unfolded me] pay [unfolded me]]
  have own: "guarded (lo_owner ord') \<and> lo_owner ord' \<noteq> aggr" "lo_owner ord' \<noteq> me"
    using ord(2,3) wf eq by (auto simp: limit_wf_def)
  have "required_min_out amount (lo_limit_e7 ord) \<le> out"
    using payout(2) [OF own] g(6) eq by simp
  then have price: "(if amount * lo_limit_e7 ord \<le> i128_max then amount * lo_limit_e7 ord div 10000000
      else i128_max) \<le> out"
    using required_min_out_floor [of amount "lo_limit_e7 ord"] g(3) wf by (simp add: limit_wf_def)
  have owner: "ext_balance H (lo_token_out ord) (lo_owner ord) (es_ext s) + out
      \<le> ext_balance H (lo_token_out ord) (lo_owner ord) (es_ext s')"
    using payout(1) [OF own, of "lo_token_out ord"] eq s' by simp
  have mine: "\<forall>t. ext_balance H t me (es_ext s) - (if t = lo_token_in ord then amount else 0)
      \<le> ext_balance H t me (es_ext s')"
    using payout(3) unfolding eq g(5) s' by (simp split del: if_split)
  have "limit_after amount ord = ord\<lparr>lo_remaining := lo_remaining ord - amount,
            lo_status := (if lo_remaining ord = amount then Filled else Open)\<rparr>"
    using g(1) eq by (cases ord) (simp add: limit_after_def)
  then have "es_orders s' = (es_orders s)(i \<mapsto> ord\<lparr>lo_remaining := lo_remaining ord - amount,
            lo_status := (if lo_remaining ord = amount then Filled else Open)\<rparr>)"
    using s' eq by simp
  with g eq price owner mine show ?thesis by blast
qed

theorem fill_pays_limit_price_witness:
  "lo_remaining (the (es_orders escrow_filled 0)) = 100 \<and> (90::int) \<le> 100
    \<and> ext_balance sample_host 11 3 (es_ext escrow_limit) + 100 \<le> ext_balance sample_host 11 3 (es_ext escrow_filled)"
proof -
  have wf: "storage_wf 1 escrow_limit"
    using sample_run_limit escrow_start_wf [OF escrow_fresh_start] by (rule escrow_run_wf)
  have inv: "invoked 1 (escrow_call 7 70)" by (rule escrow_call_invoked) (simp_all add: u32_max_def)
  have ord: "es_orders escrow_limit 0 = Some \<lparr>lo_owner = 3, lo_token_in = 10, lo_token_out = 11,
     lo_remaining = 200, lo_limit_e7 = 9000000, lo_expires = 500, lo_status = Open\<rparr>" by simp
  from fill_pays_limit_price [OF sample_guarded _ _ wf inv sample_fill [unfolded sample_escrow_host_def] ord]
  show ?thesis by (simp add: sample_guard_def)
qed


section \<open>The life of an order\<close>

text \<open>C9: An order's terms never change and a closed order is final: over every run from
  well-formed storage, a stored limit or DCA order stays stored with the same owner, tokens, price,
  chunk, interval and expiry, its remainder never grows, a DCA order's next ledger never moves back,
  and once it is filled, cancelled or expired nothing about it changes again.\<close>

theorem order_terms_final:
  assumes "escrow_run H me outside s s'" "storage_wf me s"
  shows "(case es_orders s i of None \<Rightarrow> True
      | Some old \<Rightarrow> \<exists>ord. es_orders s' i = Some ord \<and> limit_evolves old ord)
    \<and> (case es_dca_orders s i of None \<Rightarrow> True
      | Some old \<Rightarrow> \<exists>ord. es_dca_orders s' i = Some ord \<and> dca_evolves old ord)"
  using escrow_run_evolves [OF assms, of i] by (auto split: option.split)

theorem order_terms_final_witness:
  "\<exists>ord. es_orders escrow_filled 0 = Some ord \<and> lo_owner ord = 3 \<and> lo_limit_e7 ord = 9000000
    \<and> lo_remaining ord \<le> 200"
proof -
  have wf: "storage_wf 1 escrow_limit"
    using sample_run_limit escrow_start_wf [OF escrow_fresh_start] by (rule escrow_run_wf)
  from order_terms_final [OF sample_run_filled wf, of 0] show ?thesis
    by (auto simp: limit_evolves_def)
qed

text \<open>The event log is a full account: over every run of a freshly installed escrow, for each
  order id the amounts created, less the amounts filled, refunded and reclaimed in the published
  events, add up to the order's stored remainder (zero for an id never used).\<close>

lemma events_account_for_orders:
  assumes "escrow_start s0" "escrow_run H me outside s0 s"
  shows "(\<Sum>e\<leftarrow>es_events s. limit_flow i e) = limit_remaining s i
    \<and> (\<Sum>e\<leftarrow>es_events s. dca_flow i e) = dca_remaining s i"
  using escrow_run_log [OF assms(2) escrow_start_wf [OF assms(1)] escrow_start_log [OF assms(1)]]
  by (simp add: log_agrees_def)

lemma events_account_for_orders_witness:
  "(\<Sum>e\<leftarrow>es_events escrow_filled. limit_flow 0 e) = limit_remaining escrow_filled 0"
  using events_account_for_orders [OF escrow_fresh_start sample_run, of 0] by simp

text \<open>C31: Storage stays well-formed: over every run of a freshly installed escrow, each stored
  order has a proper owner, distinct tokens and a positive price (or chunk and interval), is open
  exactly while something remains, has an id below the counter, and the counters exist only after
  \<open>initialize\<close>.\<close>

theorem escrow_storage_wf:
  assumes "escrow_start s0" "escrow_run H me outside s0 s"
  shows "storage_wf me s"
  using assms(2) escrow_start_wf [OF assms(1)] by (rule escrow_run_wf)

theorem escrow_storage_wf_witness: "storage_wf 1 escrow_filled"
  by (rule escrow_storage_wf [OF escrow_fresh_start sample_run])

text \<open>No ledger lets an order be both filled and reclaimed: an open limit order can be filled
  only strictly before its expiry ledger and reclaimed only strictly after it. In the expiry ledger
  itself both calls fail (only the owner's \<open>cancel\<close> works).\<close>

lemma fill_and_reclaim_windows:
  assumes "es_orders s i = Some ord" "lo_status ord = Open"
  shows "(if env_sequence env < lo_expires ord then True
          else fill H env i amount routes m s = Inl (Error EE_OrderExpired))
    \<and> (if lo_expires ord < env_sequence env then True
       else reclaim_expired H env i s = Inl (Error EE_OrderNotExpired))"
  using assms by (simp add: fill_def reclaim_expired_def)

lemma fill_and_reclaim_windows_witness:
  "fill sample_escrow_host (escrow_call 7 500) 0 100 [route_there 100] 90 escrow_limit
     = Inl (Error EE_OrderExpired)
   \<and> reclaim_expired sample_escrow_host (escrow_call 7 500) 0 escrow_limit = Inl (Error EE_OrderNotExpired)"
proof -
  have ord: "es_orders escrow_limit 0 = Some \<lparr>lo_owner = 3, lo_token_in = 10, lo_token_out = 11,
     lo_remaining = 200, lo_limit_e7 = 9000000, lo_expires = 500, lo_status = Open\<rparr>" by simp
  from fill_and_reclaim_windows [OF ord, of "escrow_call 7 500"] show ?thesis
    by (simp add: escrow_call_def)
qed

section \<open>DCA orders\<close>

text \<open>A successful \<open>fill_dca\<close> sells exactly one chunk (or the last, smaller remainder) of an
  open, due, unexpired order, at no less than its minimum rate when it has one and for a positive
  output otherwise, pays the owner what the swap returned, and schedules the next chunk one interval
  after the current ledger (saturating), or closes the order.\<close>

lemma fill_dca_guarantee:
  assumes "guarded_host H guarded" "guarded me" "me \<noteq> aggr" "storage_wf me s" "invoked me env"
    and run: "fill_dca (deployed_escrow_host H aggr clock) env i routes min_out s = Inr (out, s')"
    and ord: "es_dca_orders s i = Some ord" "guarded (do_owner ord)" "do_owner ord \<noteq> aggr"
  shows "let chunk = min (do_remaining ord) (do_chunk ord) in
    do_status ord = Open \<and> do_next_ledger ord \<le> env_sequence env \<and> env_sequence env < do_expires ord
    \<and> 0 < chunk
    \<and> (if 0 < do_min_rate_e7 ord then required_min_out chunk (do_min_rate_e7 ord) \<le> out else 0 < out)
    \<and> ext_balance H (do_token_out ord) (do_owner ord) (es_ext s) + out
        \<le> ext_balance H (do_token_out ord) (do_owner ord) (es_ext s')
    \<and> (\<forall>t. ext_balance H t me (es_ext s) - (if t = do_token_in ord then chunk else 0)
        \<le> ext_balance H t me (es_ext s'))
    \<and> es_dca_orders s' = (es_dca_orders s)(i \<mapsto>
        (if do_remaining ord = chunk then ord\<lparr>do_remaining := 0, do_status := Filled\<rparr>
         else ord\<lparr>do_remaining := do_remaining ord - chunk,
                  do_next_ledger := min (env_sequence env + do_interval ord) u32_max\<rparr>))"
  using run
proof (rule fill_dca_cases)
  fix ord' aggregator w1 w2
  assume o: "es_dca_orders s i = Some ord'"
    and g: "do_status ord' = Open" "env_sequence env < do_expires ord'"
      "do_next_ledger ord' \<le> env_sequence env" "routes_total routes = dca_chunk ord'"
      "if do_min_rate_e7 ord' > 0 then required_min_out (dca_chunk ord') (do_min_rate_e7 ord') \<le> min_out
       else 0 < min_out"
    and sw: "eh_swap_restricted (deployed_escrow_host H aggr clock) aggregator
       [AuthTransfer (do_token_in ord') (env_self env) aggregator (dca_chunk ord')]
       (env_self env) (do_token_in ord') (do_token_out ord') routes min_out (es_ext s) = Some (out, w1)"
    and pay: "eh_transfer (deployed_escrow_host H aggr clock) (do_token_out ord') (env_self env)
       (do_owner ord') out w1 = Some w2"
    and s': "s' = s\<lparr>es_dca_orders := (es_dca_orders s)(i \<mapsto> dca_after (env_sequence env) ord'),
            es_events := es_events s @ [DcaFilled i (do_owner ord') (dca_chunk ord') out
              (do_remaining ord' - dca_chunk ord') (do_next_ledger (dca_after (env_sequence env) ord'))],
            es_ext := w2\<rparr>"
  have eq: "ord' = ord" using o ord(1) by simp
  have me: "env_self env = me" using assms(5) by (simp add: invoked_def)
  have wf: "dca_wf me ord" using assms(4) ord(1) by (rule storage_wf_dcaD)
  have chunk: "dca_chunk ord = min (do_remaining ord) (do_chunk ord)" by (simp add: dca_chunk_def)
  note payout = deployed_escrow.deployed_swap_payout [OF deployed_escrowI [OF assms(1-3)]
    sw [unfolded me] pay [unfolded me]]
  have own: "guarded (do_owner ord') \<and> do_owner ord' \<noteq> aggr" "do_owner ord' \<noteq> me"
    using ord(2,3) wf eq by (auto simp: dca_wf_def)
  have rate: "if 0 < do_min_rate_e7 ord then required_min_out (dca_chunk ord) (do_min_rate_e7 ord) \<le> out
      else 0 < out"
    using payout(2) [OF own] g(5) eq by (auto split: if_splits)
  have owner: "ext_balance H (do_token_out ord) (do_owner ord) (es_ext s) + out
      \<le> ext_balance H (do_token_out ord) (do_owner ord) (es_ext s')"
    using payout(1) [OF own, of "do_token_out ord"] eq s' by simp
  have mine: "\<forall>t. ext_balance H t me (es_ext s) - (if t = do_token_in ord then dca_chunk ord else 0)
      \<le> ext_balance H t me (es_ext s')"
    using payout(3) unfolding eq g(4) s' by (simp split del: if_split)
  have upd: "es_dca_orders s' = (es_dca_orders s)(i \<mapsto>
      (if do_remaining ord = dca_chunk ord then ord\<lparr>do_remaining := 0, do_status := Filled\<rparr>
       else ord\<lparr>do_remaining := do_remaining ord - dca_chunk ord,
                do_next_ledger := min (env_sequence env + do_interval ord) u32_max\<rparr>))"
    using s' eq by (simp add: dca_after_def Let_def u32_saturating_add_def)
  show ?thesis
    using g(1-3) dca_chunk_bounds [OF wf] rate owner mine upd unfolding chunk Let_def eq by blast
qed

lemma fill_dca_guarantee_witness:
  "do_next_ledger (the (es_dca_orders escrow_dca_filled 0)) = 110
    \<and> ext_balance sample_host 11 3 (es_ext escrow_dca) + 100
        \<le> ext_balance sample_host 11 3 (es_ext escrow_dca_filled)"
proof -
  have inv: "invoked 1 (escrow_call 7 90)" by (rule escrow_call_invoked) (simp_all add: u32_max_def)
  from fill_dca_guarantee [OF sample_guarded _ _ sample_dca_wf inv
      sample_fill_dca [unfolded sample_escrow_host_def] sample_dca_order]
  show ?thesis by (simp add: sample_guard_def Let_def escrow_call_def u32_max_def)
qed

text \<open>C10: Chunks of a DCA order are at least one interval of ledgers apart: after a chunk of an
  order was filled, whatever else happens to the escrow in between, a later \<open>fill_dca\<close> of the same
  order succeeds only in a ledger at least \<open>interval\<close> after it (up to the saturation of \<open>u32\<close>).\<close>

theorem dca_chunks_spaced:
  assumes "storage_wf me s1" "invoked me env1"
    and "fill_dca H env1 i routes1 m1 s1 = Inr (out1, s2)"
    and "escrow_run H me outside s2 s3"
    and "fill_dca H env2 i routes2 m2 s3 = Inr (out2, s4)"
    and "es_dca_orders s1 i = Some ord"
  shows "min (env_sequence env1 + do_interval ord) u32_max \<le> env_sequence env2"
proof -
  have wf2: "storage_wf me s2"
    by (rule escrow_run_wf [OF r_into_rtranclp [of "escrow_step H me outside"] assms(1)])
      (rule escrow_step.step_fill_dca [OF assms(2,3)])
  have after: "es_dca_orders s2 i = Some (dca_after (env_sequence env1) ord)"
    using assms(3) by (rule fill_dca_cases) (use assms(6) in simp)
  obtain ord3 where ord3: "es_dca_orders s3 i = Some ord3"
    "dca_evolves (dca_after (env_sequence env1) ord) ord3"
    using escrow_run_evolves(2) [OF assms(4) wf2 after] by blast
  have due: "do_status ord3 = Open" "do_next_ledger ord3 \<le> env_sequence env2"
    using assms(5) by (rule fill_dca_cases, use ord3(1) in simp)+
  have "do_remaining ord \<noteq> dca_chunk ord"
    using ord3(2) due(1) by (auto simp: dca_evolves_def)
  with ord3(2) due show ?thesis by (auto simp: dca_evolves_def u32_saturating_add_def)
qed

theorem dca_chunks_spaced_witness:
  "fill_dca sample_escrow_host (escrow_call 7 109) 0 [route_there 100] 1 escrow_dca_filled
     = Inl (Error EE_ChunkNotDue)
   \<and> fill_dca sample_escrow_host (escrow_call 7 110) 0 [route_there 100] 1 escrow_dca_filled
     = Inr (100, escrow_dca_twice)
   \<and> env_sequence (escrow_call 7 90) + 20 \<le> env_sequence (escrow_call 7 110)"
proof -
  have inv: "invoked 1 (escrow_call 7 90)" by (rule escrow_call_invoked) (simp_all add: u32_max_def)
  have "env_sequence (escrow_call 7 90) + 20 \<le> env_sequence (escrow_call 7 110)"
    using dca_chunks_spaced [OF sample_dca_wf inv sample_fill_dca rtranclp.rtrancl_refl sample_fill_dca2
      sample_dca_order] by (simp add: escrow_call_def u32_max_def)
  moreover have "fill_dca sample_escrow_host (escrow_call 7 109) 0 [route_there 100] 1 escrow_dca_filled
     = Inl (Error EE_ChunkNotDue)"
    by (simp add: escrow_call_def fill_dca_def sample_dca_filled_order)
  ultimately show ?thesis using sample_fill_dca2 by blast
qed

end
