(* ===== verification/Vault.thy ===== *)
theory Vault
  imports Contract_Types
begin

text \<open>
  The arbitrage vault (\<open>contracts/vault/src/\<close>: \<open>storage.rs\<close>, \<open>auth.rs\<close>, \<open>admin.rs\<close>,
  \<open>execute.rs\<close>, \<open>errors.rs\<close> and the entry points of \<open>lib.rs\<close>). The tokens and the
  aggregator it calls are the fields of \<open>vault_host\<close>.
\<close>

datatype vault_error =
    VE_InvalidAmount
  | VE_InvalidMinimumOut
  | VE_InvalidAllowanceExpiry
  | VE_UnauthorizedCaller

type_synonym 'a vault_res = "(vault_error, 'a) res"

text \<open>Instance storage \<open>Admin\<close>, persistent storage \<open>Caller(address)\<close> (present with value
  true, or absent), the installed WASM and the external state.\<close>

record 'w vault =
  va_admin :: "address option"
  va_callers :: "address set"
  va_wasm :: nat
  va_ext :: 'w

text \<open>\<open>vh_transfer token from to amount\<close>, \<open>vh_approve token from spender amount expiration\<close>,
  \<open>vh_transfer_from token spender from to amount\<close>, and \<open>vh_round_trip aggregator user base
  bridge amount leg_out leg_back min\<close>, the call of \<open>AggregatorContractClient\<close>.\<close>

record 'w vault_host =
  vh_transfer :: "address \<Rightarrow> address \<Rightarrow> address \<Rightarrow> int \<Rightarrow> 'w \<Rightarrow> 'w option"
  vh_approve :: "address \<Rightarrow> address \<Rightarrow> address \<Rightarrow> int \<Rightarrow> nat \<Rightarrow> 'w \<Rightarrow> 'w option"
  vh_transfer_from :: "address \<Rightarrow> address \<Rightarrow> address \<Rightarrow> address \<Rightarrow> int \<Rightarrow> 'w \<Rightarrow> 'w option"
  vh_round_trip :: "address \<Rightarrow> address \<Rightarrow> address \<Rightarrow> address \<Rightarrow> int \<Rightarrow> sub_route list \<Rightarrow> sub_route list
    \<Rightarrow> int \<Rightarrow> 'w \<Rightarrow> (int \<times> 'w) option"

section \<open>Storage, authorisation and administration\<close>

definition va_get_admin :: "'w vault \<Rightarrow> address vault_res" where
  "va_get_admin s = or_fail (va_admin s) (Panicked ''Not initialized'')"

definition va_is_caller :: "address \<Rightarrow> 'w vault \<Rightarrow> bool" where
  "va_is_caller a s \<longleftrightarrow> a \<in> va_callers s"

definition va_set_caller :: "address \<Rightarrow> bool \<Rightarrow> 'w vault \<Rightarrow> 'w vault" where
  "va_set_caller a allowed s =
     s\<lparr>va_callers := (if allowed then insert a (va_callers s) else va_callers s - {a})\<rparr>"

definition va_require_admin :: "env \<Rightarrow> 'w vault \<Rightarrow> address vault_res" where
  "va_require_admin env s =
     and_then (va_get_admin s) (\<lambda>admin.
     and_then (require_auth env admin) (\<lambda>_. Inr admin))"

definition va_require_caller :: "env \<Rightarrow> address \<Rightarrow> 'w vault \<Rightarrow> unit vault_res" where
  "va_require_caller env caller s =
     and_then (require_auth env caller) (\<lambda>_.
     ensure (va_is_caller caller s) (Error VE_UnauthorizedCaller))"

definition va_initialize :: "env \<Rightarrow> address \<Rightarrow> 'w vault \<Rightarrow> 'w vault vault_res" where
  "va_initialize env admin s =
     and_then (require_auth env admin) (\<lambda>_.
     and_then (ensure (va_admin s = None) (Panicked ''Already initialized'')) (\<lambda>_.
     Inr (s\<lparr>va_admin := Some admin\<rparr>)))"

definition va_upgrade :: "env \<Rightarrow> nat \<Rightarrow> 'w vault \<Rightarrow> 'w vault vault_res" where
  "va_upgrade env new_wasm_hash s =
     and_then (va_require_admin env s) (\<lambda>_. Inr (s\<lparr>va_wasm := new_wasm_hash\<rparr>))"

definition add_caller :: "env \<Rightarrow> address \<Rightarrow> 'w vault \<Rightarrow> 'w vault vault_res" where
  "add_caller env caller s =
     and_then (va_require_admin env s) (\<lambda>_. Inr (va_set_caller caller True s))"

definition remove_caller :: "env \<Rightarrow> address \<Rightarrow> 'w vault \<Rightarrow> 'w vault vault_res" where
  "remove_caller env caller s =
     and_then (va_require_admin env s) (\<lambda>_. Inr (va_set_caller caller False s))"

definition va_transfer ::
    "'w vault_host \<Rightarrow> address \<Rightarrow> address \<Rightarrow> address \<Rightarrow> int \<Rightarrow> 'w vault \<Rightarrow> 'w vault vault_res" where
  "va_transfer H token src dst amount s =
     and_then (or_fail (vh_transfer H token src dst amount (va_ext s)) CallTrapped) (\<lambda>w.
     Inr (s\<lparr>va_ext := w\<rparr>))"

definition admin_withdraw ::
    "'w vault_host \<Rightarrow> env \<Rightarrow> address \<Rightarrow> address \<Rightarrow> int \<Rightarrow> 'w vault \<Rightarrow> 'w vault vault_res" where
  "admin_withdraw H env token dst amount s =
     and_then (va_require_admin env s) (\<lambda>_.
     and_then (ensure (amount > 0) (Error VE_InvalidAmount)) (\<lambda>_.
     va_transfer H token (env_self env) dst amount s))"

section \<open>Deposits and round trips\<close>

definition deposit ::
    "'w vault_host \<Rightarrow> env \<Rightarrow> address \<Rightarrow> address \<Rightarrow> int \<Rightarrow> 'w vault \<Rightarrow> 'w vault vault_res" where
  "deposit H env src token amount s =
     and_then (require_auth env src) (\<lambda>_.
     and_then (ensure (amount > 0) (Error VE_InvalidAmount)) (\<lambda>_.
     va_transfer H token src (env_self env) amount s))"

definition execute_round_trip ::
    "'w vault_host \<Rightarrow> env \<Rightarrow> address \<Rightarrow> address \<Rightarrow> address \<Rightarrow> address \<Rightarrow> int \<Rightarrow> sub_route list
      \<Rightarrow> sub_route list \<Rightarrow> int \<Rightarrow> nat \<Rightarrow> 'w vault \<Rightarrow> (int \<times> 'w vault) vault_res" where
  "execute_round_trip H env caller aggregator base_token bridge_token amount leg_out leg_back
     min_amount_out allowance_expiration_ledger s =
     and_then (va_require_caller env caller s) (\<lambda>_.
     and_then (ensure (amount > 0) (Error VE_InvalidAmount)) (\<lambda>_.
     and_then (ensure (min_amount_out \<ge> amount) (Error VE_InvalidMinimumOut)) (\<lambda>_.
     and_then (ensure (allowance_expiration_ledger \<ge> env_sequence env)
                 (Error VE_InvalidAllowanceExpiry)) (\<lambda>_.
     let vault = env_self env in
     and_then (or_fail (vh_approve H base_token caller vault i128_max allowance_expiration_ledger
                  (va_ext s)) CallTrapped) (\<lambda>w1.
     and_then (va_transfer H base_token vault caller amount (s\<lparr>va_ext := w1\<rparr>)) (\<lambda>s2.
     and_then (or_fail (vh_round_trip H aggregator caller base_token bridge_token amount leg_out
                  leg_back min_amount_out (va_ext s2)) CallTrapped) (\<lambda>(base_total, w3).
     and_then (or_fail (vh_transfer_from H base_token vault caller vault base_total w3) CallTrapped)
       (\<lambda>w4.
     Inr (base_total, s2\<lparr>va_ext := w4\<rparr>)))))))))"

section \<open>What successful calls did\<close>

lemma va_transfer_Inr [res_simps]:
  "va_transfer H t a b x s = Inr s' \<longleftrightarrow>
     (\<exists>w. vh_transfer H t a b x (va_ext s) = Some w \<and> s' = s\<lparr>va_ext := w\<rparr>)"
  by (auto simp: va_transfer_def res_simps)

lemma va_require_admin_Inr [res_simps]:
  "va_require_admin env s = Inr a \<longleftrightarrow> va_admin s = Some a \<and> env_auth env a"
  by (auto simp: va_require_admin_def va_get_admin_def res_simps)

lemma va_require_caller_Inr [res_simps]:
  "va_require_caller env c s = Inr u \<longleftrightarrow> env_auth env c \<and> c \<in> va_callers s"
  by (auto simp: va_require_caller_def va_is_caller_def res_simps)

lemma execute_round_trip_cases:
  assumes "execute_round_trip H env caller aggr base bridge amount lo lb m expiry s = Inr (out, s')"
  obtains w1 w2 w3 w4 where
    "env_auth env caller" "caller \<in> va_callers s" "0 < amount" "amount \<le> m"
    "env_sequence env \<le> expiry"
    "vh_approve H base caller (env_self env) i128_max expiry (va_ext s) = Some w1"
    "vh_transfer H base (env_self env) caller amount w1 = Some w2"
    "vh_round_trip H aggr caller base bridge amount lo lb m w2 = Some (out, w3)"
    "vh_transfer_from H base (env_self env) caller (env_self env) out w3 = Some w4"
    "s' = s\<lparr>va_ext := w4\<rparr>"
  using assms by (auto simp: execute_round_trip_def res_simps Let_def)

text \<open>The vault as a machine: one successful entry point of this code at address \<open>me\<close>, or a
  transaction elsewhere. \<open>trusted\<close> restricts the aggregators the callers pass.\<close>

inductive vault_step ::
    "'w vault_host \<Rightarrow> address \<Rightarrow> (address \<Rightarrow> bool) \<Rightarrow> ('w \<Rightarrow> 'w \<Rightarrow> bool) \<Rightarrow> 'w vault \<Rightarrow> 'w vault \<Rightarrow> bool"
  for H me trusted outside where
  vault_initialize: "env_self env = me \<Longrightarrow> va_initialize env admin s = Inr s' \<Longrightarrow>
    vault_step H me trusted outside s s'"
| vault_add_caller: "env_self env = me \<Longrightarrow> add_caller env c s = Inr s' \<Longrightarrow>
    vault_step H me trusted outside s s'"
| vault_remove_caller: "env_self env = me \<Longrightarrow> remove_caller env c s = Inr s' \<Longrightarrow>
    vault_step H me trusted outside s s'"
| vault_deposit: "env_self env = me \<Longrightarrow> \<not> env_auth env me \<Longrightarrow> deposit H env src t amount s = Inr s' \<Longrightarrow>
    vault_step H me trusted outside s s'"
| vault_round_trip: "env_self env = me \<Longrightarrow> \<not> env_auth env me \<Longrightarrow> trusted aggr \<Longrightarrow>
    execute_round_trip H env caller aggr base bridge amount lo lb m expiry s = Inr (out, s') \<Longrightarrow>
    vault_step H me trusted outside s s'"
| vault_outside: "outside (va_ext s) w \<Longrightarrow> vault_step H me trusted outside s (s\<lparr>va_ext := w\<rparr>)"

end
