(* ===== verification/Vault_Principal.thy ===== *)
theory Vault_Principal
  imports Vault Token_Ledger
begin

text \<open>
  What the vault relies on (\<open>vault_world\<close>: allowances move what they say, an aggregator in
  \<open>honest\<close> returns the minimum and debits no third party), the principal it then never loses,
  the deployment against this repository's aggregator, and a host on which a caller-chosen
  aggregator outside \<open>honest\<close> takes the principal.
\<close>

locale allowance_token = token_contract transfer balance
  for transfer :: "address \<Rightarrow> address \<Rightarrow> address \<Rightarrow> int \<Rightarrow> 'w \<Rightarrow> 'w option"
    and balance :: "address \<Rightarrow> address \<Rightarrow> 'w \<Rightarrow> int" +
  fixes approve :: "address \<Rightarrow> address \<Rightarrow> address \<Rightarrow> int \<Rightarrow> nat \<Rightarrow> 'w \<Rightarrow> 'w option"
    and transfer_from :: "address \<Rightarrow> address \<Rightarrow> address \<Rightarrow> address \<Rightarrow> int \<Rightarrow> 'w \<Rightarrow> 'w option"
  assumes approve_balance: "approve t a sp x e w = Some w' \<Longrightarrow> balance t' c w' = balance t' c w"
    and transfer_from_balance: "transfer_from t sp a b x w = Some w' \<Longrightarrow>
      balance t' c w' = balance t' c w - (if t' = t \<and> c = a then x else 0)
                                       + (if t' = t \<and> c = b then x else 0)"

interpretation ledger_allowances: allowance_token ledger_move "\<lambda>t c w. lg_balance w t c"
  ledger_approve ledger_transfer_from
  by unfold_locales
    (auto simp: ledger_approve_def ledger_transfer_from_def bind_eq_Some_conv ledger_move_balance
      split: if_splits)

locale vault_world = allowance_token "vh_transfer H" balance "vh_approve H" "vh_transfer_from H"
  for H :: "'w vault_host" and balance :: "address \<Rightarrow> address \<Rightarrow> 'w \<Rightarrow> int" +
  fixes honest protected :: "address \<Rightarrow> bool"
  assumes round_trip_minimum: "vh_round_trip H aggr u base bridge x lo lb m w = Some (out, w') \<Longrightarrow>
      honest aggr \<Longrightarrow> m \<le> out"
    and round_trip_settles: "vh_round_trip H aggr u base bridge x lo lb m w = Some (out, w') \<Longrightarrow>
      honest aggr \<Longrightarrow> protected c \<Longrightarrow>
      balance t c w + (if t = base \<and> c = u then out - x else 0) \<le> balance t c w'"
begin

lemma execute_round_trip_balances:
  assumes "execute_round_trip H env caller aggr base bridge amount lo lb m expiry s = Inr (out, s')"
    and "honest aggr" "caller \<noteq> env_self env"
  shows "m \<le> out" "amount \<le> out"
    and "protected (env_self env) \<Longrightarrow>
      balance t (env_self env) (va_ext s) + (if t = base then out - amount else 0)
        \<le> balance t (env_self env) (va_ext s')"
    and "protected caller \<Longrightarrow> balance t caller (va_ext s) \<le> balance t caller (va_ext s')"
proof -
  from assms(1) obtain w1 w2 w3 w4 where a: "amount \<le> m"
    "vh_approve H base caller (env_self env) i128_max expiry (va_ext s) = Some w1"
    "vh_transfer H base (env_self env) caller amount w1 = Some w2"
    "vh_round_trip H aggr caller base bridge amount lo lb m w2 = Some (out, w3)"
    "vh_transfer_from H base (env_self env) caller (env_self env) out w3 = Some w4"
    "s' = s\<lparr>va_ext := w4\<rparr>"
    by (rule execute_round_trip_cases)
  note settle = round_trip_settles [OF a(4) assms(2)]
  show "m \<le> out" using round_trip_minimum [OF a(4) assms(2)] .
  with a(1) show "amount \<le> out" by simp
  show "balance t (env_self env) (va_ext s) + (if t = base then out - amount else 0)
      \<le> balance t (env_self env) (va_ext s')" if "protected (env_self env)"
    using approve_balance [OF a(2), of t "env_self env"] transfer_balance [OF a(3), of t "env_self env"]
      settle [OF that, of t] transfer_from_balance [OF a(5), of t "env_self env"] a(6) assms(3)
    by (auto split: if_splits)
  show "balance t caller (va_ext s) \<le> balance t caller (va_ext s')" if "protected caller"
    using approve_balance [OF a(2), of t caller] transfer_balance [OF a(3), of t caller]
      settle [OF that, of t] transfer_from_balance [OF a(5), of t caller] a(6) assms(3)
    by (auto split: if_splits)
qed

definition vault_keeps :: "address \<Rightarrow> 'w \<Rightarrow> 'w \<Rightarrow> bool" where
  "vault_keeps me w w' \<longleftrightarrow> (\<forall>t. balance t me w \<le> balance t me w')"

lemma vault_step_balance:
  assumes "vault_step H me honest (vault_keeps me) s s'" "protected me"
  shows "balance t me (va_ext s) \<le> balance t me (va_ext s')"
  using assms(1)
proof cases
  case (vault_initialize env admin)
  then show ?thesis by (auto simp: va_initialize_def res_simps)
next
  case (vault_add_caller env c)
  then show ?thesis by (auto simp: add_caller_def va_set_caller_def res_simps)
next
  case (vault_remove_caller env c)
  then show ?thesis by (auto simp: remove_caller_def va_set_caller_def res_simps)
next
  case (vault_deposit env src tk amount)
  then have "env_auth env src" by (simp add: deposit_def res_simps)
  with vault_deposit obtain w where
    "vh_transfer H tk src me amount (va_ext s) = Some w" "s' = s\<lparr>va_ext := w\<rparr>" "src \<noteq> me"
    by (auto simp: deposit_def res_simps)
  then show ?thesis using transfer_no_debit [of tk src me amount "va_ext s" w me t] by simp
next
  case (vault_round_trip env aggr caller base bridge amount lo lb m expiry out)
  from vault_round_trip(4) have "env_auth env caller" by (rule execute_round_trip_cases)
  with vault_round_trip(1,2) have "caller \<noteq> env_self env" by auto
  from execute_round_trip_balances(2) [OF vault_round_trip(4,3) this]
    execute_round_trip_balances(3) [OF vault_round_trip(4,3) this, of t] vault_round_trip(1)
  show ?thesis using assms(2) by (simp split: if_splits)
next
  case (vault_outside w)
  then show ?thesis by (simp add: vault_keeps_def)
qed

lemma vault_run_balance:
  assumes "(vault_step H me honest (vault_keeps me))\<^sup>*\<^sup>* s s'" "protected me"
  shows "balance t me (va_ext s) \<le> balance t me (va_ext s')"
  using assms(1) by induction (auto dest: vault_step_balance [OF _ assms(2)] intro: order_trans)

end

section \<open>The vault over the repository's aggregator\<close>

text \<open>The external state of the vault is the state of the aggregator at address \<open>aggr\<close>; the
  caller signed the transaction, so it is the address that authorised the nested call.\<close>

definition deployed_vault_host ::
    "('w, 'h) host \<Rightarrow> address \<Rightarrow> ('w \<Rightarrow> nat) \<Rightarrow> 'w agg_state vault_host" where
  "deployed_vault_host H aggr clock = \<lparr>
     vh_transfer = (\<lambda>t a b x s. map_option (\<lambda>w. s\<lparr>agg_ext := w\<rparr>) (token_transfer H t a b x (agg_ext s))),
     vh_approve = (\<lambda>t a sp x e s.
       map_option (\<lambda>w. s\<lparr>agg_ext := w\<rparr>) (token_approve H t a sp x e (agg_ext s))),
     vh_transfer_from = (\<lambda>t sp a b x s.
       map_option (\<lambda>w. s\<lparr>agg_ext := w\<rparr>) (token_transfer_from H t sp a b x (agg_ext s))),
     vh_round_trip = (\<lambda>aggregator user base bridge x lo lb m s.
       if aggregator = aggr then
         (case round_trip_swap H \<lparr>env_auth = (\<lambda>a. a = user), env_self = aggr,
                                 env_sequence = clock (agg_ext s)\<rparr> user base bridge x lo lb m s of
            Inl _ \<Rightarrow> None | Inr r \<Rightarrow> Some r)
       else None)\<rparr>"

locale deployed_vault = guarded_host H guarded
    + allowance_token "token_transfer H" "token_balance H" "token_approve H" "token_transfer_from H"
  for H :: "('w, 'h) host" and guarded :: "address \<Rightarrow> bool" +
  fixes aggr :: address and clock :: "'w \<Rightarrow> nat"

sublocale deployed_vault \<subseteq> world: vault_world "deployed_vault_host H aggr clock" "ext_balance H"
  "\<lambda>a. a = aggr" "\<lambda>c. guarded c \<and> c \<noteq> aggr"
proof unfold_locales
  fix t a b x w w' t' c
  assume "vh_transfer (deployed_vault_host H aggr clock) t a b x w = Some w'"
  then show "ext_balance H t' c w' = ext_balance H t' c w - (if t' = t \<and> c = a then x else 0)
      + (if t' = t \<and> c = b then x else 0)"
    by (auto simp: deployed_vault_host_def ext_balance_def transfer_balance)
next
  fix t a b x w w'
  assume "vh_transfer (deployed_vault_host H aggr clock) t a b x w = Some w'"
  then show "0 \<le> x" by (auto simp: deployed_vault_host_def dest: transfer_amount_nonneg)
next
  fix t a sp x e w w' t' c
  assume "vh_approve (deployed_vault_host H aggr clock) t a sp x e w = Some w'"
  then show "ext_balance H t' c w' = ext_balance H t' c w"
    by (auto simp: deployed_vault_host_def ext_balance_def approve_balance)
next
  fix t sp a b x w w' t' c
  assume "vh_transfer_from (deployed_vault_host H aggr clock) t sp a b x w = Some w'"
  then show "ext_balance H t' c w' = ext_balance H t' c w - (if t' = t \<and> c = a then x else 0)
      + (if t' = t \<and> c = b then x else 0)"
    by (auto simp: deployed_vault_host_def ext_balance_def transfer_from_balance)
next
  fix ag u base bridge x lo lb m w out w'
  assume "vh_round_trip (deployed_vault_host H aggr clock) ag u base bridge x lo lb m w = Some (out, w')"
  then obtain env where "round_trip_swap H env u base bridge x lo lb m w = Inr (out, w')"
    by (auto simp: deployed_vault_host_def split: if_splits sum.splits)
  then show "m \<le> out" by (rule round_trip_cases)
next
  fix ag u base bridge x lo lb m w out w' t c
  assume run: "vh_round_trip (deployed_vault_host H aggr clock) ag u base bridge x lo lb m w
    = Some (out, w')" and c: "guarded c \<and> c \<noteq> aggr"
  let ?env = "\<lparr>env_auth = (\<lambda>a. a = u), env_self = aggr, env_sequence = clock (agg_ext w)\<rparr>"
  have "round_trip_swap H ?env u base bridge x lo lb m w = Inr (out, w')"
    using run by (auto simp: deployed_vault_host_def split: if_splits sum.splits)
  from round_trip_balance [OF this, of c t] c
  show "ext_balance H t c w + (if t = base \<and> c = u then out - x else 0) \<le> ext_balance H t c w'"
    by (simp add: ext_balance_def)
qed

interpretation ledger_vault: deployed_vault "ledger_host g" g aggr clock for g aggr clock
  by (intro deployed_vault.intro ledger_host_guarded)
    (simp add: ledger_host_def ledger_allowances.allowance_token_axioms)

end
