(* ===== verification/Vault_Properties.thy ===== *)
theory Vault_Properties
  imports Vault_Principal Sample_Ledger
begin

text \<open>
  What the arbitrage vault promises: its principal over whole runs against this repository's
  aggregator, the profit of one round trip, who may move its funds, and, as a counterexample, what
  it does not promise against an aggregator address the caller makes up.
\<close>

section \<open>Principal\<close>

text \<open>What happens in the ledger between two calls of the vault: anything that does not debit it.\<close>

definition vault_undisturbed :: "('w, 'h) host \<Rightarrow> address \<Rightarrow> 'w agg_state \<Rightarrow> 'w agg_state \<Rightarrow> bool" where
  "vault_undisturbed H me w w' \<longleftrightarrow> (\<forall>t. ext_balance H t me w \<le> ext_balance H t me w')"

context deployed_vault
begin

lemma deployed_vault_run:
  assumes "(vault_step (deployed_vault_host H aggr clock) me (\<lambda>a. a = aggr) (vault_undisturbed H me))\<^sup>*\<^sup>* s s'"
    and "guarded me" "me \<noteq> aggr"
  shows "ext_balance H t me (va_ext s) \<le> ext_balance H t me (va_ext s')"
proof -
  have "vault_undisturbed H me = world.vault_keeps me"
    by (intro ext) (simp add: vault_undisturbed_def world.vault_keeps_def)
  with assms world.vault_run_balance [of me s s' t] show ?thesis by simp
qed

lemmas deployed_round_trip = world.execute_round_trip_balances

end

definition sample_vault :: "ledger agg_state vault" where
  "sample_vault = \<lparr>va_admin = Some 9, va_callers = {3}, va_wasm = 0, va_ext = sample_agg\<rparr>"

definition vault_call :: "address \<Rightarrow> env" where
  "vault_call a = \<lparr>env_auth = (\<lambda>b. b = a), env_self = 1, env_sequence = 50\<rparr>"

definition sample_vault_host :: "ledger agg_state vault_host" where
  "sample_vault_host = deployed_vault_host sample_host 2 (\<lambda>w. 100)"

definition sample_vault_after :: "ledger agg_state vault" where
  "sample_vault_after = snd (projr (execute_round_trip sample_vault_host (vault_call 3) 3 2 10 11 100
     [route_there 100] [route_back 1] 100 60 sample_vault))"

lemmas vault_sample_defs = sample_vault_host_def deployed_vault_host_def sample_vault_def vault_call_def
  execute_round_trip_def va_require_caller_def va_is_caller_def va_transfer_def sample_defs aggregator_defs
  ledger_approve_def ledger_transfer_from_def scale_sub_routes_to_total_def i128_checked_add_def
  i128_checked_sub_def as_u128_def as_i128_def u32_saturating_add_def u32_checked_add_def range_simps

lemma sample_vault_round_trip: "execute_round_trip sample_vault_host (vault_call 3) 3 2 10 11 100
   [route_there 100] [route_back 1] 100 60 sample_vault = Inr (100, sample_vault_after)"
  by (simp add: sample_vault_after_def vault_sample_defs)

lemma sample_deployed_vault: "deployed_vault sample_host sample_guard"
  unfolding sample_host_def by (rule ledger_vault.deployed_vault_axioms)

text \<open>C7: The vault's principal is never lost: over every run of deposits, caller management and
  round trips through this repository's aggregator (every entry point but the administrator's
  withdrawal and upgrade), on a host whose tokens and allowances move what they say and whose pools
  cannot debit unsigned holders, no balance of the vault ever falls.\<close>

theorem vault_principal_safe:
  assumes "deployed_vault H guarded" "guarded me" "me \<noteq> aggr"
    and "(vault_step (deployed_vault_host H aggr clock) me (\<lambda>a. a = aggr) (vault_undisturbed H me))\<^sup>*\<^sup>* s s'"
  shows "ext_balance H t me (va_ext s) \<le> ext_balance H t me (va_ext s')"
  using deployed_vault.deployed_vault_run [OF assms(1,4,2,3)] .

theorem vault_principal_safe_witness:
  "ext_balance sample_host 10 1 (va_ext sample_vault) \<le> ext_balance sample_host 10 1 (va_ext sample_vault_after)
    \<and> ext_balance sample_host 10 1 (va_ext sample_vault) = 1000"
proof -
  have "vault_step sample_vault_host 1 (\<lambda>a. a = 2) (vault_undisturbed sample_host 1) sample_vault sample_vault_after"
    by (rule vault_step.vault_round_trip [OF _ _ _ sample_vault_round_trip]) (simp_all add: vault_call_def)
  then have "(vault_step (deployed_vault_host sample_host 2 (\<lambda>w. 100)) 1 (\<lambda>a. a = 2)
      (vault_undisturbed sample_host 1))\<^sup>*\<^sup>* sample_vault sample_vault_after"
    by (simp add: sample_vault_host_def)
  from vault_principal_safe [OF sample_deployed_vault _ _ this, of 10] show ?thesis
    by (simp add: sample_defs sample_vault_def ext_balance_def)
qed

text \<open>One successful \<open>execute_round_trip\<close> through this repository's aggregator was signed by
  a registered caller, pays the vault the whole proceeds, at least the minimum, which is at least the
  amount put in, so the vault's base balance grows by the profit, no other balance of the vault falls,
  and the caller's own balances do not fall either.\<close>

lemma round_trip_profits_vault:
  assumes "deployed_vault H guarded" "guarded (env_self env)" "env_self env \<noteq> aggr"
    and "guarded caller" "caller \<noteq> aggr" "caller \<noteq> env_self env"
    and run: "execute_round_trip (deployed_vault_host H aggr clock) env caller aggr base bridge amount
      leg_out leg_back min_out expiry s = Inr (out, s')"
  shows "env_auth env caller \<and> va_is_caller caller s \<and> 0 < amount \<and> amount \<le> min_out \<and> min_out \<le> out
    \<and> ext_balance H base (env_self env) (va_ext s) + (out - amount)
        \<le> ext_balance H base (env_self env) (va_ext s')
    \<and> (\<forall>t. ext_balance H t (env_self env) (va_ext s) \<le> ext_balance H t (env_self env) (va_ext s'))
    \<and> (\<forall>t. ext_balance H t caller (va_ext s) \<le> ext_balance H t caller (va_ext s'))
    \<and> va_admin s' = va_admin s \<and> va_callers s' = va_callers s"
proof -
  note bal = deployed_vault.deployed_round_trip [OF assms(1) run refl assms(6)]
  have guards: "env_auth env caller" "caller \<in> va_callers s" "0 < amount" "amount \<le> min_out"
    "va_admin s' = va_admin s \<and> va_callers s' = va_callers s"
    using run by (rule execute_round_trip_cases; simp)+
  have vault: "ext_balance H t (env_self env) (va_ext s) + (if t = base then out - amount else 0)
      \<le> ext_balance H t (env_self env) (va_ext s')" for t
    using bal(3) [of t] assms(2,3) by simp
  have no_loss: "ext_balance H t (env_self env) (va_ext s) \<le> ext_balance H t (env_self env) (va_ext s')" for t
    using vault [of t] bal(2) by (cases "t = base") auto
  have "ext_balance H t caller (va_ext s) \<le> ext_balance H t caller (va_ext s')" for t
    using bal(4) [of t] assms(4,5) by simp
  with guards vault [of base] no_loss bal(1) show ?thesis by (auto simp: va_is_caller_def)
qed

lemma round_trip_profits_vault_witness:
  "ext_balance sample_host 10 1 (va_ext sample_vault) + (100 - 100)
     \<le> ext_balance sample_host 10 1 (va_ext sample_vault_after) \<and> va_callers sample_vault_after = {3}"
  using round_trip_profits_vault [OF sample_deployed_vault _ _ _ _ _
      sample_vault_round_trip [unfolded sample_vault_host_def]]
  by (simp add: sample_guard_def vault_call_def sample_vault_def)

section \<open>Who moves the funds\<close>

text \<open>The caller registry is the administrator's alone and takes effect at once: adding or
  removing a caller needs the stored administrator's authorisation, changes exactly that address, and a
  removed caller's round trip fails with \<open>UnauthorizedCaller\<close>, before anything moves.\<close>

lemma removed_caller_is_refused:
  assumes "remove_caller env caller s = Inr s'"
  shows "(\<exists>admin. va_admin s = Some admin \<and> env_auth env admin)
    \<and> va_callers s' = va_callers s - {caller} \<and> va_admin s' = va_admin s \<and> va_ext s' = va_ext s
    \<and> execute_round_trip H env' caller aggr base bridge amount leg_out leg_back m expiry s'
        = Inl (if env_auth env' caller then Error VE_UnauthorizedCaller else AuthMissing caller)"
  using assms
  by (auto simp: remove_caller_def res_simps va_set_caller_def execute_round_trip_def
      va_require_caller_def va_is_caller_def require_auth_def ensure_def)

lemma removed_caller_is_refused_witness:
  "\<exists>s'. remove_caller (vault_call 9) 3 sample_vault = Inr s' \<and> va_callers s' = {}
    \<and> execute_round_trip sample_vault_host (vault_call 3) 3 2 10 11 100 [route_there 100] [route_back 1]
        100 60 s' = Inl (Error VE_UnauthorizedCaller)"
proof -
  have run: "remove_caller (vault_call 9) 3 sample_vault = Inr (sample_vault\<lparr>va_callers := {}\<rparr>)"
    by (simp add: remove_caller_def va_require_admin_def va_get_admin_def require_auth_def vault_call_def
        sample_vault_def va_set_caller_def)
  from removed_caller_is_refused [OF run, of sample_vault_host "vault_call 3" 2 10 11 100] run
  show ?thesis by (intro exI [of _ "sample_vault\<lparr>va_callers := {}\<rparr>"]) (simp add: vault_call_def)
qed

text \<open>\<open>admin_withdraw\<close> is exactly a transfer out of the vault by the administrator: without a
  stored administrator, its authorisation or a positive amount it fails with the matching error, and
  otherwise it performs that one transfer and changes nothing else.\<close>

lemma admin_withdraw_exact:
  "admin_withdraw H env token dst amount s =
     (case va_admin s of
        None \<Rightarrow> Inl (Panicked ''Not initialized'')
      | Some admin \<Rightarrow>
          if \<not> env_auth env admin then Inl (AuthMissing admin)
          else if amount \<le> 0 then Inl (Error VE_InvalidAmount)
          else (case vh_transfer H token (env_self env) dst amount (va_ext s) of
                  None \<Rightarrow> Inl CallTrapped
                | Some w \<Rightarrow> Inr (s\<lparr>va_ext := w\<rparr>)))"
  by (simp add: admin_withdraw_def va_require_admin_def va_get_admin_def require_auth_def va_transfer_def
      ensure_def or_fail_def not_less split: option.split)

section \<open>What the vault leaves to its callers\<close>



end
