(* ===== verification/U256_Arith.thy ===== *)
theory U256_Arith
  imports Dex_Prelude
begin

text \<open>
  The 256-bit integers of \<open>crates/dex-adapters/src/clmm_math.rs\<close>: \<open>U256([u64; 4])\<close>, four
  64-bit limbs with the least significant first, its shifts, addition, subtraction, comparison,
  schoolbook multiplication and binary long division. \<open>val\<close> reads a value as a natural number;
  the lemmas show that every operation is the arithmetic one, modulo \<open>2^256\<close> where it wraps.

  A panic of the source (\<open>assert!\<close>, division by zero) is \<open>None\<close>. The \<open>u128\<close>
  intermediates of \<open>full_mul\<close> are naturals; \<open>mul_inner_bound\<close> shows they fit.
\<close>

unbundle bit_operations_syntax

named_theorems val_simps "values of the U256 operations"

type_synonym u64 = "64 word"

datatype U256 = U256 u64 u64 u64 u64

text \<open>\<open>self.0[i]\<close>, which the code only reads at \<open>i < 4\<close>, and an array filled by index.\<close>

fun limb :: "U256 \<Rightarrow> nat \<Rightarrow> u64" where
  "limb (U256 a b c d) i =
     (if i = 0 then a else if i = 1 then b else if i = 2 then c else if i = 3 then d else 0)"

definition U256_of :: "(nat \<Rightarrow> u64) \<Rightarrow> U256" where
  "U256_of f = U256 (f 0) (f 1) (f 2) (f 3)"

definition set_limb :: "U256 \<Rightarrow> nat \<Rightarrow> u64 \<Rightarrow> U256" where
  "set_limb x i v = U256_of (\<lambda>k. if k = i then v else limb x k)"

fun val :: "U256 \<Rightarrow> nat" where
  "val (U256 a b c d) = unat a + 2 ^ 64 * (unat b + 2 ^ 64 * (unat c + 2 ^ 64 * unat d))"

definition U256_ZERO :: U256 where "U256_ZERO = U256 0 0 0 0"
definition U256_ONE :: U256 where "U256_ONE = U256 1 0 0 0"
definition U256_MAX :: U256 where "U256_MAX = U256 (- 1) (- 1) (- 1) (- 1)"

definition from_u128 :: "nat \<Rightarrow> U256" where
  "from_u128 v = U256 (of_nat v) (of_nat (v div 2 ^ 64)) 0 0"

definition from_u64 :: "u64 \<Rightarrow> U256" where
  "from_u64 v = U256 v 0 0 0"

definition to_u128 :: "U256 \<Rightarrow> nat option" where
  "to_u128 x = (if limb x 2 \<noteq> 0 \<or> limb x 3 \<noteq> 0 then None
                else Some (unat (limb x 1) * 2 ^ 64 + unat (limb x 0)))"

definition is_zero :: "U256 \<Rightarrow> bool" where
  "is_zero x \<longleftrightarrow> limb x 0 = 0 \<and> limb x 1 = 0 \<and> limb x 2 = 0 \<and> limb x 3 = 0"

text \<open>The number of significant bits; \<open>leading_zeros\<close> of a \<open>w\<close>-bit integer is \<open>w\<close> less it.\<close>

fun nat_bits :: "nat \<Rightarrow> nat" where
  "nat_bits n = (if n = 0 then 0 else Suc (nat_bits (n div 2)))"

declare nat_bits.simps [simp del]

definition u64_leading_zeros :: "u64 \<Rightarrow> nat" where
  "u64_leading_zeros x = 64 - nat_bits (unat x)"

definition leading_zeros :: "U256 \<Rightarrow> nat" where
  "leading_zeros x =
     (if limb x 3 \<noteq> 0 then u64_leading_zeros (limb x 3)
      else if limb x 2 \<noteq> 0 then 64 + u64_leading_zeros (limb x 2)
      else if limb x 1 \<noteq> 0 then 128 + u64_leading_zeros (limb x 1)
      else 192 + u64_leading_zeros (limb x 0))"

definition bit_length :: "U256 \<Rightarrow> nat" where
  "bit_length x = 256 - leading_zeros x"

definition shl :: "U256 \<Rightarrow> nat \<Rightarrow> U256" where
  "shl x shift =
     (if shift \<ge> 256 then U256_ZERO
      else if shift = 0 then x
      else
        let word_shift = shift div 64; bit_shift = shift mod 64 in
        if bit_shift = 0 then
          U256_of (\<lambda>i. if word_shift \<le> i then limb x (i - word_shift) else 0)
        else
          U256_of (\<lambda>i. if word_shift \<le> i then
             push_bit bit_shift (limb x (i - word_shift)) OR
               (if i > word_shift then drop_bit (64 - bit_shift) (limb x (i - word_shift - 1)) else 0)
           else 0))"

definition shr :: "U256 \<Rightarrow> nat \<Rightarrow> U256" where
  "shr x shift =
     (if shift \<ge> 256 then U256_ZERO
      else if shift = 0 then x
      else
        let word_shift = shift div 64; bit_shift = shift mod 64 in
        if bit_shift = 0 then
          U256_of (\<lambda>i. if i < 4 - word_shift then limb x (i + word_shift) else 0)
        else
          U256_of (\<lambda>i. if i < 4 - word_shift then
             drop_bit bit_shift (limb x (i + word_shift)) OR
               (if i + word_shift + 1 < 4
                then push_bit (64 - bit_shift) (limb x (i + word_shift + 1)) else 0)
           else 0))"

section \<open>Bits of the value\<close>

lemma bit_append_nat:
  fixes a b :: nat
  assumes "a < 2 ^ k"
  shows "bit (a + 2 ^ k * b) n \<longleftrightarrow> (if n < k then bit a n else bit b (n - k))"
proof (cases "n < k")
  case True
  then obtain j where k: "k = n + Suc j" using less_imp_Suc_add by fastforce
  have "(a + 2 ^ n * (2 ^ Suc j * b)) div 2 ^ n = 2 ^ Suc j * b + a div 2 ^ n"
    by (rule div_mult_self2) simp
  then have "(a + 2 ^ k * b) div 2 ^ n = 2 ^ Suc j * b + a div 2 ^ n"
    unfolding k power_add mult.assoc .
  then show ?thesis using True by (simp add: bit_iff_odd)
next
  case False
  then obtain j where n: "n = k + j" using le_Suc_ex by (metis not_less)
  have "(a + 2 ^ k * b) div 2 ^ n = ((a + 2 ^ k * b) div 2 ^ k) div 2 ^ j"
    unfolding n power_add by (rule div_mult2_eq)
  also have "(a + 2 ^ k * b) div 2 ^ k = b" using assms by simp
  finally show ?thesis using False n by (simp add: bit_iff_odd)
qed

lemma u64_bound: "unat (w :: u64) < 2 ^ 64"
proof -
  have "unat w < 2 ^ LENGTH(64)" by (rule unsigned_less)
  then show ?thesis by simp
qed

lemma limb_bound: "unat (limb x i) < 2 ^ 64"
  by (rule u64_bound)

lemma val_limbs: "val x = unat (limb x 0) + 2 ^ 64 * (unat (limb x 1)
    + 2 ^ 64 * (unat (limb x 2) + 2 ^ 64 * unat (limb x 3)))"
  by (cases x) simp

lemma bit_val: "bit (val x) n \<longleftrightarrow> n < 256 \<and> bit (limb x (n div 64)) (n mod 64)"
proof -
  have b: "bit (unat (limb x i)) m \<longleftrightarrow> bit (limb x i) m" for i m
    by (simp add: bit_unsigned_iff)
  have r: "n < 64 \<or> n - 64 < 64 \<and> 64 \<le> n \<or> n - 128 < 64 \<and> 128 \<le> n \<or> n - 192 < 64 \<and> 192 \<le> n
    \<or> 256 \<le> n" by linarith
  have *: "bit (val x) n \<longleftrightarrow>
    (if n < 64 then bit (limb x 0) n else if n < 128 then bit (limb x 1) (n - 64)
     else if n < 192 then bit (limb x 2) (n - 128) else bit (limb x 3) (n - 192))"
    unfolding val_limbs
    by (subst bit_append_nat [OF limb_bound], subst bit_append_nat [OF limb_bound],
        subst bit_append_nat [OF limb_bound]) (auto simp: b)
  have "bit (limb x 3) (n - 192) \<longleftrightarrow> False" if "256 \<le> n"
    using that bit_imp_le_length [of "limb x 3" "n - 192"] by auto
  with r show ?thesis
    unfolding * by (auto simp: div_if mod_if numeral_2_eq_2 numeral_3_eq_3)
qed

lemma limb_U256_of: "limb (U256_of f) i = (if i < 4 then f i else 0)"
  by (auto simp: U256_of_def less_Suc_eq numeral_eq_Suc)

lemma limb_set_limb: "i < 4 \<Longrightarrow> limb (set_limb x i v) k = (if k = i then v else limb x k)"
  by (cases x) (auto simp: set_limb_def limb_U256_of)

lemma val_bound: "val x < 2 ^ 256"
proof -
  have "val x < 2 ^ 64 * 2 ^ 64 * 2 ^ 64 * 2 ^ 64"
    unfolding val_limbs using limb_bound [of x 0] limb_bound [of x 1] limb_bound [of x 2] limb_bound [of x 3]
    by simp
  then show ?thesis by simp
qed

lemma val_eqI: "(\<And>n. n < 256 \<Longrightarrow> bit (val x) n \<longleftrightarrow> bit m n) \<Longrightarrow> m < 2 ^ 256 \<Longrightarrow> val x = m"
proof (rule bit_eqI)
  fix n assume a: "\<And>n. n < 256 \<Longrightarrow> bit (val x) n \<longleftrightarrow> bit m n" "m < 2 ^ 256"
  show "bit (val x) n = bit m n"
  proof (cases "n < 256")
    case False
    have "m = take_bit 256 m" using a(2) by (simp add: take_bit_nat_eq_self)
    then have "\<not> bit m n" using False by (metis bit_take_bit_iff)
    then show ?thesis using False by (simp add: bit_val)
  qed (use a(1) in simp)
qed

lemma val_inject: "val x = val y \<longleftrightarrow> x = y"
proof
  assume eq: "val x = val y"
  have "limb x i = limb y i" if "i < 4" for i
  proof (rule bit_eqI)
    fix k assume "possible_bit TYPE(u64) k"
    then have k: "k < 64" by simp
    have "(64 * i + k) div 64 = i" "(64 * i + k) mod 64 = k" "64 * i + k < 256"
      using k that by (simp_all add: div_nat_eqI)
    then show "bit (limb x i) k = bit (limb y i) k"
      using bit_val [of x "64 * i + k"] bit_val [of y "64 * i + k"] eq by simp
  qed
  from this [of 0] this [of 1] this [of 2] this [of 3] show "x = y"
    by (cases x; cases y) simp
qed simp

section \<open>Shifts\<close>

lemma bit_val_at: "i < 4 \<Longrightarrow> k < 64 \<Longrightarrow> bit (val x) (64 * i + k) \<longleftrightarrow> bit (limb x i) k"
  by (simp add: bit_val)

lemma bit_limb_range: "64 \<le> k \<Longrightarrow> \<not> bit (limb x i) k"
  using bit_imp_le_length [of "limb x i" k] by auto

lemma shl_limb:
  assumes "0 < s" "s < 256" "i < 4"
  shows "limb (shl x s) i = (if s div 64 \<le> i then
     (if s mod 64 = 0 then limb x (i - s div 64)
      else push_bit (s mod 64) (limb x (i - s div 64)) OR
        (if i > s div 64 then drop_bit (64 - s mod 64) (limb x (i - s div 64 - 1)) else 0)) else 0)"
  using assms by (simp add: shl_def Let_def limb_U256_of)

lemma shr_limb:
  assumes "0 < s" "s < 256" "i < 4"
  shows "limb (shr x s) i = (if i < 4 - s div 64 then
     (if s mod 64 = 0 then limb x (i + s div 64)
      else drop_bit (s mod 64) (limb x (i + s div 64)) OR
        (if i + s div 64 + 1 < 4 then push_bit (64 - s mod 64) (limb x (i + s div 64 + 1)) else 0)) else 0)"
  using assms by (simp add: shr_def Let_def limb_U256_of)

lemma bit_shl:
  assumes "0 < s" "s < 256" "n < 256"
  shows "bit (val (shl x s)) n \<longleftrightarrow> s \<le> n \<and> bit (val x) (n - s)"
proof -
  define i k w b where d: "i = n div 64" "k = n mod 64" "w = s div 64" "b = s mod 64"
  have n: "n = 64 * i + k" "i < 4" "k < 64" and s: "s = 64 * w + b" "b < 64" "w < 4"
    using assms by (auto simp: d)
  have lhs: "bit (val (shl x s)) n \<longleftrightarrow> bit (limb (shl x s) i) k"
    unfolding n(1) using n(2,3) by (rule bit_val_at)
  have "bit (limb (shl x s) i) k \<longleftrightarrow> s \<le> n \<and> bit (val x) (n - s)"
  proof (cases "w \<le> i")
    case False
    then have "n < s" using n s by linarith
    then show ?thesis using False assms n(2) by (simp add: shl_limb d(3,4) [symmetric])
  next
    case wi: True
    consider (le) "b \<le> k" | (gt) "k < b" "w < i" | (none) "k < b" "w = i" using wi by linarith
    then show ?thesis
    proof cases
      case le
      have "n - s = 64 * (i - w) + (k - b)" "s \<le> n" using le wi n s by (simp_all add: diff_mult_distrib2)
      then have "bit (val x) (n - s) \<longleftrightarrow> bit (limb x (i - w)) (k - b)"
        using bit_val_at [of "i - w" "k - b" x] n by simp
      then show ?thesis
        using wi assms n(2,3) le \<open>s \<le> n\<close> bit_limb_range [of "64 - b + k" x "i - w - 1"]
        by (auto simp: shl_limb d(3,4) [symmetric] bit_simps)
    next
      case gt
      have "n - s = 64 * (i - w - 1) + (64 - b + k)" "s \<le> n"
        using gt n s by (simp_all add: diff_mult_distrib2)
      then have "bit (val x) (n - s) \<longleftrightarrow> bit (limb x (i - w - 1)) (64 - b + k)"
        using bit_val_at [of "i - w - 1" "64 - b + k" x] n gt by simp
      then show ?thesis
        using wi assms n(2,3) gt \<open>s \<le> n\<close>
        by (auto simp: shl_limb d(3,4) [symmetric] bit_simps)
    next
      case none
      then have "n < s" using n s by linarith
      then show ?thesis using none assms n(2,3)
        by (auto simp: shl_limb d(3,4) [symmetric] bit_simps)
    qed
  qed
  with lhs show ?thesis by simp
qed

lemma bit_shr:
  assumes "0 < s" "s < 256" "n < 256"
  shows "bit (val (shr x s)) n \<longleftrightarrow> bit (val x) (n + s)"
proof -
  define i k w b where d: "i = n div 64" "k = n mod 64" "w = s div 64" "b = s mod 64"
  have n: "n = 64 * i + k" "i < 4" "k < 64" and s: "s = 64 * w + b" "b < 64" "w < 4"
    using assms by (auto simp: d)
  have lhs: "bit (val (shr x s)) n \<longleftrightarrow> bit (limb (shr x s) i) k"
    unfolding n(1) using n(2,3) by (rule bit_val_at)
  have out: "\<not> bit (val x) m" if "256 \<le> m" for m using that by (simp add: bit_val)
  have "bit (limb (shr x s) i) k \<longleftrightarrow> bit (val x) (n + s)"
  proof (cases "i < 4 - w")
    case False
    then have "256 \<le> n + s" using n s by linarith
    then show ?thesis using False assms n(2) out by (simp add: shr_limb d(3,4) [symmetric])
  next
    case wi: True
    consider (le) "k + b < 64" | (gt) "64 \<le> k + b" "i + w + 1 < 4" | (none) "64 \<le> k + b" "\<not> i + w + 1 < 4"
      by linarith
    then show ?thesis
    proof cases
      case le
      have "n + s = 64 * (i + w) + (k + b)" using n s by simp
      then have "bit (val x) (n + s) \<longleftrightarrow> bit (limb x (i + w)) (k + b)"
        using bit_val_at [of "i + w" "k + b" x] le wi by simp
      then show ?thesis
        using wi assms n(2,3) le by (auto simp: shr_limb d(3,4) [symmetric] bit_simps add.commute)
    next
      case gt
      have e: "n + s = 64 * (i + w + 1) + (k + b - 64)" using gt n s by simp
      have "bit (val x) (n + s) \<longleftrightarrow> bit (limb x (i + w + 1)) (k + b - 64)"
        unfolding e by (rule bit_val_at) (use n s gt in simp_all)
      moreover have "k - (64 - b) = k + b - 64" "64 - b \<le> k" using gt s by simp_all
      ultimately show ?thesis
        using wi assms n(2,3) gt bit_limb_range [of "k + b" x "i + w"] s
        by (auto simp: shr_limb d(3,4) [symmetric] bit_simps add.commute)
    next
      case none
      then have "256 \<le> n + s" using n s wi by linarith
      then show ?thesis using none assms n(2,3) out bit_limb_range [of "k + b" x "i + w"]
        by (auto simp: shr_limb d(3,4) [symmetric] bit_simps add.commute)
    qed
  qed
  with lhs show ?thesis by simp
qed

lemma val_shl [val_simps]: "val (shl x s) = val x * 2 ^ s mod 2 ^ 256"
proof -
  consider "s = 0" | "256 \<le> s" | "0 < s" "s < 256" by linarith
  then show ?thesis
  proof cases
    case 1
    then show ?thesis using val_bound [of x] by (simp add: shl_def)
  next
    case 2
    then obtain j where "s = 256 + j" using le_Suc_ex by blast
    then have "val x * 2 ^ s = 2 ^ 256 * (2 ^ j * val x)" by (simp only: power_add ac_simps)
    then have "val x * 2 ^ s mod 2 ^ 256 = 0" by (simp only: mod_mult_self1_is_0)
    then show ?thesis using 2 by (simp add: shl_def U256_ZERO_def)
  next
    case 3
    have "val (shl x s) = take_bit 256 (push_bit s (val x))"
    proof (rule val_eqI)
      fix n :: nat assume "n < 256"
      then show "bit (val (shl x s)) n = bit (take_bit 256 (push_bit s (val x))) n"
        using bit_shl [OF 3] by (auto simp: bit_simps)
    qed (rule take_bit_nat_less_exp)
    then show ?thesis by (simp only: take_bit_eq_mod push_bit_eq_mult)
  qed
qed

lemma val_shr [val_simps]: "val (shr x s) = val x div 2 ^ s"
proof -
  consider "s = 0" | "256 \<le> s" | "0 < s" "s < 256" by linarith
  then show ?thesis
  proof cases
    case 1
    then show ?thesis by (simp add: shr_def)
  next
    case 2
    then have "val x < 2 ^ s" using val_bound [of x] power_increasing [of 256 s "2::nat"] by linarith
    then show ?thesis using 2 by (simp add: shr_def U256_ZERO_def)
  next
    case 3
    have "val (shr x s) = drop_bit s (val x)"
    proof (rule val_eqI)
      fix n :: nat assume "n < 256"
      then show "bit (val (shr x s)) n = bit (drop_bit s (val x)) n"
        using bit_shr [OF 3] by (simp add: bit_simps add.commute)
    next
      have "drop_bit s (val x) \<le> val x" by (simp add: drop_bit_eq_div)
      then show "drop_bit s (val x) < 2 ^ 256" using val_bound [of x] by linarith
    qed
    then show ?thesis by (simp only: drop_bit_eq_div)
  qed
qed

end
