(* ===== verification/U256_Division.thy ===== *)
theory U256_Division
  imports U256_Arith
begin

text \<open>
  Addition, subtraction, order, multiplication and division of the 256-bit integers of
  \<open>clmm_math.rs\<close>: the carry loops, the schoolbook product with its eight \<open>u128\<close> columns,
  and the binary long division of 256-bit and 512-bit dividends. The loops are folds over the
  indices the code runs through; the lemmas give their values.
\<close>

section \<open>Definitions\<close>

definition u64_overflowing_add :: "u64 \<Rightarrow> u64 \<Rightarrow> u64 \<times> bool" where
  "u64_overflowing_add a b = (a + b, 2 ^ 64 \<le> unat a + unat b)"

definition u64_overflowing_sub :: "u64 \<Rightarrow> u64 \<Rightarrow> u64 \<times> bool" where
  "u64_overflowing_sub a b = (a - b, unat a < unat b)"

definition add_step :: "U256 \<Rightarrow> U256 \<Rightarrow> nat \<Rightarrow> U256 \<times> u64 \<Rightarrow> U256 \<times> u64" where
  "add_step x y i = (\<lambda>(result, carry).
     let (sum1, c1) = u64_overflowing_add (limb x i) (limb y i);
         (sum2, c2) = u64_overflowing_add sum1 carry
     in (set_limb result i sum2, of_bool c1 + of_bool c2))"

definition wrapping_add :: "U256 \<Rightarrow> U256 \<Rightarrow> U256" where
  "wrapping_add x y = fst (fold (add_step x y) [0..<4] (U256_ZERO, 0))"

definition sub_step :: "U256 \<Rightarrow> U256 \<Rightarrow> nat \<Rightarrow> U256 \<times> u64 \<Rightarrow> U256 \<times> u64" where
  "sub_step x y i = (\<lambda>(result, borrow).
     let (diff1, b1) = u64_overflowing_sub (limb x i) (limb y i);
         (diff2, b2) = u64_overflowing_sub diff1 borrow
     in (set_limb result i diff2, of_bool b1 + of_bool b2))"

definition wrapping_sub :: "U256 \<Rightarrow> U256 \<Rightarrow> U256" where
  "wrapping_sub x y = fst (fold (sub_step x y) [0..<4] (U256_ZERO, 0))"

datatype ordering = Less | Equal | Greater

fun cmp_loop :: "nat list \<Rightarrow> U256 \<Rightarrow> U256 \<Rightarrow> ordering" where
  "cmp_loop [] x y = Equal"
| "cmp_loop (i # is) x y =
     (if limb x i < limb y i then Less else if limb y i < limb x i then Greater else cmp_loop is x y)"

definition U256_cmp :: "U256 \<Rightarrow> U256 \<Rightarrow> ordering" where
  "U256_cmp x y = cmp_loop (rev [0..<4]) x y"

definition mul_inner :: "U256 \<Rightarrow> U256 \<Rightarrow> nat \<Rightarrow> nat \<Rightarrow> nat list \<times> nat \<Rightarrow> nat list \<times> nat" where
  "mul_inner x y i j = (\<lambda>(result, carry).
     let prod = unat (limb x i) * unat (limb y j) + result ! (i + j) + carry
     in (result[i + j := prod mod 2 ^ 64], prod div 2 ^ 64))"

definition mul_outer :: "U256 \<Rightarrow> U256 \<Rightarrow> nat \<Rightarrow> nat list \<Rightarrow> nat list" where
  "mul_outer x y i result =
     (let (result', carry) = fold (mul_inner x y i) [0..<4] (result, 0)
      in if i + 4 < 8 then result'[i + 4 := result' ! (i + 4) + carry] else result')"

definition full_mul :: "U256 \<Rightarrow> U256 \<Rightarrow> U256 \<times> U256" where
  "full_mul x y =
     (let result = fold (mul_outer x y) [0..<4] (replicate 8 0) in
      (U256 (of_nat (result ! 0)) (of_nat (result ! 1)) (of_nat (result ! 2)) (of_nat (result ! 3)),
       U256 (of_nat (result ! 4)) (of_nat (result ! 5)) (of_nat (result ! 6)) (of_nat (result ! 7))))"

definition wrapping_mul :: "U256 \<Rightarrow> U256 \<Rightarrow> U256" where
  "wrapping_mul x y = fst (full_mul x y)"

text \<open>Bit \<open>i\<close> of the dividend, and setting bit \<open>i\<close>, as the loops spell them.\<close>

definition bit_set_at :: "U256 \<Rightarrow> nat \<Rightarrow> bool" where
  "bit_set_at x i \<longleftrightarrow> drop_bit (i mod 64) (limb x (i div 64)) AND 1 = 1"

definition or_bit :: "U256 \<Rightarrow> nat \<Rightarrow> U256" where
  "or_bit x i = set_limb x (i div 64) (limb x (i div 64) OR push_bit (i mod 64) 1)"

section \<open>Addition and subtraction\<close>

lemma upt_0_4: "[0..<4] = [0, 1, 2, 3]"
  by (simp add: upt_rec)

lemma u64_add_value:
  "unat (a + b :: u64) + 2 ^ 64 * of_bool (2 ^ 64 \<le> unat a + unat b) = unat a + unat b"
  by (simp add: unat_plus_if' of_bool_def)

lemma u64_sub_value:
  "unat (a - b :: u64) + unat b = unat a + 2 ^ 64 * of_bool (unat a < unat b)"
  using u64_bound [of b] by (auto simp: unat_sub_if' of_bool_def)

lemma unat_two_carries: "unat (of_bool p + of_bool q :: u64) = of_bool p + of_bool q"
  by (cases p; cases q) simp_all

lemma add_carry:
  assumes "unat c \<le> 1"
  shows "unat (a + b + c) + 2 ^ 64 * unat (of_bool (2 ^ 64 \<le> unat a + unat b)
      + of_bool (2 ^ 64 \<le> unat (a + b) + unat c) :: u64) = unat a + unat b + unat (c :: u64)"
    and "unat (of_bool (2 ^ 64 \<le> unat a + unat b) + of_bool (2 ^ 64 \<le> unat (a + b) + unat c) :: u64) \<le> 1"
proof -
  let ?p = "2 ^ 64 \<le> unat a + unat b" and ?q = "2 ^ 64 \<le> unat (a + b) + unat c"
  have s: "unat (a + b + c) + 2 ^ 64 * (of_bool ?p + of_bool ?q) = unat a + unat b + unat c"
    using u64_add_value [of a b] u64_add_value [of "a + b" c]
    unfolding distrib_left by linarith
  then show "unat (a + b + c) + 2 ^ 64 * unat (of_bool ?p + of_bool ?q :: u64)
      = unat a + unat b + unat c"
    unfolding unat_two_carries .
  have "of_bool ?p + of_bool ?q \<le> (1 :: nat)"
    using s assms u64_bound [of a] u64_bound [of b] by (simp add: of_bool_def split: if_splits)
  then show "unat (of_bool ?p + of_bool ?q :: u64) \<le> 1"
    unfolding unat_two_carries .
qed

lemma sub_borrow:
  assumes "unat c \<le> 1"
  shows "unat (a - b - c) + unat b + unat c = unat a + 2 ^ 64 * unat (of_bool (unat a < unat b)
      + of_bool (unat (a - b) < unat (c :: u64)) :: u64)"
    and "unat (of_bool (unat a < unat b) + of_bool (unat (a - b) < unat c) :: u64) \<le> 1"
proof -
  let ?p = "unat a < unat b" and ?q = "unat (a - b) < unat c"
  have s: "unat (a - b - c) + unat b + unat c = unat a + 2 ^ 64 * (of_bool ?p + of_bool ?q)"
    using u64_sub_value [of a b] u64_sub_value [of "a - b" c]
    unfolding distrib_left by linarith
  then show "unat (a - b - c) + unat b + unat c = unat a + 2 ^ 64 * unat (of_bool ?p + of_bool ?q :: u64)"
    unfolding unat_two_carries .
  have "of_bool ?p + of_bool ?q \<le> (1 :: nat)"
    using s assms u64_bound [of b] u64_bound [of "a - b - c"]
    by (simp add: of_bool_def split: if_splits)
  then show "unat (of_bool ?p + of_bool ?q :: u64) \<le> 1"
    unfolding unat_two_carries .
qed

lemma add_step_pair: "add_step x y i (r, c) = (set_limb r i (limb x i + limb y i + c),
    of_bool (2 ^ 64 \<le> unat (limb x i) + unat (limb y i))
      + of_bool (2 ^ 64 \<le> unat (limb x i + limb y i) + unat c))"
  unfolding add_step_def u64_overflowing_add_def Let_def prod.case ..

lemma sub_step_pair: "sub_step x y i (r, c) = (set_limb r i (limb x i - limb y i - c),
    of_bool (unat (limb x i) < unat (limb y i))
      + of_bool (unat (limb x i - limb y i) < unat c))"
  unfolding sub_step_def u64_overflowing_sub_def Let_def prod.case ..

text \<open>After \<open>n\<close> limbs: the low limbs of the result, and the carry out of them.\<close>

definition low :: "U256 \<Rightarrow> nat \<Rightarrow> nat" where
  "low x n = (\<Sum>i<n. unat (limb x i) * 2 ^ (64 * i))"

lemma low_0 [simp]: "low x 0 = 0"
  by (simp add: low_def)

lemma low_Suc [simp]: "low x (Suc n) = low x n + unat (limb x n) * 2 ^ (64 * n)"
  by (simp add: low_def)

lemma low_4: "low x 4 = val x"
proof -
  have four: "{..<4 :: nat} = {0, 1, 2, 3}" by auto
  show ?thesis unfolding low_def four val_limbs by (simp add: algebra_simps)
qed

lemma low_cong: "(\<And>i. i < n \<Longrightarrow> limb x i = limb y i) \<Longrightarrow> low x n = low y n"
  by (simp add: low_def)

lemma low_set_limb: "n < 4 \<Longrightarrow> low (set_limb x n v) n = low x n"
  by (rule low_cong) (simp add: limb_set_limb)

lemma add_loop:
  assumes "fold (add_step x y) [0..<n] (U256_ZERO, 0) = (r, c)" "n \<le> 4"
  shows "low r n + 2 ^ (64 * n) * unat c = low x n + low y n \<and> unat c \<le> 1"
  using assms
proof (induction n arbitrary: r c)
  case (Suc n)
  obtain r1 c1 where f: "fold (add_step x y) [0..<n] (U256_ZERO, 0) = (r1, c1)" by fastforce
  have "n \<le> 4" using Suc.prems(2) by simp
  note IH = conjunct1 [OF Suc.IH [OF f this]] conjunct2 [OF Suc.IH [OF f this]]
  let ?a = "limb x n" and ?b = "limb y n"
  have st: "add_step x y n (r1, c1) = (r, c)" using Suc.prems(1) f by simp
  then have r: "r = set_limb r1 n (?a + ?b + c1)" and c: "c = of_bool (2 ^ 64 \<le> unat ?a + unat ?b)
      + of_bool (2 ^ 64 \<le> unat (?a + ?b) + unat c1)"
    unfolding add_step_pair prod.inject by blast+
  note adc = add_carry [OF IH(2), of ?a ?b, folded c]
  have "low r (Suc n) = low r1 n + unat (?a + ?b + c1) * 2 ^ (64 * n)"
    using Suc.prems(2) by (simp add: r low_set_limb limb_set_limb)
  then have "low r (Suc n) + 2 ^ (64 * Suc n) * unat c
      = low r1 n + 2 ^ (64 * n) * (unat (?a + ?b + c1) + 2 ^ 64 * unat c)"
    by (simp add: power_add algebra_simps)
  also have "\<dots> = low r1 n + 2 ^ (64 * n) * unat c1 + 2 ^ (64 * n) * (unat ?a + unat ?b)"
    unfolding adc(1) by (simp add: algebra_simps)
  also have "\<dots> = low x (Suc n) + low y (Suc n)"
    unfolding IH(1) by (simp add: algebra_simps)
  finally show ?case using adc(2) by simp
qed simp

lemma val_wrapping_add [val_simps]: "val (wrapping_add x y) = (val x + val y) mod 2 ^ 256"
proof -
  obtain r c where f: "fold (add_step x y) [0..<4] (U256_ZERO, 0) = (r, c)" by fastforce
  from add_loop [OF f] have "val r + 2 ^ 256 * unat c = val x + val y" by (simp add: low_4)
  then have "(val x + val y) mod 2 ^ 256 = (val r + 2 ^ 256 * unat c) mod 2 ^ 256" by simp
  also have "\<dots> = val r" using val_bound [of r] by (simp only: mod_mult_self2 mod_less)
  finally show ?thesis by (simp add: wrapping_add_def f)
qed

lemma sub_loop:
  assumes "fold (sub_step x y) [0..<n] (U256_ZERO, 0) = (r, c)" "n \<le> 4"
  shows "low r n + low y n = low x n + 2 ^ (64 * n) * unat c \<and> unat c \<le> 1"
  using assms
proof (induction n arbitrary: r c)
  case (Suc n)
  obtain r1 c1 where f: "fold (sub_step x y) [0..<n] (U256_ZERO, 0) = (r1, c1)" by fastforce
  from Suc.IH [OF f] Suc.prems(2) have IH: "low r1 n + low y n = low x n + 2 ^ (64 * n) * unat c1"
    "unat c1 \<le> 1" by auto
  let ?a = "limb x n" and ?b = "limb y n"
  have r: "r = set_limb r1 n (?a - ?b - c1)" and c: "c = of_bool (unat ?a < unat ?b)
      + of_bool (unat (?a - ?b) < unat c1)"
    using Suc.prems(1) f by (auto simp: sub_step_pair)
  note sbb = sub_borrow [OF IH(2), of ?a ?b, folded c]
  have "low r (Suc n) = low r1 n + unat (?a - ?b - c1) * 2 ^ (64 * n)"
    using Suc.prems(2) by (simp add: r low_set_limb limb_set_limb)
  then have "low r (Suc n) + low y (Suc n) + 2 ^ (64 * n) * unat c1
      = low r1 n + low y n + 2 ^ (64 * n) * (unat (?a - ?b - c1) + unat ?b + unat c1)"
    by (simp add: algebra_simps)
  also have "\<dots> = low x (Suc n) + 2 ^ (64 * Suc n) * unat c + 2 ^ (64 * n) * unat c1"
    unfolding sbb(1) IH(1) by (simp add: power_add algebra_simps)
  finally show ?case using sbb(2) by simp
qed simp

lemma val_wrapping_sub_add: "\<exists>c \<le> 1. val (wrapping_sub x y) + val y = val x + 2 ^ 256 * c"
proof -
  obtain r c where f: "fold (sub_step x y) [0..<4] (U256_ZERO, 0) = (r, c)" by fastforce
  from sub_loop [OF f] have "val r + val y = val x + 2 ^ 256 * unat c" "unat c \<le> 1"
    by (simp_all add: low_4)
  then show ?thesis by (auto simp: wrapping_sub_def f)
qed

lemma val_wrapping_sub [val_simps]:
  assumes "val y \<le> val x"
  shows "val (wrapping_sub x y) = val x - val y"
proof -
  obtain c where c: "c \<le> 1" "val (wrapping_sub x y) + val y = val x + 2 ^ 256 * c"
    using val_wrapping_sub_add by blast
  have "c = 0" using c assms val_bound [of "wrapping_sub x y"] by (cases c) auto
  then show ?thesis using c by simp
qed

lemma val_wrapping_sub_wrap:
  assumes "val x < val y"
  shows "val (wrapping_sub x y) = 2 ^ 256 + val x - val y"
proof -
  obtain c where c: "c \<le> 1" "val (wrapping_sub x y) + val y = val x + 2 ^ 256 * c"
    using val_wrapping_sub_add by blast
  then have "c = 1" using assms by (cases c) auto
  then show ?thesis using c by simp
qed

section \<open>Order\<close>

lemma low_bound: "low z n < 2 ^ (64 * n)"
proof (induction n)
  case (Suc n)
  have "low z (Suc n) < 2 ^ (64 * n) + unat (limb z n) * 2 ^ (64 * n)" using Suc by simp
  also have "\<dots> = (unat (limb z n) + 1) * 2 ^ (64 * n)" by simp
  also have "\<dots> \<le> 2 ^ 64 * 2 ^ (64 * n)"
    using limb_bound [of z n] by (intro mult_right_mono) simp_all
  finally show ?case by (simp add: power_add)
qed simp

lemma radix_less:
  fixes a b p q B :: nat
  assumes "p < B" "a < b"
  shows "p + a * B < q + b * B"
proof -
  have "(a + 1) * B \<le> b * B" using assms(2) by (intro mult_right_mono) simp_all
  then show ?thesis using assms(1) by simp
qed

lemma low_less_Suc: "low x (Suc n) < low y (Suc n) \<longleftrightarrow>
    limb x n < limb y n \<or> limb x n = limb y n \<and> low x n < low y n"
proof (cases "limb x n" "limb y n" rule: linorder_cases)
  case less
  then have "unat (limb x n) < unat (limb y n)" by (simp add: word_less_nat_alt)
  from radix_less [OF low_bound [of x n] this, of "low y n"] less show ?thesis by simp
next
  case greater
  then have "unat (limb y n) < unat (limb x n)" by (simp add: word_less_nat_alt)
  from radix_less [OF low_bound [of y n] this, of "low x n"] greater show ?thesis by auto
qed simp

lemma cmp_loop_low:
  "cmp_loop (rev [0..<n]) x y =
     (if low x n < low y n then Less else if low y n < low x n then Greater else Equal)"
proof (induction n)
  case (Suc n)
  have rev: "rev [0..<Suc n] = n # rev [0..<n]" by simp
  show ?case
    unfolding rev cmp_loop.simps Suc low_less_Suc
    by (cases "limb x n" "limb y n" rule: linorder_cases) auto
qed simp

lemma U256_cmp_val:
  "U256_cmp x y = (if val x < val y then Less else if val y < val x then Greater else Equal)"
  unfolding U256_cmp_def cmp_loop_low low_4 ..

instantiation U256 :: linorder
begin

definition less_eq_U256 :: "U256 \<Rightarrow> U256 \<Rightarrow> bool" where
  "less_eq_U256 x y \<longleftrightarrow> U256_cmp x y \<noteq> Greater"

definition less_U256 :: "U256 \<Rightarrow> U256 \<Rightarrow> bool" where
  "less_U256 x y \<longleftrightarrow> U256_cmp x y = Less"

instance
proof
  fix x y z :: U256
  show "x < y \<longleftrightarrow> x \<le> y \<and> \<not> y \<le> x"
    by (auto simp: less_U256_def less_eq_U256_def U256_cmp_val)
  show "x \<le> x" by (simp add: less_eq_U256_def U256_cmp_val)
  show "x \<le> y \<Longrightarrow> y \<le> z \<Longrightarrow> x \<le> z"
    by (auto simp: less_eq_U256_def U256_cmp_val split: if_splits)
  show "x \<le> y \<Longrightarrow> y \<le> x \<Longrightarrow> x = y"
    by (auto simp: less_eq_U256_def U256_cmp_val val_inject [symmetric] split: if_splits
        simp del: val_inject)
  show "x \<le> y \<or> y \<le> x" by (auto simp: less_eq_U256_def U256_cmp_val)
qed

end

lemma less_val [val_simps]: "x < y \<longleftrightarrow> val x < val y"
  by (simp add: less_U256_def U256_cmp_val)

lemma le_val [val_simps]: "x \<le> y \<longleftrightarrow> val x \<le> val y"
  by (auto simp: less_eq_U256_def U256_cmp_val)

section \<open>Constants and conversions\<close>

lemma val_ZERO [simp]: "val U256_ZERO = 0"
  by (simp add: U256_ZERO_def)

lemma val_ONE [simp]: "val U256_ONE = 1"
  by (simp add: U256_ONE_def)

lemma val_MAX: "val U256_MAX = 2 ^ 256 - 1"
  by (simp add: U256_MAX_def unsigned_minus_1_eq_mask mask_eq_exp_minus_1)

lemma is_zero_val [val_simps]: "is_zero x \<longleftrightarrow> val x = 0"
proof -
  have "unat (limb x i) = 0 \<longleftrightarrow> limb x i = 0" for i by (simp add: unat_eq_0)
  then show ?thesis unfolding is_zero_def val_limbs by auto
qed

lemma val_from_u128 [val_simps]:
  assumes "v \<le> u128_max"
  shows "val (from_u128 v) = v"
proof -
  have "v div 2 ^ 64 < 2 ^ 64" using assms by (simp add: u128_max_def div_less_iff_less_mult)
  then have "val (from_u128 v) = v mod 2 ^ 64 + 2 ^ 64 * (v div 2 ^ 64)"
    by (simp add: from_u128_def unat_of_nat)
  then show ?thesis by simp
qed

lemma val_from_u64 [val_simps]: "val (from_u64 v) = unat v"
  by (simp add: from_u64_def)

lemma to_u128_val: "to_u128 x = (if val x \<le> u128_max then Some (val x) else None)"
proof -
  let ?a = "unat (limb x 0)" and ?b = "unat (limb x 1)" and ?c = "unat (limb x 2)" and ?d = "unat (limb x 3)"
  have z: "unat (limb x i) = 0 \<longleftrightarrow> limb x i = 0" for i by (simp add: unat_eq_0)
  have v: "val x = ?a + 2 ^ 64 * (?b + 2 ^ 64 * (?c + 2 ^ 64 * ?d))" by (rule val_limbs)
  have lo: "?a + 2 ^ 64 * ?b \<le> u128_max"
    using limb_bound [of x 0] limb_bound [of x 1] by (simp add: u128_max_def)
  show ?thesis
  proof (cases "?c = 0 \<and> ?d = 0")
    case True
    then show ?thesis using v lo z by (simp add: to_u128_def algebra_simps)
  next
    case False
    then have "1 \<le> ?c + 2 ^ 64 * ?d" by auto
    then have "\<not> val x \<le> u128_max" unfolding v u128_max_def by simp
    then show ?thesis using False z by (simp add: to_u128_def)
  qed
qed

section \<open>Multiplication\<close>

text \<open>The value of a list of 64-bit columns.\<close>

fun lval :: "nat list \<Rightarrow> nat" where
  "lval [] = 0"
| "lval (x # xs) = x + 2 ^ 64 * lval xs"

lemma lval_update:
  "k < length xs \<Longrightarrow> lval (xs[k := v]) + 2 ^ (64 * k) * xs ! k = lval xs + 2 ^ (64 * k) * v"
proof (induction xs arbitrary: k)
  case (Cons x xs)
  show ?case
  proof (cases k)
    case (Suc j)
    with Cons have IH: "lval (xs[j := v]) + 2 ^ (64 * j) * xs ! j = lval xs + 2 ^ (64 * j) * v" by simp
    have p: "(2 :: nat) ^ (64 * Suc j) = 2 ^ 64 * 2 ^ (64 * j)" by (simp add: power_add)
    have "lval ((x # xs)[k := v]) + 2 ^ (64 * k) * (x # xs) ! k
        = x + 2 ^ 64 * (lval (xs[j := v]) + 2 ^ (64 * j) * xs ! j)"
      unfolding Suc p by (simp add: distrib_left mult.assoc)
    also have "\<dots> = lval (x # xs) + 2 ^ (64 * k) * v"
      unfolding IH Suc p by (simp add: distrib_left mult.assoc)
    finally show ?thesis .
  qed simp
qed simp

definition columns_ok :: "nat list \<Rightarrow> bool" where
  "columns_ok r \<longleftrightarrow> length r = 8 \<and> (\<forall>k < 8. r ! k < 2 ^ 64)"

lemma columns_ok_nth: "columns_ok r \<Longrightarrow> k < 8 \<Longrightarrow> k < length r \<and> r ! k < 2 ^ 64"
  by (simp add: columns_ok_def)

lemma columns_ok_update:
  assumes "columns_ok r" "v < 2 ^ 64"
  shows "columns_ok (r[k := v])"
  unfolding columns_ok_def
proof (intro conjI allI impI)
  show "length (r[k := v]) = 8" using assms(1) by (simp add: columns_ok_def)
next
  fix j :: nat assume "j < 8"
  then show "r[k := v] ! j < 2 ^ 64"
    using columns_ok_nth [OF assms(1), of j] assms(2) by (cases "j = k") simp_all
qed

lemma lval_replicate [simp]: "lval (replicate n 0) = 0"
  by (induction n) simp_all

text \<open>Every \<open>u128\<close> intermediate of \<open>full_mul\<close> fits: the product of two limbs, a column and
  the carry.\<close>

lemma mul_inner_bound:
  assumes "r < 2 ^ 64" "c < (2 :: nat) ^ 64"
  shows "unat (limb x i) * unat (limb y j) + r + c \<le> u128_max"
    and "(unat (limb x i) * unat (limb y j) + r + c) div 2 ^ 64 < 2 ^ 64"
proof -
  have "unat (limb x i) \<le> 2 ^ 64 - 1" "unat (limb y j) \<le> 2 ^ 64 - 1" "r \<le> 2 ^ 64 - 1" "c \<le> 2 ^ 64 - 1"
    using limb_bound [of x i] limb_bound [of y j] assms by simp_all
  then have "unat (limb x i) * unat (limb y j) + r + c \<le> (2 ^ 64 - 1) * (2 ^ 64 - 1) + (2 ^ 64 - 1) + (2 ^ 64 - 1)"
    by (intro add_mono mult_mono) simp_all
  then show b: "unat (limb x i) * unat (limb y j) + r + c \<le> u128_max"
    by (simp add: u128_max_def)
  then show "(unat (limb x i) * unat (limb y j) + r + c) div 2 ^ 64 < 2 ^ 64"
    by (simp add: u128_max_def div_less_iff_less_mult)
qed

lemma mul_inner_pair: "mul_inner x y i j (r, c) =
   (r[i + j := (unat (limb x i) * unat (limb y j) + r ! (i + j) + c) mod 2 ^ 64],
    (unat (limb x i) * unat (limb y j) + r ! (i + j) + c) div 2 ^ 64)"
  unfolding mul_inner_def Let_def prod.case ..

lemma mul_inner_loop:
  assumes "fold (mul_inner x y i) [0..<n] (r, 0) = (r', c)" "columns_ok r" "i < 4" "n \<le> 4"
  shows "columns_ok r' \<and> c < 2 ^ 64 \<and> (\<forall>k. i + n \<le> k \<longrightarrow> r' ! k = r ! k) \<and>
    lval r' + 2 ^ (64 * (i + n)) * c = lval r + 2 ^ (64 * i) * (unat (limb x i) * low y n)"
  using assms(1,4)
proof (induction n arbitrary: r' c)
  case 0
  then show ?case using assms(2) by simp
next
  case (Suc n)
  obtain r1 c1 where f: "fold (mul_inner x y i) [0..<n] (r, 0) = (r1, c1)" by fastforce
  have "n \<le> 4" using Suc.prems(2) by simp
  note IH = Suc.IH [OF f this]
  have ok: "columns_ok r1" "c1 < 2 ^ 64" using IH by blast+
  have "i + n < 8" using assms(3) Suc.prems(2) by simp
  with columns_ok_nth [OF ok(1)] have k: "i + n < length r1" "r1 ! (i + n) < 2 ^ 64" by blast+
  let ?p = "unat (limb x i) * unat (limb y n) + r1 ! (i + n) + c1"
  have "mul_inner x y i n (r1, c1) = (r', c)" using Suc.prems(1) f by simp
  then have r': "r' = r1[i + n := ?p mod 2 ^ 64]" and c: "c = ?p div 2 ^ 64"
    unfolding mul_inner_pair prod.inject by blast+
  have "columns_ok r'" unfolding r' using ok(1) by (rule columns_ok_update) simp
  moreover have "c < 2 ^ 64" unfolding c using k(2) ok(2) by (rule mul_inner_bound)
  moreover have "\<forall>k. i + Suc n \<le> k \<longrightarrow> r' ! k = r ! k" using IH unfolding r' by simp
  moreover have "lval r' + 2 ^ (64 * (i + Suc n)) * c
    = lval r + 2 ^ (64 * i) * (unat (limb x i) * low y (Suc n))"
  proof -
    have p: "(2 :: nat) ^ (64 * (i + Suc n)) = 2 ^ (64 * (i + n)) * 2 ^ 64"
      unfolding power_add [symmetric] by (rule arg_cong [where f = "\<lambda>k. 2 ^ k"]) simp
    have "?p mod 2 ^ 64 + 2 ^ 64 * c = ?p" unfolding c by (rule mod_mult_div_eq)
    have "lval r' + 2 ^ (64 * (i + n)) * r1 ! (i + n) + 2 ^ (64 * (i + Suc n)) * c
        = lval r1 + 2 ^ (64 * (i + n)) * (?p mod 2 ^ 64 + 2 ^ 64 * c)"
      using lval_update [OF k(1), of "?p mod 2 ^ 64"] unfolding r' p by (simp add: distrib_left)
    also have "\<dots> = lval r1 + 2 ^ (64 * (i + n)) * ?p"
      unfolding c mod_mult_div_eq ..
    also have "\<dots> = (lval r1 + 2 ^ (64 * (i + n)) * c1)
        + 2 ^ (64 * (i + n)) * (unat (limb x i) * unat (limb y n)) + 2 ^ (64 * (i + n)) * r1 ! (i + n)"
      by (simp add: distrib_left)
    also have "lval r1 + 2 ^ (64 * (i + n)) * c1 = lval r + 2 ^ (64 * i) * (unat (limb x i) * low y n)"
      using IH by blast
    finally show ?thesis
      by (simp add: algebra_simps power_add)
  qed
  ultimately show ?case by blast
qed

lemma mul_outer_step:
  assumes "columns_ok r" "i < 4" "r ! (i + 4) = 0"
  shows "columns_ok (mul_outer x y i r)" "\<forall>k. i + 5 \<le> k \<longrightarrow> mul_outer x y i r ! k = r ! k"
    and "lval (mul_outer x y i r) = lval r + 2 ^ (64 * i) * (unat (limb x i) * val y)"
proof -
  obtain r1 c where f: "fold (mul_inner x y i) [0..<4] (r, 0) = (r1, c)" by fastforce
  note loop = mul_inner_loop [OF f assms(1,2) order_refl]
  have z: "r1 ! (i + 4) = 0" using loop assms(3) by simp
  have ok: "columns_ok r1" and c: "c < 2 ^ 64" using loop by blast+
  have m: "mul_outer x y i r = r1[i + 4 := c]"
    using assms(2) f z by (simp add: mul_outer_def)
  have k: "i + 4 < length r1" using ok assms(2) by (simp add: columns_ok_def)
  show "columns_ok (mul_outer x y i r)"
    unfolding m using ok c by (rule columns_ok_update)
  show "\<forall>k. i + 5 \<le> k \<longrightarrow> mul_outer x y i r ! k = r ! k"
    unfolding m using loop by simp
  have "lval (mul_outer x y i r) = lval r1 + 2 ^ (64 * (i + 4)) * c"
    unfolding m using lval_update [OF k, of c] z by simp
  then show "lval (mul_outer x y i r) = lval r + 2 ^ (64 * i) * (unat (limb x i) * val y)"
    using loop by (simp add: low_4)
qed

lemma mul_outer_loop:
  assumes "n \<le> 4"
  shows "columns_ok (fold (mul_outer x y) [0..<n] (replicate 8 0)) \<and>
    (\<forall>k. n + 4 \<le> k \<longrightarrow> k < 8 \<longrightarrow> fold (mul_outer x y) [0..<n] (replicate 8 0) ! k = 0) \<and>
    lval (fold (mul_outer x y) [0..<n] (replicate 8 0)) = low x n * val y"
  using assms
proof (induction n)
  case 0
  show ?case by (simp add: columns_ok_def)
next
  case (Suc n)
  let ?r = "fold (mul_outer x y) [0..<n] (replicate 8 0)"
  have IH: "columns_ok ?r" "\<forall>k. n + 4 \<le> k \<longrightarrow> k < 8 \<longrightarrow> ?r ! k = 0" "lval ?r = low x n * val y"
    using Suc by simp_all
  have n: "n < 4" using Suc.prems by simp
  then have z: "?r ! (n + 4) = 0" using IH(2) by simp
  note st = mul_outer_step [OF IH(1) n z, of x y]
  have f: "fold (mul_outer x y) [0..<Suc n] (replicate 8 0) = mul_outer x y n ?r" by simp
  have "lval (mul_outer x y n ?r) = low x (Suc n) * val y"
    unfolding st(3) IH(3) by (simp add: algebra_simps)
  moreover have "\<forall>k. Suc n + 4 \<le> k \<longrightarrow> k < 8 \<longrightarrow> mul_outer x y n ?r ! k = 0"
    using st(2) IH(2) by simp
  ultimately show ?case unfolding f using st(1) by blast
qed

lemma val_full_mul:
  "val (fst (full_mul x y)) + 2 ^ 256 * val (snd (full_mul x y)) = val x * val y"
proof -
  let ?r = "fold (mul_outer x y) [0..<4] (replicate 8 0)"
  have loop: "columns_ok ?r" "lval ?r = val x * val y"
    using mul_outer_loop [of 4 x y] by (simp_all add: low_4)
  from loop(1) have len: "length ?r = 8" and lt: "\<And>k. k < 8 \<Longrightarrow> ?r ! k < 2 ^ 64"
    by (auto simp: columns_ok_def)
  have u: "unat (of_nat (?r ! k) :: u64) = ?r ! k" if "k < 8" for k
    using lt [OF that] by (simp add: unat_of_nat)
  obtain a0 a1 a2 a3 a4 a5 a6 a7 where r: "?r = [a0, a1, a2, a3, a4, a5, a6, a7]"
    using len by (auto simp: numeral_eq_Suc length_Suc_conv)
  have n: "?r ! 0 = a0" "?r ! 1 = a1" "?r ! 2 = a2" "?r ! 3 = a3" "?r ! 4 = a4" "?r ! 5 = a5"
    "?r ! 6 = a6" "?r ! 7 = a7" unfolding r by simp_all
  have ua: "unat (of_nat a0 :: u64) = a0" "unat (of_nat a1 :: u64) = a1" "unat (of_nat a2 :: u64) = a2"
    "unat (of_nat a3 :: u64) = a3" "unat (of_nat a4 :: u64) = a4" "unat (of_nat a5 :: u64) = a5"
    "unat (of_nat a6 :: u64) = a6" "unat (of_nat a7 :: u64) = a7"
    using u [of 0] u [of 1] u [of 2] u [of 3] u [of 4] u [of 5] u [of 6] u [of 7] unfolding n by simp_all
  have "lval ?r = a0 + 2 ^ 64 * (a1 + 2 ^ 64 * (a2 + 2 ^ 64 * a3))
      + 2 ^ 256 * (a4 + 2 ^ 64 * (a5 + 2 ^ 64 * (a6 + 2 ^ 64 * a7)))"
    unfolding r by simp
  then show ?thesis
    unfolding loop(2) [symmetric] full_mul_def Let_def n fst_conv snd_conv val.simps ua by simp
qed

lemma val_full_mul_parts:
  "val (fst (full_mul x y)) = val x * val y mod 2 ^ 256"
  "val (snd (full_mul x y)) = val x * val y div 2 ^ 256"
  using val_full_mul [of x y, symmetric] val_bound [of "fst (full_mul x y)"] by simp_all

lemma val_wrapping_mul [val_simps]: "val (wrapping_mul x y) = val x * val y mod 2 ^ 256"
  by (simp add: wrapping_mul_def val_full_mul_parts)

end
