(* ===== verification/Mul_Div.thy ===== *)
theory Mul_Div
  imports U256_Division
begin

text \<open>
  Division in \<open>clmm_math.rs\<close>: \<open>U256::div_rem\<close> and \<open>div_512_by_256\<close> (binary long
  division, one bit of the dividend per turn of the loop), and \<open>mul_div_floor\<close>,
  \<open>mul_div_ceil\<close> and \<open>mul_div_u128\<close> on top of them. A panic is \<open>None\<close>. The lemmas show
  that both loops compute quotient and remainder exactly, so the \<open>mul_div\<close> family is the
  floor and the ceiling of \<open>a * b / d\<close> whenever that fits in 256 bits.
\<close>

section \<open>Definitions\<close>

definition assert_ok :: "bool \<Rightarrow> unit option" where
  "assert_ok b = (if b then Some () else None)"

lemma assert_ok_simps [simp]: "assert_ok True = Some ()" "assert_ok False = None"
  "assert_ok b = Some u \<longleftrightarrow> b" "assert_ok b = None \<longleftrightarrow> \<not> b"
  by (simp_all add: assert_ok_def)

definition shift_in :: "U256 \<Rightarrow> U256 \<Rightarrow> nat \<Rightarrow> U256" where
  "shift_in remainder dividend i =
     (let r = shl remainder 1 in
      if bit_set_at dividend i then set_limb r 0 (limb r 0 OR 1) else r)"

definition div_rem_step :: "U256 \<Rightarrow> U256 \<Rightarrow> nat \<Rightarrow> U256 \<times> U256 \<Rightarrow> U256 \<times> U256" where
  "div_rem_step x divisor i = (\<lambda>(quotient, remainder).
     let r = shift_in remainder x i in
     if r \<ge> divisor then (or_bit quotient i, wrapping_sub r divisor) else (quotient, r))"

definition div_rem :: "U256 \<Rightarrow> U256 \<Rightarrow> (U256 \<times> U256) option" where
  "div_rem x divisor =
     (if is_zero divisor then None
      else if x < divisor then Some (U256_ZERO, x)
      else if x = divisor then Some (U256_ONE, U256_ZERO)
      else
        let dividend_bits = bit_length x in
        Some (fold (div_rem_step x divisor) (rev [0..<dividend_bits]) (U256_ZERO, U256_ZERO)))"

definition U256_div :: "U256 \<Rightarrow> U256 \<Rightarrow> U256 option" where
  "U256_div x d = map_option fst (div_rem x d)"

definition U256_rem :: "U256 \<Rightarrow> U256 \<Rightarrow> U256 option" where
  "U256_rem x d = map_option snd (div_rem x d)"

definition div_512_step :: "U256 \<Rightarrow> U256 \<Rightarrow> nat \<Rightarrow> U256 \<times> U256 \<Rightarrow> U256 \<times> U256" where
  "div_512_step lo d i = (\<lambda>(quotient, remainder).
     let overflow = (drop_bit 63 (limb remainder 3) \<noteq> 0);
         r = shift_in remainder lo i in
     if overflow \<or> r \<ge> d then (or_bit quotient i, wrapping_sub r d) else (quotient, r))"

definition div_512_by_256 :: "U256 \<Rightarrow> U256 \<Rightarrow> U256 \<Rightarrow> U256 \<times> U256" where
  "div_512_by_256 hi lo d = fold (div_512_step lo d) (rev [0..<256]) (U256_ZERO, hi)"

definition mul_div_internal :: "U256 \<Rightarrow> U256 \<Rightarrow> U256 \<Rightarrow> bool \<Rightarrow> U256 option" where
  "mul_div_internal a b d round_up =
     Option.bind (assert_ok (\<not> is_zero d)) (\<lambda>_.
     if is_zero a \<or> is_zero b then Some U256_ZERO
     else
       let (lo, hi) = full_mul a b in
       if is_zero hi then
         Option.bind (div_rem lo d) (\<lambda>(q, r).
         Some (if round_up \<and> \<not> is_zero r then wrapping_add q U256_ONE else q))
       else
         let (q, r) = div_512_by_256 hi lo d in
         Some (if round_up \<and> \<not> is_zero r then wrapping_add q U256_ONE else q))"

definition mul_div_floor :: "U256 \<Rightarrow> U256 \<Rightarrow> U256 \<Rightarrow> U256 option" where
  "mul_div_floor a b d = mul_div_internal a b d False"

definition mul_div_ceil :: "U256 \<Rightarrow> U256 \<Rightarrow> U256 \<Rightarrow> U256 option" where
  "mul_div_ceil a b d = mul_div_internal a b d True"

definition mul_div_u128 :: "nat \<Rightarrow> nat \<Rightarrow> nat \<Rightarrow> bool \<Rightarrow> nat option" where
  "mul_div_u128 a b c round_up =
     (if c = 0 then Some 0
      else if a = 0 \<or> b = 0 then Some 0
      else case u128_checked_mul a b of
        Some product \<Rightarrow>
          let q = product div c; r = product mod c in
          if round_up \<and> r > 0 then u128_checked_add q 1 else Some q
      | None \<Rightarrow>
          let a256 = from_u128 a; b256 = from_u128 b; c256 = from_u128 c in
          Option.bind (if round_up then mul_div_ceil a256 b256 c256 else mul_div_floor a256 b256 c256)
            (\<lambda>result. Some (case to_u128 result of Some v \<Rightarrow> v | None \<Rightarrow> u128_max)))"

section \<open>Bits, in and out\<close>

lemma bit_set_at_val: "i < 256 \<Longrightarrow> bit_set_at x i \<longleftrightarrow> bit (val x) i"
proof -
  assume "i < 256"
  have "bit_set_at x i \<longleftrightarrow> odd (drop_bit (i mod 64) (limb x (i div 64)))"
    unfolding bit_set_at_def and_one_eq odd_iff_mod_2_eq_one ..
  also have "\<dots> \<longleftrightarrow> bit (limb x (i div 64)) (i mod 64)" by (rule bit_iff_odd_drop_bit [symmetric])
  also have "\<dots> \<longleftrightarrow> bit (val x) i" using \<open>i < 256\<close> by (simp only: bit_val simp_thms)
  finally show ?thesis .
qed

lemma bit_or_bit:
  assumes "i < 256" "n < 256"
  shows "bit (val (or_bit x i)) n \<longleftrightarrow> bit (val x) n \<or> n = i"
proof -
  have i: "i div 64 < 4" "n div 64 < 4" "n mod 64 < 64" using assms by (simp_all add: div_less_iff_less_mult)
  have eq: "n = i \<longleftrightarrow> n div 64 = i div 64 \<and> n mod 64 = i mod 64"
    by (metis div_mult_mod_eq)
  have one: "bit (push_bit (i mod 64) (1 :: u64)) (n mod 64) \<longleftrightarrow> n mod 64 = i mod 64"
    unfolding bit_push_bit_iff bit_1_iff using i(3) by auto
  show ?thesis
    using assms(2) i one eq by (auto simp: bit_val or_bit_def limb_set_limb bit_or_iff)
qed

lemma val_or_bit:
  assumes "i < 256" "\<not> bit (val x) i"
  shows "val (or_bit x i) = val x + 2 ^ i"
proof -
  have "val (or_bit x i) = set_bit i (val x)"
  proof (rule val_eqI)
    fix n :: nat assume "n < 256"
    then show "bit (val (or_bit x i)) n = bit (set_bit i (val x)) n"
      using bit_or_bit [OF assms(1), of n x] by (auto simp: bit_set_bit_iff)
  next
    have "set_bit i (val x) = take_bit 256 (set_bit i (val x))"
      using assms(1) val_bound [of x] by (simp add: take_bit_set_bit_eq take_bit_nat_eq_self)
    also have "\<dots> < 2 ^ 256" by (rule take_bit_nat_less_exp)
    finally show "set_bit i (val x) < 2 ^ 256" .
  qed
  then show ?thesis using assms(2) by (simp add: set_bit_eq)
qed

lemma val_shift_in:
  assumes "i < 256"
  shows "val (shift_in r x i) = (2 * val r + of_bool (bit (val x) i)) mod 2 ^ 256"
proof -
  let ?s = "shl r 1"
  have s: "val ?s = 2 * val r mod 2 ^ 256" by (simp add: val_shl mult.commute)
  have even: "even (val ?s)" unfolding s by (rule dvd_mod) simp_all
  have le: "val ?s + 1 < 2 ^ 256"
  proof -
    have "val ?s < 2 ^ 256" by (rule val_bound)
    moreover have "odd (2 ^ 256 - 1 :: nat)" by simp
    then have "val ?s \<noteq> 2 ^ 256 - 1" using even by metis
    ultimately show ?thesis by linarith
  qed
  have one: "set_limb ?s 0 (limb ?s 0 OR 1) = or_bit ?s 0" by (simp add: or_bit_def)
  have "(2 * val r + 1) mod 2 ^ 256 = (2 * val r mod 2 ^ 256 + 1) mod 2 ^ 256"
    by (simp only: mod_add_left_eq)
  also have "\<dots> = val ?s + 1" using le s by (metis mod_less)
  finally have odd: "(2 * val r + 1) mod 2 ^ 256 = val ?s + 1" .
  show ?thesis
  proof (cases "bit (val x) i")
    case True
    have "val (or_bit ?s 0) = val ?s + 1" using val_or_bit [of 0 ?s] even by (simp add: bit_0)
    with odd have "val (or_bit ?s 0) = (2 * val r + 1) mod 2 ^ 256" by metis
    then show ?thesis
      using True assms by (simp only: shift_in_def Let_def bit_set_at_val one if_True of_bool_eq)
  next
    case False
    then show ?thesis using assms s
      by (simp only: shift_in_def Let_def bit_set_at_val if_False of_bool_eq add_0_right)
  qed
qed

lemma top_bit_val: "drop_bit 63 (limb x 3) \<noteq> 0 \<longleftrightarrow> 2 ^ 255 \<le> val x"
proof -
  have "drop_bit 63 (limb x 3) \<noteq> 0 \<longleftrightarrow> 2 ^ 63 \<le> unat (limb x 3)"
  proof -
    have "drop_bit 63 (limb x 3) = 0 \<longleftrightarrow> unat (drop_bit 63 (limb x 3)) = 0" by (simp add: unat_eq_0)
    also have "unat (drop_bit 63 (limb x 3)) = unat (limb x 3) div 2 ^ 63"
      unfolding unsigned_drop_bit_eq drop_bit_eq_div [symmetric]
      using limb_bound [of x 3] by (simp add: take_bit_nat_eq_self)
    also have "unat (limb x 3) div 2 ^ 63 = 0 \<longleftrightarrow> unat (limb x 3) < 2 ^ 63" by (simp add: div_eq_0_iff)
    finally show ?thesis by (simp only: not_less)
  qed
  also have "\<dots> \<longleftrightarrow> 2 ^ 255 \<le> val x"
    unfolding val_limbs using limb_bound [of x 0] limb_bound [of x 1] limb_bound [of x 2] by auto
  finally show ?thesis .
qed

section \<open>Long division\<close>

text \<open>One turn brings a bit down and subtracts when it can; on numbers that is this.\<close>

lemma div_turn:
  fixes N D i :: nat
  assumes "0 < D"
  defines "R \<equiv> (N div 2 ^ Suc i) mod D"
  defines "M \<equiv> 2 * R + of_bool (bit N i)"
  shows "M < 2 * D" "(N div 2 ^ i) mod D = M mod D"
    "2 ^ i * ((N div 2 ^ i) div D) = 2 ^ Suc i * ((N div 2 ^ Suc i) div D) + 2 ^ i * (M div D)"
    "M \<le> N div 2 ^ i"
proof -
  define A where "A = N div 2 ^ Suc i"
  have "R < D" unfolding R_def using assms(1) by simp
  then show "M < 2 * D" unfolding M_def by simp
  have "A = N div 2 ^ i div 2" unfolding A_def by (simp add: div_mult2_eq [symmetric] mult.commute)
  then have A: "N div 2 ^ i = 2 * A + of_bool (bit N i)"
    by (simp add: bit_iff_odd of_bool_odd_eq_mod_2)
  have AR: "A = D * (A div D) + R" unfolding R_def A_def [symmetric] by simp
  have eq: "N div 2 ^ i = M + D * (2 * (A div D))"
    unfolding A M_def by (subst AR) (simp add: algebra_simps)
  then show "(N div 2 ^ i) mod D = M mod D" by simp
  have "(N div 2 ^ i) div D = 2 * (A div D) + M div D"
    unfolding eq using assms(1) by simp
  then show "2 ^ i * ((N div 2 ^ i) div D) = 2 ^ Suc i * ((N div 2 ^ Suc i) div D) + 2 ^ i * (M div D)"
    unfolding A_def by (simp add: algebra_simps)
  show "M \<le> N div 2 ^ i" unfolding eq by simp
qed

definition div_state :: "nat \<Rightarrow> nat \<Rightarrow> nat \<Rightarrow> U256 \<times> U256 \<Rightarrow> bool" where
  "div_state N D i s \<longleftrightarrow> val (fst s) = 2 ^ i * ((N div 2 ^ i) div D) \<and> val (snd s) = (N div 2 ^ i) mod D"

lemma div_state_turn:
  assumes "div_state N D (Suc i) (q, r)" "0 < D" "i < 256" "M = 2 * val r + of_bool (bit N i)"
    and "if D \<le> M then s = (or_bit q i, t) \<and> val t = M - D else s = (q, t) \<and> val t = M"
  shows "div_state N D i s"
proof -
  have q: "val q = 2 ^ Suc i * ((N div 2 ^ Suc i) div D)" and r: "val r = (N div 2 ^ Suc i) mod D"
    using assms(1) by (simp_all add: div_state_def)
  note turn = div_turn [OF assms(2), where N = N and i = i]
  have clear: "\<not> bit (val q) i" unfolding q by (simp add: bit_iff_odd mult.assoc)
  have M: "M = 2 * ((N div 2 ^ Suc i) mod D) + of_bool (bit N i)" using assms(4) r by simp
  show ?thesis
  proof (cases "D \<le> M")
    case True
    have "M div D = 1" "M mod D = M - D"
      using True turn(1) assms(2) unfolding M [symmetric] by (simp_all add: div_nat_eqI le_mod_geq)
    then show ?thesis
      using assms(5) True turn(2,3) val_or_bit [OF assms(3) clear] q
      unfolding M [symmetric] div_state_def by simp
  next
    case False
    then show ?thesis
      using assms(5) turn(2,3) q unfolding M [symmetric] div_state_def by simp
  qed
qed

lemma div_state_bound: "div_state N D i (q, r) \<Longrightarrow> 0 < D \<Longrightarrow> val r < D"
  by (simp add: div_state_def)

lemma div_512_turn:
  assumes "div_state N (val d) (Suc i) (q, r)" "0 < val d" "i < 256" "bit N i = bit (val lo) i"
  shows "div_state N (val d) i (div_512_step lo d i (q, r))"
proof -
  let ?M = "2 * val r + of_bool (bit N i)"
  define t where "t = shift_in r lo i"
  have t: "val t = ?M mod 2 ^ 256" unfolding t_def using val_shift_in [OF assms(3)] assms(4) by simp
  have rd: "val r < val d" using div_state_bound [OF assms(1,2)] .
  have d: "val d < 2 ^ 256" by (rule val_bound)
  show ?thesis
  proof (cases "2 ^ 255 \<le> val r")
    case True
    have "2 ^ 256 \<le> ?M" "?M - 2 ^ 256 < 2 ^ 256" using True rd d by auto
    then have "?M mod 2 ^ 256 = ?M - 2 ^ 256" by (simp only: le_mod_geq mod_less)
    then have "val t = ?M - 2 ^ 256" unfolding t .
    then have lt: "val t < val d" and tM: "val t + 2 ^ 256 = ?M" using True rd d by auto
    have "div_512_step lo d i (q, r) = (or_bit q i, wrapping_sub t d)"
      using True by (simp only: div_512_step_def Let_def prod.case top_bit_val t_def [symmetric]
        simp_thms if_True)
    moreover have "val (wrapping_sub t d) = ?M - val d"
      using val_wrapping_sub_wrap [OF lt] tM by simp
    moreover have "val d \<le> ?M" using tM d by simp
    ultimately show ?thesis
      by (intro div_state_turn [OF assms(1-3) refl, where t = "wrapping_sub t d"]) simp
  next
    case False
    then have "?M < 2 ^ 256" by (simp add: of_bool_def)
    then have tM: "val t = ?M" unfolding t by (rule mod_less)
    have "div_512_step lo d i (q, r) = (if val d \<le> ?M then (or_bit q i, wrapping_sub t d) else (q, t))"
      using False by (simp only: div_512_step_def Let_def prod.case top_bit_val t_def [symmetric]
        simp_thms le_val tM)
    then show ?thesis
      by (intro div_state_turn [OF assms(1-3) refl, where t = "if val d \<le> ?M then wrapping_sub t d else t"])
        (simp add: val_wrapping_sub tM)
  qed
qed

lemma div_rem_turn:
  assumes "div_state (val x) (val d) (Suc i) (q, r)" "0 < val d" "i < 256"
  shows "div_state (val x) (val d) i (div_rem_step x d i (q, r))"
proof -
  let ?M = "2 * val r + of_bool (bit (val x) i)"
  define t where "t = shift_in r x i"
  have "?M \<le> val x div 2 ^ i"
    using div_turn(4) [OF assms(2), of "val x" i] assms(1) by (simp add: div_state_def)
  also have "\<dots> < 2 ^ 256" using val_bound [of x] by (meson div_le_dividend le_less_trans)
  finally have tM: "val t = ?M"
    unfolding t_def val_shift_in [OF assms(3)] by (rule mod_less)
  have "div_rem_step x d i (q, r) = (if val d \<le> ?M then (or_bit q i, wrapping_sub t d) else (q, t))"
    by (simp only: div_rem_step_def Let_def prod.case t_def [symmetric] le_val tM)
  then show ?thesis
    by (intro div_state_turn [OF assms refl, where t = "if val d \<le> ?M then wrapping_sub t d else t"])
      (simp add: val_wrapping_sub tM)
qed

lemma div_fold:
  assumes "\<And>i q r. i < n \<Longrightarrow> div_state N D (Suc i) (q, r) \<Longrightarrow> div_state N D i (step i (q, r))"
    and "div_state N D n s"
  shows "div_state N D 0 (fold step (rev [0..<n]) s)"
  using assms
proof (induction n arbitrary: s)
  case (Suc n)
  have "div_state N D n (step n s)"
    using Suc.prems(1) [of n "fst s" "snd s"] Suc.prems(2) by simp
  with Suc show ?case by simp
qed simp

lemma div_512_by_256_val:
  assumes "val hi < val d"
  shows "val (fst (div_512_by_256 hi lo d)) = (val hi * 2 ^ 256 + val lo) div val d"
    "val (snd (div_512_by_256 hi lo d)) = (val hi * 2 ^ 256 + val lo) mod val d"
proof -
  let ?N = "val lo + 2 ^ 256 * val hi"
  have b: "bit ?N i = bit (val lo) i" if "i < 256" for i
    using that bit_append_nat [OF val_bound, of lo "val hi" i] by simp
  have "?N div 2 ^ 256 = val hi" using val_bound [of lo] by simp
  then have "div_state ?N (val d) 256 (U256_ZERO, hi)"
    using assms by (simp add: div_state_def)
  then have "div_state ?N (val d) 0 (div_512_by_256 hi lo d)"
    unfolding div_512_by_256_def
    by (intro div_fold div_512_turn) (use assms b in auto)
  then show "val (fst (div_512_by_256 hi lo d)) = (val hi * 2 ^ 256 + val lo) div val d"
    "val (snd (div_512_by_256 hi lo d)) = (val hi * 2 ^ 256 + val lo) mod val d"
    by (simp_all add: div_state_def ac_simps)
qed

lemma nat_bits_bounds: "n < 2 ^ nat_bits n" "0 < n \<Longrightarrow> 2 ^ (nat_bits n - 1) \<le> n"
proof -
  have "n < 2 ^ nat_bits n \<and> (0 < n \<longrightarrow> 2 ^ (nat_bits n - 1) \<le> n)"
  proof (induction n rule: nat_bits.induct)
    case (1 n)
    show ?case
    proof (cases "n = 0")
      case False
      with 1 have IH: "n div 2 < 2 ^ nat_bits (n div 2)"
        "0 < n div 2 \<longrightarrow> 2 ^ (nat_bits (n div 2) - 1) \<le> n div 2" by auto
      have b: "nat_bits n = Suc (nat_bits (n div 2))" using False by (simp add: nat_bits.simps [of n])
      have "2 ^ nat_bits (n div 2) \<le> n"
      proof (cases "n div 2")
        case 0
        then show ?thesis using False by (simp add: nat_bits.simps [of 0])
      next
        case (Suc m)
        then have "nat_bits (n div 2) = Suc (nat_bits (n div 2 div 2))"
          by (subst nat_bits.simps) simp
        with IH(2) Suc show ?thesis by simp
      qed
      with IH(1) show ?thesis unfolding b by simp
    qed (simp add: nat_bits.simps [of 0])
  qed
  then show "n < 2 ^ nat_bits n" "0 < n \<Longrightarrow> 2 ^ (nat_bits n - 1) \<le> n" by auto
qed

lemma nat_bits_le: "n < 2 ^ k \<Longrightarrow> nat_bits n \<le> k"
proof (rule ccontr)
  assume a: "n < 2 ^ k" "\<not> nat_bits n \<le> k"
  then have "0 < n" by (cases n) (simp_all add: nat_bits.simps [of 0])
  moreover have "(2 :: nat) ^ k \<le> 2 ^ (nat_bits n - 1)" using a(2) by (intro power_increasing) simp_all
  ultimately show False using nat_bits_bounds(2) [of n] a(1) by linarith
qed

lemma u64_bits: "unat w < 2 ^ (64 - u64_leading_zeros w)"
  using nat_bits_bounds(1) [of "unat w"] nat_bits_le [OF u64_bound, of w]
  by (simp add: u64_leading_zeros_def)

lemma u64_leading_zeros_le: "u64_leading_zeros w \<le> 64"
  by (simp add: u64_leading_zeros_def)

lemma limb_top_value: "p < 2 ^ k \<Longrightarrow> unat w < 2 ^ m \<Longrightarrow> p + 2 ^ k * unat w < 2 ^ (k + m)"
proof -
  assume "p < 2 ^ k" "unat w < 2 ^ m"
  then have "p + 2 ^ k * unat w < 2 ^ k * (unat w + 1)" by simp
  also have "\<dots> \<le> 2 ^ k * 2 ^ m" using \<open>unat w < 2 ^ m\<close> by (intro mult_left_mono) simp_all
  finally show ?thesis by (simp add: power_add)
qed

lemma bit_length_le: "bit_length x \<le> 256"
  by (simp add: bit_length_def)

lemma val_bit_length: "val x < 2 ^ bit_length x"
proof -
  let ?l = "\<lambda>i. u64_leading_zeros (limb x i)"
  have v: "val x = low x 3 + 2 ^ 192 * unat (limb x 3)" "low x 3 = low x 2 + 2 ^ 128 * unat (limb x 2)"
    "low x 2 = low x 1 + 2 ^ 64 * unat (limb x 1)" "low x 1 = unat (limb x 0)"
    using low_Suc [of x 3] low_Suc [of x 2] low_Suc [of x 1] low_Suc [of x 0]
    by (simp_all add: low_4 numeral_2_eq_2 [symmetric] One_nat_def [symmetric]
        del: low_Suc One_nat_def)
  have b: "low x 1 < 2 ^ 64" "low x 2 < 2 ^ 128" "low x 3 < 2 ^ 192"
    using low_bound [of x 1] low_bound [of x 2] low_bound [of x 3] by simp_all
  consider "limb x 3 \<noteq> 0" | "limb x 3 = 0" "limb x 2 \<noteq> 0" | "limb x 3 = 0" "limb x 2 = 0" "limb x 1 \<noteq> 0"
    | "limb x 3 = 0" "limb x 2 = 0" "limb x 1 = 0" by blast
  then show ?thesis
  proof cases
    case 1
    have "bit_length x = 192 + (64 - ?l 3)"
      using 1 u64_leading_zeros_le [of "limb x 3"] by (simp add: bit_length_def leading_zeros_def)
    then show ?thesis using limb_top_value [OF b(3) u64_bits [of "limb x 3"]] v(1) by simp
  next
    case 2
    have "bit_length x = 128 + (64 - ?l 2)"
      using 2 u64_leading_zeros_le [of "limb x 2"] by (simp add: bit_length_def leading_zeros_def)
    then show ?thesis using limb_top_value [OF b(2) u64_bits [of "limb x 2"]] v(1,2) 2 by simp
  next
    case 3
    have "bit_length x = 64 + (64 - ?l 1)"
      using 3 u64_leading_zeros_le [of "limb x 1"] by (simp add: bit_length_def leading_zeros_def)
    then show ?thesis using limb_top_value [OF b(1) u64_bits [of "limb x 1"]] v 3 by simp
  next
    case 4
    have "bit_length x = 64 - ?l 0"
      using 4 u64_leading_zeros_le [of "limb x 0"] by (simp add: bit_length_def leading_zeros_def)
    then show ?thesis using u64_bits [of "limb x 0"] v 4 by simp
  qed
qed

lemma div_rem_eq:
  assumes "val d \<noteq> 0"
  shows "\<exists>q r. div_rem x d = Some (q, r) \<and> val q = val x div val d \<and> val r = val x mod val d"
proof -
  consider "x < d" | "\<not> x < d" "x = d" | "\<not> x < d" "x \<noteq> d" by blast
  then show ?thesis
  proof cases
    case 1
    then show ?thesis using assms by (simp add: div_rem_def is_zero_val less_val)
  next
    case 2
    then show ?thesis using assms by (simp add: div_rem_def is_zero_val)
  next
    case 3
    obtain q r where f: "fold (div_rem_step x d) (rev [0..<bit_length x]) (U256_ZERO, U256_ZERO) = (q, r)"
      by fastforce
    have start: "div_state (val x) (val d) (bit_length x) (U256_ZERO, U256_ZERO)"
      using val_bit_length [of x] by (simp add: div_state_def)
    have "div_state (val x) (val d) 0 (fold (div_rem_step x d) (rev [0..<bit_length x]) (U256_ZERO, U256_ZERO))"
      by (rule div_fold [OF _ start], rule div_rem_turn) (use assms bit_length_le [of x] in auto)
    then show ?thesis
      using 3 assms f by (auto simp: div_rem_def is_zero_val div_state_def)
  qed
qed

lemma div_rem_Some:
  assumes "div_rem x d = Some (q, r)"
  shows "val d \<noteq> 0" "val q = val x div val d" "val r = val x mod val d"
proof -
  show d: "val d \<noteq> 0" using assms by (auto simp: div_rem_def is_zero_val split: if_splits)
  show "val q = val x div val d" "val r = val x mod val d" using div_rem_eq [OF d, of x] assms by auto
qed

lemma U256_div_eq: "val d \<noteq> 0 \<Longrightarrow> \<exists>q. U256_div x d = Some q \<and> val q = val x div val d"
  using div_rem_eq [of d x] by (auto simp: U256_div_def)

lemma U256_rem_eq: "val d \<noteq> 0 \<Longrightarrow> \<exists>r. U256_rem x d = Some r \<and> val r = val x mod val d"
  using div_rem_eq [of d x] by (auto simp: U256_rem_def)

section \<open>mul\_div\<close>

definition ceil_div :: "nat \<Rightarrow> nat \<Rightarrow> nat" where
  "ceil_div n d = (n + d - 1) div d"

lemma ceil_div_eq: "0 < d \<Longrightarrow> ceil_div n d = (if n mod d = 0 then n div d else n div d + 1)"
proof -
  assume d: "0 < d"
  have n: "n + d - 1 = (n mod d + d - 1) + d * (n div d)"
    using d by (simp add: algebra_simps)
  have "((n mod d + d - 1) + d * (n div d)) div d = n div d + (n mod d + d - 1) div d"
    using d by (intro div_mult_self2) simp
  then have "ceil_div n d = n div d + (n mod d + d - 1) div d"
    unfolding ceil_div_def n .
  also have "(n mod d + d - 1) div d = (if n mod d = 0 then 0 else 1)"
  proof (cases "n mod d = 0")
    case False
    then have "n mod d + d - 1 = d + (n mod d - 1)" "n mod d - 1 < d"
      using d mod_less_divisor [of d n] by linarith+
    then have "(n mod d + d - 1) div d = 1" by (intro div_nat_eqI) simp_all
    then show ?thesis using False by simp
  qed (use d in simp)
  finally show ?thesis by simp
qed

lemma ceil_div_le_iff: "0 < d \<Longrightarrow> ceil_div n d \<le> m \<longleftrightarrow> n \<le> m * d"
proof -
  assume d: "0 < d"
  have "ceil_div n d \<le> m \<longleftrightarrow> (n + d - 1) div d < Suc m" by (simp add: ceil_div_def less_Suc_eq_le)
  also have "\<dots> \<longleftrightarrow> n + d - 1 < Suc m * d" using d by (simp add: div_less_iff_less_mult)
  also have "\<dots> \<longleftrightarrow> n \<le> m * d" using d by auto
  finally show ?thesis .
qed

lemma ceil_div_ge: "0 < d \<Longrightarrow> n \<le> ceil_div n d * d"
  using ceil_div_le_iff [of d n "ceil_div n d"] by simp

lemma div_le_ceil_div: "0 < d \<Longrightarrow> n div d \<le> ceil_div n d"
  by (simp add: ceil_div_def div_le_mono)

lemma ceil_div_mono: "n \<le> m \<Longrightarrow> ceil_div n d \<le> ceil_div m d"
  by (simp add: ceil_div_def div_le_mono)

lemma ceil_div_0 [simp]: "ceil_div 0 d = 0"
  by (cases d) (simp_all add: ceil_div_def)

definition rounded_div :: "bool \<Rightarrow> nat \<Rightarrow> nat \<Rightarrow> nat" where
  "rounded_div up n d = (if up then ceil_div n d else n div d)"

lemma rounded_up:
  assumes "val q = n div val d" "val r = n mod val d" "0 < val d" "rounded_div up n (val d) < 2 ^ 256"
  shows "val (if up \<and> \<not> is_zero r then wrapping_add q U256_ONE else q) = rounded_div up n (val d)"
  using assms by (auto simp: is_zero_val val_wrapping_add rounded_div_def ceil_div_eq split: if_splits)

lemma mul_div_internal_val:
  assumes "0 < val d" "rounded_div up (val a * val b) (val d) < 2 ^ 256"
  shows "\<exists>v. mul_div_internal a b d up = Some v \<and> val v = rounded_div up (val a * val b) (val d)"
proof (cases "val a = 0 \<or> val b = 0")
  case True
  then show ?thesis
    using assms(1) by (auto simp: mul_div_internal_def is_zero_val rounded_div_def)
next
  case False
  obtain lo hi where f: "full_mul a b = (lo, hi)" by fastforce
  have lohi: "val hi * 2 ^ 256 + val lo = val a * val b" "val lo = val a * val b mod 2 ^ 256"
    "val hi = val a * val b div 2 ^ 256"
    using val_full_mul [of a b] val_full_mul_parts [of a b] f by (simp_all add: mult.commute)
  show ?thesis
  proof (cases "val hi = 0")
    case True
    then have lo: "val lo = val a * val b" using lohi(1) by simp
    obtain q r where qr: "div_rem lo d = Some (q, r)" "val q = val lo div val d" "val r = val lo mod val d"
      using div_rem_eq [of d lo] assms(1) by auto
    show ?thesis
      using rounded_up [OF qr(2,3) assms(1)] assms(2) lo qr(1) f False True assms(1)
      by (simp add: mul_div_internal_def is_zero_val)
  next
    case hi: False
    have "val a * val b div val d < 2 ^ 256"
      using assms div_le_ceil_div [of "val d" "val a * val b"] by (auto simp: rounded_div_def split: if_splits)
    then have "val a * val b < 2 ^ 256 * val d" using assms(1) by (simp add: div_less_iff_less_mult)
    then have "val hi < val d" unfolding lohi(3) by (simp add: less_mult_imp_div_less mult.commute)
    note val_qr = div_512_by_256_val [OF this, of lo, unfolded lohi(1)]
    obtain q r where d: "div_512_by_256 hi lo d = (q, r)" by fastforce
    note qr = val_qr [unfolded d fst_conv snd_conv]
    have "mul_div_internal a b d up
        = Some (if up \<and> \<not> is_zero r then wrapping_add q U256_ONE else q)"
      using d f False hi assms(1) by (simp add: mul_div_internal_def is_zero_val)
    then show ?thesis using rounded_up [OF qr assms(1,2)] by blast
  qed
qed

lemma mul_div_floor_val:
  assumes "0 < val d" "val a * val b div val d < 2 ^ 256"
  shows "\<exists>v. mul_div_floor a b d = Some v \<and> val v = val a * val b div val d"
  using mul_div_internal_val [of d False a b] assms by (simp add: mul_div_floor_def rounded_div_def)

lemma mul_div_ceil_val:
  assumes "0 < val d" "ceil_div (val a * val b) (val d) < 2 ^ 256"
  shows "\<exists>v. mul_div_ceil a b d = Some v \<and> val v = ceil_div (val a * val b) (val d)"
  using mul_div_internal_val [of d True a b] assms by (simp add: mul_div_ceil_def rounded_div_def)

lemma mul_div_internal_None: "mul_div_internal a b d up = None \<longleftrightarrow> val d = 0"
proof (cases "val d = 0")
  case False
  obtain lo hi where f: "full_mul a b = (lo, hi)" by fastforce
  obtain q r where qr: "div_rem lo d = Some (q, r)" using div_rem_eq [OF False, of lo] by auto
  obtain q' r' where "div_512_by_256 hi lo d = (q', r')" by fastforce
  with False f qr show ?thesis by (simp add: mul_div_internal_def is_zero_val)
qed (simp add: mul_div_internal_def is_zero_val)

text \<open>\<open>mul_div_u128\<close> never panics: it is the rounded quotient, capped at \<open>u128::MAX\<close>, and
  zero for a zero divisor.\<close>

lemma mul_div_u128_val:
  assumes "a \<le> u128_max" "b \<le> u128_max" "c \<le> u128_max"
  shows "mul_div_u128 a b c up = Some (if c = 0 then 0 else min (rounded_div up (a * b) c) u128_max)"
proof -
  consider "c = 0 \<or> a = 0 \<or> b = 0" | "c \<noteq> 0" "a \<noteq> 0" "b \<noteq> 0" "a * b \<le> u128_max"
    | "c \<noteq> 0" "a \<noteq> 0" "b \<noteq> 0" "u128_max < a * b" by linarith
  then show ?thesis
  proof cases
    case 1
    then show ?thesis by (auto simp: mul_div_u128_def rounded_div_def)
  next
    case 2
    have le: "a * b div c \<le> u128_max" using 2(4) by (meson div_le_dividend le_trans)
    have add: "a * b div c + 1 \<le> u128_max" if "0 < a * b mod c"
    proof -
      have "c \<noteq> 1" using that by auto
      then have "2 \<le> c" using 2(1) by linarith
      then have "a * b div c \<le> a * b div 2" by (intro div_le_mono2) simp_all
      then show ?thesis using 2(4) by (simp add: u128_max_def)
    qed
    show ?thesis
      using 2 le add
      by (auto simp: mul_div_u128_def u128_checked_mul_def u128_checked_add_def rounded_div_def
          ceil_div_eq min_def Let_def)
  next
    case 3
    have fit: "rounded_div up (a * b) c < 2 ^ 256"
    proof -
      have "rounded_div up (a * b) c \<le> a * b"
        using 3(1) by (auto simp: rounded_div_def ceil_div_le_iff)
      also have "\<dots> \<le> u128_max * u128_max" using assms by (intro mult_mono) simp_all
      also have "\<dots> < 2 ^ 256" by (simp add: u128_max_def)
      finally show ?thesis .
    qed
    have v: "val (from_u128 a) = a" "val (from_u128 b) = b" "val (from_u128 c) = c"
      using assms by (simp_all add: val_from_u128)
    obtain w where w: "mul_div_internal (from_u128 a) (from_u128 b) (from_u128 c) up = Some w"
      "val w = rounded_div up (a * b) c"
      using mul_div_internal_val [of "from_u128 c" up "from_u128 a" "from_u128 b"] fit 3(1) v by auto
    have "(if up then mul_div_ceil (from_u128 a) (from_u128 b) (from_u128 c)
        else mul_div_floor (from_u128 a) (from_u128 b) (from_u128 c)) = Some w"
      using w(1) by (cases up) (simp_all add: mul_div_ceil_def mul_div_floor_def)
    moreover have "u128_checked_mul a b = None" using 3(4) by (simp add: u128_checked_mul_def)
    ultimately show ?thesis
      using 3 w(2) by (simp add: mul_div_u128_def Let_def to_u128_val min_def)
  qed
qed

end
