(* ===== verification/Tick_Math.thy ===== *)
theory Tick_Math
  imports Mul_Div
begin

text \<open>
  The tick arithmetic of \<open>clmm_math.rs\<close>: the constants, \<open>sqrt_ratio_at_tick\<close>,
  \<open>mul_shift_128\<close>, \<open>tick_at_sqrt_ratio\<close> and \<open>widening_mul_u128\<close>. Ticks are \<open>int\<close>
  (the code asserts their range), \<open>u128\<close> values naturals with the truncations written out.
  The lemmas refine \<open>sqrt_ratio_at_tick\<close> to arithmetic on naturals, show that it returns for
  every tick in range, and that the widening product is exact with no intermediate overflow.
\<close>

section \<open>Constants\<close>

definition MIN_TICK :: int where "MIN_TICK = - 887272"
definition MAX_TICK :: int where "MAX_TICK = 887272"
definition FEE_DENOMINATOR :: nat where "FEE_DENOMINATOR = 10000"
definition TICKS_PER_CHUNK :: int where "TICKS_PER_CHUNK = 16"

definition Q96_U256 :: U256 where "Q96_U256 = U256 0 0x100000000 0 0"

definition MIN_SQRT_RATIO :: nat where "MIN_SQRT_RATIO = 4295128739"

definition MAX_SQRT_RATIO :: U256 where
  "MAX_SQRT_RATIO = U256 0x5d951d5263988d26 0xefd1fc6a50648849 0x0000fffd8963 0"

definition TICK_MULTIPLIERS :: "nat list" where
  "TICK_MULTIPLIERS = [
    0xfffcb933bd6fad37aa2d162d1a594001,
    0xfff97272373d413259a46990580e213a,
    0xfff2e50f5f656932ef12357cf3c7fdcc,
    0xffe5caca7e10e4e61c3624eaa0941cd0,
    0xffcb9843d60f6159c9db58835c926644,
    0xff973b41fa98c081472e6896dfb254c0,
    0xff2ea16466c96a3843ec78b326b52861,
    0xfe5dee046a99a2a811c461f1969c3053,
    0xfcbe86c7900a88aedcffc83b479aa3a4,
    0xf987a7253ac413176f2b074cf7815e54,
    0xf3392b0822b70005940c7a398e4b70f3,
    0xe7159475a2c29b7443b29c7fa6e889d9,
    0xd097f3bdfd2022b8845ad8f792aa5825,
    0xa9f746462d870fdf8a65dc1f90e061e5,
    0x70d869a156d2a1b890bb3df62baf32f7,
    0x31be135f97d08fd981231505542fcfa6,
    0x09aa508b5b7a84e1c677de54f3e99bc9,
    0x005d6af8dedb81196699c329225ee604,
    0x0002216e584f5fa1ea926041bedfe98,
    0x000048a170391f7dc42444e8fa2]"

definition min_sqrt_ratio :: U256 where "min_sqrt_ratio = from_u128 MIN_SQRT_RATIO"
definition max_sqrt_ratio :: U256 where "max_sqrt_ratio = MAX_SQRT_RATIO"

section \<open>Price of a tick\<close>

definition mul_shift_128 :: "U256 \<Rightarrow> U256 \<Rightarrow> U256" where
  "mul_shift_128 a b =
     (let (lo, hi) = full_mul a b;
          lo_shifted = shr lo 128;
          hi_shifted = shl hi 128
      in wrapping_add hi_shifted lo_shifted)"

definition ratio_step :: "nat \<Rightarrow> nat \<times> nat \<Rightarrow> U256 \<Rightarrow> U256" where
  "ratio_step abs_tick = (\<lambda>(i, mul) ratio.
     if abs_tick AND push_bit i 1 \<noteq> 0 then mul_shift_128 ratio (from_u128 mul) else ratio)"

definition sqrt_ratio_at_tick :: "int \<Rightarrow> U256 option" where
  "sqrt_ratio_at_tick tick =
     Option.bind (assert_ok (tick \<ge> MIN_TICK \<and> tick \<le> MAX_TICK)) (\<lambda>_.
     let abs_tick = nat \<bar>tick\<bar>;
         q128 = shl (from_u128 (2 ^ 127)) 1;
         ratio0 = fold (ratio_step abs_tick) (enumerate 0 TICK_MULTIPLIERS) q128
     in Option.bind (if tick > 0 then U256_div U256_MAX ratio0 else Some ratio0) (\<lambda>ratio.
     let q32 = from_u64 (2 ^ 32) in
     Option.bind (U256_rem ratio q32) (\<lambda>remainder.
     let sqrt_price_x96 = shr ratio 32 in
     Some (if \<not> is_zero remainder then wrapping_add sqrt_price_x96 U256_ONE else sqrt_price_x96))))"

section \<open>Tick of a price\<close>

definition widening_mul_u128 :: "nat \<Rightarrow> nat \<Rightarrow> nat \<times> nat" where
  "widening_mul_u128 a b =
     (let a0 = take_bit 64 a; a1 = drop_bit 64 a; b0 = take_bit 64 b; b1 = drop_bit 64 b;
          p00 = a0 * b0; p01 = a0 * b1; p10 = a1 * b0; p11 = a1 * b1;
          mid = drop_bit 64 p00 + take_bit 64 p01 + take_bit 64 p10;
          lo = take_bit 64 p00 OR push_bit 64 (take_bit 64 mid);
          hi = p11 + drop_bit 64 p01 + drop_bit 64 p10 + drop_bit 64 mid
      in (hi, lo))"

definition u128_leading_zeros :: "nat \<Rightarrow> nat" where
  "u128_leading_zeros x = 128 - nat_bits x"

definition u128_shl :: "nat \<Rightarrow> nat \<Rightarrow> nat" where
  "u128_shl x s = take_bit 128 (push_bit s x)"

definition u128_wrapping_neg :: "nat \<Rightarrow> nat" where
  "u128_wrapping_neg x = (2 ^ 128 - x) mod 2 ^ 128"

definition as_i32 :: "int \<Rightarrow> int" where
  "as_i32 x = (x + 2 ^ 31) mod 2 ^ 32 - 2 ^ 31"

definition log2_step :: "nat \<Rightarrow> int \<times> nat \<Rightarrow> int \<times> nat" where
  "log2_step bit_pos = (\<lambda>(log_2, r).
     let (sq_hi, sq_lo) = widening_mul_u128 r r;
         f = drop_bit 127 sq_hi
     in (log_2 OR push_bit bit_pos (int f),
         if f = 0 then u128_shl sq_hi 1 OR drop_bit 127 sq_lo else sq_hi))"

text \<open>The position of the highest bit of the Q128 ratio, and its 128 leading bits.\<close>

definition ratio_msb :: "nat \<Rightarrow> nat \<Rightarrow> nat" where
  "ratio_msb ratio_hi ratio_lo =
     (if ratio_hi > 0 then 128 + (127 - u128_leading_zeros ratio_hi)
      else 127 - u128_leading_zeros ratio_lo)"

definition ratio_mantissa :: "nat \<Rightarrow> nat \<Rightarrow> nat \<Rightarrow> nat" where
  "ratio_mantissa ratio_hi ratio_lo msb =
     (if msb \<ge> 128
      then let s = msb - 127 in u128_shl ratio_hi (128 - s) OR drop_bit s ratio_lo
      else u128_shl ratio_lo (127 - msb))"

text \<open>The logarithm to base two in Q64.64, to fourteen fractional bits.\<close>

definition log2_q64 :: "U256 \<Rightarrow> int" where
  "log2_q64 sqrt_price_x96 =
     (let ratio = shl sqrt_price_x96 32;
          ratio_hi_u256 = shr ratio 128;
          ratio_hi = (case to_u128 ratio_hi_u256 of Some v \<Rightarrow> v | None \<Rightarrow> 0);
          ratio_lo_u256 = wrapping_sub ratio (shl ratio_hi_u256 128);
          ratio_lo = (case to_u128 ratio_lo_u256 of Some v \<Rightarrow> v | None \<Rightarrow> 0);
          msb = ratio_msb ratio_hi ratio_lo;
          r = ratio_mantissa ratio_hi ratio_lo msb;
          log_2 = push_bit 64 (int msb - 128)
      in fst (fold log2_step (rev [50..<64]) (log_2, r)))"

definition LOG_SQRT10001 :: nat where "LOG_SQRT10001 = 255738958999603826347141"
definition TICK_LOW_ERROR :: nat where "TICK_LOW_ERROR = 3402992956809132418596140100660247210"
definition TICK_HI_ERROR :: nat where "TICK_HI_ERROR = 291339464771989622907027621153398088495"

text \<open>The same logarithm to base \<open>1.0001^(1/2)\<close> as a 256-bit two's complement number in two halves.\<close>

definition log_sqrt10001 :: "int \<Rightarrow> int \<times> nat" where
  "log_sqrt10001 log_2 =
     (let neg = (log_2 < 0);
          abs_log_2 = nat \<bar>log_2\<bar>;
          (mul_hi, mul_lo) = widening_mul_u128 abs_log_2 LOG_SQRT10001
      in if \<not> neg then (int mul_hi, mul_lo)
         else if mul_lo = 0 then (- int mul_hi, 0)
         else (- int mul_hi - 1, u128_wrapping_neg mul_lo))"

definition tick_bounds :: "int \<times> nat \<Rightarrow> int \<times> int" where
  "tick_bounds = (\<lambda>(log_hi, log_lo).
     (as_i32 (log_hi - (if log_lo < TICK_LOW_ERROR then 1 else 0)),
      as_i32 (log_hi + (if log_lo + TICK_HI_ERROR > u128_max then 1 else 0))))"

definition tick_at_sqrt_ratio :: "U256 \<Rightarrow> int option" where
  "tick_at_sqrt_ratio sqrt_price_x96 =
     Option.bind (assert_ok (sqrt_price_x96 \<ge> min_sqrt_ratio \<and> sqrt_price_x96 < max_sqrt_ratio)) (\<lambda>_.
     let (tick_low, tick_hi) = tick_bounds (log_sqrt10001 (log2_q64 sqrt_price_x96))
     in if tick_low = tick_hi then Some tick_low
        else Option.bind (sqrt_ratio_at_tick tick_hi) (\<lambda>p.
             Some (if p \<le> sqrt_price_x96 then tick_hi else tick_low)))"

section \<open>Widening multiplication\<close>

lemma widening_mul_exact:
  assumes "a \<le> u128_max" "b \<le> u128_max" "widening_mul_u128 a b = (hi, lo)"
  shows "hi * 2 ^ 128 + lo = a * b" "lo \<le> u128_max" "hi \<le> u128_max"
proof -
  let ?B = "2 ^ 64 :: nat"
  define a0 a1 b0 b1 where d: "a0 = a mod ?B" "a1 = a div ?B" "b0 = b mod ?B" "b1 = b div ?B"
  define mid where "mid = a0 * b0 div ?B + a0 * b1 mod ?B + a1 * b0 mod ?B"
  have a: "a = a1 * ?B + a0" and b: "b = b1 * ?B + b0" unfolding d by simp_all
  have lo: "lo = a0 * b0 mod ?B + ?B * (mid mod ?B)"
  proof -
    have "take_bit 64 (a0 * b0) OR push_bit 64 (take_bit 64 mid)
        = take_bit 64 (a0 * b0) + push_bit 64 (take_bit 64 mid)"
      by (rule disjunctive_add_eq_or [symmetric])
        (auto simp: bit_eq_iff bit_and_iff bit_take_bit_iff bit_push_bit_iff)
    then show ?thesis
      using assms(3) unfolding widening_mul_u128_def Let_def take_bit_eq_mod drop_bit_eq_div
        push_bit_eq_mult d [symmetric] mid_def [symmetric] by (auto simp: mult.commute)
  qed
  have hi: "hi = a1 * b1 + a0 * b1 div ?B + a1 * b0 div ?B + mid div ?B"
    using assms(3) unfolding widening_mul_u128_def Let_def take_bit_eq_mod drop_bit_eq_div
        d [symmetric] mid_def [symmetric] by auto
  have e1: "?B * (mid mod ?B) + ?B * ?B * (mid div ?B) = ?B * mid"
    by (simp only: mult.assoc distrib_left [symmetric] mod_mult_div_eq)
  have "hi * (?B * ?B) + lo = (a1 * b1 + a0 * b1 div ?B + a1 * b0 div ?B) * (?B * ?B)
      + a0 * b0 mod ?B + (?B * (mid mod ?B) + ?B * ?B * (mid div ?B))"
    unfolding hi lo by (simp only: algebra_simps)
  also have "\<dots> = (a1 * b1 + a0 * b1 div ?B + a1 * b0 div ?B) * (?B * ?B)
      + a0 * b0 mod ?B + ?B * mid" by (simp only: e1)
  also have "\<dots> = a1 * b1 * (?B * ?B) + (a0 * b0 mod ?B + ?B * (a0 * b0 div ?B))
      + ?B * (a0 * b1 mod ?B + ?B * (a0 * b1 div ?B)) + ?B * (a1 * b0 mod ?B + ?B * (a1 * b0 div ?B))"
    unfolding mid_def by (simp only: algebra_simps)
  also have "\<dots> = a1 * b1 * (?B * ?B) + a0 * b0 + ?B * (a0 * b1) + ?B * (a1 * b0)"
    unfolding mod_mult_div_eq ..
  also have "\<dots> = a * b" unfolding a b by (simp only: algebra_simps)
  finally show p: "hi * 2 ^ 128 + lo = a * b" by simp
  have "a0 * b0 mod ?B \<le> ?B - 1" "mid mod ?B \<le> ?B - 1" by (simp_all add: less_Suc_eq_le [symmetric])
  then show "lo \<le> u128_max" unfolding lo u128_max_def by simp
  have "a * b \<le> u128_max * u128_max" using assms(1,2) by (rule mult_mono) simp_all
  also have "\<dots> < 2 ^ 128 * 2 ^ 128" by (simp add: u128_max_def)
  finally have "hi * 2 ^ 128 < 2 ^ 128 * 2 ^ 128" using p by linarith
  then show "hi \<le> u128_max" by (simp add: u128_max_def)
qed

section \<open>The price of a tick on numbers\<close>

definition ratio_nat :: "nat \<Rightarrow> nat" where
  "ratio_nat t = fold (\<lambda>(i, m) r. if bit t i then r * m div 2 ^ 128 else r)
     (enumerate 0 TICK_MULTIPLIERS) (2 ^ 128)"

definition sqrt_price_nat :: "int \<Rightarrow> nat" where
  "sqrt_price_nat tick =
     (let r = ratio_nat (nat \<bar>tick\<bar>) in ceil_div (if tick > 0 then (2 ^ 256 - 1) div r else r) (2 ^ 32))"

lemma mul_shift_128_val:
  assumes "val a * val b < 2 ^ 256"
  shows "val (mul_shift_128 a b) = val a * val b div 2 ^ 128"
proof -
  obtain lo hi where f: "full_mul a b = (lo, hi)" by fastforce
  have lo: "val lo = val a * val b" and hi: "val hi = 0"
    using val_full_mul_parts [of a b] f assms by simp_all
  have "val (shr lo 128) < 2 ^ 256" by (rule val_bound)
  then show ?thesis
    using f by (simp add: mul_shift_128_def val_wrapping_add val_shl val_shr hi lo)
qed

lemma and_push_bit_one: "x AND push_bit i 1 \<noteq> 0 \<longleftrightarrow> bit x i" for x :: nat
proof -
  have "x AND push_bit i 1 = of_bool (bit x i) * push_bit i 1"
    by (rule bit_eqI) (auto simp: bit_simps)
  then show ?thesis by (simp add: push_bit_eq_mult)
qed

lemma multiplier_bounds: "list_all (\<lambda>m. 0 < m \<and> m < 2 ^ 128) TICK_MULTIPLIERS"
  by (simp add: TICK_MULTIPLIERS_def)

lemma multipliers_below: "\<forall>x \<in> set (enumerate 0 TICK_MULTIPLIERS). snd x < 2 ^ 128"
  by (simp add: TICK_MULTIPLIERS_def)

lemma scale_down_le: "r * m div 2 ^ 128 \<le> r" if "m \<le> 2 ^ 128" for r m :: nat
proof -
  have "r * m div 2 ^ 128 \<le> r * 2 ^ 128 div 2 ^ 128" by (intro div_le_mono mult_left_mono) (use that in simp_all)
  then show ?thesis by simp
qed

lemma ratio_fold_val:
  assumes "\<forall>x \<in> set xs. snd x < 2 ^ 128" "val r \<le> 2 ^ 128"
  shows "val (fold (ratio_step t) xs r)
    = fold (\<lambda>(i, m) r. if bit t i then r * m div 2 ^ 128 else r) xs (val r)"
  using assms
proof (induction xs arbitrary: r)
  case (Cons x xs)
  obtain i m where x: "x = (i, m)" by fastforce
  from Cons.prems x have m: "m < 2 ^ 128" by simp
  have vm: "val (from_u128 m) = m" using m by (intro val_from_u128) (simp add: u128_max_def)
  have "val r * m < 2 ^ 256"
  proof -
    have "val r * m \<le> 2 ^ 128 * (2 ^ 128 - 1)" using Cons.prems(2) m by (intro mult_mono) simp_all
    then show ?thesis by simp
  qed
  then have v: "val (mul_shift_128 r (from_u128 m)) = val r * m div 2 ^ 128"
    using mul_shift_128_val [of r "from_u128 m"] vm by simp
  have step: "val (ratio_step t x r) = (if bit t i then val r * m div 2 ^ 128 else val r)"
    unfolding x ratio_step_def prod.case and_push_bit_one using v by simp
  then have "val (ratio_step t x r) \<le> 2 ^ 128"
    using scale_down_le [of m "val r"] m Cons.prems(2) by (simp split: if_splits)
  with Cons step show ?case by (simp add: x)
qed simp

text \<open>Every ratio stays above the one that takes all twenty factors, so it is never zero.\<close>

lemma ratio_fold_lower:
  fixes xs :: "(nat \<times> nat) list"
  assumes "\<forall>x \<in> set xs. snd x < 2 ^ 128" "b \<le> a" "a \<le> 2 ^ 128"
  shows "fold (\<lambda>x r. r * snd x div 2 ^ 128) xs b
      \<le> fold (\<lambda>(i, m) r. if bit t i then r * m div 2 ^ 128 else r) xs a"
    and "fold (\<lambda>(i, m) r. if bit t i then r * m div 2 ^ 128 else r) xs a \<le> 2 ^ 128"
proof -
  have "fold (\<lambda>x r. r * snd x div 2 ^ 128) xs b
      \<le> fold (\<lambda>(i, m) r. if bit t i then r * m div 2 ^ 128 else r) xs a \<and>
    fold (\<lambda>(i, m) r. if bit t i then r * m div 2 ^ 128 else r) xs a \<le> 2 ^ 128"
    using assms
  proof (induction xs arbitrary: a b)
    case (Cons x xs)
    obtain i m where x: "x = (i, m)" by fastforce
    have m: "m \<le> 2 ^ 128" using Cons.prems(1) x by simp
    let ?a = "if bit t i then a * m div 2 ^ 128 else a"
    have "b * m div 2 ^ 128 \<le> ?a"
    proof (cases "bit t i")
      case True
      then show ?thesis using Cons.prems(2) by (simp add: div_le_mono)
    next
      case False
      then show ?thesis using Cons.prems(2) scale_down_le [OF m, of b] by simp
    qed
    moreover have "?a \<le> 2 ^ 128" using scale_down_le [OF m, of a] Cons.prems(3) by simp
    ultimately show ?case using Cons.IH [of "b * m div 2 ^ 128" ?a] Cons.prems(1) x by simp
  qed simp
  then show "fold (\<lambda>x r. r * snd x div 2 ^ 128) xs b
      \<le> fold (\<lambda>(i, m) r. if bit t i then r * m div 2 ^ 128 else r) xs a"
    "fold (\<lambda>(i, m) r. if bit t i then r * m div 2 ^ 128 else r) xs a \<le> 2 ^ 128" by blast+
qed

lemma ratio_floor: "2 ^ 52 \<le> fold (\<lambda>x r. r * snd x div 2 ^ 128) (enumerate 0 TICK_MULTIPLIERS) (2 ^ 128)"
  by (simp add: TICK_MULTIPLIERS_def)

lemma ratio_nat_bounds: "2 ^ 52 \<le> ratio_nat t" "ratio_nat t \<le> 2 ^ 128"
  using order_trans [OF ratio_floor ratio_fold_lower(1) [OF multipliers_below order_refl order_refl]]
    ratio_fold_lower(2) [OF multipliers_below order_refl order_refl]
  by (simp_all add: ratio_nat_def)

lemma sqrt_price_nat_bounds: "2 ^ 20 \<le> sqrt_price_nat tick" "sqrt_price_nat tick \<le> 2 ^ 172"
proof -
  let ?r = "ratio_nat (nat \<bar>tick\<bar>)"
  let ?q = "if tick > 0 then (2 ^ 256 - 1) div ?r else ?r"
  have r: "2 ^ 52 \<le> ?r" "?r \<le> 2 ^ 128" by (rule ratio_nat_bounds)+
  have "(2 ^ 256 - 1) div 2 ^ 128 \<le> (2 ^ 256 - 1) div ?r" using r by (intro div_le_mono2) simp_all
  moreover have "(2 ^ 256 - 1) div ?r \<le> (2 ^ 256 - 1) div 2 ^ 52" using r by (intro div_le_mono2) simp_all
  ultimately have q: "2 ^ 52 \<le> ?q" "?q \<le> 2 ^ 204" using r by auto
  have s: "sqrt_price_nat tick = ceil_div ?q (2 ^ 32)" by (simp only: sqrt_price_nat_def Let_def)
  have "2 ^ 52 \<le> ceil_div ?q (2 ^ 32) * 2 ^ 32" by (rule order_trans [OF q(1)], rule ceil_div_ge, simp)
  then show "2 ^ 20 \<le> sqrt_price_nat tick" unfolding s by simp
  have "?q \<le> 2 ^ 172 * 2 ^ 32" using q(2) by simp
  then show "sqrt_price_nat tick \<le> 2 ^ 172" unfolding s by (subst ceil_div_le_iff) simp_all
qed

lemma sqrt_ratio_at_tick_val:
  assumes "MIN_TICK \<le> tick" "tick \<le> MAX_TICK"
  shows "\<exists>p. sqrt_ratio_at_tick tick = Some p \<and> val p = sqrt_price_nat tick"
proof -
  let ?t = "nat \<bar>tick\<bar>"
  let ?q128 = "shl (from_u128 (2 ^ 127)) 1"
  let ?ratio0 = "fold (ratio_step ?t) (enumerate 0 TICK_MULTIPLIERS) ?q128"
  have "val (from_u128 (2 ^ 127)) = 2 ^ 127" by (rule val_from_u128) (simp add: u128_max_def)
  then have q: "val ?q128 = 2 ^ 128" by (simp add: val_shl)
  have r0: "val ?ratio0 = ratio_nat ?t"
    using ratio_fold_val [OF multipliers_below, of ?q128 ?t] q by (simp add: ratio_nat_def)
  let ?n = "if tick > 0 then (2 ^ 256 - 1) div ratio_nat ?t else ratio_nat ?t"
  have "val ?ratio0 \<noteq> 0" using r0 ratio_nat_bounds(1) [of ?t] by simp
  from U256_div_eq [OF this, of U256_MAX] obtain r where
    r: "(if tick > 0 then U256_div U256_MAX ?ratio0 else Some ?ratio0) = Some r" "val r = ?n"
    using r0 val_MAX by (cases "0 < tick") auto
  have v32: "val (from_u64 (2 ^ 32)) = 2 ^ 32" by (simp add: val_from_u64)
  from U256_rem_eq [of "from_u64 (2 ^ 32)" r] v32 obtain m where
    m: "U256_rem r (from_u64 (2 ^ 32)) = Some m" "val m = val r mod 2 ^ 32" by auto
  let ?p = "if \<not> is_zero m then wrapping_add (shr r 32) U256_ONE else shr r 32"
  have "val r div 2 ^ 32 + 1 < 2 ^ 256"
  proof -
    have "val r div 2 ^ 32 \<le> (2 ^ 256 - 1) div 2 ^ 32"
      using val_bound [of r] by (intro div_le_mono) linarith
    then show ?thesis by simp
  qed
  then have "val ?p = ceil_div (val r) (2 ^ 32)"
    using m(2) by (simp add: is_zero_val val_wrapping_add val_shr ceil_div_eq)
  then have "val ?p = sqrt_price_nat tick" unfolding r(2) sqrt_price_nat_def Let_def .
  moreover have "sqrt_ratio_at_tick tick = Some ?p"
    unfolding sqrt_ratio_at_tick_def Let_def using assms r(1) m(1) by simp
  ultimately show ?thesis by blast
qed

end
