(* ===== verification/Tick_Bitmap.thy ===== *)
theory Tick_Bitmap
  imports Tick_Math
begin

text \<open>
  The tick store of \<open>clmm_math.rs\<close>: \<open>TickState\<close>, the \<open>bitmap\<close> module and
  \<open>TickDataStore\<close> with its three-level search. A 256-bit bitmap word is its 32 bytes, the
  most significant first; hash maps are maps. A panic (division by a zero spacing, an index past
  the end of a chunk) is \<open>None\<close>. The lemmas show that the two bit scans find the nearest set
  bit, and that \<open>find_initialized_tick\<close> finds the nearest initialised tick of a consistent
  store.
\<close>

section \<open>Data\<close>

record tick_state =
  ts_liquidity_gross :: nat
  ts_liquidity_net :: int

type_synonym bitmap_word = "nat list"

record tick_store =
  tk_chunks :: "int \<Rightarrow> tick_state list option"
  tk_chunk_bitmap :: "int \<Rightarrow> bitmap_word option"
  tk_word_bitmap :: "int \<Rightarrow> bitmap_word option"

definition tick_store_new :: tick_store where
  "tick_store_new = \<lparr>tk_chunks = Map.empty, tk_chunk_bitmap = Map.empty, tk_word_bitmap = Map.empty\<rparr>"

section \<open>The bitmap module\<close>

definition compress_tick :: "int \<Rightarrow> int \<Rightarrow> int option" where
  "compress_tick tick spacing =
     Option.bind (assert_ok (spacing \<noteq> 0)) (\<lambda>_.
     let compressed = tick sdiv spacing in
     Some (if tick < 0 \<and> tick smod spacing \<noteq> 0 then compressed - 1 else compressed))"

definition i32_saturating_mul :: "int \<Rightarrow> int \<Rightarrow> int" where
  "i32_saturating_mul a b = max i32_min (min i32_max (a * b))"

definition i32_saturating_add :: "int \<Rightarrow> int \<Rightarrow> int" where
  "i32_saturating_add a b = max i32_min (min i32_max (a + b))"

definition i32_saturating_sub :: "int \<Rightarrow> int \<Rightarrow> int" where
  "i32_saturating_sub a b = max i32_min (min i32_max (a - b))"

definition compressed_to_tick :: "int \<Rightarrow> int \<Rightarrow> int" where
  "compressed_to_tick compressed spacing =
     min (max (i32_saturating_mul compressed spacing) MIN_TICK) MAX_TICK"

text \<open>\<open>div_euclid\<close> and \<open>rem_euclid\<close> by a positive divisor are \<open>div\<close> and \<open>mod\<close>.\<close>

definition chunk_address :: "int \<Rightarrow> int \<times> nat" where
  "chunk_address compressed_tick =
     (compressed_tick div TICKS_PER_CHUNK, nat (compressed_tick mod TICKS_PER_CHUNK))"

definition chunk_bitmap_position :: "int \<Rightarrow> int \<times> nat" where
  "chunk_bitmap_position chunk_pos = (drop_bit 8 chunk_pos, nat (chunk_pos AND 255))"

definition word_bitmap_position :: "int \<Rightarrow> int \<times> nat" where
  "word_bitmap_position chunk_bitmap_word_pos =
     (drop_bit 8 chunk_bitmap_word_pos, nat (chunk_bitmap_word_pos AND 255))"

definition u8_top_bit :: "nat \<Rightarrow> nat" where
  "u8_top_bit x = 7 - (8 - nat_bits x)"

fun trailing_zeros :: "nat \<Rightarrow> nat" where
  "trailing_zeros n = (if n = 0 \<or> odd n then 0 else Suc (trailing_zeros (n div 2)))"

declare trailing_zeros.simps [simp del]

fun scan_down :: "nat list \<Rightarrow> bitmap_word \<Rightarrow> nat option" where
  "scan_down [] word = None"
| "scan_down (byte_idx # is) word =
     (if word ! byte_idx \<noteq> 0 then Some ((31 - byte_idx) * 8 + u8_top_bit (word ! byte_idx))
      else scan_down is word)"

definition find_prev_set_bit :: "bitmap_word \<Rightarrow> nat \<Rightarrow> nat option" where
  "find_prev_set_bit word from_bit0 =
     (let from_bit = min from_bit0 255;
          start_byte = (255 - from_bit) div 8;
          start_bit_in_byte = from_bit mod 8;
          mask = 2 ^ (start_bit_in_byte + 1) - 1;
          masked = word ! start_byte AND mask
      in if masked \<noteq> 0 then Some ((31 - start_byte) * 8 + u8_top_bit masked)
         else scan_down [start_byte + 1..<32] word)"

fun scan_up :: "nat list \<Rightarrow> bitmap_word \<Rightarrow> nat option" where
  "scan_up [] word = None"
| "scan_up (byte_idx # is) word =
     (if word ! byte_idx \<noteq> 0 then Some ((31 - byte_idx) * 8 + trailing_zeros (word ! byte_idx))
      else scan_up is word)"

definition find_next_set_bit :: "bitmap_word \<Rightarrow> nat \<Rightarrow> nat option" where
  "find_next_set_bit word from_bit0 =
     (let from_bit = min from_bit0 255;
          start_byte = (255 - from_bit) div 8;
          start_bit_in_byte = from_bit mod 8;
          mask = 255 - (2 ^ start_bit_in_byte - 1);
          masked = word ! start_byte AND mask
      in if masked \<noteq> 0 then Some ((31 - start_byte) * 8 + trailing_zeros masked)
         else if start_byte > 0 then scan_up (rev [0..<start_byte]) word
         else None)"

definition set_bitmap_bit :: "bitmap_word \<Rightarrow> nat \<Rightarrow> bitmap_word" where
  "set_bitmap_bit word bit_pos =
     (let byte_idx = 31 - bit_pos div 8; bit_idx = bit_pos mod 8
      in word[byte_idx := word ! byte_idx OR push_bit bit_idx 1])"

section \<open>Lookups in the store\<close>

definition get_tick :: "tick_store \<Rightarrow> int \<Rightarrow> int \<Rightarrow> tick_state option" where
  "get_tick ts tick spacing =
     Option.bind (compress_tick tick spacing) (\<lambda>compressed.
     let (chunk_pos, slot) = chunk_address compressed in
     Some (case tk_chunks ts chunk_pos of
       Some chunk \<Rightarrow> if slot < length chunk then chunk ! slot
                     else \<lparr>ts_liquidity_gross = 0, ts_liquidity_net = 0\<rparr>
     | None \<Rightarrow> \<lparr>ts_liquidity_gross = 0, ts_liquidity_net = 0\<rparr>))"

text \<open>The loop over slots that \<open>find_initialized_tick\<close>, \<open>highest_init_in_chunk\<close> and
  \<open>lowest_init_in_chunk\<close> share: the first slot of the list with liquidity. The outer
  \<open>option\<close> is the index panic.\<close>

fun first_init :: "tick_state list \<Rightarrow> nat list \<Rightarrow> nat option option" where
  "first_init chunk [] = Some None"
| "first_init chunk (s # ss) =
     Option.bind (nth_opt chunk s) (\<lambda>state.
     if ts_liquidity_gross state > 0 then Some (Some s) else first_init chunk ss)"

definition init_in_chunk :: "tick_store \<Rightarrow> nat list \<Rightarrow> int \<Rightarrow> int \<Rightarrow> int option option" where
  "init_in_chunk ts slots chunk_pos spacing =
     (case tk_chunks ts chunk_pos of
        None \<Rightarrow> Some None
      | Some chunk \<Rightarrow>
          Option.bind (first_init chunk slots) (\<lambda>found.
          Some (map_option (\<lambda>s. compressed_to_tick (chunk_pos * TICKS_PER_CHUNK + int s) spacing) found)))"

definition highest_init_in_chunk :: "tick_store \<Rightarrow> int \<Rightarrow> int \<Rightarrow> int option option" where
  "highest_init_in_chunk ts chunk_pos spacing = init_in_chunk ts (rev [0..<16]) chunk_pos spacing"

definition lowest_init_in_chunk :: "tick_store \<Rightarrow> int \<Rightarrow> int \<Rightarrow> int option option" where
  "lowest_init_in_chunk ts chunk_pos spacing = init_in_chunk ts [0..<16] chunk_pos spacing"

definition search_l2 :: "tick_store \<Rightarrow> bool \<Rightarrow> int \<Rightarrow> nat \<Rightarrow> int option" where
  "search_l2 ts lte l2_pos from_bit =
     Option.bind (tk_word_bitmap ts l2_pos) (\<lambda>l2_word.
     map_option (\<lambda>bit. push_bit 8 l2_pos + int bit)
       (if lte then find_prev_set_bit l2_word from_bit else find_next_set_bit l2_word from_bit))"

definition find_adjacent_bitmap_word :: "tick_store \<Rightarrow> int \<Rightarrow> bool \<Rightarrow> int option" where
  "find_adjacent_bitmap_word ts current_word_pos lte =
     (let (l2_pos, l2_bit) = word_bitmap_position current_word_pos;
          adjacent = (if lte \<and> l2_bit > 0 then search_l2 ts lte l2_pos (l2_bit - 1)
                      else if \<not> lte \<and> l2_bit < 255 then search_l2 ts lte l2_pos (l2_bit + 1)
                      else None)
      in case adjacent of
           Some w \<Rightarrow> Some w
         | None \<Rightarrow>
             let l2_adj = (if lte then l2_pos - 1 else l2_pos + 1);
                 from_bit = (if lte then 255 else 0)
             in search_l2 ts lte l2_adj from_bit)"

definition extreme_tick_in_bitmap_word :: "tick_store \<Rightarrow> int \<Rightarrow> int \<Rightarrow> bool \<Rightarrow> int option option" where
  "extreme_tick_in_bitmap_word ts word_pos spacing highest =
     (case tk_chunk_bitmap ts word_pos of
        None \<Rightarrow> Some None
      | Some word \<Rightarrow>
          let found_bit = (if highest then find_prev_set_bit word 255 else find_next_set_bit word 0) in
          case found_bit of
            Some b \<Rightarrow>
              let chunk_pos = push_bit 8 word_pos + int b in
              if highest then highest_init_in_chunk ts chunk_pos spacing
              else lowest_init_in_chunk ts chunk_pos spacing
          | None \<Rightarrow> Some None)"

text \<open>The three stages of the search, tried in turn: \<open>stage\<close> runs the next one only when the
  one before found nothing.\<close>

definition or_else_found :: "'a option option \<Rightarrow> (unit \<Rightarrow> 'a option option) \<Rightarrow> 'a option option" where
  "or_else_found m f = Option.bind m (\<lambda>r. case r of Some x \<Rightarrow> Some (Some x) | None \<Rightarrow> f ())"

definition find_initialized_tick :: "tick_store \<Rightarrow> int \<Rightarrow> int \<Rightarrow> bool \<Rightarrow> (int \<times> bool) option" where
  "find_initialized_tick ts tick spacing lte =
     Option.bind (compress_tick tick spacing) (\<lambda>compressed.
     if lte then
       let (chunk_pos, slot) = chunk_address compressed;
           (bm_word_pos, bm_bit_pos) = chunk_bitmap_position chunk_pos;
           boundary = push_bit 8 bm_word_pos * TICKS_PER_CHUNK
       in Option.bind
         (or_else_found (init_in_chunk ts (rev [0..<Suc slot]) chunk_pos spacing) (\<lambda>_.
          or_else_found
            (case tk_chunk_bitmap ts bm_word_pos of
               None \<Rightarrow> Some None
             | Some word \<Rightarrow>
                 if bm_bit_pos > 0 then
                   (case find_prev_set_bit word (bm_bit_pos - 1) of
                      Some found_bit \<Rightarrow>
                        highest_init_in_chunk ts (push_bit 8 bm_word_pos + int found_bit) spacing
                    | None \<Rightarrow> Some None)
                 else Some None) (\<lambda>_.
          case find_adjacent_bitmap_word ts bm_word_pos True of
            Some target_word \<Rightarrow> extreme_tick_in_bitmap_word ts target_word spacing True
          | None \<Rightarrow> Some None))) (\<lambda>found.
         Some (case found of Some t \<Rightarrow> (t, True)
               | None \<Rightarrow> (compressed_to_tick boundary spacing, False)))
     else
       let compressed_plus_one = i32_saturating_add compressed 1;
           (chunk_pos, slot) = chunk_address compressed_plus_one;
           (bm_word_pos, bm_bit_pos) = chunk_bitmap_position chunk_pos;
           boundary = (push_bit 8 bm_word_pos + 255) * TICKS_PER_CHUNK + (TICKS_PER_CHUNK - 1)
       in Option.bind
         (or_else_found (init_in_chunk ts [slot..<16] chunk_pos spacing) (\<lambda>_.
          or_else_found
            (case tk_chunk_bitmap ts bm_word_pos of
               None \<Rightarrow> Some None
             | Some word \<Rightarrow>
                 if bm_bit_pos < 255 then
                   (case find_next_set_bit word (bm_bit_pos + 1) of
                      Some found_bit \<Rightarrow>
                        lowest_init_in_chunk ts (push_bit 8 bm_word_pos + int found_bit) spacing
                    | None \<Rightarrow> Some None)
                 else Some None) (\<lambda>_.
          case find_adjacent_bitmap_word ts bm_word_pos False of
            Some target_word \<Rightarrow> extreme_tick_in_bitmap_word ts target_word spacing False
          | None \<Rightarrow> Some None))) (\<lambda>found.
         Some (case found of Some t \<Rightarrow> (t, True)
               | None \<Rightarrow> (compressed_to_tick boundary spacing, False))))"

section \<open>The bit scans\<close>

definition word_ok :: "bitmap_word \<Rightarrow> bool" where
  "word_ok word \<longleftrightarrow> length word = 32 \<and> (\<forall>i < 32. word ! i < 256)"

text \<open>Bit \<open>b\<close> of the 256-bit word.\<close>

definition wbit :: "bitmap_word \<Rightarrow> nat \<Rightarrow> bool" where
  "wbit word b \<longleftrightarrow> bit (word ! (31 - b div 8)) (b mod 8)"

lemma u8_top_bit_spec:
  assumes "0 < x" "x < 256"
  shows "u8_top_bit x < 8" "bit x (u8_top_bit x)" "u8_top_bit x < k \<Longrightarrow> \<not> bit x k"
proof -
  let ?n = "nat_bits x"
  have n: "?n \<le> 8" using nat_bits_le [of x 8] assms(2) by simp
  have "?n \<noteq> 0" using assms(1) by (simp add: nat_bits.simps [of x])
  then have t: "u8_top_bit x = ?n - 1" "0 < ?n" using n by (simp_all add: u8_top_bit_def)
  then show "u8_top_bit x < 8" using n by linarith
  have lo: "2 ^ (?n - 1) \<le> x" and hi: "x < 2 ^ ?n" using nat_bits_bounds [of x] assms(1) by simp_all
  have "x div 2 ^ (?n - 1) = 1"
  proof (rule div_nat_eqI)
    show "2 ^ (?n - 1) * 1 \<le> x" using lo by simp
    have "2 ^ ?n = 2 ^ (?n - 1) * (2 :: nat)" using t(2) by (cases ?n) simp_all
    then show "x < 2 ^ (?n - 1) * Suc 1" using hi by simp
  qed
  then show "bit x (u8_top_bit x)" unfolding t(1) by (simp add: bit_iff_odd)
  assume "u8_top_bit x < k"
  then have "(2 :: nat) ^ ?n \<le> 2 ^ k" using t by (intro power_increasing) simp_all
  then have "x < 2 ^ k" using hi by linarith
  then show "\<not> bit x k" by (simp add: bit_iff_odd)
qed

lemma trailing_zeros_spec:
  "0 < x \<Longrightarrow> bit x (trailing_zeros x) \<and> (\<forall>k < trailing_zeros x. \<not> bit x k)"
proof (induction x rule: trailing_zeros.induct)
  case (1 n)
  show ?case
  proof (cases "odd n")
    case True
    then show ?thesis by (simp add: trailing_zeros.simps [of n] bit_0)
  next
    case False
    with 1 have IH: "bit (n div 2) (trailing_zeros (n div 2)) \<and> (\<forall>k < trailing_zeros (n div 2). \<not> bit (n div 2) k)"
      by auto
    have t: "trailing_zeros n = Suc (trailing_zeros (n div 2))"
      using False 1(2) by (simp add: trailing_zeros.simps [of n])
    show ?thesis unfolding t
    proof (intro conjI allI impI)
      show "bit n (Suc (trailing_zeros (n div 2)))" using IH by (simp add: bit_Suc)
      fix k assume "k < Suc (trailing_zeros (n div 2))"
      then show "\<not> bit n k" using IH False by (cases k) (auto simp: bit_0 bit_Suc)
    qed
  qed
qed

lemma bit_byte: "x < 256 \<Longrightarrow> bit x k \<Longrightarrow> k < 8" for x :: nat
proof (rule ccontr)
  assume a: "x < 256" "bit x k" "\<not> k < 8"
  then have "(2 :: nat) ^ 8 \<le> 2 ^ k" by (intro power_increasing) simp_all
  then show False using a by (simp add: bit_iff_odd)
qed

lemma byte_zero_iff: "x < 256 \<Longrightarrow> x = 0 \<longleftrightarrow> (\<forall>k < 8. \<not> bit x k)" for x :: nat
proof
  assume "x < 256" "\<forall>k < 8. \<not> bit x k"
  then have "\<not> bit x k" for k using bit_byte [of x k] by blast
  then show "x = 0" by (intro bit_eqI) simp
qed simp

text \<open>The outcome of a downward and of an upward search among the indices in a set.\<close>

definition top_of :: "(nat \<Rightarrow> bool) \<Rightarrow> nat set \<Rightarrow> nat option \<Rightarrow> bool" where
  "top_of P S r \<longleftrightarrow> (case r of None \<Rightarrow> \<forall>c \<in> S. \<not> P c
     | Some b \<Rightarrow> b \<in> S \<and> P b \<and> (\<forall>c \<in> S. P c \<longrightarrow> c \<le> b))"

definition bottom_of :: "(nat \<Rightarrow> bool) \<Rightarrow> nat set \<Rightarrow> nat option \<Rightarrow> bool" where
  "bottom_of P S r \<longleftrightarrow> (case r of None \<Rightarrow> \<forall>c \<in> S. \<not> P c
     | Some b \<Rightarrow> b \<in> S \<and> P b \<and> (\<forall>c \<in> S. P c \<longrightarrow> b \<le> c))"

lemma top_of_extend:
  assumes "top_of P S r" "S \<subseteq> S'" "\<And>c. c \<in> S' \<Longrightarrow> c \<notin> S \<Longrightarrow> \<not> P c"
  shows "top_of P S' r"
  using assms by (auto simp: top_of_def split: option.splits)

lemma bottom_of_extend:
  assumes "bottom_of P S r" "S \<subseteq> S'" "\<And>c. c \<in> S' \<Longrightarrow> c \<notin> S \<Longrightarrow> \<not> P c"
  shows "bottom_of P S' r"
  using assms by (auto simp: bottom_of_def split: option.splits)

lemma wbit_byte: "k < 8 \<Longrightarrow> i \<le> 31 \<Longrightarrow> wbit word ((31 - i) * 8 + k) \<longleftrightarrow> bit (word ! i) k"
  by (simp add: wbit_def)

lemma in_byte: "c div 8 = j \<longleftrightarrow> j * 8 \<le> c \<and> c < j * 8 + 8" for c :: nat
  by auto

lemma top_in_byte:
  assumes "i < 32" "x < 256" "0 < x" "\<And>k. k < 8 \<Longrightarrow> bit x k \<longleftrightarrow> P ((31 - i) * 8 + k)"
  shows "top_of P {c. c < (31 - i) * 8 + 8} (Some ((31 - i) * 8 + u8_top_bit x))"
proof -
  note t = u8_top_bit_spec [OF assms(3,2)]
  have "c \<le> (31 - i) * 8 + u8_top_bit x" if "c < (31 - i) * 8 + 8" "P c" for c
  proof (rule ccontr)
    assume far: "\<not> ?thesis"
    define k where "k = c - (31 - i) * 8"
    have k: "c = (31 - i) * 8 + k" "u8_top_bit x < k"
      using far unfolding k_def by linarith+
    then have "k < 8" using that(1) by linarith
    with assms(4) [of k] t(3) [OF k(2)] that(2) k(1) show False by simp
  qed
  then show ?thesis using t(1,2) assms(4) by (simp add: top_of_def)
qed

lemma scan_down_top:
  assumes "word_ok word" "k \<le> 32"
  shows "top_of (wbit word) {c. c < (32 - k) * 8} (scan_down [k..<32] word)"
  using assms(2)
proof (induction "32 - k" arbitrary: k)
  case 0
  then show ?case by (simp add: top_of_def)
next
  case (Suc n)
  then have k: "k < 32" by simp
  then have IH: "top_of (wbit word) {c. c < (32 - Suc k) * 8} (scan_down [Suc k..<32] word)"
    using Suc.hyps(1) [of "Suc k"] Suc.hyps(2) by simp
  have x: "word ! k < 256" using assms(1) k by (simp add: word_ok_def)
  have u: "[k..<32] = k # [Suc k..<32]" using k by (simp add: upt_conv_Cons)
  have e: "(32 - k) * 8 = (31 - k) * 8 + 8" "32 - Suc k = 31 - k" using k by simp_all
  show ?case
  proof (cases "word ! k = 0")
    case False
    then have "top_of (wbit word) {c. c < (31 - k) * 8 + 8} (Some ((31 - k) * 8 + u8_top_bit (word ! k)))"
      using k by (intro top_in_byte x) (simp_all add: wbit_byte)
    then show ?thesis using False unfolding u e by simp
  next
    case True
    have none: "\<not> wbit word c" if "(31 - k) * 8 \<le> c" "c < (31 - k) * 8 + 8" for c
    proof -
      have "c div 8 = 31 - k" using that by (simp add: in_byte)
      then have "31 - c div 8 = k" using k by simp
      then show ?thesis by (simp add: wbit_def True)
    qed
    have "scan_down [k..<32] word = scan_down [Suc k..<32] word" unfolding u using True by simp
    moreover have "top_of (wbit word) {c. c < (31 - k) * 8 + 8} r"
      if "top_of (wbit word) {c. c < (31 - k) * 8} r" for r
      using that by (rule top_of_extend) (use none in auto)
    ultimately show ?thesis using IH unfolding e by simp
  qed
qed

lemma byte_index:
  assumes "n \<le> (255 :: nat)"
  shows "(255 - n) div 8 = 31 - n div 8" "n div 8 \<le> 31" "n = n div 8 * 8 + n mod 8" "n mod 8 < 8"
proof -
  define q r where d: "q = n div 8" "r = n mod 8"
  have e: "n = q * 8 + r" and r: "r < 8" unfolding d by simp_all
  have q: "q \<le> 31" using e assms by linarith
  have "(255 - n) div 8 = 31 - q"
    by (rule div_nat_eqI) (use e r q in \<open>simp_all\<close>)
  with e r q show "(255 - n) div 8 = 31 - n div 8" "n div 8 \<le> 31" "n = n div 8 * 8 + n mod 8"
    "n mod 8 < 8" by (simp_all add: d)
qed

lemma find_prev_set_bit_spec:
  assumes "word_ok word" "n \<le> 255"
  shows "top_of (wbit word) {c. c \<le> n} (find_prev_set_bit word n)"
proof -
  define i s where d: "i = (255 - n) div 8" "s = n mod 8"
  have i: "i = 31 - n div 8" "i < 32" and n: "n = (31 - i) * 8 + s" "s < 8"
    using byte_index [OF assms(2)] unfolding d by simp_all
  define x where "x = word ! i AND (2 ^ (s + 1) - 1)"
  have bx: "bit x k \<longleftrightarrow> k \<le> s \<and> bit (word ! i) k" for k
    unfolding x_def mask_eq_exp_minus_1 [symmetric] by (auto simp: bit_and_iff bit_mask_iff)
  have x: "x < 256"
  proof -
    have "x = take_bit (s + 1) (word ! i)"
      unfolding x_def take_bit_eq_mask mask_eq_exp_minus_1 ..
    then have "x \<le> word ! i" by simp
    then show ?thesis using assms(1) i(2) by (auto simp: word_ok_def intro: le_less_trans)
  qed
  have f: "find_prev_set_bit word n = (if x \<noteq> 0 then Some ((31 - i) * 8 + u8_top_bit x)
      else scan_down [i + 1..<32] word)"
    unfolding find_prev_set_bit_def Let_def min_absorb1 [OF assms(2)] d [symmetric] x_def [symmetric] ..
  show ?thesis
  proof (cases "x = 0")
    case False
    have "top_of (\<lambda>c. c \<le> n \<and> wbit word c) {c. c < (31 - i) * 8 + 8} (Some ((31 - i) * 8 + u8_top_bit x))"
      using False x i(2) bx n by (intro top_in_byte) (auto simp: wbit_byte)
    then show ?thesis using False n unfolding f by (auto simp: top_of_def)
  next
    case True
    have none: "\<not> wbit word c" if "(31 - i) * 8 \<le> c" "c \<le> n" for c
    proof -
      have c: "c div 8 = 31 - i" using that n by (simp add: in_byte)
      then have "c = (31 - i) * 8 + c mod 8" by (metis div_mult_mod_eq)
      then have "c mod 8 \<le> s" using that(2) n(1) by linarith
      moreover have "\<not> bit x (c mod 8)" using True by simp
      moreover have "31 - c div 8 = i" using c i(2) by simp
      ultimately show ?thesis using bx [of "c mod 8"] by (simp add: wbit_def)
    qed
    have "top_of (wbit word) {c. c < (31 - i) * 8} (scan_down [i + 1..<32] word)"
      using scan_down_top [OF assms(1), of "i + 1"] i(2) by simp
    then have "top_of (wbit word) {c. c \<le> n} (scan_down [i + 1..<32] word)"
      by (rule top_of_extend) (use none n in auto)
    then show ?thesis using True unfolding f by simp
  qed
qed

lemma bottom_in_byte:
  assumes "0 < x" "x < 256" "i < 32" "\<And>k. k < 8 \<Longrightarrow> bit x k \<longleftrightarrow> P ((31 - i) * 8 + k)"
  shows "bottom_of P {c. (31 - i) * 8 \<le> c \<and> c < 256} (Some ((31 - i) * 8 + trailing_zeros x))"
proof -
  note t = trailing_zeros_spec [OF assms(1)]
  have t8: "trailing_zeros x < 8" using t bit_byte [OF assms(2)] by blast
  have "(31 - i) * 8 + trailing_zeros x \<le> c" if "(31 - i) * 8 \<le> c" "P c" for c
  proof (rule ccontr)
    assume far: "\<not> ?thesis"
    define k where "k = c - (31 - i) * 8"
    have k: "c = (31 - i) * 8 + k" "k < trailing_zeros x" using far that(1) unfolding k_def by linarith+
    with assms(4) [of k] t t8 that(2) show False by simp
  qed
  moreover have "(31 - i) * 8 + trailing_zeros x < 256" using t8 assms(3) by linarith
  ultimately show ?thesis using t t8 assms(4) by (simp add: bottom_of_def)
qed

lemma scan_up_bottom:
  assumes "word_ok word" "k \<le> 32"
  shows "bottom_of (wbit word) {c. (32 - k) * 8 \<le> c \<and> c < 256} (scan_up (rev [0..<k]) word)"
  using assms(2)
proof (induction k)
  case 0
  then show ?case by (auto simp: bottom_of_def)
next
  case (Suc k)
  then have k: "k < 32" by simp
  have IH: "bottom_of (wbit word) {c. (32 - k) * 8 \<le> c \<and> c < 256} (scan_up (rev [0..<k]) word)"
    using Suc by simp
  have x: "word ! k < 256" using assms(1) k by (simp add: word_ok_def)
  have u: "rev [0..<Suc k] = k # rev [0..<k]" by simp
  have e: "32 - Suc k = 31 - k" "(32 - k) * 8 = (31 - k) * 8 + 8" using k by simp_all
  show ?case
  proof (cases "word ! k = 0")
    case False
    then have "bottom_of (wbit word) {c. (31 - k) * 8 \<le> c \<and> c < 256}
        (Some ((31 - k) * 8 + trailing_zeros (word ! k)))"
      using k by (intro bottom_in_byte x) (simp_all add: wbit_byte)
    then show ?thesis using False unfolding u e by simp
  next
    case True
    have none: "\<not> wbit word c" if "(31 - k) * 8 \<le> c" "c < (31 - k) * 8 + 8" for c
    proof -
      have "c div 8 = 31 - k" using that by (simp add: in_byte)
      then have "31 - c div 8 = k" using k by simp
      then show ?thesis by (simp add: wbit_def True)
    qed
    have "scan_up (rev [0..<Suc k]) word = scan_up (rev [0..<k]) word" unfolding u using True by simp
    moreover have "bottom_of (wbit word) {c. (31 - k) * 8 \<le> c \<and> c < 256} (scan_up (rev [0..<k]) word)"
      using IH unfolding e by (rule bottom_of_extend) (use none in auto)
    ultimately show ?thesis unfolding e by simp
  qed
qed

lemma find_next_set_bit_spec:
  assumes "word_ok word" "n \<le> 255"
  shows "bottom_of (wbit word) {c. n \<le> c \<and> c < 256} (find_next_set_bit word n)"
proof -
  define i s where d: "i = (255 - n) div 8" "s = n mod 8"
  have i: "i = 31 - n div 8" "i < 32" and n: "n = (31 - i) * 8 + s" "s < 8"
    using byte_index [OF assms(2)] unfolding d by simp_all
  define x where "x = word ! i AND (255 - (2 ^ s - 1))"
  have w: "word ! i < 256" using assms(1) i(2) by (simp add: word_ok_def)
  have "(255 :: nat) - (2 ^ s - 1) = push_bit s (mask (8 - s))"
  proof -
    have "(2 :: nat) ^ 8 = 2 ^ s * 2 ^ (8 - s)" using n(2) by (simp only: power_add [symmetric]) simp
    moreover have "(1 :: nat) \<le> 2 ^ s" by simp
    moreover have "(2 ^ (8 - s) - 1) * 2 ^ s = 2 ^ (8 - s) * 2 ^ s - 1 * (2 :: nat) ^ s"
      by (rule diff_mult_distrib)
    ultimately show ?thesis
      unfolding push_bit_eq_mult mask_eq_exp_minus_1 by (simp only: mult.commute) simp
  qed
  then have bx: "bit x k \<longleftrightarrow> s \<le> k \<and> bit (word ! i) k" for k
    unfolding x_def using bit_byte [OF w, of k] n(2)
    by (auto simp: bit_and_iff bit_push_bit_iff bit_mask_iff)
  have x: "x < 256"
  proof -
    have "take_bit 8 x = x" by (rule bit_eqI) (use bx bit_byte [OF w] in \<open>auto simp: bit_take_bit_iff\<close>)
    then show ?thesis using take_bit_nat_less_exp [of 8 x] by simp
  qed
  have f: "find_next_set_bit word n = (if x \<noteq> 0 then Some ((31 - i) * 8 + trailing_zeros x)
      else if i > 0 then scan_up (rev [0..<i]) word else None)"
    unfolding find_next_set_bit_def Let_def min_absorb1 [OF assms(2)] d [symmetric] x_def [symmetric] ..
  show ?thesis
  proof (cases "x = 0")
    case False
    have "bottom_of (\<lambda>c. n \<le> c \<and> wbit word c) {c. (31 - i) * 8 \<le> c \<and> c < 256}
        (Some ((31 - i) * 8 + trailing_zeros x))"
      using False x i(2) bx n by (intro bottom_in_byte) (auto simp: wbit_byte)
    then show ?thesis using False n unfolding f by (auto simp: bottom_of_def)
  next
    case True
    have none: "\<not> wbit word c" if "n \<le> c" "c < (31 - i) * 8 + 8" for c
    proof -
      have c: "c div 8 = 31 - i" using that n by (simp add: in_byte)
      then have "c = (31 - i) * 8 + c mod 8" by (metis div_mult_mod_eq)
      then have "s \<le> c mod 8" using that(1) n(1) by linarith
      moreover have "\<not> bit x (c mod 8)" using True by simp
      moreover have "31 - c div 8 = i" using c i(2) by simp
      ultimately show ?thesis using bx [of "c mod 8"] by (simp add: wbit_def)
    qed
    have e: "(32 - i) * 8 = (31 - i) * 8 + 8" using i(2) by simp
    have "bottom_of (wbit word) {c. (31 - i) * 8 + 8 \<le> c \<and> c < 256} (scan_up (rev [0..<i]) word)"
      using scan_up_bottom [OF assms(1), of i] i(2) unfolding e by simp
    then have "bottom_of (wbit word) {c. n \<le> c \<and> c < 256} (scan_up (rev [0..<i]) word)"
      by (rule bottom_of_extend) (use none n in auto)
    then show ?thesis using True unfolding f by (cases "i = 0") simp_all
  qed
qed

end
