(* ===== verification/Tick_Search.thy ===== *)
theory Tick_Search
  imports Tick_Bitmap
begin

text \<open>
  The three-level search of \<open>TickDataStore::find_initialized_tick\<close> is right: on a store whose
  two bitmaps agree with its chunks it returns the nearest initialised tick at or below (above)
  the given one, whenever there is one. The proof follows the levels: a level finds the best
  index among those it covers (\<open>best\<close>), an index found at one level leads to the best index
  below it (\<open>best_via\<close>), and the stages of the search cover disjoint ranges in turn.
\<close>

section \<open>Best elements\<close>

definition best :: "(int \<Rightarrow> int \<Rightarrow> bool) \<Rightarrow> (int \<Rightarrow> bool) \<Rightarrow> int set \<Rightarrow> int option \<Rightarrow> bool" where
  "best R P S r \<longleftrightarrow> (case r of None \<Rightarrow> \<forall>c \<in> S. \<not> P c
     | Some b \<Rightarrow> b \<in> S \<and> P b \<and> (\<forall>c \<in> S. P c \<longrightarrow> R c b))"

lemma best_Some: "best R P S (Some b) \<longleftrightarrow> b \<in> S \<and> P b \<and> (\<forall>c \<in> S. P c \<longrightarrow> R c b)"
  by (simp add: best_def)

lemma best_None: "best R P S None \<longleftrightarrow> (\<forall>c \<in> S. \<not> P c)"
  by (simp add: best_def)

lemma best_union_None: "best R P S None \<Longrightarrow> best R P T r \<Longrightarrow> best R P (S \<union> T) r"
  by (cases r) (auto simp: best_Some best_None)

lemma best_union_Some:
  "best R P S (Some c) \<Longrightarrow> (\<And>a b. a \<in> S \<Longrightarrow> b \<in> T \<Longrightarrow> R b a) \<Longrightarrow> best R P (S \<union> T) (Some c)"
  by (auto simp: best_Some)

lemma best_extend:
  "best R P S r \<Longrightarrow> S \<subseteq> T \<Longrightarrow> (\<And>c. c \<in> T \<Longrightarrow> c \<notin> S \<Longrightarrow> \<not> P c) \<Longrightarrow> best R P T r"
  by (cases r) (auto simp: best_Some best_None)

lemma best_via_None:
  "best R Q Sp None \<Longrightarrow> (\<And>c. P c \<Longrightarrow> Q (f c)) \<Longrightarrow> best R P {c. f c \<in> Sp} None"
  by (auto simp: best_None)

lemma best_via:
  assumes "best R Q Sp (Some p)" "best R P {c. f c = p} (Some c)" "\<And>c. P c \<Longrightarrow> Q (f c)"
    and "\<And>a b. R (f a) (f b) \<Longrightarrow> f a \<noteq> f b \<Longrightarrow> R a b"
  shows "best R P {c. f c \<in> Sp} (Some c)"
proof -
  have c: "f c = p" "P c" and m: "\<And>c'. f c' = p \<Longrightarrow> P c' \<Longrightarrow> R c' c" and p: "p \<in> Sp"
    and mp: "\<And>q. q \<in> Sp \<Longrightarrow> Q q \<Longrightarrow> R q p"
    using assms(1,2) by (auto simp: best_Some)
  have "R c' c" if "f c' \<in> Sp" "P c'" for c'
  proof (cases "f c' = p")
    case True
    then show ?thesis using m that(2) by blast
  next
    case False
    then show ?thesis using mp [OF that(1)] assms(3) [OF that(2)] assms(4) [of c' c] c(1) by simp
  qed
  then show ?thesis using c p by (auto simp: best_Some)
qed

text \<open>The two directions: \<open>down\<close> prefers larger indices, up smaller ones.\<close>

definition dir :: "bool \<Rightarrow> int \<Rightarrow> int \<Rightarrow> bool" where
  "dir lte a b \<longleftrightarrow> (if lte then a \<le> b else b \<le> a)"

lemma dir_div:
  assumes "dir lte (a div k) (b div k)" "a div k \<noteq> b div k" "0 < k"
  shows "dir lte a b"
proof -
  have "a \<le> b" if "a div k < b div k" for a b :: int
  proof (rule ccontr)
    assume "\<not> a \<le> b"
    then have "b div k \<le> a div k" using assms(3) by (intro zdiv_mono1) simp_all
    with that show False by simp
  qed
  from this [of a b] this [of b a] assms(1,2) show ?thesis by (auto simp: dir_def split: if_splits)
qed

lemma int_radix_less:
  fixes a b n :: int
  assumes "0 < n"
  shows "a < b \<longleftrightarrow> a div n < b div n \<or> a div n = b div n \<and> a mod n < b mod n"
proof (cases "a div n" "b div n" rule: linorder_cases)
  case less
  then have "a < b" using zdiv_mono1 [of b a n] assms by (metis not_le)
  then show ?thesis using less by simp
next
  case equal
  have "a = a div n * n + a mod n" "b = a div n * n + b mod n"
    unfolding equal [symmetric] by (simp, simp add: equal)
  then show ?thesis using equal by (metis add_less_cancel_left less_irrefl)
next
  case greater
  then have "b < a" using zdiv_mono1 [of a b n] assms by (metis not_le)
  then show ?thesis using greater by simp
qed

lemma dir_strict: "dir lte a b \<and> a \<noteq> b \<longleftrightarrow> (if lte then a < b else b < a)"
  by (auto simp: dir_def)

lemma dir_radix_strict:
  assumes "0 < n"
  shows "dir lte a b \<and> a \<noteq> b \<longleftrightarrow> dir lte (a div n) (b div n) \<and> a div n \<noteq> b div n
    \<or> a div n = b div n \<and> dir lte (a mod n) (b mod n) \<and> a mod n \<noteq> b mod n"
  unfolding dir_strict using int_radix_less [OF assms, of a b] int_radix_less [OF assms, of b a]
  by (auto simp: dir_strict)

lemma dir_radix:
  assumes "0 < n"
  shows "dir lte a b \<longleftrightarrow> dir lte (a div n) (b div n) \<and> a div n \<noteq> b div n
    \<or> a div n = b div n \<and> dir lte (a mod n) (b mod n)"
proof (cases "a = b")
  case True
  then show ?thesis by (simp add: dir_def)
next
  case False
  then have "a div n = b div n \<Longrightarrow> a mod n \<noteq> b mod n" by (metis div_mult_mod_eq)
  then show ?thesis using dir_radix_strict [OF assms, of lte a b] False by auto
qed

section \<open>Consistent stores\<close>

definition inited :: "tick_store \<Rightarrow> int \<Rightarrow> bool" where
  "inited ts c \<longleftrightarrow> (case tk_chunks ts (c div 16) of None \<Rightarrow> False
     | Some ch \<Rightarrow> 0 < ts_liquidity_gross (ch ! nat (c mod 16)))"

definition bm_bit :: "(int \<Rightarrow> bitmap_word option) \<Rightarrow> int \<Rightarrow> bool" where
  "bm_bit m p \<longleftrightarrow> (case m (p div 256) of None \<Rightarrow> False | Some w \<Rightarrow> wbit w (nat (p mod 256)))"

text \<open>Chunks have their sixteen slots; a bit of the chunk bitmap is set exactly for the chunks
  with an initialised tick, a bit of the word bitmap exactly for the non-empty words; no tick lies
  beyond the range of the protocol.\<close>

definition store_ok :: "tick_store \<Rightarrow> bool" where
  "store_ok ts \<longleftrightarrow>
     (\<forall>p ch. tk_chunks ts p = Some ch \<longrightarrow> length ch = 16)
   \<and> (\<forall>q w. tk_chunk_bitmap ts q = Some w \<longrightarrow> word_ok w)
   \<and> (\<forall>q w. tk_word_bitmap ts q = Some w \<longrightarrow> word_ok w)
   \<and> (\<forall>p. bm_bit (tk_chunk_bitmap ts) p \<longleftrightarrow> (\<exists>c. c div 16 = p \<and> inited ts c))
   \<and> (\<forall>q. bm_bit (tk_word_bitmap ts) q \<longleftrightarrow> (\<exists>p. p div 256 = q \<and> bm_bit (tk_chunk_bitmap ts) p))
   \<and> (\<forall>c. inited ts c \<longrightarrow> - (2 ^ 20) \<le> c \<and> c < 2 ^ 20)"

lemma store_okD:
  assumes "store_ok ts"
  shows "tk_chunks ts p = Some ch \<Longrightarrow> length ch = 16"
    and "tk_chunk_bitmap ts q = Some w \<Longrightarrow> word_ok w"
    and "tk_word_bitmap ts q = Some w \<Longrightarrow> word_ok w"
    and "bm_bit (tk_chunk_bitmap ts) p \<longleftrightarrow> (\<exists>c. c div 16 = p \<and> inited ts c)"
    and "bm_bit (tk_word_bitmap ts) q \<longleftrightarrow> (\<exists>p. p div 256 = q \<and> bm_bit (tk_chunk_bitmap ts) p)"
    and "inited ts c \<Longrightarrow> - (2 ^ 20) \<le> c \<and> c < 2 ^ 20"
  using assms unfolding store_ok_def by blast+

section \<open>One chunk\<close>

lemma first_init_find:
  assumes "\<forall>s \<in> set ss. s < length ch"
  shows "first_init ch ss = Some (find (\<lambda>s. 0 < ts_liquidity_gross (ch ! s)) ss)"
  using assms by (induction ss) (auto simp: nth_opt_def)

lemma find_down: "top_of P {s. s < n} (find P (rev [0..<n]))"
  by (induction n) (auto simp: top_of_def less_Suc_eq split: option.splits)

lemma find_up: "m \<le> n \<Longrightarrow> bottom_of P {s. m \<le> s \<and> s < n} (find P [m..<n])"
proof (induction "n - m" arbitrary: m)
  case 0
  then show ?case by (auto simp: bottom_of_def)
next
  case (Suc k)
  then have m: "m < n" by simp
  have IH: "bottom_of P {s. Suc m \<le> s \<and> s < n} (find P [Suc m..<n])"
    using Suc.hyps(1) [of "Suc m"] Suc.hyps(2) m by simp
  show ?case
  proof (cases "P m")
    case True
    then show ?thesis using m by (simp add: bottom_of_def upt_conv_Cons)
  next
    case False
    have "bottom_of P {s. m \<le> s \<and> s < n} (find P [Suc m..<n])"
      using IH by (rule bottom_of_extend) (use False in \<open>auto simp: not_less_eq_eq [symmetric] le_less_Suc_eq\<close>)
    then show ?thesis using False m by (simp add: upt_conv_Cons)
  qed
qed

definition slots_from :: "bool \<Rightarrow> nat \<Rightarrow> nat list" where
  "slots_from lte s = (if lte then rev [0..<Suc s] else [s..<16])"

definition slot_range :: "bool \<Rightarrow> int \<Rightarrow> nat \<Rightarrow> int set" where
  "slot_range lte p s = {c. c div 16 = p \<and> dir lte (c mod 16) (int s)}"

lemma chunk_index: "c div 16 = p \<and> c mod 16 = int k \<longleftrightarrow> c = p * 16 + int k \<and> k < 16" for c p :: int
  by auto presburger+

lemma init_in_chunk_best:
  assumes "store_ok ts" "s < 16"
  shows "\<exists>r. init_in_chunk ts (slots_from lte s) p spacing
      = Some (map_option (\<lambda>c. compressed_to_tick c spacing) r)
    \<and> best (dir lte) (inited ts) (slot_range lte p s) r"
proof (cases "tk_chunks ts p")
  case None
  then have "best (dir lte) (inited ts) (slot_range lte p s) None"
    by (auto simp: best_None slot_range_def inited_def)
  then show ?thesis using None by (auto simp: init_in_chunk_def intro: exI [of _ None])
next
  case (Some ch)
  have len: "length ch = 16" using store_okD(1) [OF assms(1) Some] .
  let ?P = "\<lambda>k. 0 < ts_liquidity_gross (ch ! k)"
  let ?f = "find ?P (slots_from lte s)"
  have "first_init ch (slots_from lte s) = Some ?f"
    by (rule first_init_find) (use assms(2) len in \<open>auto simp: slots_from_def\<close>)
  then have run: "init_in_chunk ts (slots_from lte s) p spacing
      = Some (map_option (\<lambda>c. compressed_to_tick c spacing) (map_option (\<lambda>k. p * 16 + int k) ?f))"
    using Some by (cases ?f) (simp_all add: init_in_chunk_def TICKS_PER_CHUNK_def)
  have at: "inited ts (p * 16 + int k) \<longleftrightarrow> ?P k" if "k < 16" for k
    using that Some by (simp add: inited_def)
  have member: "c \<in> slot_range lte p s \<longleftrightarrow>
      (\<exists>k. c = p * 16 + int k \<and> k < 16 \<and> (if lte then k \<le> s else s \<le> k))" for c
  proof -
    have m: "c mod 16 = int (nat (c mod 16))" by simp
    show ?thesis
    proof
      assume "c \<in> slot_range lte p s"
      then have "c div 16 = p \<and> c mod 16 = int (nat (c mod 16))" "dir lte (c mod 16) (int s)"
        by (auto simp: slot_range_def)
      then show "\<exists>k. c = p * 16 + int k \<and> k < 16 \<and> (if lte then k \<le> s else s \<le> k)"
        unfolding chunk_index by (intro exI [of _ "nat (c mod 16)"]) (auto simp: dir_def split: if_splits)
    next
      assume "\<exists>k. c = p * 16 + int k \<and> k < 16 \<and> (if lte then k \<le> s else s \<le> k)"
      then show "c \<in> slot_range lte p s" by (auto simp: slot_range_def dir_def)
    qed
  qed
  have "best (dir lte) (inited ts) (slot_range lte p s) (map_option (\<lambda>k. p * 16 + int k) ?f)"
  proof (cases lte)
    case True
    have "top_of ?P {k. k < Suc s} ?f" using find_down [of ?P "Suc s"] True by (simp add: slots_from_def)
    moreover have "c \<in> slot_range True p s \<longleftrightarrow> (\<exists>k. c = p * 16 + int k \<and> k < 16 \<and> k \<le> s)" for c
      using member [of c] True by simp
    ultimately show ?thesis using True assms(2) at
      by (cases ?f) (auto simp: top_of_def best_Some best_None dir_def)
  next
    case False
    have "bottom_of ?P {k. s \<le> k \<and> k < 16} ?f"
      using find_up [of s 16 ?P] False assms(2) by (simp add: slots_from_def)
    moreover have "c \<in> slot_range False p s \<longleftrightarrow> (\<exists>k. c = p * 16 + int k \<and> k < 16 \<and> s \<le> k)" for c
      using member [of c] False by simp
    ultimately show ?thesis using False assms(2) at
      by (cases ?f) (auto simp: bottom_of_def best_Some best_None dir_def)
  qed
  with run show ?thesis by blast
qed

section \<open>One bitmap word\<close>

definition bm_search :: "bool \<Rightarrow> (int \<Rightarrow> bitmap_word option) \<Rightarrow> int \<Rightarrow> nat \<Rightarrow> int option" where
  "bm_search lte m q n = (case m q of None \<Rightarrow> None
     | Some w \<Rightarrow> map_option (\<lambda>b. push_bit 8 q + int b)
         (if lte then find_prev_set_bit w n else find_next_set_bit w n))"

definition bm_range :: "bool \<Rightarrow> int \<Rightarrow> nat \<Rightarrow> int set" where
  "bm_range lte q n = {p. p div 256 = q \<and> dir lte (p mod 256) (int n)}"

lemma bm_member:
  "p \<in> bm_range lte q n \<longleftrightarrow> (\<exists>b. p = q * 256 + int b \<and> b < 256 \<and> (if lte then b \<le> n else n \<le> b))"
proof
  assume a: "p \<in> bm_range lte q n"
  have "p = q * 256 + int (nat (p mod 256))" using a by (auto simp: bm_range_def)
  moreover have "nat (p mod 256) < 256" by simp
  ultimately show "\<exists>b. p = q * 256 + int b \<and> b < 256 \<and> (if lte then b \<le> n else n \<le> b)"
    using a by (intro exI [of _ "nat (p mod 256)"]) (auto simp: bm_range_def dir_def split: if_splits)
next
  assume "\<exists>b. p = q * 256 + int b \<and> b < 256 \<and> (if lte then b \<le> n else n \<le> b)"
  then show "p \<in> bm_range lte q n" by (auto simp: bm_range_def dir_def)
qed

lemma bm_search_best:
  assumes "\<And>w. m q = Some w \<Longrightarrow> word_ok w" "n \<le> 255"
  shows "best (dir lte) (bm_bit m) (bm_range lte q n) (bm_search lte m q n)"
proof (cases "m q")
  case None
  then show ?thesis by (auto simp: best_None bm_search_def bm_range_def bm_bit_def)
next
  case (Some w)
  have ok: "word_ok w" using assms(1) Some .
  have at: "bm_bit m (q * 256 + int b) \<longleftrightarrow> wbit w b" if "b < 256" for b
    using that Some by (simp add: bm_bit_def)
  have sh: "push_bit 8 q = q * 256" by (simp add: push_bit_eq_mult)
  show ?thesis
  proof (cases lte)
    case True
    have "p \<in> bm_range True q n \<longleftrightarrow> (\<exists>b. p = q * 256 + int b \<and> b \<le> n)" for p
      using bm_member [of p True q n] assms(2) by auto
    then show ?thesis
      using find_prev_set_bit_spec [OF ok assms(2)] True Some at assms(2)
      by (cases "find_prev_set_bit w n") (auto simp: bm_search_def top_of_def best_Some best_None sh dir_def)
  next
    case False
    have "p \<in> bm_range False q n \<longleftrightarrow> (\<exists>b. p = q * 256 + int b \<and> b < 256 \<and> n \<le> b)" for p
      using bm_member [of p False q n] by simp
    then show ?thesis
      using find_next_set_bit_spec [OF ok assms(2)] False Some at
      by (cases "find_next_set_bit w n") (auto simp: bm_search_def bottom_of_def best_Some best_None sh dir_def)
  qed
qed

section \<open>From a bitmap position to a tick\<close>

definition extreme_in_chunk :: "bool \<Rightarrow> tick_store \<Rightarrow> int \<Rightarrow> int \<Rightarrow> int option option" where
  "extreme_in_chunk lte ts p spacing =
     (if lte then highest_init_in_chunk ts p spacing else lowest_init_in_chunk ts p spacing)"

definition far_end :: "bool \<Rightarrow> nat" where
  "far_end lte = (if lte then 255 else 0)"

lemma extreme_in_chunk_best:
  assumes "store_ok ts"
  shows "\<exists>r. extreme_in_chunk lte ts p spacing = Some (map_option (\<lambda>c. compressed_to_tick c spacing) r)
    \<and> best (dir lte) (inited ts) {c. c div 16 = p} r"
proof -
  let ?s = "if lte then 15 else 0 :: nat"
  have "rev [0..<16] = slots_from True 15" by (simp add: slots_from_def)
  then have "extreme_in_chunk lte ts p spacing = init_in_chunk ts (slots_from lte ?s) p spacing"
    by (simp add: extreme_in_chunk_def highest_init_in_chunk_def lowest_init_in_chunk_def slots_from_def)
  moreover have "slot_range lte p ?s = {c. c div 16 = p}"
    by (auto simp: slot_range_def dir_def)
  ultimately show ?thesis using init_in_chunk_best [OF assms, of ?s lte p spacing] by simp
qed

lemma position_to_tick:
  assumes "store_ok ts" "best (dir lte) (bm_bit (tk_chunk_bitmap ts)) Sp r"
  shows "\<exists>rc. (case r of Some p \<Rightarrow> extreme_in_chunk lte ts p spacing | None \<Rightarrow> Some None)
      = Some (map_option (\<lambda>c. compressed_to_tick c spacing) rc)
    \<and> best (dir lte) (inited ts) {c. c div 16 \<in> Sp} rc \<and> (rc = None \<longleftrightarrow> r = None)"
proof (cases r)
  case None
  have "best (dir lte) (inited ts) {c. c div 16 \<in> Sp} None"
    using assms(2) unfolding None by (rule best_via_None) (use store_okD(4) [OF assms(1)] in blast)
  then show ?thesis using None by auto
next
  case (Some p)
  obtain rc where rc: "extreme_in_chunk lte ts p spacing = Some (map_option (\<lambda>c. compressed_to_tick c spacing) rc)"
    "best (dir lte) (inited ts) {c. c div 16 = p} rc"
    using extreme_in_chunk_best [OF assms(1)] by blast
  have "bm_bit (tk_chunk_bitmap ts) p" using assms(2) Some by (simp add: best_Some)
  then obtain c0 where "c0 div 16 = p" "inited ts c0" using store_okD(4) [OF assms(1)] by blast
  then obtain c where c: "rc = Some c" using rc(2) by (cases rc) (auto simp: best_None)
  have "best (dir lte) (inited ts) {c. c div 16 \<in> Sp} (Some c)"
  proof (rule best_via [OF assms(2) [unfolded Some] rc(2) [unfolded c]])
    show "bm_bit (tk_chunk_bitmap ts) (c' div 16)" if "inited ts c'" for c'
      using that store_okD(4) [OF assms(1)] by blast
    show "dir lte a b" if "dir lte (a div 16) (b div 16)" "a div 16 \<noteq> b div 16" for a b
      using that by (rule dir_div) simp
  qed
  then show ?thesis using Some rc(1) c by (intro exI [of _ "Some c"]) simp
qed

lemma word_to_tick:
  assumes "store_ok ts" "best (dir lte) (bm_bit (tk_word_bitmap ts)) Sq r"
  shows "\<exists>rc. (case r of Some q \<Rightarrow> extreme_tick_in_bitmap_word ts q spacing lte | None \<Rightarrow> Some None)
      = Some (map_option (\<lambda>c. compressed_to_tick c spacing) rc)
    \<and> best (dir lte) (inited ts) {c. c div 16 div 256 \<in> Sq} rc"
proof (cases r)
  case None
  have "best (dir lte) (bm_bit (tk_chunk_bitmap ts)) {p. p div 256 \<in> Sq} None"
    using assms(2) unfolding None by (rule best_via_None) (use store_okD(5) [OF assms(1)] in blast)
  from position_to_tick [OF assms(1) this] show ?thesis using None by auto
next
  case (Some q)
  let ?m = "tk_chunk_bitmap ts"
  have b: "best (dir lte) (bm_bit ?m) (bm_range lte q (far_end lte)) (bm_search lte ?m q (far_end lte))"
    by (rule bm_search_best) (use store_okD(2) [OF assms(1)] in \<open>auto simp: far_end_def\<close>)
  have range: "bm_range lte q (far_end lte) = {p. p div 256 = q}"
  proof -
    have "p mod 256 \<le> 255" for p :: int by (simp add: less_le_not_le zle_diff1_eq [symmetric])
    then show ?thesis by (auto simp: bm_range_def dir_def far_end_def)
  qed
  have "bm_bit (tk_word_bitmap ts) q" using assms(2) Some by (simp add: best_Some)
  then obtain p0 where "p0 div 256 = q" "bm_bit ?m p0" using store_okD(5) [OF assms(1)] by blast
  then obtain p where p: "bm_search lte ?m q (far_end lte) = Some p"
    using b unfolding range by (cases "bm_search lte ?m q (far_end lte)") (auto simp: best_None)
  have "best (dir lte) (bm_bit ?m) {p. p div 256 \<in> Sq} (Some p)"
  proof (rule best_via [OF assms(2) [unfolded Some] b [unfolded range p]])
    show "bm_bit (tk_word_bitmap ts) (p' div 256)" if "bm_bit ?m p'" for p'
      using that store_okD(5) [OF assms(1)] by blast
    show "dir lte a b" if "dir lte (a div 256) (b div 256)" "a div 256 \<noteq> b div 256" for a b
      using that by (rule dir_div) simp
  qed
  from position_to_tick [OF assms(1) this, of spacing] obtain rc where
    rc: "extreme_in_chunk lte ts p spacing = Some (map_option (\<lambda>c. compressed_to_tick c spacing) rc)"
    "best (dir lte) (inited ts) {c. c div 16 \<in> {p. p div 256 \<in> Sq}} rc" by auto
  have "extreme_tick_in_bitmap_word ts q spacing lte = extreme_in_chunk lte ts p spacing"
    using p by (auto simp: extreme_tick_in_bitmap_word_def bm_search_def far_end_def extreme_in_chunk_def
      split: option.splits if_splits)
  then show ?thesis using rc Some by auto
qed

section \<open>The stages of the search\<close>

lemma compress_tick_div:
  assumes "0 < spacing"
  shows "compress_tick tick spacing = Some (tick div spacing)"
proof (cases "0 \<le> tick")
  case True
  then show ?thesis using assms by (simp add: compress_tick_def sdiv_pos)
next
  case False
  define t where "t = - tick"
  have t: "0 < t" "tick = - t" using False by (simp_all add: t_def)
  have sm: "t smod spacing = t mod spacing"
    using t(1) assms by (simp add: signed_modulo_int_def sgn_if abs_if)
  have "(- t) div spacing = (if t mod spacing = 0 then - (t div spacing) else - (t div spacing) - 1)"
    by (rule zdiv_zminus1_eq_if) (use assms in simp)
  then show ?thesis using assms t by (simp add: compress_tick_def sm sdiv_pos Let_def)
qed

lemma bitmap_positions:
  "chunk_bitmap_position p = (p div 256, nat (p mod 256))"
  "word_bitmap_position p = (p div 256, nat (p mod 256))"
proof -
  have "p AND 255 = take_bit 8 p" by (simp add: take_bit_eq_mask mask_eq_exp_minus_1)
  then have "p AND 255 = p mod 256" by (simp add: take_bit_eq_mod)
  then show "chunk_bitmap_position p = (p div 256, nat (p mod 256))"
    "word_bitmap_position p = (p div 256, nat (p mod 256))"
    by (simp_all add: chunk_bitmap_position_def word_bitmap_position_def drop_bit_eq_div)
qed

lemma chunk_address_eq: "chunk_address c = (c div 16, nat (c mod 16))"
  by (simp add: chunk_address_def TICKS_PER_CHUNK_def)

text \<open>Strictly beyond bit \<open>b\<close> in the word of \<open>q\<close>.\<close>

definition beyond :: "bool \<Rightarrow> int \<Rightarrow> nat \<Rightarrow> int set" where
  "beyond lte q b = {p. p div 256 = q \<and> dir lte (p mod 256) (int b) \<and> p mod 256 \<noteq> int b}"

definition beyond_search :: "bool \<Rightarrow> (int \<Rightarrow> bitmap_word option) \<Rightarrow> int \<Rightarrow> nat \<Rightarrow> int option" where
  "beyond_search lte m q b =
     (if lte \<and> b > 0 then bm_search lte m q (b - 1)
      else if \<not> lte \<and> b < 255 then bm_search lte m q (b + 1) else None)"

lemma beyond_search_best:
  assumes "\<And>w. m q = Some w \<Longrightarrow> word_ok w" "b \<le> 255"
  shows "best (dir lte) (bm_bit m) (beyond lte q b) (beyond_search lte m q b)"
proof -
  consider (dn) "lte" "0 < b" | (up) "\<not> lte" "b < 255" | (edge) "if lte then b = 0 else b = 255"
    using assms(2) by (cases lte; cases "b = 0"; cases "b = 255") auto
  then show ?thesis
  proof cases
    case dn
    have "bm_range lte q (b - 1) = beyond lte q b"
      using dn by (auto simp: bm_range_def beyond_def dir_def)
    then show ?thesis using bm_search_best [of m q "b - 1" lte] assms dn by (simp add: beyond_search_def)
  next
    case up
    have "bm_range lte q (b + 1) = beyond lte q b"
      using up by (auto simp: bm_range_def beyond_def dir_def)
    then show ?thesis using bm_search_best [of m q "b + 1" lte] assms up by (simp add: beyond_search_def)
  next
    case edge
    have "p mod 256 < 256" "0 \<le> p mod 256" for p :: int by simp_all
    then have "beyond lte q b = {}"
      using edge by (force simp: beyond_def dir_def split: if_splits)
    moreover have "beyond_search lte m q b = None" using edge by (auto simp: beyond_search_def split: if_splits)
    ultimately show ?thesis by (simp add: best_None)
  qed
qed

definition word_stage :: "tick_store \<Rightarrow> bool \<Rightarrow> int \<Rightarrow> nat \<Rightarrow> int \<Rightarrow> int option option" where
  "word_stage ts lte q b spacing =
     (case tk_chunk_bitmap ts q of
        None \<Rightarrow> Some None
      | Some word \<Rightarrow>
          (case beyond_search lte (tk_chunk_bitmap ts) q b of
             Some p \<Rightarrow> extreme_in_chunk lte ts p spacing | None \<Rightarrow> Some None))"

lemma word_stage_best:
  assumes "store_ok ts" "b \<le> 255"
  shows "\<exists>rc. word_stage ts lte q b spacing = Some (map_option (\<lambda>c. compressed_to_tick c spacing) rc)
    \<and> best (dir lte) (inited ts) {c. c div 16 \<in> beyond lte q b} rc"
proof -
  have "best (dir lte) (bm_bit (tk_chunk_bitmap ts)) (beyond lte q b)
      (beyond_search lte (tk_chunk_bitmap ts) q b)"
    by (rule beyond_search_best) (use assms store_okD(2) in auto)
  from position_to_tick [OF assms(1) this, of spacing] obtain rc where
    rc: "(case beyond_search lte (tk_chunk_bitmap ts) q b of
        Some p \<Rightarrow> extreme_in_chunk lte ts p spacing | None \<Rightarrow> Some None)
      = Some (map_option (\<lambda>c. compressed_to_tick c spacing) rc)"
    "best (dir lte) (inited ts) {c. c div 16 \<in> beyond lte q b} rc" by blast
  show ?thesis
  proof (cases "tk_chunk_bitmap ts q")
    case None
    then have "beyond_search lte (tk_chunk_bitmap ts) q b = None"
      by (simp add: beyond_search_def bm_search_def)
    then show ?thesis using None rc by (auto simp: word_stage_def)
  next
    case (Some w)
    then show ?thesis using rc by (auto simp: word_stage_def)
  qed
qed

lemma adjacent_word_best:
  assumes "store_ok ts" "- 256 \<le> q" "q < 256"
  shows "best (dir lte) (bm_bit (tk_word_bitmap ts)) {q'. dir lte q' q \<and> q' \<noteq> q}
    (find_adjacent_bitmap_word ts q lte)"
proof -
  let ?m = "tk_word_bitmap ts" and ?l = "q div 256" and ?b = "nat (q mod 256)"
  let ?l' = "if lte then ?l - 1 else ?l + 1"
  have ok: "\<And>l w. ?m l = Some w \<Longrightarrow> word_ok w" using store_okD(3) [OF assms(1)] by blast
  have here: "best (dir lte) (bm_bit ?m) (beyond lte ?l ?b) (beyond_search lte ?m ?l ?b)"
    by (rule beyond_search_best [OF ok]) simp_all
  have there: "best (dir lte) (bm_bit ?m) (bm_range lte ?l' (far_end lte)) (bm_search lte ?m ?l' (far_end lte))"
    by (rule bm_search_best [OF ok]) (simp_all add: far_end_def)
  have search: "search_l2 ts d = bm_search d ?m" for d
    by (intro ext) (auto simp: search_l2_def bm_search_def split: option.split)
  have run: "find_adjacent_bitmap_word ts q lte = (case beyond_search lte ?m ?l ?b of
      Some w \<Rightarrow> Some w | None \<Rightarrow> bm_search lte ?m ?l' (far_end lte))"
    by (cases lte)
      (auto simp: find_adjacent_bitmap_word_def bitmap_positions search beyond_search_def far_end_def
        split: option.split)
  let ?U = "beyond lte ?l ?b \<union> bm_range lte ?l' (far_end lte)"
  have U: "best (dir lte) (bm_bit ?m) ?U (find_adjacent_bitmap_word ts q lte)"
  proof (cases "beyond_search lte ?m ?l ?b")
    case None
    then show ?thesis unfolding run using best_union_None [OF here [unfolded None] there] by simp
  next
    case (Some w)
    have "dir lte b' a" if "a \<in> beyond lte ?l ?b" "b' \<in> bm_range lte ?l' (far_end lte)" for a b'
    proof (rule dir_div [of _ _ 256])
      show "dir lte (b' div 256) (a div 256)" "b' div 256 \<noteq> a div 256"
        using that by (auto simp: beyond_def bm_range_def dir_def split: if_splits)
    qed simp
    then show ?thesis unfolding run using best_union_Some [OF here [unfolded Some]] Some by simp
  qed
  show ?thesis
  proof (rule best_extend [OF U])
    show "?U \<subseteq> {q'. dir lte q' q \<and> q' \<noteq> q}"
    proof
      fix x assume "x \<in> ?U"
      then have "dir lte (x div 256) ?l \<and> x div 256 \<noteq> ?l
          \<or> x div 256 = ?l \<and> dir lte (x mod 256) (q mod 256) \<and> x mod 256 \<noteq> q mod 256"
        by (auto simp: beyond_def bm_range_def dir_def split: if_splits)
      then show "x \<in> {q'. dir lte q' q \<and> q' \<noteq> q}"
        using dir_radix_strict [of 256 lte x q] by simp
    qed
  next
    fix x assume x: "x \<in> {q'. dir lte q' q \<and> q' \<noteq> q}" "x \<notin> ?U"
    show "\<not> bm_bit ?m x"
    proof
      assume "bm_bit ?m x"
      then obtain c where c: "c div 16 div 256 = x" "inited ts c"
        using store_okD(4,5) [OF assms(1)] by metis
      have "- 1048576 \<le> c" "c \<le> 1048575" using store_okD(6) [OF assms(1) c(2)] by simp_all
      then have "- 1048576 div 16 div 256 \<le> x" "x \<le> 1048575 div 16 div 256"
        unfolding c(1) [symmetric] by (intro zdiv_mono1; simp)+
      then have "- 256 div 256 \<le> x div 256" "x div 256 \<le> 255 div 256" by (intro zdiv_mono1; simp)+
      moreover have "- 256 div 256 \<le> ?l" "?l \<le> 255 div 256"
        using assms(2,3) by (intro zdiv_mono1; simp)+
      moreover have "dir lte (x div 256) ?l \<and> x div 256 \<noteq> ?l"
        using x dir_radix_strict [of 256 lte x q] by (auto simp: beyond_def)
      ultimately have "x div 256 = ?l'" by (auto simp: dir_def split: if_splits)
      moreover have "dir lte (x mod 256) (int (far_end lte))"
      proof -
        have "x mod 256 < 256" by (rule pos_mod_bound) simp
        then have "x mod 256 \<le> 255" by linarith
        then show ?thesis by (simp add: dir_def far_end_def)
      qed
      ultimately show False using x(2) by (simp add: bm_range_def)
    qed
  qed
qed

section \<open>The search\<close>

lemma or_else_found_simps [simp]:
  "or_else_found (Some None) f = f ()" "or_else_found (Some (Some x)) f = Some (Some x)"
  by (simp_all add: or_else_found_def)

definition search_boundary :: "bool \<Rightarrow> int \<Rightarrow> int" where
  "search_boundary lte q =
     (if lte then push_bit 8 q * TICKS_PER_CHUNK
      else (push_bit 8 q + 255) * TICKS_PER_CHUNK + (TICKS_PER_CHUNK - 1))"

lemma stages_cover:
  fixes k :: int
  shows "slot_range lte (k div 16) (nat (k mod 16)) \<union>
      ({c. c div 16 \<in> beyond lte (k div 16 div 256) (nat (k div 16 mod 256))} \<union>
       {c. c div 16 div 256 \<in> {q'. dir lte q' (k div 16 div 256) \<and> q' \<noteq> k div 16 div 256}})
    = {c. dir lte c k}"
proof -
  have "dir lte c k \<longleftrightarrow> c div 16 = k div 16 \<and> dir lte (c mod 16) (k mod 16)
      \<or> c div 16 div 256 = k div 16 div 256 \<and> dir lte (c div 16 mod 256) (k div 16 mod 256)
          \<and> c div 16 mod 256 \<noteq> k div 16 mod 256
      \<or> dir lte (c div 16 div 256) (k div 16 div 256) \<and> c div 16 div 256 \<noteq> k div 16 div 256" for c
    using dir_radix [of 16 lte c k] dir_radix_strict [of 256 lte "c div 16" "k div 16"] by auto
  then show ?thesis by (auto simp: slot_range_def beyond_def)
qed

lemma or_else_best:
  assumes "m = Some (map_option f r1)" "best R P S r1"
    and "\<And>u. g u = Some (map_option f r2)" "best R P T r2" "\<And>a b. a \<in> S \<Longrightarrow> b \<in> T \<Longrightarrow> R b a"
  shows "\<exists>r. or_else_found m g = Some (map_option f r) \<and> best R P (S \<union> T) r"
proof (cases r1)
  case None
  then show ?thesis using assms best_union_None [of R P S T r2] by auto
next
  case (Some c)
  then show ?thesis using assms best_union_Some [of R P S c T] by (intro exI [of _ "Some c"]) simp
qed

lemma stages_ordered:
  assumes "a \<in> slot_range lte p s"
  shows "b div 16 \<in> beyond lte (p div 256) (nat (p mod 256)) \<Longrightarrow> dir lte b a"
    and "dir lte (b div 16 div 256) (p div 256) \<Longrightarrow> b div 16 div 256 \<noteq> p div 256 \<Longrightarrow> dir lte b a"
proof -
  have a: "a div 16 = p" using assms by (simp add: slot_range_def)
  have lift: "dir lte b a" if "dir lte (b div 16) p" "b div 16 \<noteq> p"
    by (rule dir_div [of lte b 16]) (use that a in simp_all)
  show "dir lte b a" if "b div 16 \<in> beyond lte (p div 256) (nat (p mod 256))"
    using that dir_radix_strict [of 256 lte "b div 16" p] lift by (auto simp: beyond_def)
  show "dir lte b a" if "dir lte (b div 16 div 256) (p div 256)" "b div 16 div 256 \<noteq> p div 256"
    using that dir_radix_strict [of 256 lte "b div 16" p] lift by auto
qed

lemma far_words_ordered:
  assumes "a div 16 \<in> beyond lte q n" "dir lte (b div 16 div 256) q" "b div 16 div 256 \<noteq> q"
  shows "dir lte b a"
proof (rule dir_div [of lte b 16])
  have a: "a div 16 div 256 = q" using assms(1) by (simp add: beyond_def)
  show "dir lte (b div 16) (a div 16)"
    by (rule dir_div [of lte _ 256]) (use a assms(2,3) in simp_all)
  show "b div 16 \<noteq> a div 16" using a assms(3) by auto
qed simp

lemma staged_search:
  fixes k :: int
  defines "p \<equiv> k div 16"
  assumes "m1 = Some (map_option f r1)" "best (dir lte) P (slot_range lte p (nat (k mod 16))) r1"
    and "m2 = Some (map_option f r2)"
    and "best (dir lte) P {c. c div 16 \<in> beyond lte (p div 256) (nat (p mod 256))} r2"
    and "m3 = Some (map_option f r3)"
    and "best (dir lte) P {c. c div 16 div 256 \<in> {q'. dir lte q' (p div 256) \<and> q' \<noteq> p div 256}} r3"
    and "found = or_else_found m1 (\<lambda>_. or_else_found m2 (\<lambda>_. m3))"
  shows "\<exists>r. found = Some (map_option f r) \<and> best (dir lte) P {c. dir lte c k} r"
proof -
  let ?S1 = "slot_range lte p (nat (k mod 16))"
  let ?S2 = "{c. c div 16 \<in> beyond lte (p div 256) (nat (p mod 256))}"
  let ?S3 = "{c. c div 16 div 256 \<in> {q'. dir lte q' (p div 256) \<and> q' \<noteq> p div 256}}"
  have "dir lte b a" if "a \<in> ?S2" "b \<in> ?S3" for a b
    using that far_words_ordered [of a lte "p div 256" "nat (p mod 256)" b] by simp
  from or_else_best [OF assms(4,5,6,7) this] obtain r23 where
    r23: "or_else_found m2 (\<lambda>_. m3) = Some (map_option f r23)" "best (dir lte) P (?S2 \<union> ?S3) r23"
    by blast
  have "dir lte b a" if "a \<in> ?S1" "b \<in> ?S2 \<union> ?S3" for a b
    using that stages_ordered [OF that(1), of b] by auto
  from or_else_best [OF assms(2,3) r23 this] obtain r where
    "found = Some (map_option f r)" "best (dir lte) P (?S1 \<union> (?S2 \<union> ?S3)) r"
    unfolding assms(8) by blast
  then show ?thesis unfolding p_def stages_cover by blast
qed

lemma find_initialized_tick_stages:
  fixes tick spacing :: int
  assumes "0 < spacing" "i32_saturating_add (tick div spacing) 1 = tick div spacing + 1"
  defines "k lte \<equiv> (if lte then tick div spacing else tick div spacing + 1)"
  defines "p lte \<equiv> k lte div 16"
  shows "find_initialized_tick ts tick spacing lte = Option.bind
    (or_else_found (init_in_chunk ts (slots_from lte (nat (k lte mod 16))) (p lte) spacing) (\<lambda>_.
      or_else_found (word_stage ts lte (p lte div 256) (nat (p lte mod 256)) spacing) (\<lambda>_.
      case find_adjacent_bitmap_word ts (p lte div 256) lte of
        Some w \<Rightarrow> extreme_tick_in_bitmap_word ts w spacing lte | None \<Rightarrow> Some None)))
    (\<lambda>found. Some (case found of Some t \<Rightarrow> (t, True)
       | None \<Rightarrow> (compressed_to_tick (search_boundary lte (p lte div 256)) spacing, False)))"
proof -
  have dn: "(case tk_chunk_bitmap ts q of
       None \<Rightarrow> Some None
     | Some word \<Rightarrow>
         if b > 0 then
           (case find_prev_set_bit word (b - 1) of
              Some found_bit \<Rightarrow> highest_init_in_chunk ts (push_bit 8 q + int found_bit) spacing
            | None \<Rightarrow> Some None)
         else Some None) = word_stage ts True q b spacing" for q b
    by (auto simp: word_stage_def beyond_search_def bm_search_def extreme_in_chunk_def split: option.split)
  have up: "(case tk_chunk_bitmap ts q of
       None \<Rightarrow> Some None
     | Some word \<Rightarrow>
         if b < 255 then
           (case find_next_set_bit word (b + 1) of
              Some found_bit \<Rightarrow> lowest_init_in_chunk ts (push_bit 8 q + int found_bit) spacing
            | None \<Rightarrow> Some None)
         else Some None) = word_stage ts False q b spacing" for q b
    by (auto simp: word_stage_def beyond_search_def bm_search_def extreme_in_chunk_def split: option.split)
  note unfolds = find_initialized_tick_def compress_tick_div [OF assms(1)] bind.simps assms(2) Let_def
    chunk_address_eq bitmap_positions prod.case dn up k_def p_def search_boundary_def slots_from_def
  show ?thesis
  proof (cases lte)
    case True
    show ?thesis unfolding eqTrueI [OF True] unfolds if_True ..
  next
    case False
    show ?thesis unfolding Eq_FalseI [OF False] unfolds if_False ..
  qed
qed

lemma find_initialized_tick_best:
  fixes lte :: bool and tick spacing :: int
  assumes ok: "store_ok ts" and sp: "0 < spacing" and t: "MIN_TICK \<le> tick" "tick \<le> MAX_TICK"
  defines "k \<equiv> (if lte then tick div spacing else tick div spacing + 1)"
  shows "\<exists>r. find_initialized_tick ts tick spacing lte = Some (case r of
        Some c \<Rightarrow> (compressed_to_tick c spacing, True)
      | None \<Rightarrow> (compressed_to_tick (search_boundary lte (k div 16 div 256)) spacing, False))
    \<and> best (dir lte) (inited ts) {c. dir lte c k} r"
proof -
  let ?p = "k div 16" and ?s = "nat (k mod 16)"
  let ?q = "?p div 256" and ?b = "nat (?p mod 256)"
  let ?tick = "\<lambda>c. compressed_to_tick c spacing"
  have range: "- 887272 \<le> tick div spacing" "tick div spacing \<le> 887272"
  proof -
    have "- 887272 \<le> tick div spacing \<and> tick div spacing \<le> 887272"
    proof (cases "0 \<le> tick")
      case True
      have "tick div spacing \<le> tick div 1" by (rule zdiv_mono2) (use True sp in simp_all)
      moreover have "0 \<le> tick div spacing" using True sp by (simp add: pos_imp_zdiv_nonneg_iff)
      ultimately show ?thesis using t by (simp add: MAX_TICK_def)
    next
      case False
      have "tick div 1 \<le> tick div spacing" by (rule zdiv_mono2_neg) (use False sp in simp_all)
      moreover have "tick div spacing < 0" using False sp by (simp add: pos_imp_zdiv_neg_iff)
      ultimately show ?thesis using t by (simp add: MIN_TICK_def)
    qed
    then show "- 887272 \<le> tick div spacing" "tick div spacing \<le> 887272" by blast+
  qed
  then have kr: "- 887272 \<le> k" "k \<le> 887273" by (simp_all add: k_def)
  have "- 887272 div 16 div 256 \<le> ?q" "?q \<le> 887273 div 16 div 256"
    using kr by (intro zdiv_mono1; simp)+
  then have q: "- 256 \<le> ?q" "?q < 256" by simp_all
  have k: "i32_saturating_add (tick div spacing) 1 = tick div spacing + 1"
    using range by (simp add: i32_saturating_add_def)
  have s16: "?s < 16" and b255: "?b \<le> 255" by simp_all
  obtain r1 where r1: "init_in_chunk ts (slots_from lte ?s) ?p spacing = Some (map_option ?tick r1)"
    "best (dir lte) (inited ts) (slot_range lte ?p ?s) r1"
    using init_in_chunk_best [OF ok s16] by blast
  obtain r2 where r2: "word_stage ts lte ?q ?b spacing = Some (map_option ?tick r2)"
    "best (dir lte) (inited ts) {c. c div 16 \<in> beyond lte ?q ?b} r2"
    using word_stage_best [OF ok b255] by blast
  obtain r3 where r3: "(case find_adjacent_bitmap_word ts ?q lte of
      Some w \<Rightarrow> extreme_tick_in_bitmap_word ts w spacing lte | None \<Rightarrow> Some None) = Some (map_option ?tick r3)"
    "best (dir lte) (inited ts) {c. c div 16 div 256 \<in> {q'. dir lte q' ?q \<and> q' \<noteq> ?q}} r3"
    using word_to_tick [OF ok adjacent_word_best [OF ok q]] by blast
  define found where "found = or_else_found (init_in_chunk ts (slots_from lte ?s) ?p spacing) (\<lambda>_.
      or_else_found (word_stage ts lte ?q ?b spacing) (\<lambda>_.
      case find_adjacent_bitmap_word ts ?q lte of
        Some w \<Rightarrow> extreme_tick_in_bitmap_word ts w spacing lte | None \<Rightarrow> Some None))"
  obtain r where r: "found = Some (map_option ?tick r)" "best (dir lte) (inited ts) {c. dir lte c k} r"
    using staged_search [OF r1 r2 r3 found_def] by blast
  have "find_initialized_tick ts tick spacing lte = Option.bind found (\<lambda>found.
      Some (case found of Some t \<Rightarrow> (t, True)
            | None \<Rightarrow> (compressed_to_tick (search_boundary lte ?q) spacing, False)))"
    unfolding found_def by (rule find_initialized_tick_stages [OF sp k, of ts lte, folded k_def])
  with r(1) have "find_initialized_tick ts tick spacing lte = Some (case r of
        Some c \<Rightarrow> (compressed_to_tick c spacing, True)
      | None \<Rightarrow> (compressed_to_tick (search_boundary lte ?q) spacing, False))"
    by (cases r) simp_all
  with r(2) show ?thesis by blast
qed

end
