(* ===== verification/Swap_Math.thy ===== *)
theory Swap_Math
  imports Tick_Math
begin

text \<open>
  One step of a concentrated-liquidity swap, from \<open>clmm_math.rs\<close>: \<open>amount0_delta\<close>,
  \<open>amount1_delta\<close>, the next-price functions and \<open>compute_swap_step\<close>. The outer \<open>option\<close>
  is a panic, the inner one the \<open>Option\<close> of the source. The lemmas relate them to formulas on
  naturals and show what an exact-input step guarantees: the price stays between its bounds and
  the input taken plus the fee never exceeds the amount remaining.
\<close>

section \<open>Definitions\<close>

definition price_order :: "U256 \<Rightarrow> U256 \<Rightarrow> U256 \<times> U256" where
  "price_order sqrt_a sqrt_b = (if sqrt_a > sqrt_b then (sqrt_b, sqrt_a) else (sqrt_a, sqrt_b))"

definition amount0_delta :: "U256 \<Rightarrow> U256 \<Rightarrow> nat \<Rightarrow> bool \<Rightarrow> nat option option" where
  "amount0_delta sqrt_a sqrt_b liquidity round_up =
     (if liquidity = 0 then Some (Some 0)
      else
        let (sa, sb) = price_order sqrt_a sqrt_b in
        if is_zero sa then Some None
        else
          let diff = wrapping_sub sb sa;
              liq = from_u128 liquidity;
              numerator1 = wrapping_mul liq Q96_U256
          in Option.bind (if round_up then mul_div_ceil numerator1 diff sb
                          else mul_div_floor numerator1 diff sb) (\<lambda>temp.
             Option.bind
               (if round_up then
                  Option.bind (U256_rem temp sa) (\<lambda>r.
                  Option.bind (U256_div temp sa) (\<lambda>q.
                  Some (if is_zero r then q else wrapping_add q U256_ONE)))
                else U256_div temp sa) (\<lambda>amount.
             Some (to_u128 amount))))"

definition amount1_delta :: "U256 \<Rightarrow> U256 \<Rightarrow> nat \<Rightarrow> bool \<Rightarrow> nat option option" where
  "amount1_delta sqrt_a sqrt_b liquidity round_up =
     (if liquidity = 0 then Some (Some 0)
      else
        let (sa, sb) = price_order sqrt_a sqrt_b;
            diff = wrapping_sub sb sa;
            liq = from_u128 liquidity
        in Option.bind (if round_up then mul_div_ceil liq diff Q96_U256
                        else mul_div_floor liq diff Q96_U256) (\<lambda>amount.
           Some (to_u128 amount)))"

definition get_next_sqrt_price_from_amount0 :: "U256 \<Rightarrow> nat \<Rightarrow> nat \<Rightarrow> bool \<Rightarrow> U256 option" where
  "get_next_sqrt_price_from_amount0 sqrt_price liquidity amount add =
     (if amount = 0 then Some sqrt_price
      else
        let liq = from_u128 liquidity;
            numerator1 = wrapping_mul liq Q96_U256;
            amt = from_u128 amount;
            product = wrapping_mul amt sqrt_price
        in if add then
             let denominator = wrapping_add numerator1 product in
             mul_div_ceil numerator1 sqrt_price denominator
           else
             Option.bind (assert_ok (numerator1 > product)) (\<lambda>_.
             let denominator = wrapping_sub numerator1 product in
             mul_div_ceil numerator1 sqrt_price denominator))"

definition get_next_sqrt_price_from_amount1 :: "U256 \<Rightarrow> nat \<Rightarrow> nat \<Rightarrow> bool \<Rightarrow> U256 option" where
  "get_next_sqrt_price_from_amount1 sqrt_price liquidity amount add =
     (let liq = from_u128 liquidity; amt = from_u128 amount in
      if add then
        Option.bind (mul_div_floor amt Q96_U256 liq) (\<lambda>quotient.
        Some (wrapping_add sqrt_price quotient))
      else
        Option.bind (mul_div_ceil amt Q96_U256 liq) (\<lambda>quotient.
        Option.bind (assert_ok (sqrt_price > quotient)) (\<lambda>_.
        Some (wrapping_sub sqrt_price quotient))))"

definition get_next_sqrt_price_from_input :: "U256 \<Rightarrow> nat \<Rightarrow> nat \<Rightarrow> bool \<Rightarrow> U256 option" where
  "get_next_sqrt_price_from_input sqrt_price liquidity amount_in zero_for_one =
     (if zero_for_one then get_next_sqrt_price_from_amount0 sqrt_price liquidity amount_in True
      else get_next_sqrt_price_from_amount1 sqrt_price liquidity amount_in True)"

definition get_next_sqrt_price_from_output :: "U256 \<Rightarrow> nat \<Rightarrow> nat \<Rightarrow> bool \<Rightarrow> U256 option" where
  "get_next_sqrt_price_from_output sqrt_price liquidity amount_out zero_for_one =
     (if zero_for_one then get_next_sqrt_price_from_amount1 sqrt_price liquidity amount_out False
      else get_next_sqrt_price_from_amount0 sqrt_price liquidity amount_out False)"

record clmm_step =
  cs_sqrt_next :: U256
  cs_amount_in :: nat
  cs_amount_out :: nat
  cs_fee_amount :: nat

text \<open>The clamp both branches share, and the amounts between two prices in the swap direction.\<close>

definition clamp_to_target :: "bool \<Rightarrow> U256 \<Rightarrow> U256 \<Rightarrow> U256" where
  "clamp_to_target zero_for_one computed sqrt_target =
     (if zero_for_one then (if computed < sqrt_target then sqrt_target else computed)
      else (if computed > sqrt_target then sqrt_target else computed))"

definition step_amount_in :: "bool \<Rightarrow> U256 \<Rightarrow> U256 \<Rightarrow> nat \<Rightarrow> nat option option" where
  "step_amount_in zero_for_one sqrt_next sqrt_current liquidity =
     (if zero_for_one then amount0_delta sqrt_next sqrt_current liquidity True
      else amount1_delta sqrt_current sqrt_next liquidity True)"

definition step_amount_out :: "bool \<Rightarrow> U256 \<Rightarrow> U256 \<Rightarrow> nat \<Rightarrow> nat option option" where
  "step_amount_out zero_for_one sqrt_next sqrt_current liquidity =
     (if zero_for_one then amount1_delta sqrt_next sqrt_current liquidity False
      else amount0_delta sqrt_current sqrt_next liquidity False)"

definition unwrap_or :: "nat option \<Rightarrow> nat \<Rightarrow> nat" where
  "unwrap_or x d = (case x of Some v \<Rightarrow> v | None \<Rightarrow> d)"

definition swap_step_exact_input ::
    "U256 \<Rightarrow> U256 \<Rightarrow> nat \<Rightarrow> nat \<Rightarrow> nat \<Rightarrow> nat \<Rightarrow> bool \<Rightarrow> clmm_step option" where
  "swap_step_exact_input sqrt_current sqrt_target liquidity amount_remaining fee fee_complement
     zero_for_one =
     Option.bind (mul_div_u128 amount_remaining fee_complement FEE_DENOMINATOR False)
       (\<lambda>amount_remaining_less_fee.
     Option.bind (step_amount_in zero_for_one sqrt_target sqrt_current liquidity) (\<lambda>amount_in_to_target.
     Option.bind
       (if (case amount_in_to_target of Some a \<Rightarrow> amount_remaining_less_fee \<ge> a | None \<Rightarrow> False)
        then Some sqrt_target
        else
          Option.bind (get_next_sqrt_price_from_input sqrt_current liquidity
                         amount_remaining_less_fee zero_for_one) (\<lambda>computed.
          Some (clamp_to_target zero_for_one computed sqrt_target))) (\<lambda>sqrt_next.
     let max_reached = (sqrt_next = sqrt_target) in
     Option.bind (step_amount_in zero_for_one sqrt_next sqrt_current liquidity) (\<lambda>in_opt.
     let amount_in = unwrap_or in_opt u128_max in
     Option.bind (step_amount_out zero_for_one sqrt_next sqrt_current liquidity) (\<lambda>out_opt.
     let amount_out = unwrap_or out_opt 0 in
     Option.bind (if max_reached then mul_div_u128 amount_in fee fee_complement True
                  else Some (amount_remaining - amount_in)) (\<lambda>fee_amount.
     Some \<lparr>cs_sqrt_next = sqrt_next, cs_amount_in = amount_in, cs_amount_out = amount_out,
           cs_fee_amount = fee_amount\<rparr>))))))"

definition swap_step_exact_output ::
    "U256 \<Rightarrow> U256 \<Rightarrow> nat \<Rightarrow> nat \<Rightarrow> nat \<Rightarrow> nat \<Rightarrow> bool \<Rightarrow> clmm_step option" where
  "swap_step_exact_output sqrt_current sqrt_target liquidity amount_remaining fee fee_complement
     zero_for_one =
     Option.bind (step_amount_out zero_for_one sqrt_target sqrt_current liquidity) (\<lambda>amount_out_to_target.
     Option.bind
       (if (case amount_out_to_target of Some a \<Rightarrow> amount_remaining \<ge> a | None \<Rightarrow> False)
        then Some sqrt_target
        else
          Option.bind (get_next_sqrt_price_from_output sqrt_current liquidity amount_remaining
                         zero_for_one) (\<lambda>computed.
          Some (clamp_to_target zero_for_one computed sqrt_target))) (\<lambda>sqrt_next.
     Option.bind (step_amount_in zero_for_one sqrt_next sqrt_current liquidity) (\<lambda>in_opt.
     let amount_in = unwrap_or in_opt u128_max in
     Option.bind (step_amount_out zero_for_one sqrt_next sqrt_current liquidity) (\<lambda>out_opt.
     let amount_out0 = unwrap_or out_opt 0;
         amount_out = (if amount_out0 > amount_remaining then amount_remaining else amount_out0) in
     Option.bind (mul_div_u128 amount_in fee fee_complement True) (\<lambda>fee_amount.
     Some \<lparr>cs_sqrt_next = sqrt_next, cs_amount_in = amount_in, cs_amount_out = amount_out,
           cs_fee_amount = fee_amount\<rparr>)))))"

definition compute_swap_step ::
    "U256 \<Rightarrow> U256 \<Rightarrow> nat \<Rightarrow> nat \<Rightarrow> nat \<Rightarrow> bool \<Rightarrow> bool \<Rightarrow> clmm_step option" where
  "compute_swap_step sqrt_current sqrt_target liquidity amount_remaining fee_pips zero_for_one
     exact_input =
     (if liquidity = 0
      then Some \<lparr>cs_sqrt_next = sqrt_target, cs_amount_in = 0, cs_amount_out = 0, cs_fee_amount = 0\<rparr>
      else
        let fee = fee_pips in
        Option.bind (u128_checked_sub FEE_DENOMINATOR fee) (\<lambda>fee_complement.
        if exact_input
        then swap_step_exact_input sqrt_current sqrt_target liquidity amount_remaining fee
               fee_complement zero_for_one
        else swap_step_exact_output sqrt_current sqrt_target liquidity amount_remaining fee
               fee_complement zero_for_one))"

section \<open>Amounts on numbers\<close>

definition amount0_nat :: "nat \<Rightarrow> nat \<Rightarrow> nat \<Rightarrow> bool \<Rightarrow> nat" where
  "amount0_nat lo hi L up = rounded_div up (rounded_div up (L * 2 ^ 96 * (hi - lo)) hi) lo"

definition amount1_nat :: "nat \<Rightarrow> nat \<Rightarrow> nat \<Rightarrow> bool \<Rightarrow> nat" where
  "amount1_nat lo hi L up = rounded_div up (L * (hi - lo)) (2 ^ 96)"

definition u128_opt :: "nat \<Rightarrow> nat option" where
  "u128_opt v = (if v \<le> u128_max then Some v else None)"

lemma val_Q96: "val Q96_U256 = 2 ^ 96"
  by (simp add: Q96_U256_def)

lemma to_u128_opt: "to_u128 x = u128_opt (val x)"
  by (simp add: to_u128_val u128_opt_def)

lemma price_order_val:
  "price_order a b = (sa, sb) \<Longrightarrow> val sa = min (val a) (val b) \<and> val sb = max (val a) (val b)"
  by (auto simp: price_order_def less_val split: if_splits)

lemma liq_shifted:
  assumes "L \<le> u128_max"
  shows "val (wrapping_mul (from_u128 L) Q96_U256) = L * 2 ^ 96" "L * 2 ^ 96 < 2 ^ 224"
proof -
  have "L * 2 ^ 96 \<le> (2 ^ 128 - 1) * 2 ^ 96"
    using assms by (intro mult_right_mono) (simp_all add: u128_max_def)
  then show l: "L * 2 ^ 96 < 2 ^ 224" by simp
  then show "val (wrapping_mul (from_u128 L) Q96_U256) = L * 2 ^ 96"
    using assms by (simp add: val_wrapping_mul val_from_u128 val_Q96)
qed

lemma rounded_div_le:
  assumes "n \<le> m * d" "0 < d"
  shows "rounded_div up n d \<le> m"
proof -
  have "ceil_div n d \<le> m" using assms by (simp add: ceil_div_le_iff)
  with div_le_ceil_div [OF assms(2), of n] show ?thesis by (auto simp: rounded_div_def)
qed

lemma mul_div_rounded:
  assumes "0 < val d" "rounded_div up (val a * val b) (val d) < 2 ^ 256"
  shows "\<exists>v. (if up then mul_div_ceil a b d else mul_div_floor a b d) = Some v
    \<and> val v = rounded_div up (val a * val b) (val d)"
  using mul_div_internal_val [OF assms] by (cases up) (simp_all add: mul_div_ceil_def mul_div_floor_def)

lemma div_rounded:
  assumes "0 < val d"
  shows "\<exists>v. (if up then Option.bind (U256_rem n d) (\<lambda>r. Option.bind (U256_div n d) (\<lambda>q.
            Some (if is_zero r then q else wrapping_add q U256_ONE)))
          else U256_div n d) = Some v \<and> val v = rounded_div up (val n) (val d)"
proof -
  obtain q where q: "U256_div n d = Some q" "val q = val n div val d"
    using U256_div_eq [of d n] assms by auto
  obtain r where r: "U256_rem n d = Some r" "val r = val n mod val d"
    using U256_rem_eq [of d n] assms by auto
  have "rounded_div up (val n) (val d) \<le> val n"
    using assms by (intro rounded_div_le) simp_all
  then have "rounded_div up (val n) (val d) < 2 ^ 256" using val_bound [of n] by linarith
  from rounded_up [OF q(2) r(2) assms this] q r show ?thesis
    by (cases "is_zero r"; cases up) (simp_all split: if_splits)
qed

lemma amount0_delta_val:
  assumes "L \<le> u128_max" "0 < val a" "0 < val b"
  shows "amount0_delta a b L up
    = Some (u128_opt (amount0_nat (min (val a) (val b)) (max (val a) (val b)) L up))"
proof (cases "L = 0")
  case True
  then show ?thesis by (cases up) (simp_all add: amount0_delta_def amount0_nat_def u128_opt_def rounded_div_def)
next
  case False
  obtain sa sb where o: "price_order a b = (sa, sb)" by fastforce
  then have s: "val sa = min (val a) (val b)" "val sb = max (val a) (val b)" using price_order_val by auto
  have pos: "0 < val sa" "0 < val sb" "val sa \<le> val sb" using assms s by (auto simp: min_def max_def)
  let ?n = "wrapping_mul (from_u128 L) Q96_U256" and ?d = "wrapping_sub sb sa"
  have v: "val ?n = L * 2 ^ 96" "val ?d = val sb - val sa"
    using liq_shifted(1) [OF assms(1)] val_wrapping_sub [OF pos(3)] by simp_all
  have "rounded_div up (val ?n * val ?d) (val sb) \<le> val ?n"
    using pos v by (intro rounded_div_le mult_left_mono) simp_all
  then have "rounded_div up (val ?n * val ?d) (val sb) < 2 ^ 256" using val_bound [of ?n] by linarith
  from mul_div_rounded [OF pos(2) this] obtain temp where
    t: "(if up then mul_div_ceil ?n ?d sb else mul_div_floor ?n ?d sb) = Some temp"
      "val temp = rounded_div up (val ?n * val ?d) (val sb)" by blast
  from div_rounded [OF pos(1), of up temp] obtain amount where
    am: "(if up then Option.bind (U256_rem temp sa) (\<lambda>r. Option.bind (U256_div temp sa) (\<lambda>q.
        Some (if is_zero r then q else wrapping_add q U256_ONE)))
      else U256_div temp sa) = Some amount" "val amount = rounded_div up (val temp) (val sa)" by blast
  have nz: "\<not> is_zero sa" using pos by (simp add: is_zero_val)
  have "amount0_delta a b L up = Some (to_u128 amount)"
    unfolding amount0_delta_def Let_def o prod.case t(1) bind.simps am(1) if_not_P [OF False] if_not_P [OF nz] ..
  then show ?thesis unfolding to_u128_opt am(2) t(2) v amount0_nat_def s [symmetric] .
qed

lemma amount1_delta_val:
  assumes "L \<le> u128_max" "val a < 2 ^ 200" "val b < 2 ^ 200"
  shows "amount1_delta a b L up
    = Some (u128_opt (amount1_nat (min (val a) (val b)) (max (val a) (val b)) L up))"
proof (cases "L = 0")
  case True
  then show ?thesis by (cases up) (simp_all add: amount1_delta_def amount1_nat_def u128_opt_def rounded_div_def)
next
  case False
  obtain sa sb where o: "price_order a b = (sa, sb)" by fastforce
  then have s: "val sa = min (val a) (val b)" "val sb = max (val a) (val b)" using price_order_val by auto
  have le: "val sa \<le> val sb" unfolding s by simp
  let ?d = "wrapping_sub sb sa"
  have v: "val (from_u128 L) = L" "val ?d = val sb - val sa"
    using assms(1) val_wrapping_sub [OF le] by (simp_all add: val_from_u128)
  have "rounded_div up (val (from_u128 L) * val ?d) (val Q96_U256) \<le> 2 ^ 232"
  proof (rule rounded_div_le)
    have "L * (val sb - val sa) \<le> 2 ^ 128 * 2 ^ 200"
      using assms s by (intro mult_mono) (auto simp: u128_max_def)
    then show "val (from_u128 L) * val ?d \<le> 2 ^ 232 * val Q96_U256"
      unfolding v val_Q96 by simp
  qed (simp add: val_Q96)
  then have "rounded_div up (val (from_u128 L) * val ?d) (val Q96_U256) < 2 ^ 256" by simp
  from mul_div_rounded [OF _ this] obtain amount where
    t: "(if up then mul_div_ceil (from_u128 L) ?d Q96_U256 else mul_div_floor (from_u128 L) ?d Q96_U256)
        = Some amount" "val amount = rounded_div up (val (from_u128 L) * val ?d) (val Q96_U256)"
    by (auto simp: val_Q96)
  have "amount1_delta a b L up = Some (to_u128 amount)"
    unfolding amount1_delta_def Let_def o prod.case t(1) bind.simps if_not_P [OF False] ..
  then show ?thesis unfolding to_u128_opt t(2) v val_Q96 amount1_nat_def s [symmetric] .
qed

section \<open>The next price\<close>

definition next0_nat :: "nat \<Rightarrow> nat \<Rightarrow> nat \<Rightarrow> nat" where
  "next0_nat P L A = ceil_div (L * 2 ^ 96 * P) (L * 2 ^ 96 + A * P)"

definition next1_nat :: "nat \<Rightarrow> nat \<Rightarrow> nat \<Rightarrow> nat" where
  "next1_nat P L A = P + A * 2 ^ 96 div L"

lemma next0_bounds:
  assumes "0 < L" "0 < P"
  shows "0 < next0_nat P L A" "next0_nat P L A \<le> P"
    and "amount0_nat (next0_nat P L A) P L True \<le> A"
proof -
  let ?N = "L * 2 ^ 96" and ?c = "next0_nat P L A"
  have d: "0 < ?N + A * P" using assms by simp
  have ge: "?N * P \<le> ?c * (?N + A * P)" unfolding next0_nat_def by (rule ceil_div_ge [OF d])
  show c: "0 < ?c" using ge assms by (cases "?c = 0") auto
  show cP: "?c \<le> P" unfolding next0_nat_def using d by (simp add: ceil_div_le_iff algebra_simps)
  have "?N * (P - ?c) + ?N * ?c = ?N * P" using cP by (simp add: distrib_left [symmetric])
  with ge have "?N * (P - ?c) \<le> A * ?c * P" by (simp add: algebra_simps)
  then have "ceil_div (?N * (P - ?c)) P \<le> A * ?c" using assms(2) by (simp add: ceil_div_le_iff)
  then show "amount0_nat ?c P L True \<le> A"
    using c by (simp add: amount0_nat_def rounded_div_def ceil_div_le_iff)
qed

lemma next0_zero: "0 < L \<Longrightarrow> next0_nat P L 0 = P"
  by (simp add: next0_nat_def ceil_div_eq)

lemma next1_bounds:
  shows "P \<le> next1_nat P L A" "amount1_nat P (next1_nat P L A) L True \<le> A"
proof -
  show "P \<le> next1_nat P L A" by (simp add: next1_nat_def)
  have "L * (A * 2 ^ 96 div L) \<le> A * 2 ^ 96" by (simp add: mult.commute)
  then show "amount1_nat P (next1_nat P L A) L True \<le> A"
    by (simp add: amount1_nat_def next1_nat_def rounded_div_def ceil_div_le_iff)
qed

lemma ceil_div_antimono: "0 < d \<Longrightarrow> d \<le> e \<Longrightarrow> ceil_div n e \<le> ceil_div n d"
proof -
  assume a: "0 < d" "d \<le> e"
  have "n \<le> ceil_div n d * d" using a(1) by (rule ceil_div_ge)
  also have "\<dots> \<le> ceil_div n d * e" using a(2) by (rule mult_left_mono) simp
  finally show ?thesis using a by (simp add: ceil_div_le_iff)
qed

lemma amount0_antimono:
  assumes "0 < lo" "lo \<le> lo'"
  shows "amount0_nat lo' hi L True \<le> amount0_nat lo hi L True"
proof -
  have "ceil_div (L * 2 ^ 96 * (hi - lo')) hi \<le> ceil_div (L * 2 ^ 96 * (hi - lo)) hi"
    by (rule ceil_div_mono, rule mult_left_mono) (use assms(2) in \<open>simp_all add: diff_le_mono2\<close>)
  then have "ceil_div (ceil_div (L * 2 ^ 96 * (hi - lo')) hi) lo'
      \<le> ceil_div (ceil_div (L * 2 ^ 96 * (hi - lo)) hi) lo'" by (rule ceil_div_mono)
  also have "\<dots> \<le> ceil_div (ceil_div (L * 2 ^ 96 * (hi - lo)) hi) lo"
    using assms by (rule ceil_div_antimono)
  finally show ?thesis by (simp add: amount0_nat_def rounded_div_def)
qed

lemma amount1_mono: "hi \<le> hi' \<Longrightarrow> amount1_nat lo hi L True \<le> amount1_nat lo hi' L True"
  by (auto simp: amount1_nat_def rounded_div_def intro!: ceil_div_mono)

lemma next_from_amount0_add:
  assumes "L \<le> u128_max" "0 < L" "A \<le> u128_max" "A * val P + L * 2 ^ 96 < 2 ^ 256"
  shows "\<exists>n. get_next_sqrt_price_from_amount0 P L A True = Some n \<and> val n = next0_nat (val P) L A"
proof (cases "A = 0")
  case True
  then show ?thesis
    using assms(2) by (simp add: get_next_sqrt_price_from_amount0_def next0_zero)
next
  case False
  let ?n = "wrapping_mul (from_u128 L) Q96_U256" and ?p = "wrapping_mul (from_u128 A) P"
  let ?d = "wrapping_add ?n ?p"
  have v: "val ?n = L * 2 ^ 96" "val ?p = A * val P"
    using liq_shifted(1) [OF assms(1)] assms(3,4) by (simp_all add: val_wrapping_mul val_from_u128)
  have d: "val ?d = L * 2 ^ 96 + A * val P"
    using assms(4) unfolding val_wrapping_add v by simp
  have "ceil_div (val ?n * val P) (val ?d) \<le> val P"
    unfolding v d using assms(2) by (simp add: ceil_div_le_iff algebra_simps)
  then have "ceil_div (val ?n * val P) (val ?d) < 2 ^ 256" using val_bound [of P] by linarith
  from mul_div_ceil_val [OF _ this] obtain n where
    n: "mul_div_ceil ?n P ?d = Some n" "val n = ceil_div (val ?n * val P) (val ?d)"
    using d assms(2) by auto
  then show ?thesis
    using False unfolding v d next0_nat_def by (simp add: get_next_sqrt_price_from_amount0_def)
qed

lemma next_from_amount1_add:
  assumes "L \<le> u128_max" "0 < L" "A \<le> u128_max" "val P < 2 ^ 200"
  shows "\<exists>n. get_next_sqrt_price_from_amount1 P L A True = Some n \<and> val n = next1_nat (val P) L A
    \<and> val n < 2 ^ 256"
proof -
  have v: "val (from_u128 A) = A" "val (from_u128 L) = L" using assms by (simp_all add: val_from_u128)
  have "A * 2 ^ 96 div L \<le> A * 2 ^ 96" by simp
  also have "\<dots> \<le> 2 ^ 128 * 2 ^ 96" using assms(3) by (intro mult_right_mono) (simp_all add: u128_max_def)
  finally have q: "A * 2 ^ 96 div L \<le> 2 ^ 224" by simp
  then have "val (from_u128 A) * val Q96_U256 div val (from_u128 L) < 2 ^ 256"
    unfolding v val_Q96 by simp
  from mul_div_floor_val [OF _ this] obtain quo where
    f: "mul_div_floor (from_u128 A) Q96_U256 (from_u128 L) = Some quo" "val quo = A * 2 ^ 96 div L"
    using v assms(2) val_Q96 by auto
  have s: "val P + A * 2 ^ 96 div L < 2 ^ 256" using q assms(4) by simp
  then have "val (wrapping_add P quo) = next1_nat (val P) L A"
    unfolding val_wrapping_add f(2) next1_nat_def by (rule mod_less)
  then show ?thesis
    using f(1) val_bound [of "wrapping_add P quo"]
    by (simp add: get_next_sqrt_price_from_amount1_def)
qed

section \<open>An exact-input step\<close>

text \<open>The input between two prices in the swap direction, and when a price lies on the way.\<close>

definition dir_in :: "bool \<Rightarrow> nat \<Rightarrow> nat \<Rightarrow> nat \<Rightarrow> nat" where
  "dir_in z n c L = (if z then amount0_nat n c L True else amount1_nat c n L True)"

definition dir_out :: "bool \<Rightarrow> nat \<Rightarrow> nat \<Rightarrow> nat \<Rightarrow> nat" where
  "dir_out z n c L = (if z then amount1_nat n c L False else amount0_nat c n L False)"

definition on_way :: "bool \<Rightarrow> nat \<Rightarrow> nat \<Rightarrow> nat \<Rightarrow> bool" where
  "on_way z n c t \<longleftrightarrow> (if z then t \<le> n \<and> n \<le> c else c \<le> n \<and> n \<le> t)"

text \<open>What a step is called with: prices of ticks, a positive liquidity, amounts that fit, a
  fee below one, and a product \<open>amount * sqrt_price\<close> that does not wrap.\<close>

definition step_pre :: "bool \<Rightarrow> U256 \<Rightarrow> U256 \<Rightarrow> nat \<Rightarrow> nat \<Rightarrow> nat \<Rightarrow> bool" where
  "step_pre z c t L A fee \<longleftrightarrow> 0 < L \<and> L \<le> u128_max \<and> A \<le> u128_max \<and> fee \<le> FEE_DENOMINATOR
     \<and> 0 < val c \<and> val c < 2 ^ 200 \<and> 0 < val t \<and> val t < 2 ^ 200
     \<and> on_way z (val t) (val c) (val t)
     \<and> (z \<longrightarrow> A * val c + L * 2 ^ 96 < 2 ^ 256)"

lemma step_amounts_val:
  assumes "step_pre z c t L A fee" "on_way z (val n) (val c) (val t)"
  shows "step_amount_in z n c L = Some (u128_opt (dir_in z (val n) (val c) L))"
    "step_amount_out z n c L = Some (u128_opt (dir_out z (val n) (val c) L))"
  using assms amount0_delta_val [of L n c] amount0_delta_val [of L c n]
    amount1_delta_val [of L n c] amount1_delta_val [of L c n]
  by (auto simp: step_pre_def on_way_def step_amount_in_def step_amount_out_def dir_in_def dir_out_def
      min_def max_def split: if_splits)

lemma computed_price:
  assumes "step_pre z c t L A fee" "A' \<le> A"
  shows "\<exists>n. get_next_sqrt_price_from_input c L A' z = Some n \<and> 0 < val n
    \<and> (if z then val n \<le> val c else val c \<le> val n) \<and> dir_in z (val n) (val c) L \<le> A'"
proof (cases z)
  case True
  have "A' * val c \<le> A * val c" using assms(2) by simp
  moreover have "A * val c + L * 2 ^ 96 < 2 ^ 256" using assms(1) True by (simp add: step_pre_def)
  ultimately have "A' * val c + L * 2 ^ 96 < 2 ^ 256" by linarith
  then obtain n where "get_next_sqrt_price_from_amount0 c L A' True = Some n"
    "val n = next0_nat (val c) L A'"
    using next_from_amount0_add [of L A' c] assms by (auto simp: step_pre_def)
  then show ?thesis
    using next0_bounds [of L "val c" A'] True assms(1)
    by (auto simp: get_next_sqrt_price_from_input_def step_pre_def dir_in_def)
next
  case False
  then obtain n where "get_next_sqrt_price_from_amount1 c L A' True = Some n"
    "val n = next1_nat (val c) L A'"
    using next_from_amount1_add [of L A' c] assms by (auto simp: step_pre_def)
  then show ?thesis
    using next1_bounds [of "val c" L A'] False assms(1)
    by (auto simp: get_next_sqrt_price_from_input_def step_pre_def dir_in_def)
qed

text \<open>When the target is out of reach, the clamp never acts: the computed price stops short.\<close>

lemma computed_not_past:
  assumes "step_pre z c t L A fee" "A' \<le> A" "dir_in z (val n) (val c) L \<le> A'" "0 < val n"
    and "A' < dir_in z (val t) (val c) L" "if z then val n \<le> val c else val c \<le> val n"
  shows "on_way z (val n) (val c) (val t)" "n \<noteq> t" "clamp_to_target z n t = n"
proof -
  have "if z then val t < val n else val n < val t"
  proof (rule ccontr)
    assume "\<not> ?thesis"
    then have "dir_in z (val t) (val c) L \<le> dir_in z (val n) (val c) L"
      using amount0_antimono [OF assms(4), of "val t" "val c" L] amount1_mono [of "val t" "val n" "val c" L]
      by (auto simp: dir_in_def split: if_splits)
    then show False using assms(3,5) by simp
  qed
  then show "on_way z (val n) (val c) (val t)" "n \<noteq> t" "clamp_to_target z n t = n"
    using assms(6) by (auto simp: on_way_def clamp_to_target_def less_val split: if_splits)
qed

lemma fee_fits:
  assumes "x \<le> A * (D - f) div D" "f \<le> D" "0 < D" "0 < D - f"
  shows "x + ceil_div (x * f) (D - f) \<le> A"
proof -
  have "x * D \<le> A * (D - f)"
    using assms(1,3) by (metis div_le_mono le_trans less_eq_div_iff_mult_less_eq order_refl)
  moreover have "x * D = x * f + x * (D - f)" using assms(2) by (simp add: distrib_left [symmetric])
  moreover have "x \<le> A"
  proof -
    have "A * (D - f) div D \<le> A * D div D" by (intro div_le_mono mult_left_mono) simp_all
    then show ?thesis using assms(1,3) by simp
  qed
  then have "(A - x) * (D - f) + x * (D - f) = A * (D - f)" by (simp add: distrib_right [symmetric])
  ultimately have "x * f \<le> (A - x) * (D - f)" by linarith
  then have "ceil_div (x * f) (D - f) \<le> A - x" using assms(4) by (simp add: ceil_div_le_iff)
  with \<open>x \<le> A\<close> show ?thesis by simp
qed

text \<open>The next price of an exact-input step, before the amounts are taken.\<close>

lemma next_price_chosen:
  assumes pre: "step_pre z c t L A fee" and A': "A' \<le> A"
  shows "\<exists>n. (if (case u128_opt (dir_in z (val t) (val c) L) of Some a \<Rightarrow> A' \<ge> a | None \<Rightarrow> False)
        then Some t
        else Option.bind (get_next_sqrt_price_from_input c L A' z) (\<lambda>m. Some (clamp_to_target z m t)))
      = Some n \<and> on_way z (val n) (val c) (val t) \<and> dir_in z (val n) (val c) L \<le> A'"
proof (cases "dir_in z (val t) (val c) L \<le> A'")
  case True
  have "A' \<le> u128_max" using pre A' by (simp add: step_pre_def)
  then have "u128_opt (dir_in z (val t) (val c) L) = Some (dir_in z (val t) (val c) L)"
    using True by (simp add: u128_opt_def)
  then show ?thesis using True pre by (auto simp: step_pre_def)
next
  case False
  obtain n where n: "get_next_sqrt_price_from_input c L A' z = Some n" "0 < val n"
    "if z then val n \<le> val c else val c \<le> val n" "dir_in z (val n) (val c) L \<le> A'"
    using computed_price [OF pre A'] by blast
  note np = computed_not_past [OF pre A' n(4,2) _ n(3)]
  have "\<not> (case u128_opt (dir_in z (val t) (val c) L) of Some a \<Rightarrow> A' \<ge> a | None \<Rightarrow> False)"
    using False by (simp add: u128_opt_def)
  then show ?thesis using n np False by simp
qed

lemma less_fee_val:
  assumes "A \<le> u128_max" "fee \<le> FEE_DENOMINATOR"
  shows "mul_div_u128 A (FEE_DENOMINATOR - fee) FEE_DENOMINATOR False
      = Some (A * (FEE_DENOMINATOR - fee) div FEE_DENOMINATOR)"
    "A * (FEE_DENOMINATOR - fee) div FEE_DENOMINATOR \<le> A"
proof -
  have c: "FEE_DENOMINATOR - fee \<le> u128_max" "FEE_DENOMINATOR \<le> u128_max" "FEE_DENOMINATOR \<noteq> 0"
    by (simp_all add: FEE_DENOMINATOR_def u128_max_def)
  have "A * (FEE_DENOMINATOR - fee) div FEE_DENOMINATOR \<le> A * FEE_DENOMINATOR div FEE_DENOMINATOR"
    by (intro div_le_mono mult_left_mono) simp_all
  then show le: "A * (FEE_DENOMINATOR - fee) div FEE_DENOMINATOR \<le> A" using c(3) by simp
  show "mul_div_u128 A (FEE_DENOMINATOR - fee) FEE_DENOMINATOR False
      = Some (A * (FEE_DENOMINATOR - fee) div FEE_DENOMINATOR)"
    using mul_div_u128_val [OF assms(1) c(1,2), of False] c(3) le assms(1)
    by (simp add: rounded_div_def min_def)
qed

lemma reached_fee:
  assumes "x \<le> A * (FEE_DENOMINATOR - fee) div FEE_DENOMINATOR" "A \<le> u128_max" "fee \<le> FEE_DENOMINATOR"
  shows "\<exists>g. mul_div_u128 x fee (FEE_DENOMINATOR - fee) True = Some g \<and> x + g \<le> A"
proof -
  have D: "0 < FEE_DENOMINATOR" "FEE_DENOMINATOR \<le> u128_max" by (simp_all add: FEE_DENOMINATOR_def u128_max_def)
  have x: "x \<le> A" using assms(1) less_fee_val(2) [OF assms(2,3)] by linarith
  have le: "x \<le> u128_max" "fee \<le> u128_max" "FEE_DENOMINATOR - fee \<le> u128_max"
    using x assms(2,3) D(2) by linarith+
  note v = mul_div_u128_val [OF le, of True]
  show ?thesis
  proof (cases "FEE_DENOMINATOR - fee = 0")
    case True
    then show ?thesis using v x by simp
  next
    case False
    then have "x + ceil_div (x * fee) (FEE_DENOMINATOR - fee) \<le> A"
      using fee_fits [OF assms(1,3) D(1)] by simp
    then show ?thesis using v False by (simp add: rounded_div_def)
  qed
qed

text \<open>
  The step returns; its price lies between the current one and the target; the amounts are the
  formulas at that price; the input and the fee fit in the amount remaining, and take all of it
  when the target is not reached.
\<close>

lemma exact_input_step:
  assumes pre: "step_pre z c t L A fee"
  shows "\<exists>st. compute_swap_step c t L A fee z True = Some st
    \<and> on_way z (val (cs_sqrt_next st)) (val c) (val t)
    \<and> cs_amount_in st = dir_in z (val (cs_sqrt_next st)) (val c) L
    \<and> cs_amount_out st = unwrap_or (u128_opt (dir_out z (val (cs_sqrt_next st)) (val c) L)) 0
    \<and> cs_amount_in st + cs_fee_amount st \<le> A
    \<and> (cs_sqrt_next st \<noteq> t \<longrightarrow> cs_amount_in st + cs_fee_amount st = A)"
proof -
  let ?D = "FEE_DENOMINATOR" and ?A = "A * (FEE_DENOMINATOR - fee) div FEE_DENOMINATOR"
  have p: "0 < L" "A \<le> u128_max" "fee \<le> ?D" using pre by (simp_all add: step_pre_def)
  note lf = less_fee_val [OF p(2,3)]
  have tt: "on_way z (val t) (val c) (val t)" using pre by (simp add: step_pre_def)
  note target = step_amounts_val(1) [OF pre tt]
  obtain n where n: "(if (case u128_opt (dir_in z (val t) (val c) L) of Some a \<Rightarrow> ?A \<ge> a | None \<Rightarrow> False)
        then Some t
        else Option.bind (get_next_sqrt_price_from_input c L ?A z) (\<lambda>m. Some (clamp_to_target z m t)))
      = Some n" "on_way z (val n) (val c) (val t)" "dir_in z (val n) (val c) L \<le> ?A"
    using next_price_chosen [OF pre lf(2)] by blast
  note am = step_amounts_val [OF pre n(2)]
  let ?in = "dir_in z (val n) (val c) L"
  have inA: "?in \<le> A" using n(3) lf(2) by linarith
  have io: "unwrap_or (u128_opt ?in) u128_max = ?in"
    using inA p(2) by (simp add: u128_opt_def unwrap_or_def)
  obtain g where g: "mul_div_u128 ?in fee (?D - fee) True = Some g" "?in + g \<le> A"
    using reached_fee [OF n(3) p(2,3)] by blast
  let ?fee = "if n = t then g else A - ?in"
  have f: "(if n = t then mul_div_u128 ?in fee (?D - fee) True else Some (A - ?in)) = Some ?fee"
    by (simp only: g(1) if_distrib [of Some])
  have "swap_step_exact_input c t L A fee (?D - fee) z = Some
    \<lparr>cs_sqrt_next = n, cs_amount_in = ?in,
     cs_amount_out = unwrap_or (u128_opt (dir_out z (val n) (val c) L)) 0, cs_fee_amount = ?fee\<rparr>"
    unfolding swap_step_exact_input_def lf(1) bind.simps target n(1) am Let_def io f ..
  then have "compute_swap_step c t L A fee z True = Some
    \<lparr>cs_sqrt_next = n, cs_amount_in = ?in,
     cs_amount_out = unwrap_or (u128_opt (dir_out z (val n) (val c) L)) 0, cs_fee_amount = ?fee\<rparr>"
    using p(1,3) by (simp add: compute_swap_step_def u128_checked_sub_def)
  then show ?thesis using n(2) g(2) inA by auto
qed

end
