(* ===== verification/Clmm_Pool.thy ===== *)
theory Clmm_Pool
  imports Tick_Search Swap_Math
begin

text \<open>
  The pool level of \<open>clmm_math.rs\<close>: \<open>ClmmPoolState\<close>, its snapshots (with the snapshot records
  of \<open>crates/market-snapshot/src/lib.rs\<close>), the coverage guards that decide whether a local quote
  may be trusted, and \<open>simulate_swap\<close>. The maps of the store are finite; where the code iterates
  over a \<open>HashMap\<close> the model takes the keys in ascending order (the code sorts or takes extrema
  afterwards). The outer \<open>option\<close> of a result is a panic.
\<close>

section \<open>Data\<close>

record clmm_pool =
  cp_sqrt_price_x96 :: U256
  cp_tick :: int
  cp_liquidity :: nat
  cp_fee_bps :: nat
  cp_tick_spacing :: int
  cp_token0 :: string
  cp_token1 :: string

record tick_snapshot =
  tn_tick :: int
  tn_liquidity_gross :: nat
  tn_liquidity_net :: int

record bitmap_word_snapshot =
  bw_word_pos :: int
  bw_word :: bitmap_word

record coverage_snapshot =
  cv_is_complete :: bool
  cv_min_loaded_tick :: "int option"
  cv_max_loaded_tick :: "int option"
  cv_scanned_word_start :: "int option"
  cv_scanned_word_end :: "int option"

record pool_snapshot =
  pn_source :: string
  pn_pool_address :: string
  pn_token0 :: string
  pn_token1 :: string
  pn_fee_bps :: nat
  pn_tick_spacing :: int
  pn_sqrt_price_x96 :: U256
  pn_tick :: int
  pn_liquidity :: nat
  pn_ticks :: "tick_snapshot list"
  pn_chunk_bitmaps :: "bitmap_word_snapshot list"
  pn_word_bitmaps :: "bitmap_word_snapshot list"
  pn_coverage :: "coverage_snapshot option"

text \<open>The key-value pairs of a finite map, by ascending key.\<close>

definition entries :: "(int \<Rightarrow> 'a option) \<Rightarrow> (int \<times> 'a) list" where
  "entries m = map (\<lambda>k. (k, the (m k))) (sorted_list_of_set (dom m))"

section \<open>Snapshots\<close>

text \<open>Every non-zero word of the chunk bitmap sets its bit in the second level.\<close>

definition derive_step :: "int \<times> bitmap_word \<Rightarrow> (int \<Rightarrow> bitmap_word option) \<Rightarrow> int \<Rightarrow> bitmap_word option" where
  "derive_step = (\<lambda>(chunk_word_pos, chunk_bitmap_word) derived.
     if list_all (\<lambda>byte. byte = 0) chunk_bitmap_word then derived
     else
       let (l2_word_pos, l2_bit) = word_bitmap_position chunk_word_pos;
           word = (case derived l2_word_pos of Some w \<Rightarrow> w | None \<Rightarrow> replicate 32 0)
       in derived(l2_word_pos \<mapsto> set_bitmap_bit word l2_bit))"

definition word_snapshots :: "(int \<Rightarrow> bitmap_word option) \<Rightarrow> bitmap_word_snapshot list" where
  "word_snapshots m = map (\<lambda>(k, w). \<lparr>bw_word_pos = k, bw_word = w\<rparr>) (entries m)"

definition derive_word_bitmap_entries :: "(int \<Rightarrow> bitmap_word option) \<Rightarrow> bitmap_word_snapshot list" where
  "derive_word_bitmap_entries chunk_bitmaps =
     word_snapshots (fold derive_step (entries chunk_bitmaps) Map.empty)"

definition compressed_of :: "int \<Rightarrow> nat \<Rightarrow> int option" where
  "compressed_of chunk_pos slot =
     (let c = i32_saturating_mul chunk_pos TICKS_PER_CHUNK + int slot in
      if c \<le> i32_max then Some c else None)"

text \<open>The tick snapshots of one chunk: the slots with liquidity, in order.\<close>

fun chunk_ticks :: "int \<Rightarrow> int \<Rightarrow> nat \<Rightarrow> tick_state list \<Rightarrow> tick_snapshot list option" where
  "chunk_ticks spacing chunk_pos slot [] = Some []"
| "chunk_ticks spacing chunk_pos slot (state # rest) =
     (if ts_liquidity_gross state = 0 then chunk_ticks spacing chunk_pos (Suc slot) rest
      else
        Option.bind (compressed_of chunk_pos slot) (\<lambda>compressed_tick.
        Option.bind (chunk_ticks spacing chunk_pos (Suc slot) rest) (\<lambda>tail.
        Some (\<lparr>tn_tick = compressed_to_tick compressed_tick spacing,
               tn_liquidity_gross = ts_liquidity_gross state,
               tn_liquidity_net = ts_liquidity_net state\<rparr> # tail))))"

fun store_ticks :: "int \<Rightarrow> (int \<times> tick_state list) list \<Rightarrow> tick_snapshot list option" where
  "store_ticks spacing [] = Some []"
| "store_ticks spacing ((chunk_pos, chunk) # rest) =
     Option.bind (chunk_ticks spacing chunk_pos 0 chunk) (\<lambda>here.
     Option.bind (store_ticks spacing rest) (\<lambda>tail.
     Some (here @ tail)))"

definition clmm_pool_to_snapshot ::
    "string \<Rightarrow> string \<Rightarrow> clmm_pool \<Rightarrow> tick_store \<Rightarrow> coverage_snapshot option \<Rightarrow> pool_snapshot option" where
  "clmm_pool_to_snapshot source pool_address pool ts coverage =
     Option.bind (store_ticks (cp_tick_spacing pool) (entries (tk_chunks ts))) (\<lambda>ticks.
     Some \<lparr>pn_source = source, pn_pool_address = pool_address,
           pn_token0 = cp_token0 pool, pn_token1 = cp_token1 pool,
           pn_fee_bps = cp_fee_bps pool, pn_tick_spacing = cp_tick_spacing pool,
           pn_sqrt_price_x96 = cp_sqrt_price_x96 pool, pn_tick = cp_tick pool,
           pn_liquidity = cp_liquidity pool,
           pn_ticks = sort_key tn_tick ticks,
           pn_chunk_bitmaps = sort_key bw_word_pos (word_snapshots (tk_chunk_bitmap ts)),
           pn_word_bitmaps = sort_key bw_word_pos
             (if tk_word_bitmap ts = Map.empty then derive_word_bitmap_entries (tk_chunk_bitmap ts)
              else word_snapshots (tk_word_bitmap ts)),
           pn_coverage = coverage\<rparr>)"

definition insert_tick ::
    "int \<Rightarrow> tick_snapshot \<Rightarrow> (int \<Rightarrow> tick_state list option) \<Rightarrow> (int \<Rightarrow> tick_state list option) option" where
  "insert_tick spacing t chunks =
     Option.bind (compress_tick (tn_tick t) spacing) (\<lambda>compressed.
     let (chunk_pos, slot) = chunk_address compressed;
         chunk = (case chunks chunk_pos of Some c \<Rightarrow> c
                  | None \<Rightarrow> replicate 16 \<lparr>ts_liquidity_gross = 0, ts_liquidity_net = 0\<rparr>)
     in if slot < length chunk
        then Some (chunks(chunk_pos \<mapsto> chunk[slot :=
               \<lparr>ts_liquidity_gross = tn_liquidity_gross t, ts_liquidity_net = tn_liquidity_net t\<rparr>]))
        else None)"

fun insert_ticks ::
    "int \<Rightarrow> tick_snapshot list \<Rightarrow> (int \<Rightarrow> tick_state list option) \<Rightarrow> (int \<Rightarrow> tick_state list option) option" where
  "insert_ticks spacing [] chunks = Some chunks"
| "insert_ticks spacing (t # ts) chunks =
     Option.bind (insert_tick spacing t chunks) (insert_ticks spacing ts)"

definition insert_words :: "bitmap_word_snapshot list \<Rightarrow> (int \<Rightarrow> bitmap_word option) \<Rightarrow> int \<Rightarrow> bitmap_word option" where
  "insert_words ws m = fold (\<lambda>w m. m(bw_word_pos w \<mapsto> bw_word w)) ws m"

definition clmm_pool_from_snapshot :: "pool_snapshot \<Rightarrow> (clmm_pool \<times> tick_store) option" where
  "clmm_pool_from_snapshot snapshot =
     (let pool = \<lparr>cp_sqrt_price_x96 = pn_sqrt_price_x96 snapshot, cp_tick = pn_tick snapshot,
                  cp_liquidity = pn_liquidity snapshot, cp_fee_bps = pn_fee_bps snapshot,
                  cp_tick_spacing = pn_tick_spacing snapshot,
                  cp_token0 = pn_token0 snapshot, cp_token1 = pn_token1 snapshot\<rparr>
      in Option.bind (insert_ticks (pn_tick_spacing snapshot) (pn_ticks snapshot) Map.empty) (\<lambda>chunks.
         let chunk_bitmap = insert_words (pn_chunk_bitmaps snapshot) Map.empty;
             word_bitmap = insert_words
               (if pn_word_bitmaps snapshot = [] then derive_word_bitmap_entries chunk_bitmap
                else pn_word_bitmaps snapshot) Map.empty
         in Some (pool, \<lparr>tk_chunks = chunks, tk_chunk_bitmap = chunk_bitmap,
                         tk_word_bitmap = word_bitmap\<rparr>)))"

section \<open>Coverage guards\<close>

definition div_euclid :: "int \<Rightarrow> int \<Rightarrow> int option" where
  "div_euclid a b = (if b = 0 \<or> (a = i32_min \<and> b = - 1) then None
     else if b > 0 then Some (a div b) else Some (- (a div (- b))))"

definition tick_outside_word_scan :: "int \<Rightarrow> int \<Rightarrow> int \<Rightarrow> int \<Rightarrow> bool option" where
  "tick_outside_word_scan tick tick_spacing word_start word_end =
     Option.bind (div_euclid tick tick_spacing) (\<lambda>compressed.
     Option.bind (div_euclid compressed 256) (\<lambda>word.
     Some (word < word_start \<or> word > word_end)))"

definition tick_outside_loaded_range :: "int \<Rightarrow> int \<Rightarrow> int \<Rightarrow> bool" where
  "tick_outside_loaded_range tick min_loaded max_loaded \<longleftrightarrow> tick < min_loaded \<or> tick > max_loaded"

record coverage_input =
  ci_pool_tick :: int
  ci_tick_spacing :: int
  ci_is_complete :: bool
  ci_min_loaded_tick :: "int option"
  ci_max_loaded_tick :: "int option"
  ci_scanned_word_start :: "int option"
  ci_scanned_word_end :: "int option"

definition coverage_from_snapshot :: "clmm_pool \<Rightarrow> coverage_snapshot \<Rightarrow> coverage_input" where
  "coverage_from_snapshot pool coverage =
     \<lparr>ci_pool_tick = cp_tick pool, ci_tick_spacing = cp_tick_spacing pool,
      ci_is_complete = cv_is_complete coverage,
      ci_min_loaded_tick = cv_min_loaded_tick coverage, ci_max_loaded_tick = cv_max_loaded_tick coverage,
      ci_scanned_word_start = cv_scanned_word_start coverage,
      ci_scanned_word_end = cv_scanned_word_end coverage\<rparr>"

definition clmm_has_initialized_ticks :: "tick_store \<Rightarrow> bool" where
  "clmm_has_initialized_ticks ts =
     list_ex (\<lambda>(_, chunk). list_ex (\<lambda>tick. ts_liquidity_gross tick > 0) chunk) (entries (tk_chunks ts))"

definition clmm_quote_allowed :: "tick_store \<Rightarrow> coverage_input \<Rightarrow> bool option" where
  "clmm_quote_allowed ts coverage =
     (if \<not> ci_is_complete coverage then Some False
      else if \<not> clmm_has_initialized_ticks ts then Some False
      else
        Option.bind
          (case (ci_scanned_word_start coverage, ci_scanned_word_end coverage) of
             (Some start, Some end') \<Rightarrow>
               tick_outside_word_scan (ci_pool_tick coverage) (ci_tick_spacing coverage) start end'
           | _ \<Rightarrow> Some False) (\<lambda>outside_scan.
        if outside_scan then Some False
        else
          Some (case (ci_min_loaded_tick coverage, ci_max_loaded_tick coverage) of
             (Some min_tick, Some max_tick) \<Rightarrow>
               \<not> tick_outside_loaded_range (ci_pool_tick coverage) min_tick max_tick
           | _ \<Rightarrow> True)))"

text \<open>\<open>loaded_tick_range\<close>: the two running extrema, updated for every slot with liquidity.\<close>

fun range_chunk ::
    "int \<Rightarrow> int \<Rightarrow> nat \<Rightarrow> tick_state list \<Rightarrow> int option \<times> int option \<Rightarrow> (int option \<times> int option) option" where
  "range_chunk spacing chunk_pos slot [] acc = Some acc"
| "range_chunk spacing chunk_pos slot (state # rest) (min_tick, max_tick) =
     (if ts_liquidity_gross state = 0 then range_chunk spacing chunk_pos (Suc slot) rest (min_tick, max_tick)
      else
        Option.bind (compressed_of chunk_pos slot) (\<lambda>compressed_tick.
        let tick = compressed_to_tick compressed_tick spacing in
        range_chunk spacing chunk_pos (Suc slot) rest
          (Some (case min_tick of None \<Rightarrow> tick | Some current \<Rightarrow> min current tick),
           Some (case max_tick of None \<Rightarrow> tick | Some current \<Rightarrow> max current tick))))"

fun range_chunks ::
    "int \<Rightarrow> (int \<times> tick_state list) list \<Rightarrow> int option \<times> int option \<Rightarrow> (int option \<times> int option) option" where
  "range_chunks spacing [] acc = Some acc"
| "range_chunks spacing ((chunk_pos, chunk) # rest) acc =
     Option.bind (range_chunk spacing chunk_pos 0 chunk acc) (range_chunks spacing rest)"

definition loaded_tick_range :: "tick_store \<Rightarrow> int \<Rightarrow> (int \<times> int) option option" where
  "loaded_tick_range ts tick_spacing =
     Option.bind (range_chunks tick_spacing (entries (tk_chunks ts)) (None, None)) (\<lambda>(min_tick, max_tick).
     Some (case (min_tick, max_tick) of (Some a, Some b) \<Rightarrow> Some (a, b) | _ \<Rightarrow> None))"

section \<open>Simulation\<close>

record swap_state =
  ss_sqrt_price :: U256
  ss_tick :: int
  ss_liquidity :: nat
  ss_remaining :: nat
  ss_calculated :: nat

definition apply_liquidity_net :: "bool \<Rightarrow> int \<Rightarrow> nat \<Rightarrow> nat option" where
  "apply_liquidity_net zero_for_one net liquidity =
     Option.bind (if zero_for_one then i128_checked_sub 0 net else Some net) (\<lambda>liquidity_net.
     if liquidity_net < 0 then
       Option.bind (i128_checked_sub 0 liquidity_net) (\<lambda>dec. Some (liquidity - nat dec))
     else Some (u128_saturating_add liquidity (nat liquidity_net)))"

definition swap_iteration :: "clmm_pool \<Rightarrow> tick_store \<Rightarrow> bool \<Rightarrow> U256 \<Rightarrow> swap_state \<Rightarrow> swap_state option" where
  "swap_iteration pool ts zero_for_one price_limit s =
     Option.bind (find_initialized_tick ts (ss_tick s) (cp_tick_spacing pool) zero_for_one)
       (\<lambda>(next_tick, next_tick_initialized).
     Option.bind (sqrt_ratio_at_tick next_tick) (\<lambda>next_tick_price.
     let sqrt_target =
       (if zero_for_one then (if next_tick_price < price_limit then price_limit else next_tick_price)
        else (if next_tick_price > price_limit then price_limit else next_tick_price))
     in Option.bind (compute_swap_step (ss_sqrt_price s) sqrt_target (ss_liquidity s) (ss_remaining s)
                       (cp_fee_bps pool) zero_for_one True) (\<lambda>step.
     let remaining = ss_remaining s - cs_amount_in step - cs_fee_amount step;
         calculated = u128_saturating_add (ss_calculated s) (cs_amount_out step);
         price = cs_sqrt_next step
     in if price = next_tick_price \<and> next_tick_initialized then
          Option.bind (get_tick ts next_tick (cp_tick_spacing pool)) (\<lambda>tick_state.
          Option.bind (apply_liquidity_net zero_for_one (ts_liquidity_net tick_state) (ss_liquidity s))
            (\<lambda>liquidity.
          Some \<lparr>ss_sqrt_price = price,
                ss_tick = (if zero_for_one then max (i32_saturating_sub next_tick 1) MIN_TICK
                           else min next_tick MAX_TICK),
                ss_liquidity = liquidity, ss_remaining = remaining, ss_calculated = calculated\<rparr>))
        else
          Option.bind (if price \<noteq> cp_sqrt_price_x96 pool then tick_at_sqrt_ratio price
                       else Some (ss_tick s)) (\<lambda>tick.
          Some \<lparr>ss_sqrt_price = price, ss_tick = tick, ss_liquidity = ss_liquidity s,
                ss_remaining = remaining, ss_calculated = calculated\<rparr>))))"

text \<open>The \<open>while\<close> loop with its safety limit: at most \<open>n\<close> more iterations.\<close>

fun swap_loop :: "nat \<Rightarrow> clmm_pool \<Rightarrow> tick_store \<Rightarrow> bool \<Rightarrow> U256 \<Rightarrow> swap_state \<Rightarrow> swap_state option" where
  "swap_loop 0 pool ts zero_for_one price_limit s = Some s"
| "swap_loop (Suc n) pool ts zero_for_one price_limit s =
     (if ss_remaining s > 0 \<and> ss_sqrt_price s \<noteq> price_limit
      then Option.bind (swap_iteration pool ts zero_for_one price_limit s)
             (swap_loop n pool ts zero_for_one price_limit)
      else Some s)"

definition MAX_ITERATIONS :: nat where "MAX_ITERATIONS = 500"

definition swap_price_limit :: "bool \<Rightarrow> U256" where
  "swap_price_limit zero_for_one =
     (if zero_for_one then wrapping_add min_sqrt_ratio U256_ONE
      else wrapping_sub max_sqrt_ratio U256_ONE)"

definition simulate_swap ::
    "clmm_pool \<Rightarrow> tick_store \<Rightarrow> nat \<Rightarrow> bool \<Rightarrow> (nat \<times> U256 \<times> int) option option" where
  "simulate_swap pool ts amount_in zero_for_one =
     (if amount_in = 0 \<or> cp_liquidity pool = 0 then Some None
      else
        Option.bind (loaded_tick_range ts (cp_tick_spacing pool)) (\<lambda>loaded.
        case loaded of
          None \<Rightarrow> Some None
        | Some (min_loaded, max_loaded) \<Rightarrow>
            if tick_outside_loaded_range (cp_tick pool) min_loaded max_loaded then Some None
            else
              Option.bind
                (swap_loop MAX_ITERATIONS pool ts zero_for_one (swap_price_limit zero_for_one)
                   \<lparr>ss_sqrt_price = cp_sqrt_price_x96 pool, ss_tick = cp_tick pool,
                    ss_liquidity = cp_liquidity pool, ss_remaining = amount_in, ss_calculated = 0\<rparr>)
                (\<lambda>s. Some (if ss_calculated s = 0 then None
                           else Some (ss_calculated s, ss_sqrt_price s, ss_tick s)))))"

definition swap_stays_within_loaded_ticks ::
    "clmm_pool \<Rightarrow> tick_store \<Rightarrow> nat \<Rightarrow> bool \<Rightarrow> int \<Rightarrow> int \<Rightarrow> bool option" where
  "swap_stays_within_loaded_ticks pool ts amount_in zero_for_one min_loaded max_loaded =
     (if amount_in = 0 \<or> cp_liquidity pool = 0 then Some False
      else if tick_outside_loaded_range (cp_tick pool) min_loaded max_loaded then Some False
      else
        Option.bind (simulate_swap pool ts amount_in zero_for_one) (\<lambda>quote.
        Some (case quote of
           None \<Rightarrow> False
         | Some (amount_out, _, final_tick) \<Rightarrow>
             amount_out \<noteq> 0 \<and> \<not> tick_outside_loaded_range final_tick min_loaded max_loaded)))"

definition clmm_swap_allowed ::
    "clmm_pool \<Rightarrow> tick_store \<Rightarrow> nat \<Rightarrow> bool \<Rightarrow> coverage_input \<Rightarrow> bool option" where
  "clmm_swap_allowed pool ts amount_in zero_for_one coverage =
     Option.bind (clmm_quote_allowed ts coverage) (\<lambda>allowed.
     if \<not> allowed then Some False
     else
       Option.bind (loaded_tick_range ts (cp_tick_spacing pool)) (\<lambda>range.
       case range of
         None \<Rightarrow> Some False
       | Some (range_min, range_max) \<Rightarrow>
           let min_loaded = min (case ci_min_loaded_tick coverage of Some m \<Rightarrow> m | None \<Rightarrow> range_min) range_min;
               max_loaded = max (case ci_max_loaded_tick coverage of Some m \<Rightarrow> m | None \<Rightarrow> range_max) range_max
           in swap_stays_within_loaded_ticks pool ts amount_in zero_for_one min_loaded max_loaded))"

end
