(* ===== verification/Clmm_Properties.thy ===== *)
theory Clmm_Properties
  imports Clmm_Pool
begin

text \<open>
  What the concentrated-liquidity mathematics promises: exact 256-bit arithmetic and rounded
  multiply-divide against the natural numbers, the price of a tick, the amounts of a swap step,
  and the search for the next initialised tick.
\<close>

section \<open>256-bit arithmetic\<close>

text \<open>The four-limb \<open>U256\<close> operations are arithmetic modulo \<open>2 ^ 256\<close>: addition,
  subtraction, multiplication and shifts agree with the integers modulo \<open>2 ^ 256\<close>, the full product
  has no loss at all, and the order is the order of the values.\<close>

lemma U256_ring:
  "val (wrapping_add x y) = (val x + val y) mod 2 ^ 256
   \<and> int (val (wrapping_sub x y)) = (int (val x) - int (val y)) mod 2 ^ 256
   \<and> val (wrapping_mul x y) = (val x * val y) mod 2 ^ 256
   \<and> val (fst (full_mul x y)) + 2 ^ 256 * val (snd (full_mul x y)) = val x * val y
   \<and> val (shl x k) = val x * 2 ^ k mod 2 ^ 256 \<and> val (shr x k) = val x div 2 ^ k
   \<and> (U256_cmp x y = Less \<longleftrightarrow> val x < val y) \<and> (U256_cmp x y = Equal \<longleftrightarrow> x = y)"
proof -
  have "int (val (wrapping_sub x y)) = (int (val x) - int (val y)) mod 2 ^ 256"
  proof (cases "val y \<le> val x")
    case True
    have "val x - val y < 2 ^ 256" using val_bound [of x] by linarith
    then have "int (val x - val y) mod 2 ^ 256 = int (val x - val y)"
      by (intro mod_pos_pos_trivial) (simp_all only: of_nat_0_le_iff of_nat_less_numeral_power_cancel_iff)
    with True show ?thesis by (simp only: val_wrapping_sub of_nat_diff)
  next
    case False
    then have lt: "val x < val y" by simp
    have v: "val (wrapping_sub x y) + val y = 2 ^ 256 + val x"
      using val_wrapping_sub_wrap [OF lt] val_bound [of y] by linarith
    have "int (val (wrapping_sub x y)) + int (val y) = 2 ^ 256 + int (val x)"
      using v by (metis of_nat_add of_nat_numeral of_nat_power)
    then have "int (val x) - int (val y) = int (val (wrapping_sub x y)) + (- 1) * 2 ^ 256" by linarith
    then have "(int (val x) - int (val y)) mod 2 ^ 256 = int (val (wrapping_sub x y)) mod 2 ^ 256"
      by (simp only: mod_mult_self1)
    moreover have "int (val (wrapping_sub x y)) < 2 ^ 256"
      using val_bound [of "wrapping_sub x y"] by (simp only: of_nat_less_numeral_power_cancel_iff)
    ultimately show ?thesis by (simp only: mod_pos_pos_trivial of_nat_0_le_iff)
  qed
  then show ?thesis
    by (simp only: val_wrapping_add val_wrapping_mul val_full_mul val_shl val_shr U256_cmp_val)
      (auto simp: val_inject)
qed

text \<open>\<open>div_rem\<close> is Euclidean division: it panics exactly on a zero divisor, and otherwise
  returns the quotient and a remainder below the divisor.\<close>

lemma div_rem_euclidean:
  "(case div_rem x d of
      None \<Rightarrow> val d = 0
    | Some (q, r) \<Rightarrow> val x = val q * val d + val r \<and> val r < val d)"
proof (cases "val d = 0")
  case True
  then show ?thesis by (simp add: div_rem_def is_zero_val)
next
  case False
  then obtain q r where "div_rem x d = Some (q, r)" "val q = val x div val d" "val r = val x mod val d"
    using div_rem_eq by blast
  with False show ?thesis by (simp add: div_mult_mod_eq)
qed

text \<open>C30: \<open>mul_div_floor\<close> and \<open>mul_div_ceil\<close> are the exactly rounded \<open>a * b / d\<close> over the full
  512-bit product, whenever the rounded quotient fits 256 bits, and panic only when \<open>d\<close> is zero.\<close>

theorem mul_div_exact:
  assumes "0 < val d" "ceil_div (val a * val b) (val d) < 2 ^ 256"
  shows "map_option val (mul_div_floor a b d) = Some (val a * val b div val d)
    \<and> map_option val (mul_div_ceil a b d) = Some (ceil_div (val a * val b) (val d))"
proof -
  have "val a * val b div val d < 2 ^ 256"
    using div_le_ceil_div [OF assms(1), of "val a * val b"] assms(2) by linarith
  from mul_div_floor_val [OF assms(1) this] mul_div_ceil_val [OF assms] show ?thesis by auto
qed

theorem mul_div_exact_witness:
  "map_option val (mul_div_ceil (U256 0 0 1 0) (U256 0 0 0 1) (U256 0 0 0 7)) = Some (2 ^ 128 div 7 + 1)"
proof -
  have p: "0 < val (U256 0 0 0 7)" "val (U256 0 0 1 0) * val (U256 0 0 0 1) = 2 ^ 320"
    "val (U256 0 0 0 7) = 7 * 2 ^ 192" by simp_all
  have "ceil_div (2 ^ 320) (7 * 2 ^ 192) = 2 ^ 128 div 7 + 1" by (simp add: ceil_div_def)
  with mul_div_exact [OF p(1), of "U256 0 0 1 0" "U256 0 0 0 1"] p show ?thesis by (simp only:) simp
qed

text \<open>\<open>mul_div_u128\<close> never panics: with a non-zero divisor it is the rounded quotient of the exact
  product, capped at \<open>u128::MAX\<close>, also when the product exceeds 128 bits.\<close>

lemma mul_div_u128_capped:
  assumes "a \<le> u128_max" "b \<le> u128_max" "c \<le> u128_max"
  shows "mul_div_u128 a b c up
    = Some (if c = 0 then 0 else min (if up then ceil_div (a * b) c else a * b div c) u128_max)"
  using mul_div_u128_val [OF assms, of up] by (simp add: rounded_div_def)

lemma mul_div_u128_capped_witness:
  "mul_div_u128 (2 ^ 127) (2 ^ 127) 3 True = Some (2 ^ 128 - 1)
   \<and> mul_div_u128 (2 ^ 127) 4 3 True = Some (2 ^ 129 div 3 + 1)"
  using mul_div_u128_capped [of "2 ^ 127" "2 ^ 127" 3 True] mul_div_u128_capped [of "2 ^ 127" 4 3 True]
  by (simp add: u128_max_def ceil_div_def)


text \<open>The exact 128 by 128 bit product of the logarithm loop: \<open>widening_mul_u128\<close> returns
  the high and low halves, each in range.\<close>

lemma widening_mul_halves:
  assumes "a \<le> u128_max" "b \<le> u128_max"
  shows "fst (widening_mul_u128 a b) * 2 ^ 128 + snd (widening_mul_u128 a b) = a * b
    \<and> snd (widening_mul_u128 a b) \<le> u128_max \<and> fst (widening_mul_u128 a b) \<le> u128_max"
  using widening_mul_exact [OF assms, of "fst (widening_mul_u128 a b)" "snd (widening_mul_u128 a b)"] by simp

lemma widening_mul_halves_witness:
  "fst (widening_mul_u128 u128_max u128_max) * 2 ^ 128 + snd (widening_mul_u128 u128_max u128_max)
     = (2 ^ 128 - 1) * (2 ^ 128 - 1)"
  using widening_mul_halves [of u128_max u128_max] by (simp add: u128_max_def)

section \<open>Prices and amounts\<close>

text \<open>The token amounts between two prices: for positive prices below \<open>2 ^ 200\<close> and a
  \<open>u128\<close> liquidity, \<open>amount0_delta\<close> is \<open>L * 2^96 * (hi - lo) / hi / lo\<close> and
  \<open>amount1_delta\<close> is \<open>L * (hi - lo) / 2^96\<close>, each division rounded the way asked, in either
  order of the prices, and absent exactly when the amount does not fit \<open>u128\<close>.\<close>

lemma amount_deltas:
  assumes "L \<le> u128_max" "0 < val a" "val a < 2 ^ 200" "0 < val b" "val b < 2 ^ 200"
  defines "lo \<equiv> min (val a) (val b)" and "hi \<equiv> max (val a) (val b)"
  shows "amount0_delta a b L up
      = Some (u128_opt (rounded_div up (rounded_div up (L * 2 ^ 96 * (hi - lo)) hi) lo))
    \<and> amount1_delta a b L up = Some (u128_opt (rounded_div up (L * (hi - lo)) (2 ^ 96)))"
  using amount0_delta_val [OF assms(1,2,4), of up] amount1_delta_val [OF assms(1,3,5), of up]
  by (simp add: lo_def hi_def amount0_nat_def amount1_nat_def)

lemma amount_deltas_witness:
  "amount1_delta (U256 0 (2 ^ 32) 0 0) (U256 0 (2 ^ 33) 0 0) 1000 True = Some (Some 1000)
   \<and> amount0_delta (U256 0 (2 ^ 32) 0 0) (U256 0 (2 ^ 33) 0 0) 1000 True = Some (Some 500)"
proof -
  have v: "val (U256 0 (2 ^ 32) 0 0) = 2 ^ 96" "val (U256 0 (2 ^ 33) 0 0) = 2 ^ 97" by simp_all
  have bounds: "(1000::nat) \<le> u128_max" by (simp add: u128_max_def)
  from amount_deltas [OF bounds, of "U256 0 (2 ^ 32) 0 0" "U256 0 (2 ^ 33) 0 0" True]
  show ?thesis unfolding v by (simp add: rounded_div_def ceil_div_def u128_opt_def u128_max_def)
qed

text \<open>One exact-input swap step is sound: under the step's precondition (prices of ticks,
  positive liquidity, a fee below one, no wrap of \<open>amount * price\<close>) it returns, its next price lies
  between the current price and the target, the input is the exact rounded-up amount for that move,
  input and fee together never exceed what remained, and they are all of it unless the target was
  reached.\<close>

lemma swap_step_sound:
  assumes "step_pre zero_for_one current target L A fee"
  shows "case compute_swap_step current target L A fee zero_for_one True of
      None \<Rightarrow> False
    | Some st \<Rightarrow>
        on_way zero_for_one (val (cs_sqrt_next st)) (val current) (val target)
        \<and> cs_amount_in st = dir_in zero_for_one (val (cs_sqrt_next st)) (val current) L
        \<and> cs_amount_out st
            = unwrap_or (u128_opt (dir_out zero_for_one (val (cs_sqrt_next st)) (val current) L)) 0
        \<and> cs_amount_in st + cs_fee_amount st \<le> A
        \<and> (cs_sqrt_next st = target \<or> cs_amount_in st + cs_fee_amount st = A)"
  using exact_input_step [OF assms] by auto

lemma swap_step_sound_witness:
  "\<exists>st. compute_swap_step (U256 0 (2 ^ 32) 0 0) (U256 0 (2 ^ 31) 0 0) 1000000 1000 30 True True = Some st
     \<and> cs_amount_in st + cs_fee_amount st \<le> 1000"
proof -
  have "step_pre True (U256 0 (2 ^ 32) 0 0) (U256 0 (2 ^ 31) 0 0) 1000000 1000 30"
    by (simp add: step_pre_def u128_max_def FEE_DENOMINATOR_def on_way_def)
  from swap_step_sound [OF this] show ?thesis
    by (cases "compute_swap_step (U256 0 (2 ^ 32) 0 0) (U256 0 (2 ^ 31) 0 0) 1000000 1000 30 True True") auto
qed

section \<open>The tick bitmap\<close>

text \<open>The bit scans of a 256-bit bitmap word find the nearest set bit: \<open>find_prev_set_bit\<close> the
  highest one at or below the start, \<open>find_next_set_bit\<close> the lowest one at or above it, and nothing
  only when there is none on that side.\<close>

lemma bit_scans_nearest:
  assumes "word_ok word" "n \<le> 255"
  shows "top_of (wbit word) {c. c \<le> n} (find_prev_set_bit word n)
    \<and> bottom_of (wbit word) {c. n \<le> c \<and> c < 256} (find_next_set_bit word n)"
  using find_prev_set_bit_spec [OF assms] find_next_set_bit_spec [OF assms] by blast

lemma bit_scans_nearest_witness:
  "top_of (wbit (replicate 31 0 @ [5])) {c. c \<le> 200} (find_prev_set_bit (replicate 31 0 @ [5]) 200)
   \<and> find_prev_set_bit (replicate 31 0 @ [5]) 200 = Some 2 \<and> find_next_set_bit (replicate 31 0 @ [5]) 1 = Some 2"
proof -
  have ok: "word_ok (replicate 31 0 @ [5])"
    by (simp add: word_ok_def nth_append)
  have n: "(200::nat) \<le> 255" by simp
  have prev: "find_prev_set_bit (replicate 31 0 @ [5]) 200 = Some 2"
    and succ: "find_next_set_bit (replicate 31 0 @ [5]) 1 = Some 2"
    by code_simp+
  from bit_scans_nearest [OF ok n] prev succ show ?thesis by blast
qed

text \<open>C11: The three-level search finds the nearest initialised tick: on a consistent store with a
  positive spacing, from any tick of the protocol's range, \<open>find_initialized_tick\<close> returns the
  nearest initialised compressed tick at or below (for \<open>lte\<close>) or strictly above the start, as an
  initialised tick, and only when there is none a boundary tick marked not initialised.\<close>

theorem find_initialized_tick_nearest:
  fixes lte :: bool and tick spacing :: int
  assumes "store_ok ts" "0 < spacing" "MIN_TICK \<le> tick" "tick \<le> MAX_TICK"
  shows "\<exists>r. find_initialized_tick ts tick spacing lte = Some (case r of
        Some c \<Rightarrow> (compressed_to_tick c spacing, True)
      | None \<Rightarrow> (compressed_to_tick (search_boundary lte
          ((if lte then tick div spacing else tick div spacing + 1) div 16 div 256)) spacing, False))
    \<and> (case r of
         Some c \<Rightarrow> inited ts c
           \<and> (if lte then c \<le> tick div spacing \<and> (\<forall>c'. inited ts c' \<longrightarrow> c' \<le> tick div spacing \<longrightarrow> c' \<le> c)
              else tick div spacing < c \<and> (\<forall>c'. inited ts c' \<longrightarrow> tick div spacing < c' \<longrightarrow> c \<le> c'))
       | None \<Rightarrow> (if lte then \<forall>c. inited ts c \<longrightarrow> tick div spacing < c
                  else \<forall>c. inited ts c \<longrightarrow> c \<le> tick div spacing))"
proof -
  obtain r where r: "find_initialized_tick ts tick spacing lte = Some (case r of
        Some c \<Rightarrow> (compressed_to_tick c spacing, True)
      | None \<Rightarrow> (compressed_to_tick (search_boundary lte
          ((if lte then tick div spacing else tick div spacing + 1) div 16 div 256)) spacing, False))"
    "best (dir lte) (inited ts) {c. dir lte c (if lte then tick div spacing else tick div spacing + 1)} r"
    using find_initialized_tick_best [OF assms, of lte] by blast
  have "case r of
         Some c \<Rightarrow> inited ts c
           \<and> (if lte then c \<le> tick div spacing \<and> (\<forall>c'. inited ts c' \<longrightarrow> c' \<le> tick div spacing \<longrightarrow> c' \<le> c)
              else tick div spacing < c \<and> (\<forall>c'. inited ts c' \<longrightarrow> tick div spacing < c' \<longrightarrow> c \<le> c'))
       | None \<Rightarrow> (if lte then \<forall>c. inited ts c \<longrightarrow> tick div spacing < c
                  else \<forall>c. inited ts c \<longrightarrow> c \<le> tick div spacing)"
  proof -
    have "{c. dir lte c (if lte then tick div spacing else tick div spacing + 1)}
      = {c. if lte then c \<le> tick div spacing else tick div spacing < c}"
      by (auto simp: dir_def)
    with r(2) show ?thesis by (cases lte) (auto simp: best_def dir_def not_le split: option.splits)
  qed
  with r(1) show ?thesis by blast
qed

text \<open>A store with the single initialised compressed tick 3.\<close>

definition sample_chunk :: "tick_state list" where
  "sample_chunk = map (\<lambda>s. \<lparr>ts_liquidity_gross = (if s = 3 then 100 else 0),
     ts_liquidity_net = (if s = 3 then 100 else 0)\<rparr>) [0..<16]"

definition sample_store :: tick_store where
  "sample_store = \<lparr>tk_chunks = [0 \<mapsto> sample_chunk], tk_chunk_bitmap = [0 \<mapsto> replicate 31 0 @ [1]],
     tk_word_bitmap = [0 \<mapsto> replicate 31 0 @ [1]]\<rparr>"

lemma sample_inited: "inited sample_store c \<longleftrightarrow> c = 3"
proof (cases "c div 16 = 0")
  case True
  then have c: "0 \<le> c" "c < 16" "c mod 16 = c" by auto
  then have "nat (c mod 16) < 16" by simp
  with c show ?thesis by (auto simp: inited_def sample_store_def sample_chunk_def nth_map)
qed (auto simp: inited_def sample_store_def)

lemma sample_word: "word_ok (replicate 31 0 @ [1])"
  "b < 256 \<Longrightarrow> wbit (replicate 31 0 @ [1]) b \<longleftrightarrow> b = 0"
proof -
  show "word_ok (replicate 31 0 @ [1])" by (simp add: word_ok_def nth_append)
  assume b: "b < 256"
  show "wbit (replicate 31 0 @ [1]) b \<longleftrightarrow> b = 0"
  proof (cases "b div 8 = 0")
    case True
    then have "b < 8" by auto
    then show ?thesis by (simp add: wbit_def nth_append bit_1_iff del: One_nat_def)
  next
    case False
    then have "31 - b div 8 < 31" using b by simp
    with False show ?thesis by (auto simp: wbit_def nth_append)
  qed
qed

lemma sample_bm: "bm_bit [0 \<mapsto> replicate 31 0 @ [1]] p \<longleftrightarrow> p = 0"
proof (cases "p div 256 = 0")
  case True
  then have "0 \<le> p" "p < 256" by auto
  then show ?thesis using sample_word(2) [of "nat p"] by (auto simp: bm_bit_def)
qed (auto simp: bm_bit_def)

lemma sample_store_ok: "store_ok sample_store"
proof -
  have "\<exists>c. c div 16 = p \<and> c = 3" if "p = 0" for p :: int
    using that by (intro exI [of _ 3]) simp
  moreover have "(3::int) div 16 = 0" by simp
  ultimately show ?thesis
    unfolding store_ok_def sample_inited
    using sample_word(1) by (auto simp: sample_store_def sample_bm sample_chunk_def simp del: One_nat_def split: if_splits)
qed

theorem find_initialized_tick_nearest_witness:
  "find_initialized_tick sample_store 100 60 False = Some (180, True)
   \<and> find_initialized_tick sample_store 700 60 True = Some (180, True)"
proof -
  have up: "\<exists>r. find_initialized_tick sample_store 100 60 False = Some (case r of
        Some c \<Rightarrow> (compressed_to_tick c 60, True)
      | None \<Rightarrow> (compressed_to_tick (search_boundary False ((100 div 60 + 1) div 16 div 256)) 60, False))
    \<and> (case r of Some c \<Rightarrow> c = 3 | None \<Rightarrow> False)"
    using find_initialized_tick_nearest [OF sample_store_ok, of 60 100 False]
    by (auto simp: sample_inited MIN_TICK_def MAX_TICK_def split: option.splits)
  have down: "\<exists>r. find_initialized_tick sample_store 700 60 True = Some (case r of
        Some c \<Rightarrow> (compressed_to_tick c 60, True)
      | None \<Rightarrow> (compressed_to_tick (search_boundary True ((700 div 60) div 16 div 256)) 60, False))
    \<and> (case r of Some c \<Rightarrow> c = 3 | None \<Rightarrow> False)"
    using find_initialized_tick_nearest [OF sample_store_ok, of 60 700 True]
    by (auto simp: sample_inited MIN_TICK_def MAX_TICK_def split: option.splits)
  have t: "compressed_to_tick 3 60 = 180"
    by (simp add: compressed_to_tick_def i32_saturating_mul_def MIN_TICK_def MAX_TICK_def)
  from up down t show ?thesis by (auto split: option.splits)
qed

end
