(* ===== verification/Clmm_Range.thy ===== *)
theory Clmm_Range
  imports Clmm_Pool
begin

text \<open>
  \<open>loaded_tick_range\<close> (\<open>crates/dex-adapters/src/clmm_math.rs\<close>) against its specification: on a
  consistent store the scan of all chunks returns the least and the greatest initialised tick.
\<close>

definition tick_set :: "tick_store \<Rightarrow> int \<Rightarrow> int set" where
  "tick_set ts spacing = (\<lambda>c. compressed_to_tick c spacing) ` {c. inited ts c}"

text \<open>The two running extrema after the ticks \<open>S\<close>.\<close>

definition bounds_of :: "int set \<Rightarrow> int option \<times> int option \<Rightarrow> bool" where
  "bounds_of S acc \<longleftrightarrow> finite S \<and> acc = (if S = {} then (None, None) else (Some (Min S), Some (Max S)))"

lemma bounds_of_insert:
  assumes "bounds_of S (mn, mx)"
  shows "bounds_of (insert t S)
    (Some (case mn of None \<Rightarrow> t | Some current \<Rightarrow> min current t),
     Some (case mx of None \<Rightarrow> t | Some current \<Rightarrow> max current t))"
  using assms by (auto simp: bounds_of_def min.commute max.commute split: if_splits)

definition slot_ticks :: "int \<Rightarrow> int \<Rightarrow> nat \<Rightarrow> tick_state list \<Rightarrow> int set" where
  "slot_ticks spacing p slot ch =
     (\<lambda>k. compressed_to_tick (p * 16 + int (slot + k)) spacing) ` {k. k < length ch \<and> 0 < ts_liquidity_gross (ch ! k)}"

lemma slot_ticks_Nil [simp]: "slot_ticks spacing p slot [] = {}"
  by (simp add: slot_ticks_def)

lemma slot_ticks_Cons [simp]:
  "slot_ticks spacing p slot (x # ch) =
     (if 0 < ts_liquidity_gross x then {compressed_to_tick (p * 16 + int slot) spacing} else {})
     \<union> slot_ticks spacing p (Suc slot) ch"
proof -
  have "{k. k < length (x # ch) \<and> 0 < ts_liquidity_gross ((x # ch) ! k)}
    = (if 0 < ts_liquidity_gross x then {0} else {}) \<union> Suc ` {k. k < length ch \<and> 0 < ts_liquidity_gross (ch ! k)}"
    (is "?A = ?B")
  proof (rule set_eqI)
    fix k
    show "k \<in> ?A \<longleftrightarrow> k \<in> ?B" by (cases k) auto
  qed
  then show ?thesis by (simp add: slot_ticks_def image_Un image_image ac_simps)
qed

lemma compressed_of_some:
  assumes "- (2 ^ 20) \<le> p * 16 + int slot" "p * 16 + int slot < 2 ^ 20" "slot < 16"
  shows "compressed_of p slot = Some (p * 16 + int slot)"
  using assms by (simp add: compressed_of_def i32_saturating_mul_def TICKS_PER_CHUNK_def Let_def)

lemma range_chunk_bounds:
  assumes "bounds_of S acc" "slot + length ch \<le> 16"
    and "\<And>k. k < length ch \<Longrightarrow> 0 < ts_liquidity_gross (ch ! k) \<Longrightarrow>
      - (2 ^ 20) \<le> p * 16 + int (slot + k) \<and> p * 16 + int (slot + k) < 2 ^ 20"
  shows "\<exists>acc'. range_chunk spacing p slot ch acc = Some acc' \<and> bounds_of (S \<union> slot_ticks spacing p slot ch) acc'"
  using assms
proof (induction ch arbitrary: S acc slot)
  case Nil
  then show ?case by simp
next
  case (Cons x ch)
  obtain mn mx where acc: "acc = (mn, mx)" by force
  have tail: "- (2 ^ 20) \<le> p * 16 + int (Suc slot + k) \<and> p * 16 + int (Suc slot + k) < 2 ^ 20"
    if "k < length ch" "0 < ts_liquidity_gross (ch ! k)" for k
    using Cons.prems(3) [of "Suc k"] that by simp
  note IH = Cons.IH [where slot = "Suc slot", OF _ _ tail]
  show ?case
  proof (cases "ts_liquidity_gross x = 0")
    case True
    then show ?thesis using IH [OF Cons.prems(1)] Cons.prems(2) by (simp add: acc)
  next
    case False
    let ?t = "compressed_to_tick (p * 16 + int slot) spacing"
    have "compressed_of p slot = Some (p * 16 + int slot)"
      using Cons.prems(2) Cons.prems(3) [of 0] False by (intro compressed_of_some) simp_all
    then show ?thesis
      using IH [OF bounds_of_insert [OF Cons.prems(1) [unfolded acc], of ?t]] Cons.prems(2) False
      by (simp add: acc Let_def)
  qed
qed

lemma range_chunks_bounds:
  assumes "bounds_of S acc"
    and "\<And>p ch. (p, ch) \<in> set cs \<Longrightarrow> length ch = 16 \<and> (\<forall>k < 16. 0 < ts_liquidity_gross (ch ! k) \<longrightarrow>
      - (2 ^ 20) \<le> p * 16 + int k \<and> p * 16 + int k < 2 ^ 20)"
  shows "\<exists>acc'. range_chunks spacing cs acc = Some acc'
    \<and> bounds_of (S \<union> (\<Union>(p, ch) \<in> set cs. slot_ticks spacing p 0 ch)) acc'"
  using assms
proof (induction cs arbitrary: S acc)
  case Nil
  then show ?case by simp
next
  case (Cons c cs)
  obtain p ch where c: "c = (p, ch)" by force
  have "\<exists>acc'. range_chunk spacing p 0 ch acc = Some acc' \<and> bounds_of (S \<union> slot_ticks spacing p 0 ch) acc'"
    using Cons.prems(2) [of p ch] by (intro range_chunk_bounds [OF Cons.prems(1)]) (auto simp: c)
  then obtain acc1 where a1: "range_chunk spacing p 0 ch acc = Some acc1" "bounds_of (S \<union> slot_ticks spacing p 0 ch) acc1"
    by blast
  have "\<exists>acc'. range_chunks spacing cs acc1 = Some acc'
      \<and> bounds_of ((S \<union> slot_ticks spacing p 0 ch) \<union> (\<Union>(p, ch) \<in> set cs. slot_ticks spacing p 0 ch)) acc'"
    by (rule Cons.IH [OF a1(2)], rule Cons.prems(2), simp)
  then show ?case by (simp add: c a1(1) Un_assoc)
qed

lemma entries_set:
  assumes "finite (dom m)"
  shows "(p, x) \<in> set (entries m) \<longleftrightarrow> m p = Some x"
  using assms by (force simp: entries_def)

lemma tick_set_chunks:
  assumes "finite (dom (tk_chunks ts))" "store_ok ts"
  shows "(\<Union>(p, ch) \<in> set (entries (tk_chunks ts)). slot_ticks spacing p 0 ch) = tick_set ts spacing"
proof (rule set_eqI)
  fix t
  show "t \<in> (\<Union>(p, ch) \<in> set (entries (tk_chunks ts)). slot_ticks spacing p 0 ch) \<longleftrightarrow> t \<in> tick_set ts spacing"
  proof
    assume "t \<in> (\<Union>(p, ch) \<in> set (entries (tk_chunks ts)). slot_ticks spacing p 0 ch)"
    then obtain p ch k where k: "tk_chunks ts p = Some ch" "k < length ch" "0 < ts_liquidity_gross (ch ! k)"
      "t = compressed_to_tick (p * 16 + int k) spacing"
      using entries_set [OF assms(1)] by (auto simp: slot_ticks_def)
    moreover have "k < 16" using k(2) store_okD(1) [OF assms(2) k(1)] by simp
    ultimately have "inited ts (p * 16 + int k)" by (simp add: inited_def)
    with k(4) show "t \<in> tick_set ts spacing" by (auto simp: tick_set_def)
  next
    assume "t \<in> tick_set ts spacing"
    then obtain c where c: "inited ts c" "t = compressed_to_tick c spacing" by (auto simp: tick_set_def)
    then obtain ch where ch: "tk_chunks ts (c div 16) = Some ch" "0 < ts_liquidity_gross (ch ! nat (c mod 16))"
      by (auto simp: inited_def split: option.splits)
    have "nat (c mod 16) < length ch" using store_okD(1) [OF assms(2) ch(1)] by simp
    then have "t \<in> slot_ticks spacing (c div 16) 0 ch" using c(2) ch(2)
      by (auto simp: slot_ticks_def image_iff intro!: exI [of _ "nat (c mod 16)"])
    then show "t \<in> (\<Union>(p, ch) \<in> set (entries (tk_chunks ts)). slot_ticks spacing p 0 ch)"
      using ch(1) entries_set [OF assms(1)] by blast
  qed
qed

lemma loaded_tick_range_val:
  assumes "finite (dom (tk_chunks ts))" "store_ok ts"
  shows "loaded_tick_range ts spacing = Some (if tick_set ts spacing = {} then None
    else Some (Min (tick_set ts spacing), Max (tick_set ts spacing)))"
    and "finite (tick_set ts spacing)"
proof -
  have "length ch = 16 \<and> (\<forall>k < 16. 0 < ts_liquidity_gross (ch ! k) \<longrightarrow>
      - (2 ^ 20) \<le> p * 16 + int k \<and> p * 16 + int k < 2 ^ 20)"
    if "(p, ch) \<in> set (entries (tk_chunks ts))" for p ch
  proof -
    have ch: "tk_chunks ts p = Some ch" using that entries_set [OF assms(1)] by simp
    then have "inited ts (p * 16 + int k)" if "k < 16" "0 < ts_liquidity_gross (ch ! k)" for k
      using that by (simp add: inited_def)
    then show ?thesis using store_okD(1) [OF assms(2) ch] store_okD(6) [OF assms(2)] by blast
  qed
  then have "\<exists>acc. range_chunks spacing (entries (tk_chunks ts)) (None, None) = Some acc
      \<and> bounds_of ({} \<union> (\<Union>(p, ch) \<in> set (entries (tk_chunks ts)). slot_ticks spacing p 0 ch)) acc"
    by (intro range_chunks_bounds) (simp_all add: bounds_of_def)
  then obtain acc where acc: "range_chunks spacing (entries (tk_chunks ts)) (None, None) = Some acc" "bounds_of (tick_set ts spacing) acc"
    unfolding tick_set_chunks [OF assms] by auto
  then show "loaded_tick_range ts spacing = Some (if tick_set ts spacing = {} then None
    else Some (Min (tick_set ts spacing), Max (tick_set ts spacing)))" "finite (tick_set ts spacing)"
    by (auto simp: loaded_tick_range_def bounds_of_def)
qed

end
