(* ===== verification/Tick_Price.thy ===== *)
theory Tick_Price
  imports Tick_Math Complex_Main
begin

text \<open>
  How accurate \<open>sqrt_ratio_at_tick\<close> is: the twenty multipliers approximate powers of
  \<open>1.0001\<close>, so the price of every tick in range is \<open>2^96 * 1.0001^(tick/2)\<close> up to a relative
  error of \<open>2^-31\<close>. Hence prices grow strictly with the tick. Logarithms are natural; \<open>tick_beta\<close>
  is the logarithm of the price ratio of neighbouring ticks.
\<close>

section \<open>The multipliers\<close>

definition tick_beta :: real where "tick_beta = ln (10001 / 10000) / 2"

definition multiplier :: "nat \<Rightarrow> real" where
  "multiplier i = real (TICK_MULTIPLIERS ! i) / 2 ^ 128"

lemma tick_beta_bounds: "49995 / 10 ^ 9 \<le> tick_beta" "tick_beta \<le> 5 / 10 ^ 5"
proof -
  have "ln (1 + 1 / 10000 :: real) \<le> 1 / 10000" by (rule ln_add_one_self_le_self) simp
  then show "tick_beta \<le> 5 / 10 ^ 5" by (simp add: tick_beta_def)
  have "1 / 10000 - (1 / 10000)\<^sup>2 \<le> ln (1 + 1 / 10000 :: real)" by (rule ln_one_plus_pos_lower_bound) simp_all
  then show "49995 / 10 ^ 9 \<le> tick_beta" by (simp add: tick_beta_def power2_eq_square)
qed

lemma real_power_le: "2 ^ k \<le> n \<Longrightarrow> 2 ^ k \<le> real n"
  by (metis of_nat_le_iff of_nat_numeral of_nat_power)

lemma scaled_quotient: "a * k \<le> y \<Longrightarrow> 0 < y \<Longrightarrow> 0 < k \<Longrightarrow> a / y \<le> 1 / k" for a k y :: real
  by (simp add: field_simps)

lemma ln_near_one:
  fixes x e :: real
  assumes "\<bar>x - 1\<bar> \<le> e" "e \<le> 1 / 2"
  shows "\<bar>ln x\<bar> \<le> 2 * e"
proof -
  have "\<bar>ln (1 + (x - 1)) - (x - 1)\<bar> \<le> 2 * (x - 1)\<^sup>2"
    using assms by (intro abs_ln_one_plus_x_minus_x_bound) linarith
  moreover have "2 * (x - 1)\<^sup>2 \<le> \<bar>x - 1\<bar>"
  proof -
    have "\<bar>x - 1\<bar> * \<bar>x - 1\<bar> \<le> 1 / 2 * \<bar>x - 1\<bar>" using assms by (intro mult_right_mono) linarith+
    then show ?thesis by (simp add: power2_eq_square)
  qed
  ultimately show ?thesis using assms(1) by simp
qed

lemma multiplier_pos: "i < 20 \<Longrightarrow> 0 < multiplier i" "i < 20 \<Longrightarrow> multiplier i \<le> 1"
proof -
  assume "i < 20"
  then have "i < length TICK_MULTIPLIERS" by (simp add: TICK_MULTIPLIERS_def)
  then have "0 < TICK_MULTIPLIERS ! i" "TICK_MULTIPLIERS ! i < 2 ^ 128"
    using multiplier_bounds by (auto simp: list_all_length)
  then have "0 < real (TICK_MULTIPLIERS ! i)" "real (TICK_MULTIPLIERS ! i) < real (2 ^ 128)"
    by (simp_all only: of_nat_less_iff of_nat_0_less_iff)
  then show "0 < multiplier i" "multiplier i \<le> 1" by (simp_all add: multiplier_def)
qed

text \<open>Each multiplier is the square of the one before, and the first one is \<open>1.0001^(-1/2)\<close>.\<close>

definition square_gap :: "nat \<times> nat \<Rightarrow> bool" where
  "square_gap = (\<lambda>(m, m'). \<bar>int m' * 2 ^ 128 - int m * int m\<bar> * 2 ^ 90 \<le> int m * int m)"

lemma multiplier_squares: "list_all square_gap (zip TICK_MULTIPLIERS (tl TICK_MULTIPLIERS))"
  by (simp add: TICK_MULTIPLIERS_def square_gap_def)

lemma multiplier_first:
  "\<bar>int (TICK_MULTIPLIERS ! 0) * int (TICK_MULTIPLIERS ! 0) * 10001 - 2 ^ 256 * 10000\<bar> * 2 ^ 90 \<le> 2 ^ 256 * 10000"
  by (simp add: TICK_MULTIPLIERS_def)

lemma multiplier_next:
  assumes "i < 19"
  shows "\<bar>ln (multiplier (Suc i)) - 2 * ln (multiplier i)\<bar> \<le> 1 / 2 ^ 89"
proof -
  define m m' where "m = TICK_MULTIPLIERS ! i" and "m' = TICK_MULTIPLIERS ! Suc i"
  have len: "length TICK_MULTIPLIERS = 20" by (simp add: TICK_MULTIPLIERS_def)
  then have "square_gap (m, m')"
    using multiplier_squares assms by (auto simp: list_all_length m_def m'_def nth_tl)
  then have "real_of_int (\<bar>int m' * 2 ^ 128 - int m * int m\<bar> * 2 ^ 90) \<le> real_of_int (int m * int m)"
    unfolding square_gap_def prod.case of_int_le_iff .
  then have gap: "\<bar>real m' * 2 ^ 128 - real m * real m\<bar> * 2 ^ 90 \<le> real m * real m" by simp
  have pos: "0 < multiplier i" "0 < multiplier (Suc i)" using assms multiplier_pos by simp_all
  then have m0: "0 < real m" by (simp add: multiplier_def m_def zero_less_divide_iff)
  then have m: "0 < real m * real m" by simp
  have q: "multiplier (Suc i) / (multiplier i * multiplier i) = real m' * 2 ^ 128 / (real m * real m)"
    by (simp add: multiplier_def m_def m'_def)
  have "\<bar>multiplier (Suc i) / (multiplier i * multiplier i) - 1\<bar> \<le> 1 / 2 ^ 90"
  proof -
    have "real m' * 2 ^ 128 / (real m * real m) - 1 = (real m' * 2 ^ 128 - real m * real m) / (real m * real m)"
      using m0 by (simp add: diff_divide_distrib)
    moreover have "\<bar>real m' * 2 ^ 128 - real m * real m\<bar> / (real m * real m) \<le> 1 / 2 ^ 90"
      by (rule scaled_quotient [OF gap m]) simp
    ultimately show ?thesis unfolding q by (simp only: abs_divide abs_of_pos [OF m])
  qed
  then have "\<bar>ln (multiplier (Suc i) / (multiplier i * multiplier i))\<bar> \<le> 2 * (1 / 2 ^ 90)"
    by (rule ln_near_one) simp
  then show ?thesis using pos by (simp add: ln_div ln_mult)
qed

lemma multiplier_ln:
  assumes "i < 20"
  shows "\<bar>ln (multiplier i) + 2 ^ i * tick_beta\<bar> \<le> (2 ^ Suc i - 1) / 2 ^ 89"
  using assms
proof (induction i)
  case 0
  define m where "m = TICK_MULTIPLIERS ! 0"
  have pos: "0 < multiplier 0" using multiplier_pos by simp
  have "real_of_int (\<bar>int m * int m * 10001 - 2 ^ 256 * 10000\<bar> * 2 ^ 90) \<le> real_of_int (2 ^ 256 * 10000)"
    using multiplier_first unfolding m_def of_int_le_iff .
  then have "\<bar>real m * real m * 10001 - 2 ^ 256 * 10000\<bar> * 2 ^ 90 \<le> 2 ^ 256 * 10000" by simp
  then have "\<bar>multiplier 0 * multiplier 0 * (10001 / 10000) - 1\<bar> \<le> 1 / 2 ^ 90"
    by (simp add: multiplier_def m_def [symmetric] abs_le_iff field_simps)
  then have "\<bar>ln (multiplier 0 * multiplier 0 * (10001 / 10000))\<bar> \<le> 2 * (1 / 2 ^ 90)"
    by (rule ln_near_one) simp
  moreover have "ln (multiplier 0 * multiplier 0 * (10001 / 10000)) = 2 * ln (multiplier 0) + ln (10001 / 10000)"
  proof -
    have "ln (multiplier 0 * multiplier 0 * (10001 / 10000)) = ln (multiplier 0 * multiplier 0) + ln (10001 / 10000)"
      using pos by (intro ln_mult_pos) simp_all
    then show ?thesis using pos by (simp add: ln_mult)
  qed
  ultimately have "\<bar>2 * ln (multiplier 0) + ln (10001 / 10000)\<bar> \<le> 1 / 2 ^ 89" by simp
  then have "\<bar>2 * ln (multiplier 0) + 2 * tick_beta\<bar> \<le> 1 / 2 ^ 89" by (simp add: tick_beta_def)
  moreover have "2 ^ 0 * tick_beta = tick_beta" "(2 ^ Suc 0 - 1) / 2 ^ 89 = (1 / 2 ^ 89 :: real)" by simp_all
  ultimately show ?case by linarith
next
  case (Suc i)
  have "\<bar>ln (multiplier (Suc i)) - 2 * ln (multiplier i)\<bar> \<le> 1 / 2 ^ 89"
    using Suc.prems by (intro multiplier_next) simp
  moreover have "\<bar>ln (multiplier i) + 2 ^ i * tick_beta\<bar> \<le> (2 ^ Suc i - 1) / 2 ^ 89" using Suc by simp
  moreover have "2 ^ Suc i * tick_beta = 2 * (2 ^ i * tick_beta)" by simp
  moreover have "(2 ^ Suc (Suc i) - 1) / 2 ^ 89 = 2 * ((2 ^ Suc i - 1) / 2 ^ 89) + (1 / 2 ^ 89 :: real)"
    by (simp add: field_simps)
  ultimately show ?case by linarith
qed

section \<open>The exact product\<close>

definition factor :: "nat \<Rightarrow> nat \<Rightarrow> real" where
  "factor t i = (if bit t i then multiplier i else 1)"

definition ratio_exact :: "nat \<Rightarrow> real" where
  "ratio_exact t = 2 ^ 128 * (\<Prod>i<20. factor t i)"

lemma factor_bounds: "i < 20 \<Longrightarrow> 0 < factor t i" "i < 20 \<Longrightarrow> factor t i \<le> 1"
  using multiplier_pos by (auto simp: factor_def)

text \<open>The twenty truncating multiplications lose less than one unit each.\<close>

definition ratio_upto :: "nat \<Rightarrow> nat \<Rightarrow> nat" where
  "ratio_upto t n = fold (\<lambda>(i, m) r. if bit t i then r * m div 2 ^ 128 else r)
      (take n (enumerate 0 TICK_MULTIPLIERS)) (2 ^ 128)"

lemma ratio_prefix:
  assumes "n \<le> 20"
  shows "real (ratio_upto t n) \<le> 2 ^ 128 * (\<Prod>i<n. factor t i)
    \<and> 2 ^ 128 * (\<Prod>i<n. factor t i) - real n \<le> real (ratio_upto t n)"
  using assms unfolding ratio_upto_def
proof (induction n)
  case (Suc n)
  let ?f = "\<lambda>(i, m) r. if bit t i then r * m div 2 ^ 128 else (r :: nat)"
  let ?R = "fold ?f (take n (enumerate 0 TICK_MULTIPLIERS)) (2 ^ 128)"
  let ?m = "TICK_MULTIPLIERS ! n" and ?E = "2 ^ 128 * (\<Prod>i<n. factor t i)"
  have n: "n < 20" using Suc.prems by simp
  have len: "length TICK_MULTIPLIERS = 20" by (simp add: TICK_MULTIPLIERS_def)
  have "take (Suc n) (enumerate 0 TICK_MULTIPLIERS) = take n (enumerate 0 TICK_MULTIPLIERS) @ [(n, ?m)]"
    using n len by (subst take_Suc_conv_app_nth) (simp_all add: nth_enumerate_eq)
  then have step: "fold ?f (take (Suc n) (enumerate 0 TICK_MULTIPLIERS)) (2 ^ 128)
      = (if bit t n then ?R * ?m div 2 ^ 128 else ?R)" by simp
  have IH: "real ?R \<le> ?E" "?E - real n \<le> real ?R" using Suc.IH n by simp_all
  show ?case
  proof (cases "bit t n")
    case False
    then show ?thesis using IH step by (simp add: factor_def)
  next
    case True
    have q: "0 < multiplier n" "multiplier n \<le> 1" using multiplier_pos n by simp_all
    have d: "real (?R * ?m div 2 ^ 128) \<le> real ?R * multiplier n"
      "real ?R * multiplier n - 1 \<le> real (?R * ?m div 2 ^ 128)"
    proof -
      have e: "real (?R * ?m) / real (2 ^ 128) = real ?R * multiplier n" by (simp add: multiplier_def)
      show "real (?R * ?m div 2 ^ 128) \<le> real ?R * multiplier n"
        using of_nat_div_le_of_nat [where ?'a = real, of "?R * ?m" "2 ^ 128"] unfolding e .
      show "real ?R * multiplier n - 1 \<le> real (?R * ?m div 2 ^ 128)"
      proof -
        have "?R * ?m < (?R * ?m div 2 ^ 128 + 1) * 2 ^ 128"
          using div_mult_mod_eq [of "?R * ?m" "2 ^ 128"] by (simp add: distrib_right)
        then have "real (?R * ?m) < real ((?R * ?m div 2 ^ 128 + 1) * 2 ^ 128)" by (simp only: of_nat_less_iff)
        then show ?thesis unfolding e [symmetric] by simp
      qed
    qed
    have "real ?R * multiplier n \<le> ?E * multiplier n" using IH(1) q by (intro mult_right_mono) simp_all
    moreover have "(?E - real n) * multiplier n \<le> real ?R * multiplier n" using IH(2) q by (intro mult_right_mono) simp_all
    moreover have "real n * multiplier n \<le> real n" using q by (simp add: mult_left_le)
    ultimately have "real ?R * multiplier n \<le> ?E * multiplier n" "?E * multiplier n - real n \<le> real ?R * multiplier n"
      by (simp_all add: left_diff_distrib)
    then show ?thesis unfolding step using True d by (simp add: factor_def mult.assoc)
  qed
qed simp

lemma ratio_nat_exact: "real (ratio_nat t) \<le> ratio_exact t" "ratio_exact t - 20 \<le> real (ratio_nat t)"
proof -
  have "take 20 (enumerate 0 TICK_MULTIPLIERS) = enumerate 0 TICK_MULTIPLIERS" by (simp add: TICK_MULTIPLIERS_def)
  then show "real (ratio_nat t) \<le> ratio_exact t" "ratio_exact t - 20 \<le> real (ratio_nat t)"
    using ratio_prefix [of 20 t] by (simp_all add: ratio_nat_def ratio_exact_def ratio_upto_def)
qed

lemma ratio_exact_pos: "0 < ratio_exact t"
  unfolding ratio_exact_def using factor_bounds by (intro mult_pos_pos prod_pos) simp_all

lemma bit_sum:
  assumes "t < 2 ^ 20"
  shows "real t = (\<Sum>i<20. of_bool (bit t i) * 2 ^ i)"
proof -
  have "take_bit 20 t = (\<Sum>i = 0..<20. push_bit i (of_bool (bit t i)))" by (rule take_bit_sum)
  then have "t = (\<Sum>i<20. of_bool (bit t i) * 2 ^ i)"
    using assms by (simp add: take_bit_nat_eq_self push_bit_eq_mult lessThan_atLeast0)
  then have "real t = real (\<Sum>i<20. of_bool (bit t i) * 2 ^ i)" by presburger
  then show ?thesis by simp
qed

lemma ratio_exact_ln:
  assumes "t < 2 ^ 20"
  shows "\<bar>ln (ratio_exact t) - 128 * ln 2 + real t * tick_beta\<bar> \<le> 1 / 2 ^ 68"
proof -
  have pos: "0 < (\<Prod>i<20. factor t i)" using factor_bounds by (intro prod_pos) simp
  have "ln (ratio_exact t) = ln (2 ^ 128) + ln (\<Prod>i<20. factor t i)"
    unfolding ratio_exact_def using pos by (intro ln_mult_pos) simp_all
  moreover have "ln (\<Prod>i<20. factor t i) = (\<Sum>i<20. ln (factor t i))"
    using factor_bounds(1) [of _ t] by (intro ln_prod) (auto simp: less_le)
  moreover have "ln ((2::real) ^ 128) = 128 * ln 2" using ln_realpow [of 2 128] by (simp only: of_nat_numeral)
  moreover have "real t * tick_beta = (\<Sum>i<20. of_bool (bit t i) * 2 ^ i * tick_beta)"
    unfolding bit_sum [OF assms] by (simp only: sum_distrib_right)
  ultimately have "ln (ratio_exact t) - 128 * ln 2 + real t * tick_beta
      = (\<Sum>i<20. ln (factor t i) + of_bool (bit t i) * 2 ^ i * tick_beta)"
    by (simp add: sum.distrib)
  also have "\<bar>\<dots>\<bar> \<le> (\<Sum>i<20. of_bool (bit t i) * 2 ^ i / 2 ^ 88)"
  proof (rule order_trans [OF sum_abs], rule sum_mono)
    fix i assume "i \<in> {..<20 :: nat}"
    then have i: "i < 20" by simp
    have "(2 ^ Suc i - 1) / 2 ^ 89 \<le> (2 ^ i / 2 ^ 88 :: real)" by (simp add: field_simps)
    then have "\<bar>ln (multiplier i) + 2 ^ i * tick_beta\<bar> \<le> 2 ^ i / 2 ^ 88"
      using multiplier_ln [OF i] by linarith
    then show "\<bar>ln (factor t i) + of_bool (bit t i) * 2 ^ i * tick_beta\<bar> \<le> of_bool (bit t i) * 2 ^ i / 2 ^ 88"
      by (simp add: factor_def)
  qed
  also have "\<dots> = real t / 2 ^ 88" unfolding bit_sum [OF assms] by (simp only: sum_divide_distrib)
  also have "\<dots> \<le> 1 / 2 ^ 68"
  proof -
    have "real t \<le> 2 ^ 20" using assms by (metis less_imp_le of_nat_le_iff of_nat_numeral of_nat_power)
    then show ?thesis by (simp add: field_simps)
  qed
  finally show ?thesis .
qed


section \<open>The price of a tick\<close>

text \<open>The logarithm of the ideal price \<open>2^96 * 1.0001^(tick/2)\<close>.\<close>

definition ln_price :: "int \<Rightarrow> real" where
  "ln_price tick = 96 * ln 2 + real_of_int tick * tick_beta"

lemma ln_gap:
  fixes a b d :: real
  assumes "0 < a" "a \<le> b" "b \<le> a + d"
  shows "ln a \<le> ln b" "ln b \<le> ln a + d / a"
proof -
  show "ln a \<le> ln b" using assms by simp
  have "b / a \<le> 1 + d / a" using assms(1,3) by (simp add: field_simps)
  have "ln b = ln a + ln (b / a)" using assms by (simp add: ln_div)
  also have "ln (b / a) \<le> b / a - 1" using assms by (intro ln_le_minus_one) simp
  finally show "ln b \<le> ln a + d / a" using \<open>b / a \<le> 1 + d / a\<close> by linarith
qed

lemma ratio_exact_antimono:
  assumes "s \<le> t" "t < 2 ^ 20"
  shows "ratio_exact t \<le> ratio_exact s"
proof (cases "s = t")
  case False
  then have "real s + 1 \<le> real t" using assms(1) by linarith
  then have "(real s + 1) * tick_beta \<le> real t * tick_beta"
    using tick_beta_bounds(1) by (intro mult_right_mono) simp_all
  moreover have "2 / 2 ^ 68 \<le> tick_beta" using tick_beta_bounds(1) by simp
  ultimately have "ln (ratio_exact t) \<le> ln (ratio_exact s)"
    using ratio_exact_ln [of t] ratio_exact_ln [of s] assms unfolding distrib_right by linarith
  then show ?thesis using ratio_exact_pos by simp
qed simp

lemma ratio_nat_last: "ratio_nat 887272 = 18447437462383981825"
  by (simp add: ratio_nat_def TICK_MULTIPLIERS_def bit_numeral_rec bit_1_iff del: One_nat_def)

lemma ratio_nat_ge:
  assumes "t \<le> 887272"
  shows "2 ^ 64 \<le> ratio_nat t"
proof -
  have "real 18447437462383981825 \<le> ratio_exact 887272"
    using ratio_nat_exact(1) [of 887272] unfolding ratio_nat_last .
  also have "\<dots> \<le> ratio_exact t" using assms by (intro ratio_exact_antimono) simp_all
  finally have "real (2 ^ 64) \<le> real (ratio_nat t)" using ratio_nat_exact(2) [of t] by simp
  then show ?thesis by (simp only: of_nat_le_iff)
qed

lemma ratio_nat_ln:
  assumes "t \<le> 887272"
  shows "\<bar>ln (real (ratio_nat t)) - 128 * ln 2 + real t * tick_beta\<bar> \<le> 1 / 2 ^ 68 + 20 / 2 ^ 64"
proof -
  let ?r = "real (ratio_nat t)"
  have ge: "2 ^ 64 \<le> ?r" by (rule real_power_le [OF ratio_nat_ge [OF assms]])
  have lt: "t < 2 ^ 20" using assms by simp
  have "ln ?r \<le> ln (ratio_exact t)" "ln (ratio_exact t) \<le> ln ?r + 20 / ?r"
    using ln_gap [of ?r "ratio_exact t" 20] ge ratio_nat_exact [of t] by simp_all
  moreover have "20 / ?r \<le> 20 / 2 ^ 64" using ge by (intro divide_left_mono) simp_all
  ultimately show ?thesis using ratio_exact_ln [of t] lt by linarith
qed

lemma sqrt_price_accuracy:
  assumes "MIN_TICK \<le> tick" "tick \<le> MAX_TICK"
  shows "\<bar>ln (real (sqrt_price_nat tick)) - ln_price tick\<bar> \<le> 1 / 2 ^ 31"
proof -
  let ?n = "nat \<bar>tick\<bar>"
  let ?r = "ratio_nat ?n"
  define Q where "Q = (if tick > 0 then (2 ^ 256 - 1) div ?r else ?r)"
  have n: "?n \<le> 887272" using assms by (simp add: MIN_TICK_def MAX_TICK_def)
  have ge: "2 ^ 64 \<le> ?r" "?r \<le> 2 ^ 128" using ratio_nat_ge [OF n] ratio_nat_bounds by simp_all
  have rge: "2 ^ 64 \<le> real ?r" by (rule real_power_le [OF ge(1)])
  note ratio = ratio_nat_ln [OF n]
  have Q: "2 ^ 64 \<le> Q" "\<bar>ln (real Q) - 128 * ln 2 - real_of_int tick * tick_beta\<bar> \<le> 1 / 2 ^ 68 + 21 / 2 ^ 64"
  proof -
    show Q64: "2 ^ 64 \<le> Q"
    proof (cases "tick > 0")
      case True
      have "(2 ^ 256 - 1) div 2 ^ 128 \<le> (2 ^ 256 - 1) div ?r" using ge by (intro div_le_mono2) simp_all
      then show ?thesis using True by (simp add: Q_def)
    qed (use ge in \<open>simp add: Q_def\<close>)
    show "\<bar>ln (real Q) - 128 * ln 2 - real_of_int tick * tick_beta\<bar> \<le> 1 / 2 ^ 68 + 21 / 2 ^ 64"
    proof (cases "tick > 0")
      case False
      then have "real ?n * tick_beta = - (real_of_int tick * tick_beta)" "Q = ?r" by (simp_all add: Q_def)
      with ratio show ?thesis by simp
    next
      case True
      have Qd: "Q = (2 ^ 256 - 1) div ?r" using True by (simp add: Q_def)
      have "Q * ?r \<le> 2 ^ 256 - 1" unfolding Qd by (rule div_times_less_eq_dividend)
      moreover have "2 ^ 256 - 1 < ?r + Q * ?r" unfolding Qd by (rule dividend_less_div_times) (use ge in simp)
      then have "2 ^ 256 - 1 < (Q + 1) * ?r" by (simp only: distrib_right mult_1_left add.commute)
      ultimately have "Q * ?r \<le> 2 ^ 256" "2 ^ 256 \<le> (Q + 1) * ?r" by linarith+
      then have "real (Q * ?r) \<le> real (2 ^ 256)" "real (2 ^ 256) \<le> real ((Q + 1) * ?r)" by (simp_all only: of_nat_le_iff)
      then have q: "real Q * real ?r \<le> 2 ^ 256" "2 ^ 256 \<le> real Q * real ?r + real ?r" by (simp_all add: distrib_right)
      have pos: "0 < real Q" using Q64 by simp
      have "real Q \<le> 2 ^ 256 / real ?r" "2 ^ 256 / real ?r \<le> real Q + 1"
        using q rge by (simp_all add: field_simps)
      then have "ln (real Q) \<le> ln (2 ^ 256 / real ?r)" "ln (2 ^ 256 / real ?r) \<le> ln (real Q) + 1 / real Q"
        using ln_gap [of "real Q" "2 ^ 256 / real ?r" 1] pos by simp_all
      moreover have "ln (2 ^ 256 / real ?r) = 256 * ln 2 - ln (real ?r)"
        using rge ln_realpow [of 2 256] by (simp only: ln_divide_pos of_nat_numeral zero_less_power zero_less_numeral)
          (simp add: ln_div)
      moreover have "1 / real Q \<le> 1 / 2 ^ 64"
        using real_power_le [OF Q64] by (intro divide_left_mono) simp_all
      moreover have "real ?n * tick_beta = real_of_int tick * tick_beta" using True by simp
      ultimately show ?thesis using ratio by linarith
    qed
  qed
  let ?S = "sqrt_price_nat tick"
  have S: "?S = ceil_div Q (2 ^ 32)" by (simp add: sqrt_price_nat_def Q_def Let_def)
  have "Q \<le> ?S * 2 ^ 32" "?S * 2 ^ 32 \<le> Q + 2 ^ 32"
    unfolding S using ceil_div_ge [of "2 ^ 32" Q] by (simp_all add: ceil_div_def)
  then have "real Q \<le> real (?S * 2 ^ 32)" "real (?S * 2 ^ 32) \<le> real (Q + 2 ^ 32)" by (simp_all only: of_nat_le_iff)
  then have "ln (real Q) \<le> ln (real ?S * 2 ^ 32)" "ln (real ?S * 2 ^ 32) \<le> ln (real Q) + 2 ^ 32 / real Q"
    using ln_gap [of "real Q" "real ?S * 2 ^ 32" "2 ^ 32"] Q(1) by simp_all
  moreover have "ln (real ?S * 2 ^ 32) = ln (real ?S) + 32 * ln 2"
  proof -
    have "0 < real ?S" using sqrt_price_nat_bounds(1) [of tick] by simp
    then have "ln (real ?S * 2 ^ 32) = ln (real ?S) + ln (2 ^ 32)" by (intro ln_mult_pos) simp_all
    then show ?thesis using ln_realpow [of 2 32] by (simp only: of_nat_numeral)
  qed
  moreover have "2 ^ 32 / real Q \<le> 2 ^ 32 / 2 ^ 64" "2 ^ 32 / 2 ^ 64 + 1 / 2 ^ 68 + 21 / 2 ^ 64 \<le> (1 / 2 ^ 31 :: real)"
    using real_power_le [OF Q(1)] by (intro divide_left_mono) simp_all
  ultimately have "ln (real ?S) - (96 * ln 2 + real_of_int tick * tick_beta) \<le> 1 / 2 ^ 31"
    "- (1 / 2 ^ 31) \<le> ln (real ?S) - (96 * ln 2 + real_of_int tick * tick_beta)"
    using abs_le_D1 [OF Q(2)] abs_le_D2 [OF Q(2)] by linarith+
  then show ?thesis unfolding ln_price_def by linarith
qed

lemma sqrt_price_less:
  assumes "MIN_TICK \<le> s" "s < t" "t \<le> MAX_TICK"
  shows "sqrt_price_nat s < sqrt_price_nat t"
proof -
  have "real_of_int s + 1 \<le> real_of_int t" using assms(2) by linarith
  then have "(real_of_int s + 1) * tick_beta \<le> real_of_int t * tick_beta"
    using tick_beta_bounds(1) by (intro mult_right_mono) simp_all
  moreover have "2 / 2 ^ 31 < tick_beta" using tick_beta_bounds(1) by simp
  ultimately have "ln (real (sqrt_price_nat s)) < ln (real (sqrt_price_nat t))"
    using sqrt_price_accuracy [of s] sqrt_price_accuracy [of t] assms
    unfolding ln_price_def distrib_right by linarith
  moreover have "0 < real (sqrt_price_nat s)" "0 < real (sqrt_price_nat t)"
    using sqrt_price_nat_bounds(1) [of s] sqrt_price_nat_bounds(1) [of t] by simp_all
  ultimately show ?thesis by simp
qed

lemma sqrt_price_limits:
  "sqrt_price_nat MIN_TICK = MIN_SQRT_RATIO" "sqrt_price_nat MAX_TICK = val MAX_SQRT_RATIO"
  by (simp_all add: sqrt_price_nat_def MIN_TICK_def MAX_TICK_def ratio_nat_last ceil_div_def
      MIN_SQRT_RATIO_def MAX_SQRT_RATIO_def)

end
