(* ===== verification/Tick_Log.thy ===== *)
theory Tick_Log
  imports Tick_Price
begin

text \<open>
  Why \<open>tick_at_sqrt_ratio\<close> is right: the fourteen squarings bracket the binary logarithm of the
  price to \<open>2^-14\<close>, the multiplication by \<open>LOG_SQRT10001\<close> turns it into ticks, and the two error
  constants are larger than every error made on the way, so that the true tick is one of the two
  candidates. Together with the accuracy of \<open>sqrt_ratio_at_tick\<close>: the result is the last tick whose
  price does not exceed the given one.
\<close>

section \<open>Normalisation\<close>

lemma or_disjoint_nat:
  fixes a b :: nat
  assumes "2 ^ k dvd a" "b < 2 ^ k"
  shows "a OR b = a + b"
proof -
  have "\<not> (bit a i \<and> bit b i)" for i
  proof
    assume i: "bit a i \<and> bit b i"
    have "take_bit k b = b" using assms(2) by (rule take_bit_nat_eq_self)
    then have "i < k" using i by (metis bit_take_bit_iff)
    moreover obtain c where "a = 2 ^ k * c" using assms(1) by (rule dvdE)
    then have "a = push_bit k c" by (simp add: push_bit_eq_mult mult.commute)
    ultimately show False using i by (simp add: bit_push_bit_iff)
  qed
  then show ?thesis by (intro disjunctive_add_eq_or [symmetric]) (auto simp: bit_eq_iff bit_and_iff)
qed

lemma highest_bit:
  assumes "0 < x" "x < 2 ^ 128"
  shows "2 ^ (127 - u128_leading_zeros x) \<le> x" "x < 2 ^ Suc (127 - u128_leading_zeros x)"
proof -
  let ?b = "nat_bits x"
  have b: "x < 2 ^ ?b" "2 ^ (?b - 1) \<le> x" using nat_bits_bounds assms(1) by simp_all
  have pos: "0 < ?b" using b(1) assms(1) by (cases ?b) simp_all
  have "(2::nat) ^ (?b - 1) < 2 ^ 128" using b(2) assms(2) by linarith
  then have "?b - 1 < 128" by (rule power_less_imp_less_exp [rotated]) simp
  then have "127 - u128_leading_zeros x = ?b - 1" using pos by (simp add: u128_leading_zeros_def)
  then show "2 ^ (127 - u128_leading_zeros x) \<le> x" "x < 2 ^ Suc (127 - u128_leading_zeros x)"
    using b pos by simp_all
qed

lemma ratio_msb_bounds:
  assumes "0 < R" "R < 2 ^ 256"
  defines "msb \<equiv> ratio_msb (R div 2 ^ 128) (R mod 2 ^ 128)"
  shows "2 ^ msb \<le> R" "R < 2 ^ Suc msb" "msb < 256"
proof -
  let ?hi = "R div 2 ^ 128" and ?lo = "R mod 2 ^ 128"
  have R: "R = ?hi * 2 ^ 128 + ?lo" by simp
  have hi: "?hi < 2 ^ 128" using assms(2) by (intro less_mult_imp_div_less) simp
  have "2 ^ msb \<le> R \<and> R < 2 ^ Suc msb"
  proof (cases "0 < ?hi")
    case True
    let ?e = "127 - u128_leading_zeros ?hi"
    have e: "2 ^ ?e \<le> ?hi" "?hi + 1 \<le> 2 ^ Suc ?e" using highest_bit [OF True hi] by simp_all
    have m: "msb = 128 + ?e" using True by (simp add: msb_def ratio_msb_def)
    have "2 ^ ?e * 2 ^ 128 \<le> ?hi * 2 ^ 128" "(?hi + 1) * 2 ^ 128 \<le> 2 ^ Suc ?e * 2 ^ 128"
      using e by (intro mult_right_mono; simp)+
    moreover have "?hi * 2 ^ 128 \<le> R" by (rule div_times_less_eq_dividend)
    moreover have "R < (?hi + 1) * 2 ^ 128" using dividend_less_div_times [of "2 ^ 128" R]
      by (simp only: distrib_right mult_1_left add.commute zero_less_power zero_less_numeral)
    moreover have p: "(2::nat) ^ (128 + ?e) = 2 ^ ?e * 2 ^ 128" "(2::nat) ^ Suc (128 + ?e) = 2 ^ Suc ?e * 2 ^ 128"
      by (simp_all only: power_add power_Suc ac_simps)
    ultimately show ?thesis unfolding m p by (blast intro: le_trans less_le_trans)
  next
    case False
    then have lo: "?lo = R" "0 < ?lo" "?lo < 2 ^ 128" using assms(1) R by simp_all
    show ?thesis using highest_bit [OF lo(2,3)] False lo(1) by (simp add: msb_def ratio_msb_def)
  qed
  then show b: "2 ^ msb \<le> R" "R < 2 ^ Suc msb" by simp_all
  have "(2::nat) ^ msb < 2 ^ 256" using b(1) assms(2) by linarith
  then show "msb < 256" by (rule power_less_imp_less_exp [rotated]) simp
qed

lemma ratio_mantissa_eq:
  assumes "2 ^ msb \<le> R" "R < 2 ^ Suc msb" "msb < 256"
  shows "ratio_mantissa (R div 2 ^ 128) (R mod 2 ^ 128) msb = R * 2 ^ 127 div 2 ^ msb"
proof (cases "128 \<le> msb")
  case True
  define s where "s = msb - 127"
  have s: "msb = 127 + s" "0 < s" "s \<le> 128" using True assms(3) by (simp_all add: s_def)
  let ?hi = "R div 2 ^ 128" and ?lo = "R mod 2 ^ 128"
  have "?hi < 2 ^ s"
  proof (rule less_mult_imp_div_less)
    have "(2::nat) ^ Suc msb = 2 ^ s * 2 ^ 128" unfolding s(1) by (simp add: power_add)
    then show "R < 2 ^ s * 2 ^ 128" using assms(2) by simp
  qed
  then have "?hi * 2 ^ (128 - s) < 2 ^ s * 2 ^ (128 - s)" by (intro mult_strict_right_mono) simp_all
  also have "\<dots> = 2 ^ 128" using s(3) by (simp flip: power_add)
  finally have hi: "u128_shl ?hi (128 - s) = ?hi * 2 ^ (128 - s)"
    by (simp add: u128_shl_def push_bit_eq_mult take_bit_nat_eq_self mult.commute)
  have split: "(2::nat) ^ 128 = 2 ^ (128 - s) * 2 ^ s" using s(3) by (simp flip: power_add)
  have "?lo div 2 ^ s < 2 ^ (128 - s)"
    by (rule less_mult_imp_div_less) (use split in \<open>simp del: power_add flip: split\<close>)
  then have "?hi * 2 ^ (128 - s) OR ?lo div 2 ^ s = ?hi * 2 ^ (128 - s) + ?lo div 2 ^ s"
    by (rule or_disjoint_nat [rotated]) simp
  then have "ratio_mantissa ?hi ?lo msb = ?hi * 2 ^ (128 - s) + ?lo div 2 ^ s"
    using True unfolding ratio_mantissa_def Let_def s_def [symmetric] hi drop_bit_eq_div by (simp only: if_True)
  also have "\<dots> = (?hi * 2 ^ (128 - s) * 2 ^ s + ?lo) div 2 ^ s" by (rule div_mult_self3 [symmetric]) simp
  also have "?hi * 2 ^ (128 - s) * 2 ^ s + ?lo = R" by (simp only: mult.assoc split [symmetric] div_mult_mod_eq)
  also have "R div 2 ^ s = R * 2 ^ 127 div 2 ^ msb" unfolding s(1) by (simp add: power_add mult.commute)
  finally show ?thesis .
next
  case False
  have "R < 2 ^ 128" using assms(2) False power_increasing [of "Suc msb" 128 "2::nat"] by linarith
  moreover have "R * 2 ^ (127 - msb) < 2 ^ 128"
  proof -
    have "R * 2 ^ (127 - msb) < 2 ^ Suc msb * 2 ^ (127 - msb)" using assms(2) by (intro mult_strict_right_mono) simp_all
    also have "\<dots> = 2 ^ (Suc msb + (127 - msb))" by (simp only: power_add)
    also have "Suc msb + (127 - msb) = 128" using False by simp
    finally show ?thesis .
  qed
  moreover have "R * 2 ^ 127 div 2 ^ msb = R * 2 ^ (127 - msb)"
  proof -
    have "(2::nat) ^ 127 = 2 ^ (127 - msb) * 2 ^ msb" using False by (simp flip: power_add)
    then have e: "R * 2 ^ 127 = R * 2 ^ (127 - msb) * 2 ^ msb" by (simp only: mult.assoc)
    show ?thesis unfolding e by (rule nonzero_mult_div_cancel_right) simp
  qed
  ultimately show ?thesis using False
    by (simp add: ratio_mantissa_def u128_shl_def push_bit_eq_mult take_bit_nat_eq_self)
qed

section \<open>The squarings\<close>

text \<open>One round on numbers: the square of the mantissa, brought back to 128 bits.\<close>

lemma log2_step_eq:
  assumes "2 ^ 127 \<le> r" "r < 2 ^ 128"
  defines "f \<equiv> (if r * r < 2 ^ 255 then 0 else 1 :: nat)"
  shows "log2_step k (l, r) = (l OR push_bit k (int f), r * r div 2 ^ (127 + f))"
    and "2 ^ 127 \<le> r * r div 2 ^ (127 + f)" "r * r div 2 ^ (127 + f) < 2 ^ 128"
proof -
  obtain hi lo where w: "widening_mul_u128 r r = (hi, lo)" by fastforce
  have r: "r \<le> u128_max" using assms(2) by (simp add: u128_max_def)
  have v: "hi * 2 ^ 128 + lo = r * r" "lo < 2 ^ 128"
    using widening_mul_exact [OF r r w] by (simp_all add: u128_max_def)
  have sq: "2 ^ 127 * 2 ^ 127 \<le> r * r" "r * r < 2 ^ 128 * 2 ^ 128"
    using assms(1,2) by (intro mult_mono mult_strict_mono; simp)+
  have hi: "hi = r * r div 2 ^ 128" and lo: "lo = r * r mod 2 ^ 128"
    using v(2) unfolding v(1) [symmetric] by simp_all
  show "2 ^ 127 \<le> r * r div 2 ^ (127 + f)"
    using sq by (subst less_eq_div_iff_mult_less_eq) (auto simp: f_def)
  show "r * r div 2 ^ (127 + f) < 2 ^ 128"
    using sq by (intro less_mult_imp_div_less) (auto simp: f_def)
  have top: "drop_bit 127 hi = f"
  proof -
    have "drop_bit 127 hi = r * r div 2 ^ 255" unfolding hi drop_bit_eq_div by (simp add: div_mult2_eq [symmetric])
    moreover have "r * r div 2 ^ 255 = f"
    proof (cases "r * r < 2 ^ 255")
      case False
      then have "r * r div 2 ^ 255 = 1" using sq by (intro div_nat_eqI) simp_all
      then show ?thesis using False by (simp add: f_def)
    qed (simp add: f_def)
    ultimately show ?thesis by simp
  qed
  have mantissa: "(if f = 0 then u128_shl hi 1 OR drop_bit 127 lo else hi) = r * r div 2 ^ (127 + f)"
  proof (cases "f = 0")
    case True
    then have "hi < 2 ^ 127" using top by (simp add: drop_bit_eq_div div_eq_0_iff)
    then have sh: "u128_shl hi 1 = hi * 2 ^ 1"
      by (simp add: u128_shl_def push_bit_eq_mult take_bit_nat_eq_self)
    have "lo div 2 ^ 127 < 2 ^ 1" using v(2) by (intro less_mult_imp_div_less) simp
    then have "u128_shl hi 1 OR drop_bit 127 lo = hi * 2 ^ 1 + lo div 2 ^ 127"
      unfolding sh drop_bit_eq_div by (intro or_disjoint_nat [where k = 1]) simp_all
    also have "\<dots> = (hi * 2 ^ 1 * 2 ^ 127 + lo) div 2 ^ 127" by (rule div_mult_self3 [symmetric]) simp
    also have "hi * 2 ^ 1 * 2 ^ 127 + lo = r * r" unfolding v(1) [symmetric] by simp
    finally show ?thesis using True by simp
  next
    case False
    then have "f = 1" by (simp add: f_def split: if_splits)
    then show ?thesis by (simp add: hi)
  qed
  show "log2_step k (l, r) = (l OR push_bit k (int f), r * r div 2 ^ (127 + f))"
    unfolding log2_step_def prod.case w Let_def top mantissa ..
qed

lemma or_bit_int:
  assumes "2 ^ Suc k dvd l" "f \<le> 1"
  shows "l OR push_bit k (int f) = l + int f * 2 ^ k"
proof -
  obtain c where "l = 2 ^ Suc k * c" using assms(1) by (rule dvdE)
  then have l: "l = push_bit (Suc k) c" by (simp add: push_bit_eq_mult mult.commute)
  have "\<not> (bit l i \<and> bit (push_bit k (int f)) i)" for i
    using assms(2) by (cases "i = k") (auto simp: l bit_simps le_Suc_eq bit_1_iff bit_0)
  then have "l OR push_bit k (int f) = l + push_bit k (int f)"
    by (intro disjunctive_add_eq_or [symmetric]) (auto simp: bit_eq_iff bit_and_iff)
  then show ?thesis by (simp add: push_bit_eq_mult)
qed

section \<open>The binary logarithm\<close>

text \<open>What remains of the logarithm \<open>lam\<close> before the bits below \<open>k\<close> are known.\<close>

definition mantissa_ln :: "nat \<Rightarrow> real" where
  "mantissa_ln r = ln (real r) - 127 * ln 2"

definition log2_gap :: "real \<Rightarrow> nat \<Rightarrow> int \<times> nat \<Rightarrow> real" where
  "log2_gap lam k = (\<lambda>(l, r). lam - real_of_int l * ln 2 / 2 ^ 64 - 2 ^ k / 2 ^ 64 * mantissa_ln r)"

definition log2_inv :: "real \<Rightarrow> nat \<Rightarrow> int \<times> nat \<Rightarrow> bool" where
  "log2_inv lam k st \<longleftrightarrow> 2 ^ k dvd fst st \<and> 2 ^ 127 \<le> snd st \<and> snd st < 2 ^ 128
     \<and> 0 \<le> log2_gap lam k st \<and> log2_gap lam k st \<le> (65 - real k) / 2 ^ 126"

lemma mantissa_step:
  assumes "2 ^ 127 \<le> r" "2 ^ 127 \<le> r * r div 2 ^ (127 + f)"
  shows "mantissa_ln (r * r div 2 ^ (127 + f)) \<le> 2 * mantissa_ln r - real f * ln 2"
    and "2 * mantissa_ln r - real f * ln 2 \<le> mantissa_ln (r * r div 2 ^ (127 + f)) + 1 / 2 ^ 126"
proof -
  let ?n = "r * r div 2 ^ (127 + f)" and ?X = "real r * real r / 2 ^ (127 + f)"
  have r0: "0 < real r" using assms(1) by (metis of_nat_0_less_iff less_le_trans zero_less_numeral zero_less_power)
  have n: "2 ^ 127 \<le> real ?n" by (rule real_power_le [OF assms(2)])
  have le: "real ?n \<le> ?X"
    using of_nat_div_le_of_nat [where ?'a = real, of "r * r" "2 ^ (127 + f)"] by simp
  have "r * r < (?n + 1) * 2 ^ (127 + f)"
    using dividend_less_div_times [of "2 ^ (127 + f)" "r * r"] by (simp add: distrib_right)
  then have "real (r * r) < real ((?n + 1) * 2 ^ (127 + f))" by (simp only: of_nat_less_iff)
  then have "real r * real r < (real ?n + 1) * 2 ^ (127 + f)" by (simp only: of_nat_mult of_nat_add of_nat_1 of_nat_power of_nat_numeral)
  then have ge: "?X \<le> real ?n + 1" by (simp add: divide_le_eq)
  have "ln ?X = ln (real r * real r) - ln (2 ^ (127 + f))" using r0 by (intro ln_divide_pos) simp_all
  also have "ln (real r * real r) = ln (real r) + ln (real r)" using r0 by (intro ln_mult_pos)
  also have "ln ((2::real) ^ (127 + f)) = real (127 + f) * ln 2" by (rule ln_realpow)
  finally have X: "ln ?X = 2 * ln (real r) - 127 * ln 2 - real f * ln 2" by (simp add: distrib_right)
  have "0 < real ?n" using n by (rule less_le_trans [rotated]) simp
  note gap = ln_gap [OF this le ge, unfolded X]
  define a b where "a = ln (real ?n)" and "b = ln (real r)"
  have "1 / real ?n \<le> 1 / 2 ^ 127" using n by (intro divide_left_mono) simp_all
  also have "1 / 2 ^ 127 \<le> (1 / 2 ^ 126 :: real)" by simp
  finally have small: "1 / real ?n \<le> 1 / 2 ^ 126" .
  have "a - 127 * ln 2 \<le> 2 * (b - 127 * ln 2) - real f * ln 2"
    using gap(1) unfolding a_def [symmetric] b_def [symmetric] right_diff_distrib by linarith
  then show "mantissa_ln ?n \<le> 2 * mantissa_ln r - real f * ln 2"
    unfolding mantissa_ln_def a_def b_def .
  have "2 * (b - 127 * ln 2) - real f * ln 2 \<le> a - 127 * ln 2 + 1 / 2 ^ 126"
    using gap(2) small unfolding a_def [symmetric] b_def [symmetric] right_diff_distrib by linarith
  then show "2 * mantissa_ln r - real f * ln 2 \<le> mantissa_ln ?n + 1 / 2 ^ 126"
    unfolding mantissa_ln_def a_def b_def .
qed

lemma log2_inv_step:
  assumes "log2_inv lam (Suc k) st" "k < 64"
  shows "log2_inv lam k (log2_step k st)"
proof -
  obtain l r where st: "st = (l, r)" by fastforce
  have inv: "2 ^ Suc k dvd l" "2 ^ 127 \<le> r" "r < 2 ^ 128" "0 \<le> log2_gap lam (Suc k) (l, r)"
    "log2_gap lam (Suc k) (l, r) \<le> (65 - real (Suc k)) / 2 ^ 126"
    using assms(1) by (simp_all add: log2_inv_def st)
  define f :: nat where "f = (if r * r < 2 ^ 255 then 0 else 1)"
  let ?n = "r * r div 2 ^ (127 + f)"
  have step: "log2_step k (l, r) = (l OR push_bit k (int f), ?n)" "2 ^ 127 \<le> ?n" "?n < 2 ^ 128"
    using log2_step_eq [OF inv(2,3)] unfolding f_def by blast+
  have or_eq: "l OR push_bit k (int f) = l + int f * 2 ^ k" by (rule or_bit_int [OF inv(1)]) (simp add: f_def)
  define w :: real where "w = 2 ^ k / 2 ^ 64"
  define c :: real where "c = real_of_int l * ln 2 / 2 ^ 64"
  have w: "0 \<le> w" "w \<le> 1"
    unfolding w_def using power_increasing [of k 64 "2::real"] assms(2) by simp_all
  have g: "log2_gap lam (Suc k) (l, r) = lam - c - w * (2 * mantissa_ln r)"
    by (simp add: log2_gap_def w_def c_def)
  have "real_of_int (l + int f * 2 ^ k) * ln 2 / 2 ^ 64 = c + w * (real f * ln 2)"
    by (simp add: c_def w_def distrib_right add_divide_distrib)
  then have "log2_gap lam k (log2_step k (l, r)) = lam - (c + w * (real f * ln 2)) - w * mantissa_ln ?n"
    unfolding step(1) or_eq log2_gap_def prod.case w_def [symmetric] by (simp only:)
  then have g': "log2_gap lam k (log2_step k (l, r))
      = log2_gap lam (Suc k) (l, r) + w * (2 * mantissa_ln r - real f * ln 2 - mantissa_ln ?n)"
    unfolding g by (simp add: algebra_simps)
  note m = mantissa_step [OF inv(2) step(2)]
  have "0 \<le> w * (2 * mantissa_ln r - real f * ln 2 - mantissa_ln ?n)"
    using w(1) m(1) by (intro mult_nonneg_nonneg) linarith+
  moreover have "w * (2 * mantissa_ln r - real f * ln 2 - mantissa_ln ?n) \<le> 1 * (1 / 2 ^ 126)"
    using w m by (intro mult_mono) linarith+
  moreover have "(65 - real (Suc k)) / 2 ^ 126 + 1 * (1 / 2 ^ 126) = (65 - real k) / 2 ^ 126"
    by (simp add: add_divide_distrib [symmetric])
  ultimately have "0 \<le> log2_gap lam k (log2_step k (l, r))" "log2_gap lam k (log2_step k (l, r)) \<le> (65 - real k) / 2 ^ 126"
    unfolding g' using inv(4,5) by linarith+
  moreover have "2 ^ k dvd l + int f * 2 ^ k" using inv(1) by (auto intro: dvd_add elim: power_le_dvd)
  ultimately show ?thesis using step(2,3) unfolding st log2_inv_def step(1) or_eq by simp
qed

lemma log2_inv_fold:
  assumes "50 \<le> k" "k \<le> 64" "log2_inv lam k st"
  shows "log2_inv lam 50 (fold log2_step (rev [50..<k]) st)"
  using assms
proof (induction k arbitrary: st)
  case (Suc k)
  show ?case
  proof (cases "50 = Suc k")
    case True
    then show ?thesis using Suc.prems by simp
  next
    case False
    then have "rev [50..<Suc k] = k # rev [50..<k]" using Suc.prems(1) by simp
    then show ?thesis using Suc.IH [of "log2_step k st"] log2_inv_step [OF Suc.prems(3)] Suc.prems False by simp
  qed
qed simp


text \<open>The loop brackets the logarithm of the price to \<open>2^-14\<close>, from below.\<close>

lemma log2_q64_bounds:
  assumes "0 < val p" "val p < 2 ^ 160"
  defines "lam \<equiv> ln (real (val p)) - 96 * ln 2" and "l \<equiv> real_of_int (log2_q64 p) * ln 2 / 2 ^ 64"
  shows "l \<le> lam" "lam \<le> l + ln 2 / 2 ^ 14 + 15 / 2 ^ 126"
proof -
  define R where "R = val p * 2 ^ 32"
  define msb where "msb = ratio_msb (R div 2 ^ 128) (R mod 2 ^ 128)"
  have R: "0 < R" "R < 2 ^ 192" using assms(1,2) by (simp_all add: R_def)
  have ratio: "val (shl p 32) = R" using R(2) by (simp add: val_shl R_def)
  have hi: "val (shr (shl p 32) 128) = R div 2 ^ 128" by (simp only: val_shr ratio)
  have "R div 2 ^ 128 < 2 ^ 64" using R(2) by (intro less_mult_imp_div_less) simp
  then have to_hi: "to_u128 (shr (shl p 32) 128) = Some (R div 2 ^ 128)"
    unfolding to_u128_val hi by (simp add: u128_max_def)
  have back_val: "val (shl (shr (shl p 32) 128) 128) = R div 2 ^ 128 * 2 ^ 128"
  proof -
    have "R div 2 ^ 128 * 2 ^ 128 \<le> R" by (rule div_times_less_eq_dividend)
    also have "R < 2 ^ 256" using R(2) by simp
    finally show ?thesis unfolding val_shl hi by (rule mod_less)
  qed
  have "val (wrapping_sub (shl p 32) (shl (shr (shl p 32) 128) 128)) = R - R div 2 ^ 128 * 2 ^ 128"
    by (subst val_wrapping_sub) (simp_all only: ratio back_val div_times_less_eq_dividend)
  also have "\<dots> = R mod 2 ^ 128" by (rule minus_div_mult_eq_mod)
  finally have lo: "to_u128 (wrapping_sub (shl p 32) (shl (shr (shl p 32) 128) 128)) = Some (R mod 2 ^ 128)"
    unfolding to_u128_val using mod_less_divisor [of "2 ^ 128" R] by (simp add: u128_max_def)
  have "R < 2 ^ 256" using R(2) by simp
  note m = ratio_msb_bounds [OF R(1) this, folded msb_def]
  define r where "r = R * 2 ^ 127 div 2 ^ msb"
  define start where "start = push_bit 64 (int msb - 128)"
  have l: "log2_q64 p = fst (fold log2_step (rev [50..<64]) (start, r))"
    unfolding log2_q64_def Let_def to_hi lo option.case msb_def [symmetric] ratio_mantissa_eq [OF m]
      r_def [symmetric] start_def [symmetric] ..
  have r: "2 ^ 127 \<le> r" "r < 2 ^ 128"
  proof -
    have "2 ^ 127 * 2 ^ msb \<le> R * 2 ^ 127" using m(1) by simp
    then show "2 ^ 127 \<le> r" unfolding r_def by (subst less_eq_div_iff_mult_less_eq) simp_all
    have "R * 2 ^ 127 < 2 ^ Suc msb * 2 ^ 127" using m(2) by (rule mult_strict_right_mono) simp
    then show "r < 2 ^ 128" unfolding r_def by (intro less_mult_imp_div_less) (simp add: mult.commute)
  qed
  have X: "real r \<le> real R * 2 ^ 127 / 2 ^ msb" "real R * 2 ^ 127 / 2 ^ msb \<le> real r + 1"
  proof -
    show "real r \<le> real R * 2 ^ 127 / 2 ^ msb"
      unfolding r_def using of_nat_div_le_of_nat [where ?'a = real, of "R * 2 ^ 127" "2 ^ msb"] by simp
    have "R * 2 ^ 127 < (r + 1) * 2 ^ msb"
      unfolding r_def using dividend_less_div_times [of "2 ^ msb" "R * 2 ^ 127"] by (simp add: distrib_right)
    then have "real (R * 2 ^ 127) < real ((r + 1) * 2 ^ msb)" by (simp only: of_nat_less_iff)
    then have "real R * 2 ^ 127 < (real r + 1) * 2 ^ msb" by (simp only: of_nat_mult of_nat_add of_nat_1 of_nat_power of_nat_numeral)
    then show "real R * 2 ^ 127 / 2 ^ msb \<le> real r + 1" by (simp add: divide_le_eq)
  qed
  have lnR: "ln (real R) = ln (real (val p)) + 32 * ln 2"
  proof -
    have "ln (real R) = ln (real (val p)) + ln (2 ^ 32)"
      unfolding R_def of_nat_mult of_nat_power of_nat_numeral using assms(1) by (intro ln_mult_pos) simp_all
    then show ?thesis using ln_realpow [of 2 32] by (simp only: of_nat_numeral)
  qed
  have lnX: "ln (real R * 2 ^ 127 / 2 ^ msb) = ln (real R) + 127 * ln 2 - real msb * ln 2"
  proof -
    have "ln (real R * 2 ^ 127 / 2 ^ msb) = ln (real R * 2 ^ 127) - ln (2 ^ msb)"
      using R(1) by (intro ln_divide_pos) simp_all
    also have "ln (real R * 2 ^ 127) = ln (real R) + ln (2 ^ 127)" using R(1) by (intro ln_mult_pos) simp_all
    finally show ?thesis using ln_realpow [of 2 127] by (simp only: of_nat_numeral ln_realpow)
  qed
  have r127: "2 ^ 127 \<le> real r" by (rule real_power_le [OF r(1)])
  then have r0: "0 < real r" by (rule less_le_trans [rotated]) simp
  have "1 / real r \<le> 1 / 2 ^ 127" using r127 by (intro divide_left_mono) simp_all
  also have "\<dots> \<le> 1 / 2 ^ 126" by simp
  finally have small: "1 / real r \<le> 1 / 2 ^ 126" .
  have s: "real_of_int start * ln 2 / 2 ^ 64 = (real msb - 128) * ln 2"
    by (simp add: start_def push_bit_eq_mult)
  have "log2_gap lam 64 (start, r) = ln (real R * 2 ^ 127 / 2 ^ msb) - ln (real r)"
    unfolding log2_gap_def prod.case lam_def s mantissa_ln_def lnX lnR
    by (simp add: algebra_simps)
  then have "0 \<le> log2_gap lam 64 (start, r)" "log2_gap lam 64 (start, r) \<le> 1 / 2 ^ 126"
    using ln_gap [OF r0 X] small by linarith+
  then have "log2_inv lam 64 (start, r)"
    unfolding log2_inv_def using r by (simp add: start_def push_bit_eq_mult)
  define n where "n = snd (fold log2_step (rev [50..<64]) (start, r))"
  have st: "fold log2_step (rev [50..<64]) (start, r) = (log2_q64 p, n)" unfolding l n_def by simp
  have "log2_inv lam 50 (log2_q64 p, n)"
    unfolding st [symmetric] by (rule log2_inv_fold [OF _ order_refl \<open>log2_inv lam 64 (start, r)\<close>]) simp
  then have n: "2 ^ 127 \<le> n" "n < 2 ^ 128" and gap: "0 \<le> log2_gap lam 50 (log2_q64 p, n)"
    "log2_gap lam 50 (log2_q64 p, n) \<le> (65 - real 50) / 2 ^ 126"
    by (simp_all add: log2_inv_def)
  have u: "0 \<le> mantissa_ln n" "mantissa_ln n \<le> ln 2"
  proof -
    have n127: "2 ^ 127 \<le> real n" by (rule real_power_le [OF n(1)])
    have "ln ((2::real) ^ 127) \<le> ln (real n)" using n127 by (intro ln_mono) simp_all
    then show "0 \<le> mantissa_ln n" using ln_realpow [of 2 127] unfolding mantissa_ln_def of_nat_numeral by linarith
    have "real n \<le> real (2 ^ 128)" using n(2) by (simp only: of_nat_le_iff)
    then have "ln (real n) \<le> ln ((2::real) ^ 128)"
      using n127 by (intro ln_mono) (simp_all only: of_nat_power of_nat_numeral, simp)
    then show "mantissa_ln n \<le> ln 2" using ln_realpow [of 2 128] unfolding mantissa_ln_def of_nat_numeral by linarith
  qed
  define w where "w = 2 ^ 50 / 2 ^ 64 * mantissa_ln n"
  have w: "0 \<le> w" "w \<le> ln 2 / 2 ^ 14"
    using u by (simp_all add: w_def)
  have g: "log2_gap lam 50 (log2_q64 p, n) = lam - l - w" by (simp add: log2_gap_def l_def w_def)
  show "l \<le> lam" using gap(1) w unfolding g by linarith
  have "(65 - real 50) / 2 ^ 126 = (15 / 2 ^ 126 :: real)" by simp
  then show "lam \<le> l + ln 2 / 2 ^ 14 + 15 / 2 ^ 126" using gap(2) w unfolding g by linarith
qed

section \<open>From binary logarithms to ticks\<close>

text \<open>\<open>LOG_SQRT10001\<close> is \<open>2^64\<close> over the binary logarithm of the price ratio of two ticks: the
  price of the last tick, which is almost \<open>2^64\<close>, relates the two logarithms.\<close>

lemma log_constant: "\<bar>real LOG_SQRT10001 * tick_beta / 2 ^ 64 - ln 2\<bar> \<le> 1 / 1000000000"
proof -
  define d :: real where "d = 18447437462383981825 / 2 ^ 64 - 1"
  have d: "37588675 / 1000000000000 \<le> d" "d \<le> 37588676 / 1000000000000" by (simp_all add: d_def)
  have "ln (1 + d) \<le> d" by (rule ln_add_one_self_le_self) (use d in linarith)
  moreover have "d - d\<^sup>2 \<le> ln (1 + d)" by (rule ln_one_plus_pos_lower_bound) (simp_all add: d_def)
  moreover have "d\<^sup>2 \<le> (1 / 10000)\<^sup>2" by (intro power_mono) (simp_all add: d_def)
  then have "d\<^sup>2 \<le> 1 / 100000000" by (simp add: power2_eq_square)
  ultimately have ln_d: "ln (1 + d) \<le> d" "d - 1 / 100000000 \<le> ln (1 + d)" by linarith+
  have "ln (real 18447437462383981825) = ln (2 ^ 64 * (1 + d))" by (simp add: d_def)
  also have "\<dots> = ln (2 ^ 64) + ln (1 + d)" using d by (intro ln_mult_pos) simp_all
  finally have last: "ln (real 18447437462383981825) = 64 * ln 2 + ln (1 + d)"
    using ln_realpow [of 2 64] by (simp only: of_nat_numeral)
  have "\<bar>ln (real 18447437462383981825) - 128 * ln 2 + real 887272 * tick_beta\<bar> \<le> 1 / 2 ^ 68 + 20 / 2 ^ 64"
    using ratio_nat_ln [of 887272] unfolding ratio_nat_last by simp
  also have "\<dots> \<le> 1 / 1000000000000" by simp
  finally have k: "\<bar>ln (1 + d) - 64 * ln 2 + 887272 * tick_beta\<bar> \<le> 1 / 1000000000000"
    unfolding last by simp
  have beta: "49995 / 1000000000 \<le> tick_beta" "tick_beta \<le> 5 / 100000" using tick_beta_bounds by simp_all
  then have nonneg: "0 \<le> tick_beta" by linarith
  define c :: real where "c = real LOG_SQRT10001 / 2 ^ 64"
  have c: "64 * c \<le> 887272 + 751797 / 1000000" "887272 + 751796 / 1000000 \<le> 64 * c"
    by (simp_all add: c_def LOG_SQRT10001_def)
  define y where "y = c * tick_beta"
  have y: "64 * y \<le> 887272 * tick_beta + 751797 / 1000000 * tick_beta"
    "887272 * tick_beta + 751796 / 1000000 * tick_beta \<le> 64 * y"
    using mult_right_mono [OF c(1) nonneg] mult_right_mono [OF c(2) nonneg]
    unfolding y_def distrib_right mult.assoc .
  have "\<bar>y - ln 2\<bar> \<le> 1 / 1000000000" using k ln_d d y beta by linarith
  then show ?thesis by (simp add: c_def y_def)
qed

lemma ln_two_bounds: "2 / 3 \<le> ln (2::real)" "ln (2::real) \<le> 25 / 36"
proof -
  define c :: real where "c = real LOG_SQRT10001 / 2 ^ 64"
  have c: "13863 \<le> c" "c \<le> 13864" by (simp_all add: c_def LOG_SQRT10001_def)
  have beta: "49995 / 1000000000 \<le> tick_beta" "tick_beta \<le> 5 / 100000" using tick_beta_bounds by simp_all
  have "13863 * (49995 / 1000000000) \<le> c * tick_beta" "c * tick_beta \<le> 13864 * (5 / 100000)"
    using c beta by (intro mult_mono; linarith)+
  moreover have "\<bar>c * tick_beta - ln 2\<bar> \<le> 1 / 1000000000" using log_constant by (simp add: c_def)
  ultimately show "2 / 3 \<le> ln (2::real)" "ln (2::real) \<le> 25 / 36" by linarith+
qed

lemma log_sqrt10001_eq:
  assumes "\<bar>l\<bar> \<le> 2 ^ 127"
  shows "\<exists>hi lo. log_sqrt10001 l = (hi, lo) \<and> hi * 2 ^ 128 + int lo = l * int LOG_SQRT10001 \<and> lo < 2 ^ 128"
proof -
  obtain mh ml where w: "widening_mul_u128 (nat \<bar>l\<bar>) LOG_SQRT10001 = (mh, ml)" by fastforce
  have "nat \<bar>l\<bar> \<le> u128_max" using assms by (simp add: u128_max_def)
  moreover have "LOG_SQRT10001 \<le> u128_max" by (simp add: LOG_SQRT10001_def u128_max_def)
  ultimately have v: "mh * 2 ^ 128 + ml = nat \<bar>l\<bar> * LOG_SQRT10001" "ml < 2 ^ 128"
    using widening_mul_exact [OF _ _ w] by (simp_all add: u128_max_def)
  have iv: "int mh * 2 ^ 128 + int ml = \<bar>l\<bar> * int LOG_SQRT10001"
    using arg_cong [OF v(1), of int] by simp
  show ?thesis
  proof (cases "l < 0")
    case False
    then show ?thesis using v iv w by (simp add: log_sqrt10001_def)
  next
    case neg: True
    show ?thesis
    proof (cases "ml = 0")
      case True
      then show ?thesis using neg iv w by (simp add: log_sqrt10001_def)
    next
      case False
      then have n: "u128_wrapping_neg ml = 2 ^ 128 - ml" using v(2) by (simp add: u128_wrapping_neg_def)
      have "int (2 ^ 128 - ml) = 2 ^ 128 - int ml" using v(2) by (simp add: of_nat_diff)
      then have "(- int mh - 1) * 2 ^ 128 + int (2 ^ 128 - ml) = l * int LOG_SQRT10001"
        using iv neg by (simp only: left_diff_distrib)
      moreover have "2 ^ 128 - ml < 2 ^ 128" using False by simp
      ultimately show ?thesis using neg False w n by (simp add: log_sqrt10001_def del: numeral_power_eq_of_nat_cancel_iff)
    qed
  qed
qed

lemma tick_bounds_eq:
  assumes "hi * 2 ^ 128 + int lo = N" "lo < 2 ^ 128" "\<bar>hi\<bar> < 2 ^ 30"
  shows "tick_bounds (hi, lo) = ((N - int TICK_LOW_ERROR) div 2 ^ 128, (N + int TICK_HI_ERROR) div 2 ^ 128)"
proof -
  have lo: "0 \<le> int lo" "int lo < 2 ^ 128" using assms(2) by (simp_all only: of_nat_0_le_iff of_nat_less_numeral_power_cancel_iff)
  have "(N - int TICK_LOW_ERROR) div 2 ^ 128 = hi - (if lo < TICK_LOW_ERROR then 1 else 0)"
    unfolding assms(1) [symmetric] using lo
    by (intro int_div_pos_eq [where r = "int lo - int TICK_LOW_ERROR + (if lo < TICK_LOW_ERROR then 2 ^ 128 else 0)"])
      (auto simp: TICK_LOW_ERROR_def)
  moreover have "(N + int TICK_HI_ERROR) div 2 ^ 128 = hi + (if lo + TICK_HI_ERROR > u128_max then 1 else 0)"
    unfolding assms(1) [symmetric] using lo
    by (intro int_div_pos_eq [where r = "int lo + int TICK_HI_ERROR - (if lo + TICK_HI_ERROR > u128_max then 2 ^ 128 else 0)"])
      (auto simp: TICK_HI_ERROR_def u128_max_def)
  moreover have "as_i32 x = x" if "\<bar>x\<bar> \<le> 2 ^ 30" for x using that by (auto simp: as_i32_def)
  ultimately show ?thesis using assms(3) by (simp add: tick_bounds_def)
qed
section \<open>The tick of a price\<close>

text \<open>The logarithm in ticks, \<open>z\<close>, against the logarithm of the price.\<close>

lemma log_in_ticks:
  assumes "MIN_SQRT_RATIO \<le> val p" "val p < val MAX_SQRT_RATIO"
  defines "lam \<equiv> ln (real (val p)) - 96 * ln 2"
    and "z \<equiv> real_of_int (log2_q64 p * int LOG_SQRT10001) / 2 ^ 128"
  shows "z * tick_beta - 65 / 1000000000 \<le> lam"
    and "lam \<le> z * tick_beta + 65 / 1000000000 + 42387 / 1000000000"
    and "\<bar>log2_q64 p\<bar> \<le> 65 * 2 ^ 64"
proof -
  define l where "l = real_of_int (log2_q64 p) / 2 ^ 64"
  note ln2 = ln_two_bounds
  have v: "2 ^ 32 \<le> val p" "val p \<le> 2 ^ 160"
    using assms(1,2) by (simp_all add: MIN_SQRT_RATIO_def MAX_SQRT_RATIO_def)
  have "0 < val p" "val p < 2 ^ 160" using assms(1,2) by (simp_all add: MIN_SQRT_RATIO_def MAX_SQRT_RATIO_def)
  from log2_q64_bounds [OF this] have b: "l * ln 2 \<le> lam" "lam \<le> l * ln 2 + ln 2 / 2 ^ 14 + 15 / 2 ^ 126"
    by (simp_all add: l_def lam_def)
  have "ln 2 / 2 ^ 14 + 15 / 2 ^ 126 \<le> 42387 / (1000000000 :: real)" using ln2(2) by simp
  with b(2) have b2: "lam \<le> l * ln 2 + 42387 / 1000000000" by linarith
  have "ln ((2::real) ^ 32) \<le> ln (real (val p))"
    using real_power_le [OF v(1)] by (intro ln_mono) simp_all
  moreover have "real (val p) \<le> real (2 ^ 160)" using v(2) by (simp only: of_nat_le_iff)
  then have "ln (real (val p)) \<le> ln ((2::real) ^ 160)"
    using \<open>0 < val p\<close> by (intro ln_mono) (simp_all only: of_nat_power of_nat_numeral of_nat_0_less_iff)
  ultimately have lam: "- 64 * ln 2 \<le> lam" "lam \<le> 64 * ln 2"
    using ln_realpow [of 2 32] ln_realpow [of 2 160] unfolding lam_def of_nat_numeral by linarith+
  have l: "\<bar>l\<bar> \<le> 65"
  proof -
    have "l * ln 2 \<le> 64 * ln 2" using b(1) lam(2) by linarith
    then have "l \<le> 64" using ln2(1) by (simp add: mult_le_cancel_right)
    moreover have "- 65 * ln 2 \<le> l * ln 2" using b2 lam(1) ln2(1) by linarith
    then have "- 65 \<le> l" using ln2(1) by (subst (asm) mult_le_cancel_right) linarith
    ultimately show ?thesis by linarith
  qed
  have z: "z * tick_beta - l * ln 2 = l * (real LOG_SQRT10001 * tick_beta / 2 ^ 64 - ln 2)"
    by (simp add: z_def l_def field_simps)
  have "\<bar>z * tick_beta - l * ln 2\<bar> \<le> 65 * (1 / 1000000000)"
    unfolding z abs_mult by (intro mult_mono l log_constant) simp_all
  then show "z * tick_beta - 65 / 1000000000 \<le> lam" "lam \<le> z * tick_beta + 65 / 1000000000 + 42387 / 1000000000"
    using b(1) b2 by linarith+
  have "real_of_int \<bar>log2_q64 p\<bar> \<le> real_of_int (65 * 2 ^ 64)" using l by (simp add: l_def)
  then show "\<bar>log2_q64 p\<bar> \<le> 65 * 2 ^ 64" by (simp only: of_int_le_iff)
qed

text \<open>The two candidates enclose the price.\<close>

lemma candidates_enclose:
  assumes "MIN_SQRT_RATIO \<le> val p" "val p < val MAX_SQRT_RATIO" "MIN_TICK \<le> t" "t \<le> MAX_TICK"
  defines "N \<equiv> log2_q64 p * int LOG_SQRT10001"
  shows "t \<le> (N - int TICK_LOW_ERROR) div 2 ^ 128 \<Longrightarrow> sqrt_price_nat t \<le> val p"
    and "(N + int TICK_HI_ERROR) div 2 ^ 128 < t \<Longrightarrow> val p < sqrt_price_nat t"
proof -
  define z where "z = real_of_int N / 2 ^ 128"
  define zb where "zb = z * tick_beta"
  have beta: "49995 / 1000000000 \<le> tick_beta" using tick_beta_bounds by simp
  then have nonneg: "0 \<le> tick_beta" by linarith
  have lam: "zb - 65 / 1000000000 \<le> ln (real (val p)) - 96 * ln 2"
    "ln (real (val p)) - 96 * ln 2 \<le> zb + 65 / 1000000000 + 42387 / 1000000000"
    using log_in_ticks [OF assms(1,2)] by (simp_all add: zb_def z_def N_def)
  have acc: "\<bar>ln (real (sqrt_price_nat t)) - (96 * ln 2 + real_of_int t * tick_beta)\<bar> \<le> 1 / 1000000000"
  proof -
    have "1 / 2 ^ 31 \<le> (1 / 1000000000 :: real)" by simp
    then show ?thesis using sqrt_price_accuracy [OF assms(3,4)] unfolding ln_price_def by linarith
  qed
  have pos: "0 < real (val p)" "0 < real (sqrt_price_nat t)"
    using assms(1) sqrt_price_nat_bounds(1) [of t] by (simp_all add: MIN_SQRT_RATIO_def)
  have div: "real_of_int (a div 2 ^ 128) \<le> real_of_int a / 2 ^ 128" "real_of_int a / 2 ^ 128 < real_of_int (a div 2 ^ 128) + 1" for a
    using real_of_int_div4 [of a "2 ^ 128"] floor_divide_of_int_eq [where ?'a = real, of a "2 ^ 128"]
      floor_correct [of "real_of_int a / 2 ^ 128"] by simp_all
  show "sqrt_price_nat t \<le> val p" if "t \<le> (N - int TICK_LOW_ERROR) div 2 ^ 128"
  proof -
    have "real_of_int t \<le> real_of_int (N - int TICK_LOW_ERROR) / 2 ^ 128"
      using that div(1) [of "N - int TICK_LOW_ERROR"] by linarith
    also have "\<dots> \<le> z - 1 / 100" by (simp add: z_def TICK_LOW_ERROR_def)
    finally have "real_of_int t * tick_beta \<le> (z - 1 / 100) * tick_beta" using nonneg by (rule mult_right_mono)
    then have "real_of_int t * tick_beta \<le> zb - 1 / 100 * tick_beta" by (simp only: zb_def left_diff_distrib)
    then have "ln (real (sqrt_price_nat t)) \<le> ln (real (val p))" using acc lam(1) beta by linarith
    then show ?thesis using pos by simp
  qed
  show "val p < sqrt_price_nat t" if "(N + int TICK_HI_ERROR) div 2 ^ 128 < t"
  proof -
    have "z + 856 / 1000 \<le> real_of_int (N + int TICK_HI_ERROR) / 2 ^ 128" by (simp add: z_def TICK_HI_ERROR_def)
    also have "\<dots> \<le> real_of_int t" using that div(2) [of "N + int TICK_HI_ERROR"] by linarith
    finally have "(z + 856 / 1000) * tick_beta \<le> real_of_int t * tick_beta" using nonneg by (rule mult_right_mono)
    then have "zb + 856 / 1000 * tick_beta \<le> real_of_int t * tick_beta" by (simp only: zb_def distrib_right)
    then have "ln (real (val p)) < ln (real (sqrt_price_nat t))" using acc lam(2) beta by linarith
    then show ?thesis using pos by simp
  qed
qed

lemma tick_at_sqrt_ratio_val:
  assumes "MIN_SQRT_RATIO \<le> val p" "val p < val MAX_SQRT_RATIO"
  shows "\<exists>t. tick_at_sqrt_ratio p = Some t \<and> MIN_TICK \<le> t \<and> t < MAX_TICK
    \<and> sqrt_price_nat t \<le> val p \<and> val p < sqrt_price_nat (t + 1)"
proof -
  define N where "N = log2_q64 p * int LOG_SQRT10001"
  define tl th where "tl = (N - int TICK_LOW_ERROR) div 2 ^ 128" and "th = (N + int TICK_HI_ERROR) div 2 ^ 128"
  note enclose = candidates_enclose [OF assms, folded N_def, folded tl_def th_def]
  have l: "\<bar>log2_q64 p\<bar> \<le> 65 * 2 ^ 64" by (rule log_in_ticks(3) [OF assms])
  then have "\<bar>log2_q64 p\<bar> \<le> 2 ^ 127" by simp
  from log_sqrt10001_eq [OF this] obtain hi lo where
    log: "log_sqrt10001 (log2_q64 p) = (hi, lo)" "hi * 2 ^ 128 + int lo = N" "lo < 2 ^ 128"
    unfolding N_def by blast
  have "\<bar>hi\<bar> < 2 ^ 30"
  proof -
    have "\<bar>N\<bar> \<le> 65 * 2 ^ 64 * int LOG_SQRT10001" unfolding N_def abs_mult by (intro mult_mono l) simp_all
    then have "\<bar>N\<bar> < 2 ^ 29 * 2 ^ 128" by (simp add: LOG_SQRT10001_def)
    moreover have "0 \<le> int lo" "int lo < 2 ^ 128" using log(3) by (simp_all only: of_nat_0_le_iff of_nat_less_numeral_power_cancel_iff)
    ultimately show ?thesis using log(2) by (simp add: abs_less_iff)
  qed
  with log have bounds: "tick_bounds (log_sqrt10001 (log2_q64 p)) = (tl, th)"
    using tick_bounds_eq [of hi lo N] by (simp add: tl_def th_def)
  have order: "tl \<le> th" "th \<le> tl + 1"
  proof -
    show "tl \<le> th" unfolding tl_def th_def by (rule zdiv_mono1) simp_all
    have "th \<le> (N - int TICK_LOW_ERROR + 2 ^ 128) div 2 ^ 128"
      unfolding th_def by (rule zdiv_mono1) (simp_all add: TICK_LOW_ERROR_def TICK_HI_ERROR_def)
    also have "\<dots> = tl + 1" unfolding tl_def by (rule div_add_self2) simp
    finally show "th \<le> tl + 1" .
  qed
  have ticks: "MIN_TICK \<le> MAX_TICK" by (simp add: MIN_TICK_def MAX_TICK_def)
  have tl: "tl < MAX_TICK"
    using enclose(1) [OF ticks order_refl] assms(2) sqrt_price_limits(2) by linarith
  have th: "MIN_TICK \<le> th"
    using enclose(2) [OF order_refl ticks] assms(1) sqrt_price_limits(1) by linarith
  have upper: "val p < sqrt_price_nat (th + 1)" if "th < MAX_TICK"
    using enclose(2) [of "th + 1"] th that by simp
  have guard: "tick_at_sqrt_ratio p = (if tl = th then Some tl
      else Option.bind (sqrt_ratio_at_tick th) (\<lambda>q. Some (if q \<le> p then th else tl)))"
    using assms by (simp add: tick_at_sqrt_ratio_def bounds le_val less_val min_sqrt_ratio_def
        max_sqrt_ratio_def val_from_u128 MIN_SQRT_RATIO_def u128_max_def)
  show ?thesis
  proof (cases "tl = th")
    case True
    then show ?thesis using guard tl th enclose(1) [of tl] upper by auto
  next
    case False
    then have step: "th = tl + 1" using order by linarith
    have "th \<le> MAX_TICK" using step tl by linarith
    from sqrt_ratio_at_tick_val [OF th this] obtain q where q: "sqrt_ratio_at_tick th = Some q" "val q = sqrt_price_nat th"
      by blast
    show ?thesis
    proof (cases "q \<le> p")
      case True
      then have le: "sqrt_price_nat th \<le> val p" using q(2) by (simp add: le_val)
      then have "th < MAX_TICK" using assms(2) sqrt_price_limits(2) \<open>th \<le> MAX_TICK\<close> by (cases "th = MAX_TICK") auto
      then show ?thesis using guard False q(1) True th le upper by auto
    next
      case gt: False
      then have lt: "val p < sqrt_price_nat th" using q(2) by (simp add: le_val)
      then have "th \<noteq> MIN_TICK" using assms(1) sqrt_price_limits(1) by auto
      then have "MIN_TICK \<le> tl" using th step by linarith
      then show ?thesis using guard False q(1) gt tl lt step enclose(1) [of tl] by auto
    qed
  qed
qed

end
