(* ===== verification/Clmm_Simulation.thy ===== *)
theory Clmm_Simulation
  imports Clmm_Range Tick_Log
begin

text \<open>
  \<open>simulate_swap\<close> as a whole: on a consistent pool and store the loop never panics, keeps the tick
  and the price consistent, moves the price only in the direction of the swap and within the limit,
  and its output is the sum of the amounts that the swap pays along the way of the price.
\<close>

section \<open>Consistent pools\<close>

definition price_at :: "U256 \<Rightarrow> int \<Rightarrow> bool" where
  "price_at p tick \<longleftrightarrow> MIN_TICK \<le> tick \<and> tick < MAX_TICK
     \<and> sqrt_price_nat tick \<le> val p \<and> val p \<le> sqrt_price_nat (tick + 1)"

definition nets_ok :: "tick_store \<Rightarrow> bool" where
  "nets_ok ts \<longleftrightarrow> (\<forall>p ch. tk_chunks ts p = Some ch \<longrightarrow>
     list_all (\<lambda>t. i128_min < ts_liquidity_net t \<and> ts_liquidity_net t \<le> i128_max) ch)"

definition pool_ok :: "clmm_pool \<Rightarrow> tick_store \<Rightarrow> bool" where
  "pool_ok pool ts \<longleftrightarrow> store_ok ts \<and> nets_ok ts \<and> finite (dom (tk_chunks ts)) \<and> 0 < cp_tick_spacing pool
     \<and> cp_liquidity pool \<le> u128_max \<and> cp_fee_bps pool \<le> FEE_DENOMINATOR
     \<and> MIN_SQRT_RATIO < val (cp_sqrt_price_x96 pool) \<and> val (cp_sqrt_price_x96 pool) < val MAX_SQRT_RATIO
     \<and> price_at (cp_sqrt_price_x96 pool) (cp_tick pool)"

lemma limit_val:
  "val (swap_price_limit True) = MIN_SQRT_RATIO + 1" "val (swap_price_limit False) + 1 = val MAX_SQRT_RATIO"
proof -
  have "val min_sqrt_ratio = MIN_SQRT_RATIO"
    by (simp add: min_sqrt_ratio_def val_from_u128 MIN_SQRT_RATIO_def u128_max_def)
  then show "val (swap_price_limit True) = MIN_SQRT_RATIO + 1"
    by (simp add: swap_price_limit_def val_wrapping_add MIN_SQRT_RATIO_def)
  have "val U256_ONE \<le> val MAX_SQRT_RATIO" by (simp add: MAX_SQRT_RATIO_def U256_ONE_def)
  then have "val (swap_price_limit False) = val MAX_SQRT_RATIO - 1"
    by (simp add: swap_price_limit_def max_sqrt_ratio_def val_wrapping_sub)
  then show "val (swap_price_limit False) + 1 = val MAX_SQRT_RATIO" by (simp add: MAX_SQRT_RATIO_def)
qed

lemma max_sqrt_ratio_bound: "val MAX_SQRT_RATIO < 2 ^ 160"
  by (simp add: MAX_SQRT_RATIO_def)

section \<open>The next tick lies ahead\<close>

lemma sqrt_price_le:
  "MIN_TICK \<le> s \<Longrightarrow> s \<le> t \<Longrightarrow> t \<le> MAX_TICK \<Longrightarrow> sqrt_price_nat s \<le> sqrt_price_nat t"
  using sqrt_price_less [of s t] by (cases "s = t") auto

lemma compressed_clamped: "MIN_TICK \<le> compressed_to_tick c spacing" "compressed_to_tick c spacing \<le> MAX_TICK"
  by (simp_all add: compressed_to_tick_def MIN_TICK_def MAX_TICK_def)

lemma compressed_below:
  assumes "0 < spacing" "c \<le> tick div spacing" "MIN_TICK \<le> tick" "tick \<le> MAX_TICK"
  shows "compressed_to_tick c spacing \<le> tick"
proof -
  have "c * spacing \<le> tick div spacing * spacing" using assms(1,2) by (intro mult_right_mono) simp_all
  also have "\<dots> \<le> tick" using assms(1) by (simp add: minus_mod_eq_div_mult [symmetric])
  finally show ?thesis using assms(3,4)
    by (auto simp: compressed_to_tick_def i32_saturating_mul_def MIN_TICK_def MAX_TICK_def)
qed

lemma compressed_above:
  assumes "0 < spacing" "tick div spacing < c" "MIN_TICK \<le> tick" "tick < MAX_TICK"
  shows "tick < compressed_to_tick c spacing"
proof -
  have "tick < (tick div spacing + 1) * spacing"
    using pos_mod_bound [OF assms(1), of tick] div_mult_mod_eq [of tick spacing]
    unfolding distrib_right by linarith
  also have "\<dots> \<le> c * spacing" using assms(1,2) by (intro mult_right_mono) simp_all
  finally show ?thesis using assms(3,4)
    by (auto simp: compressed_to_tick_def i32_saturating_mul_def MIN_TICK_def MAX_TICK_def)
qed

lemma compressed_mono:
  assumes "0 < spacing" "c \<le> c'"
  shows "compressed_to_tick c spacing \<le> compressed_to_tick c' spacing"
proof -
  have "c * spacing \<le> c' * spacing" using assms by (intro mult_right_mono) simp_all
  then show ?thesis by (auto simp: compressed_to_tick_def i32_saturating_mul_def)
qed

text \<open>The search returns a tick at or below the current one, or strictly above it, and no
  initialised tick lies in between.\<close>

definition nearest_tick :: "tick_store \<Rightarrow> int \<Rightarrow> bool \<Rightarrow> int \<Rightarrow> int \<Rightarrow> bool \<Rightarrow> bool" where
  "nearest_tick ts spacing z tick nt b \<longleftrightarrow> MIN_TICK \<le> nt \<and> nt \<le> MAX_TICK
    \<and> (if z then nt \<le> tick else tick < nt)
    \<and> (b \<longrightarrow> (\<exists>k. inited ts k \<and> nt = compressed_to_tick k spacing))
    \<and> (\<forall>t \<in> tick_set ts spacing. (if z then t \<le> tick else tick < t) \<longrightarrow> b \<and> (if z then t \<le> nt else nt \<le> t))"

lemma nearest_tickD:
  assumes "nearest_tick ts spacing z tick nt b"
  shows "MIN_TICK \<le> nt" "nt \<le> MAX_TICK" "if z then nt \<le> tick else tick < nt"
    and "b \<Longrightarrow> \<exists>k. inited ts k \<and> nt = compressed_to_tick k spacing"
    and "t \<in> tick_set ts spacing \<Longrightarrow> z \<Longrightarrow> t \<le> tick \<Longrightarrow> b \<and> t \<le> nt"
    and "t \<in> tick_set ts spacing \<Longrightarrow> \<not> z \<Longrightarrow> tick < t \<Longrightarrow> b \<and> nt \<le> t"
  using assms by (auto simp: nearest_tick_def)

lemma next_tick_ahead:
  assumes "store_ok ts" "0 < spacing" "MIN_TICK \<le> tick" "tick < MAX_TICK"
  shows "\<exists>nt b. find_initialized_tick ts tick spacing z = Some (nt, b) \<and> nearest_tick ts spacing z tick nt b"
proof -
  let ?k = "if z then tick div spacing else tick div spacing + 1"
  have t: "tick \<le> MAX_TICK" using assms(4) by simp
  obtain r where r: "find_initialized_tick ts tick spacing z = Some (case r of
        Some c \<Rightarrow> (compressed_to_tick c spacing, True)
      | None \<Rightarrow> (compressed_to_tick (search_boundary z (?k div 16 div 256)) spacing, False))"
    "best (dir z) (inited ts) {c. dir z c ?k} r"
    using find_initialized_tick_best [OF assms(1-3) t, of z] by blast
  have ahead: "dir z c ?k \<longleftrightarrow> (if z then compressed_to_tick c spacing \<le> tick else tick < compressed_to_tick c spacing)"
    for c
    using compressed_below [OF assms(2) _ assms(3) t, of c] compressed_above [OF assms(2) _ assms(3,4), of c]
    by (cases z; cases "c \<le> tick div spacing") (simp_all add: dir_def not_le)
  have "dir z (search_boundary z (?k div 16 div 256)) ?k"
    by (auto simp: dir_def search_boundary_def push_bit_eq_mult TICKS_PER_CHUNK_def)
  with ahead r(2) compressed_clamped compressed_mono [OF assms(2)] show ?thesis
    unfolding r(1) nearest_tick_def tick_set_def
    by (cases r; cases z) (auto simp: best_Some best_None dir_def)
qed

section \<open>Legs\<close>

text \<open>One step of the swap from price \<open>c\<close>: its liquidity, next price, input, fee and output; a list of
  them leads from one price to another.\<close>

type_synonym leg = "nat \<times> nat \<times> nat \<times> nat \<times> nat"

fun leg_ok :: "bool \<Rightarrow> nat \<Rightarrow> leg \<Rightarrow> bool" where
  "leg_ok z c (L, n, i, f, out) \<longleftrightarrow> (if z then n \<le> c else c \<le> n)
     \<and> (if L = 0 then i = 0 \<and> f = 0 \<and> out = 0
        else i = dir_in z n c L \<and> out = unwrap_or (u128_opt (dir_out z n c L)) 0)"

text \<open>Between two initialised ticks the liquidity is constant; when the price has moved onto one,
  its net liquidity is applied.\<close>

definition no_tick_inside :: "tick_store \<Rightarrow> int \<Rightarrow> nat \<Rightarrow> nat \<Rightarrow> bool" where
  "no_tick_inside ts spacing c n \<longleftrightarrow>
     (\<forall>t \<in> tick_set ts spacing. \<not> (min c n < sqrt_price_nat t \<and> sqrt_price_nat t < max c n))"

definition net_at :: "tick_store \<Rightarrow> int \<Rightarrow> int" where
  "net_at ts k = ts_liquidity_net (the (tk_chunks ts (k div 16)) ! nat (k mod 16))"

definition crossed :: "tick_store \<Rightarrow> int \<Rightarrow> bool \<Rightarrow> nat \<Rightarrow> nat \<Rightarrow> nat \<Rightarrow> nat \<Rightarrow> bool" where
  "crossed ts spacing z c n L L' \<longleftrightarrow>
     (\<exists>k. inited ts k \<and> n = sqrt_price_nat (compressed_to_tick k spacing)
        \<and> apply_liquidity_net z (net_at ts k) L = Some L')
     \<or> L' = L \<and> (n = c \<or> n \<notin> sqrt_price_nat ` tick_set ts spacing)"

fun legs :: "tick_store \<Rightarrow> int \<Rightarrow> bool \<Rightarrow> nat \<Rightarrow> nat \<Rightarrow> leg list \<Rightarrow> nat \<Rightarrow> bool" where
  "legs ts spacing z L c [] p \<longleftrightarrow> c = p"
| "legs ts spacing z L c ((L', n, i, f, out) # ls) p \<longleftrightarrow>
     L' = L \<and> leg_ok z c (L, n, i, f, out) \<and> no_tick_inside ts spacing c n
     \<and> (\<exists>L1. crossed ts spacing z c n L L1 \<and> legs ts spacing z L1 n ls p)"

definition legs_in :: "leg list \<Rightarrow> nat" where
  "legs_in ls = sum_list (map (\<lambda>(L, n, i, f, out). i + f) ls)"

definition legs_out :: "leg list \<Rightarrow> nat" where
  "legs_out ls = sum_list (map (\<lambda>(L, n, i, f, out). out) ls)"

lemma legs_sums [simp]:
  "legs_in [] = 0" "legs_out [] = 0"
  "legs_in ((L, n, i, f, out) # ls) = i + f + legs_in ls"
  "legs_out ((L, n, i, f, out) # ls) = out + legs_out ls"
  by (simp_all add: legs_in_def legs_out_def)

section \<open>One iteration\<close>

definition in_limit :: "bool \<Rightarrow> U256 \<Rightarrow> U256 \<Rightarrow> bool" where
  "in_limit z start p \<longleftrightarrow>
     (if z then MIN_SQRT_RATIO + 1 \<le> val p \<and> val p \<le> val start
      else val start \<le> val p \<and> val p + 1 \<le> val MAX_SQRT_RATIO)"

definition sim_inv :: "clmm_pool \<Rightarrow> bool \<Rightarrow> nat \<Rightarrow> swap_state \<Rightarrow> bool" where
  "sim_inv pool z A s \<longleftrightarrow> price_at (ss_sqrt_price s) (ss_tick s) \<and> ss_liquidity s \<le> u128_max
     \<and> ss_remaining s \<le> A \<and> in_limit z (cp_sqrt_price_x96 pool) (ss_sqrt_price s)"

definition amount_fits :: "clmm_pool \<Rightarrow> bool \<Rightarrow> nat \<Rightarrow> bool" where
  "amount_fits pool z A \<longleftrightarrow> A \<le> u128_max \<and> (z \<longrightarrow> A * val (cp_sqrt_price_x96 pool) < 2 ^ 255)"

lemma get_tick_inited:
  assumes "store_ok ts" "nets_ok ts" "0 < spacing" "inited ts k"
    and "MIN_TICK < compressed_to_tick k spacing" "compressed_to_tick k spacing < MAX_TICK"
  shows "\<exists>st. get_tick ts (compressed_to_tick k spacing) spacing = Some st \<and> ts_liquidity_net st = net_at ts k
    \<and> i128_min < net_at ts k \<and> net_at ts k \<le> i128_max"
proof -
  have "compressed_to_tick k spacing = k * spacing"
    using assms(5,6) by (auto simp: compressed_to_tick_def i32_saturating_mul_def MIN_TICK_def MAX_TICK_def split: if_splits)
  then have c: "compress_tick (compressed_to_tick k spacing) spacing = Some k"
    using assms(3) by (simp add: compress_tick_div)
  obtain ch where ch: "tk_chunks ts (k div 16) = Some ch" using assms(4) by (auto simp: inited_def split: option.splits)
  have "nat (k mod 16) < length ch" using store_okD(1) [OF assms(1) ch] by simp
  then show ?thesis
    using assms(2) ch by (auto simp: get_tick_def c chunk_address_eq net_at_def nets_ok_def list_all_length)
qed

lemma apply_net_some:
  assumes "i128_min < net" "net \<le> i128_max" "L \<le> u128_max"
  shows "\<exists>L'. apply_liquidity_net z net L = Some L' \<and> L' \<le> u128_max"
  using assms by (auto simp: apply_liquidity_net_def i128_checked_sub_def in_i128_def u128_saturating_add_def)

lemma price_at_tick_of:
  assumes "MIN_SQRT_RATIO \<le> val p" "val p < val MAX_SQRT_RATIO"
  shows "\<exists>t. tick_at_sqrt_ratio p = Some t \<and> price_at p t"
  using tick_at_sqrt_ratio_val [OF assms] by (auto simp: price_at_def less_imp_le)

lemma in_limit_range:
  assumes "pool_ok pool ts" "in_limit z (cp_sqrt_price_x96 pool) p"
  shows "MIN_SQRT_RATIO < val p" "val p < val MAX_SQRT_RATIO"
  using assms by (auto simp: pool_ok_def in_limit_def split: if_splits)

text \<open>The target of a step lies ahead of the price and within the limit.\<close>

definition step_target :: "bool \<Rightarrow> U256 \<Rightarrow> U256" where
  "step_target z np =
     (if z then (if np < swap_price_limit z then swap_price_limit z else np)
      else (if np > swap_price_limit z then swap_price_limit z else np))"

lemma step_target_val:
  "val (step_target z np) =
     (if z then max (val np) (MIN_SQRT_RATIO + 1) else min (val np) (val MAX_SQRT_RATIO - 1))"
  using limit_val by (auto simp: step_target_def less_val max_def min_def)

lemma target_ahead:
  assumes "price_at p tick" "in_limit z start p" "nearest_tick ts spacing z tick nt b" "val np = sqrt_price_nat nt"
  shows "on_way z (val (step_target z np)) (val p) (val (step_target z np))"
    and "on_way z (val q) (val p) (val (step_target z np)) \<Longrightarrow> in_limit z start q"
proof -
  note nt = nearest_tickD(1-3) [OF assms(3)]
  have np: "if z then val np \<le> val p else val p \<le> val np"
  proof (cases z)
    case True
    then show ?thesis
      using assms nt sqrt_price_le [of nt tick] by (auto simp: price_at_def)
  next
    case False
    then have "sqrt_price_nat (tick + 1) \<le> val np"
      using assms nt sqrt_price_le [of "tick + 1" nt] by (auto simp: price_at_def)
    then show ?thesis using False assms(1) by (simp add: price_at_def)
  qed
  then show "on_way z (val (step_target z np)) (val p) (val (step_target z np))"
    using assms(2) by (auto simp: on_way_def step_target_val in_limit_def)
  show "on_way z (val q) (val p) (val (step_target z np)) \<Longrightarrow> in_limit z start q"
    using assms(2) np by (auto simp: on_way_def step_target_val in_limit_def split: if_splits)
qed

text \<open>An initialised tick behind the price stays behind it; one ahead is not passed by the step.\<close>

lemma tick_set_range: "t \<in> tick_set ts spacing \<Longrightarrow> MIN_TICK \<le> t \<and> t \<le> MAX_TICK"
  using compressed_clamped by (auto simp: tick_set_def)

lemma ticks_of_step:
  assumes "price_at p tick" "nearest_tick ts spacing z tick nt b" "val np = sqrt_price_nat nt"
    and "on_way z n (val p) (val (step_target z np))" "t \<in> tick_set ts spacing"
  shows "(if z then val p \<le> sqrt_price_nat t else sqrt_price_nat t \<le> val p)
    \<or> b \<and> (if z then t \<le> nt \<and> sqrt_price_nat t \<le> n else nt \<le> t \<and> n \<le> sqrt_price_nat t)"
proof -
  note nt = nearest_tickD [OF assms(2)] and t = tick_set_range [OF assms(5)]
  have p: "sqrt_price_nat tick \<le> val p" "val p \<le> sqrt_price_nat (tick + 1)" "MIN_TICK \<le> tick" "tick < MAX_TICK"
    using assms(1) by (simp_all add: price_at_def)
  show ?thesis
  proof (cases z)
    case True
    have "sqrt_price_nat nt \<le> n" using assms(3,4) True by (simp add: on_way_def step_target_val)
    then show ?thesis
      using True nt(1) nt(5) [OF assms(5)] t p sqrt_price_le [of "tick + 1" t] sqrt_price_le [of t nt] nt(2)
      by (cases "t \<le> tick") auto
  next
    case False
    have "n \<le> sqrt_price_nat nt" using assms(3,4) False by (simp add: on_way_def step_target_val)
    then show ?thesis
      using False nt(1) nt(6) [OF assms(5)] t p sqrt_price_le [of t tick] sqrt_price_le [of nt t] nt(2)
      by (cases "tick < t") auto
  qed
qed

lemma step_no_tick_inside:
  assumes "price_at p tick" "nearest_tick ts spacing z tick nt b" "val np = sqrt_price_nat nt"
    and "on_way z n (val p) (val (step_target z np))"
  shows "no_tick_inside ts spacing (val p) n"
  using ticks_of_step [OF assms] assms(4) by (fastforce simp: no_tick_inside_def on_way_def split: if_splits)

lemma step_at_tick:
  assumes "price_at p tick" "nearest_tick ts spacing z tick nt b" "val np = sqrt_price_nat nt"
    and "on_way z n (val p) (val (step_target z np))" "n \<noteq> val p" "n \<in> sqrt_price_nat ` tick_set ts spacing"
  shows "b \<and> n = val np"
proof -
  obtain t where t: "t \<in> tick_set ts spacing" "n = sqrt_price_nat t" using assms(6) by blast
  have b: "b \<and> (if z then t \<le> nt else nt \<le> t)"
    using ticks_of_step [OF assms(1-4) t(1)] assms(4,5) t(2) by (auto simp: on_way_def split: if_splits)
  have "if z then val np \<le> n else n \<le> val np"
    using assms(4) by (auto simp: on_way_def step_target_val split: if_splits)
  with b t(2) assms(3) tick_set_range [OF t(1)] nearest_tickD(1,2) [OF assms(2)]
    sqrt_price_less [of t nt] sqrt_price_less [of nt t] show ?thesis
    by (cases "t = nt") (auto split: if_splits)
qed

text \<open>A step of the simulation returns, is a leg, and uses no more than what remains.\<close>

lemma step_leg:
  assumes pool: "pool_ok pool ts" and inv: "sim_inv pool z A s" and A: "amount_fits pool z A"
    and target: "on_way z (val target) (val (ss_sqrt_price s)) (val target)"
    and lim: "in_limit z (cp_sqrt_price_x96 pool) target"
  shows "\<exists>st. compute_swap_step (ss_sqrt_price s) target (ss_liquidity s) (ss_remaining s) (cp_fee_bps pool) z True = Some st
    \<and> on_way z (val (cs_sqrt_next st)) (val (ss_sqrt_price s)) (val target)
    \<and> leg_ok z (val (ss_sqrt_price s))
        (ss_liquidity s, val (cs_sqrt_next st), cs_amount_in st, cs_fee_amount st, cs_amount_out st)
    \<and> cs_amount_in st + cs_fee_amount st \<le> ss_remaining s"
proof (cases "ss_liquidity s = 0")
  case True
  then show ?thesis using target by (auto simp: compute_swap_step_def on_way_def)
next
  case False
  let ?p = "val (ss_sqrt_price s)" and ?P = "val (cp_sqrt_price_x96 pool)"
  have s: "ss_liquidity s \<le> u128_max" "ss_remaining s \<le> A" "in_limit z (cp_sqrt_price_x96 pool) (ss_sqrt_price s)"
    using inv by (simp_all add: sim_inv_def)
  note range = in_limit_range [OF pool s(3)] in_limit_range [OF pool lim]
  have no_wrap: "ss_remaining s * ?p + ss_liquidity s * 2 ^ 96 < 2 ^ 256" if z
  proof -
    have "ss_remaining s * ?p \<le> A * ?P" using s that by (intro mult_mono) (simp_all add: in_limit_def)
    also have "\<dots> < 2 ^ 255" using A that by (simp add: amount_fits_def)
    finally have "ss_remaining s * ?p < 2 ^ 255" .
    moreover have "ss_liquidity s * 2 ^ 96 < 2 ^ 224" by (rule liq_shifted(2) [OF s(1)])
    ultimately show ?thesis by simp
  qed
  have "step_pre z (ss_sqrt_price s) target (ss_liquidity s) (ss_remaining s) (cp_fee_bps pool)"
    unfolding step_pre_def
    using False s A range max_sqrt_ratio_bound target no_wrap pool
    by (simp add: amount_fits_def pool_ok_def)
  from exact_input_step [OF this] False show ?thesis by (auto simp: on_way_def split: if_splits)
qed

lemma swap_iteration_leg:
  assumes pool: "pool_ok pool ts" and inv: "sim_inv pool z A s" and A: "amount_fits pool z A"
  shows "\<exists>s' i f out. swap_iteration pool ts z (swap_price_limit z) s = Some s' \<and> sim_inv pool z A s'
    \<and> leg_ok z (val (ss_sqrt_price s)) (ss_liquidity s, val (ss_sqrt_price s'), i, f, out)
    \<and> no_tick_inside ts (cp_tick_spacing pool) (val (ss_sqrt_price s)) (val (ss_sqrt_price s'))
    \<and> crossed ts (cp_tick_spacing pool) z (val (ss_sqrt_price s)) (val (ss_sqrt_price s')) (ss_liquidity s) (ss_liquidity s')
    \<and> i + f + ss_remaining s' = ss_remaining s
    \<and> ss_calculated s' = u128_saturating_add (ss_calculated s) out"
proof -
  let ?p = "ss_sqrt_price s" and ?start = "cp_sqrt_price_x96 pool" and ?sp = "cp_tick_spacing pool"
  have s: "price_at ?p (ss_tick s)" "ss_liquidity s \<le> u128_max" "ss_remaining s \<le> A" "in_limit z ?start ?p"
    using inv by (simp_all add: sim_inv_def)
  have ok: "store_ok ts" "nets_ok ts" "0 < ?sp" using pool by (simp_all add: pool_ok_def)
  obtain nt b where nt: "find_initialized_tick ts (ss_tick s) ?sp z = Some (nt, b)"
    "nearest_tick ts ?sp z (ss_tick s) nt b"
    using next_tick_ahead [OF ok(1,3), of "ss_tick s" z] s(1) by (auto simp: price_at_def)
  note near = nearest_tickD [OF nt(2)]
  obtain np where np: "sqrt_ratio_at_tick nt = Some np" "val np = sqrt_price_nat nt"
    using sqrt_ratio_at_tick_val [OF near(1,2)] by blast
  note ahead = target_ahead [OF s(1,4) nt(2) np(2)]
  have "on_way z (val (step_target z np)) (val ?p) (val (step_target z np))" by (rule ahead(1))
  from step_leg [OF pool inv A this ahead(2) [OF this]] obtain st where
    st: "compute_swap_step ?p (step_target z np) (ss_liquidity s) (ss_remaining s) (cp_fee_bps pool) z True = Some st"
    "on_way z (val (cs_sqrt_next st)) (val ?p) (val (step_target z np))"
    "leg_ok z (val ?p) (ss_liquidity s, val (cs_sqrt_next st), cs_amount_in st, cs_fee_amount st, cs_amount_out st)"
    "cs_amount_in st + cs_fee_amount st \<le> ss_remaining s"
    by blast
  let ?q = "cs_sqrt_next st"
  have lim: "in_limit z ?start ?q" by (rule ahead(2) [OF st(2)])
  note range = in_limit_range [OF pool lim]
  note inside = step_no_tick_inside [OF s(1) nt(2) np(2) st(2)]
  define r where "r = ss_remaining s - cs_amount_in st - cs_fee_amount st"
  define c where "c = u128_saturating_add (ss_calculated s) (cs_amount_out st)"
  have rest: "cs_amount_in st + cs_fee_amount st + r = ss_remaining s" "r \<le> A"
    using st(4) s(3) by (simp_all add: r_def)
  have eq: "swap_iteration pool ts z (swap_price_limit z) s =
      (if ?q = np \<and> b then
         Option.bind (get_tick ts nt ?sp) (\<lambda>tick_state.
         Option.bind (apply_liquidity_net z (ts_liquidity_net tick_state) (ss_liquidity s)) (\<lambda>liquidity.
         Some \<lparr>ss_sqrt_price = ?q,
               ss_tick = (if z then max (i32_saturating_sub nt 1) MIN_TICK else min nt MAX_TICK),
               ss_liquidity = liquidity, ss_remaining = r, ss_calculated = c\<rparr>))
       else
         Option.bind (if ?q \<noteq> ?start then tick_at_sqrt_ratio ?q else Some (ss_tick s)) (\<lambda>tick.
         Some \<lparr>ss_sqrt_price = ?q, ss_tick = tick, ss_liquidity = ss_liquidity s,
               ss_remaining = r, ss_calculated = c\<rparr>))"
    unfolding swap_iteration_def nt(1) bind.simps prod.case np(1) Let_def step_target_def [symmetric] st(1)
      r_def [symmetric] c_def [symmetric] ..
  have result: ?thesis
    if "swap_iteration pool ts z (swap_price_limit z) s = Some \<lparr>ss_sqrt_price = ?q, ss_tick = t,
        ss_liquidity = L, ss_remaining = r, ss_calculated = c\<rparr>" "price_at ?q t" "L \<le> u128_max"
      "crossed ts ?sp z (val ?p) (val ?q) (ss_liquidity s) L" for t L
    using that lim rest st(3) inside
    by (intro exI [of _ "\<lparr>ss_sqrt_price = ?q, ss_tick = t, ss_liquidity = L, ss_remaining = r, ss_calculated = c\<rparr>"]
        exI [of _ "cs_amount_in st"] exI [of _ "cs_fee_amount st"] exI [of _ "cs_amount_out st"])
      (simp add: sim_inv_def c_def del: leg_ok.simps)
  show ?thesis
  proof (cases "?q = np \<and> b")
    case True
    obtain k where k: "inited ts k" "nt = compressed_to_tick k ?sp" using near(4) True by blast
    have q: "val ?q = sqrt_price_nat nt" using True np(2) by simp
    have inner: "MIN_TICK < nt" "nt < MAX_TICK"
      using range q near(1,2) sqrt_price_limits by (auto simp: less_le)
    obtain ts' L where g: "get_tick ts nt ?sp = Some ts'" "ts_liquidity_net ts' = net_at ts k"
      "apply_liquidity_net z (net_at ts k) (ss_liquidity s) = Some L" "L \<le> u128_max"
      using get_tick_inited [OF ok k(1)] inner apply_net_some [OF _ _ s(2)] unfolding k(2) by metis
    have prev: "sqrt_price_nat (nt - 1) \<le> sqrt_price_nat nt" "sqrt_price_nat nt \<le> sqrt_price_nat (nt + 1)"
      using inner by (auto intro!: sqrt_price_le)
    have tick: "(if z then max (i32_saturating_sub nt 1) MIN_TICK else min nt MAX_TICK) = (if z then nt - 1 else nt)"
      using inner by (auto simp: i32_saturating_sub_def MIN_TICK_def MAX_TICK_def)
    show ?thesis
    proof (rule result)
      show "swap_iteration pool ts z (swap_price_limit z) s = Some \<lparr>ss_sqrt_price = ?q,
          ss_tick = (if z then nt - 1 else nt), ss_liquidity = L, ss_remaining = r, ss_calculated = c\<rparr>"
        unfolding eq tick using True g by simp
      show "price_at ?q (if z then nt - 1 else nt)" using inner prev q by (auto simp: price_at_def)
      show "crossed ts ?sp z (val ?p) (val ?q) (ss_liquidity s) L"
        using k g(3) q by (auto simp: crossed_def)
    qed (rule g(4))
  next
    case False
    have "\<not> (b \<and> val ?q = val np)" using False by (auto simp: val_inject)
    then have stay: "crossed ts ?sp z (val ?p) (val ?q) (ss_liquidity s) (ss_liquidity s)"
      using step_at_tick [OF s(1) nt(2) np(2) st(2)] by (auto simp: crossed_def)
    show ?thesis
    proof (cases "?q = ?start")
      case True
      then have "val ?q = val ?p" using st(2) s(4) by (auto simp: on_way_def in_limit_def split: if_splits)
      then have "?q = ?p" by (simp add: val_inject)
      show ?thesis
      proof (rule result)
        show "swap_iteration pool ts z (swap_price_limit z) s = Some \<lparr>ss_sqrt_price = ?q, ss_tick = ss_tick s,
            ss_liquidity = ss_liquidity s, ss_remaining = r, ss_calculated = c\<rparr>"
          unfolding eq if_not_P [OF False] using True by simp
        show "price_at ?q (ss_tick s)" using s(1) unfolding \<open>?q = ?p\<close> .
      qed (rule s(2), rule stay)
    next
      case moved: False
      obtain t where t: "tick_at_sqrt_ratio ?q = Some t" "price_at ?q t"
        using price_at_tick_of [of ?q] range by auto
      show ?thesis
      proof (rule result)
        show "swap_iteration pool ts z (swap_price_limit z) s = Some \<lparr>ss_sqrt_price = ?q, ss_tick = t,
            ss_liquidity = ss_liquidity s, ss_remaining = r, ss_calculated = c\<rparr>"
          unfolding eq if_not_P [OF False] using moved t(1) by simp
      qed (rule t(2), rule s(2), rule stay)
    qed
  qed
qed

section \<open>The loop\<close>

lemma swap_loop_legs:
  assumes pool: "pool_ok pool ts" and A: "amount_fits pool z A"
  shows "sim_inv pool z A s \<Longrightarrow> ss_calculated s \<le> u128_max \<Longrightarrow>
    \<exists>s' ls. swap_loop n pool ts z (swap_price_limit z) s = Some s' \<and> sim_inv pool z A s'
      \<and> legs ts (cp_tick_spacing pool) z (ss_liquidity s) (val (ss_sqrt_price s)) ls (val (ss_sqrt_price s'))
      \<and> legs_in ls + ss_remaining s' = ss_remaining s
      \<and> ss_calculated s' = min (ss_calculated s + legs_out ls) u128_max
      \<and> length ls \<le> n
      \<and> (ss_remaining s' = 0 \<or> ss_sqrt_price s' = swap_price_limit z \<or> length ls = n)"
proof (induction n arbitrary: s)
  case 0
  then show ?case by (intro exI [of _ s] exI [of _ "[]"]) simp
next
  case (Suc n)
  show ?case
  proof (cases "ss_remaining s > 0 \<and> ss_sqrt_price s \<noteq> swap_price_limit z")
    case False
    then show ?thesis using Suc.prems by (intro exI [of _ s] exI [of _ "[]"]) auto
  next
    case True
    from swap_iteration_leg [OF pool Suc.prems(1) A] obtain s1 i f out where
      s1: "swap_iteration pool ts z (swap_price_limit z) s = Some s1" "sim_inv pool z A s1"
      "leg_ok z (val (ss_sqrt_price s)) (ss_liquidity s, val (ss_sqrt_price s1), i, f, out)"
      "no_tick_inside ts (cp_tick_spacing pool) (val (ss_sqrt_price s)) (val (ss_sqrt_price s1))"
      "crossed ts (cp_tick_spacing pool) z (val (ss_sqrt_price s)) (val (ss_sqrt_price s1)) (ss_liquidity s) (ss_liquidity s1)"
      "i + f + ss_remaining s1 = ss_remaining s" "ss_calculated s1 = u128_saturating_add (ss_calculated s) out"
      by blast
    have c1: "ss_calculated s1 = min (ss_calculated s + out) u128_max" using s1(7) by (simp add: u128_saturating_add_def)
    from Suc.IH [OF s1(2)] c1 obtain s' ls where
      s': "swap_loop n pool ts z (swap_price_limit z) s1 = Some s'" "sim_inv pool z A s'"
      "legs ts (cp_tick_spacing pool) z (ss_liquidity s1) (val (ss_sqrt_price s1)) ls (val (ss_sqrt_price s'))"
      "legs_in ls + ss_remaining s' = ss_remaining s1"
      "ss_calculated s' = min (ss_calculated s1 + legs_out ls) u128_max" "length ls \<le> n"
      "ss_remaining s' = 0 \<or> ss_sqrt_price s' = swap_price_limit z \<or> length ls = n"
      by auto
    let ?ls = "(ss_liquidity s, val (ss_sqrt_price s1), i, f, out) # ls"
    have "swap_loop (Suc n) pool ts z (swap_price_limit z) s = Some s'" using True s1(1) s'(1) by simp
    moreover have "legs ts (cp_tick_spacing pool) z (ss_liquidity s) (val (ss_sqrt_price s)) ?ls (val (ss_sqrt_price s'))"
      unfolding legs.simps using s1(3-5) s'(3) by blast
    moreover have "legs_in ?ls + ss_remaining s' = ss_remaining s" using s1(6) s'(4) by simp
    moreover have "ss_calculated s' = min (ss_calculated s + legs_out ?ls) u128_max"
      unfolding s'(5) c1 legs_sums by (simp add: min_def)
    ultimately show ?thesis using s'(2,6,7) by (intro exI [of _ s'] exI [of _ ?ls]) simp
  qed
qed

section \<open>The simulation\<close>

lemma simulate_swap_legs:
  assumes pool: "pool_ok pool ts" and A: "amount_fits pool z A"
  shows "\<exists>r. simulate_swap pool ts A z = Some r
    \<and> (case r of None \<Rightarrow> True | Some (out, p, tick) \<Rightarrow>
        \<exists>ls. legs ts (cp_tick_spacing pool) z (cp_liquidity pool) (val (cp_sqrt_price_x96 pool)) ls (val p)
          \<and> legs_in ls \<le> A \<and> out = min (legs_out ls) u128_max \<and> 0 < out
          \<and> (legs_in ls = A \<or> p = swap_price_limit z \<or> length ls = MAX_ITERATIONS)
          \<and> price_at p tick \<and> in_limit z (cp_sqrt_price_x96 pool) p)"
proof -
  let ?s = "\<lparr>ss_sqrt_price = cp_sqrt_price_x96 pool, ss_tick = cp_tick pool,
    ss_liquidity = cp_liquidity pool, ss_remaining = A, ss_calculated = 0\<rparr>"
  have "sim_inv pool z A ?s" using pool by (auto simp: sim_inv_def pool_ok_def in_limit_def)
  from swap_loop_legs [OF pool A this, of MAX_ITERATIONS] obtain s' ls where
    s': "swap_loop MAX_ITERATIONS pool ts z (swap_price_limit z) ?s = Some s'" "sim_inv pool z A s'"
    "legs ts (cp_tick_spacing pool) z (cp_liquidity pool) (val (cp_sqrt_price_x96 pool)) ls (val (ss_sqrt_price s'))"
    "legs_in ls + ss_remaining s' = A" "ss_calculated s' = min (legs_out ls) u128_max"
    "ss_remaining s' = 0 \<or> ss_sqrt_price s' = swap_price_limit z \<or> length ls = MAX_ITERATIONS"
    by auto
  have "\<exists>loaded. loaded_tick_range ts (cp_tick_spacing pool) = Some loaded"
    using pool loaded_tick_range_val(1) [of ts] by (simp add: pool_ok_def)
  then obtain loaded where l: "loaded_tick_range ts (cp_tick_spacing pool) = Some loaded" ..
  let ?body = "Option.bind (swap_loop MAX_ITERATIONS pool ts z (swap_price_limit z) ?s)
    (\<lambda>s. Some (if ss_calculated s = 0 then None else Some (ss_calculated s, ss_sqrt_price s, ss_tick s)))"
  have "simulate_swap pool ts A z = Some None \<or> simulate_swap pool ts A z = ?body"
    unfolding simulate_swap_def l by (simp split: option.splits prod.splits)
  then show ?thesis
  proof
    assume "simulate_swap pool ts A z = ?body"
    then have "simulate_swap pool ts A z = Some (if ss_calculated s' = 0 then None
        else Some (ss_calculated s', ss_sqrt_price s', ss_tick s'))" by (simp add: s'(1))
    then show ?thesis using s' by (auto simp: sim_inv_def)
  qed simp
qed

end
