(* ===== verification/Clmm_Swap_Properties.thy ===== *)
theory Clmm_Swap_Properties
  imports Clmm_Properties Clmm_Simulation
begin

text \<open>
  What the concentrated-liquidity simulation promises as a whole: the tick prices are accurate and
  strictly increasing, \<open>tick_at_sqrt_ratio\<close> inverts them, \<open>loaded_tick_range\<close> is the range of
  the store, and \<open>simulate_swap\<close> follows the liquidity from tick to tick and never quotes better
  than the spot price.
\<close>

section \<open>Tick prices\<close>

lemma log_two_power: "ln ((2 :: real) ^ 96) = 96 * ln 2"
  by (subst ln_realpow) simp_all

text \<open>C15: The price of a tick is accurate and strictly increasing: for two ticks of the protocol's
  range with \<open>s < t\<close> both prices exist, the first is strictly lower, and the logarithm of
  \<open>price / 2^96\<close> differs from the exact \<open>s * ln 1.0001 / 2\<close> by at most \<open>2^-31\<close>.\<close>

theorem sqrt_ratio_at_tick_accurate:
  assumes "MIN_TICK \<le> s" "s < t" "t \<le> MAX_TICK"
  shows "\<exists>p q. sqrt_ratio_at_tick s = Some p \<and> sqrt_ratio_at_tick t = Some q \<and> val p < val q
    \<and> \<bar>ln (real (val p) / 2 ^ 96) - real_of_int s * ln (10001 / 10000) / 2\<bar> \<le> 1 / 2 ^ 31
    \<and> \<bar>ln (real (val q) / 2 ^ 96) - real_of_int t * ln (10001 / 10000) / 2\<bar> \<le> 1 / 2 ^ 31"
proof -
  have r: "MIN_TICK \<le> t" "s \<le> MAX_TICK" using assms by simp_all
  have ln: "\<bar>ln (real (sqrt_price_nat u) / 2 ^ 96) - real_of_int u * ln (10001 / 10000) / 2\<bar> \<le> 1 / 2 ^ 31"
    if "MIN_TICK \<le> u" "u \<le> MAX_TICK" for u
  proof -
    have "0 < real (sqrt_price_nat u)" using sqrt_price_nat_bounds(1) [of u] by simp
    then have "ln (real (sqrt_price_nat u) / 2 ^ 96) = ln (real (sqrt_price_nat u)) - 96 * ln 2"
      unfolding log_two_power [symmetric] by (simp add: ln_divide_pos)
    then show ?thesis using sqrt_price_accuracy [OF that] unfolding ln_price_def tick_beta_def by argo
  qed
  obtain p q where "sqrt_ratio_at_tick s = Some p" "val p = sqrt_price_nat s"
    "sqrt_ratio_at_tick t = Some q" "val q = sqrt_price_nat t"
    using sqrt_ratio_at_tick_val [OF assms(1) r(2)] sqrt_ratio_at_tick_val [OF r(1) assms(3)] by blast
  then show ?thesis using sqrt_price_less [OF assms] ln [OF assms(1) r(2)] ln [OF r(1) assms(3)] by simp
qed

theorem sqrt_ratio_at_tick_accurate_witness:
  "\<exists>p q. sqrt_ratio_at_tick (- 60) = Some p \<and> sqrt_ratio_at_tick 60 = Some q \<and> val p < val q"
  using sqrt_ratio_at_tick_accurate [of "- 60" 60] by (auto simp: MIN_TICK_def MAX_TICK_def)

text \<open>C14: \<open>tick_at_sqrt_ratio\<close> returns the tick of a price: for every price of the protocol's range it
  succeeds, and its result is the one tick whose price is at most the given one while the next
  tick's price is above it; in particular it inverts \<open>sqrt_ratio_at_tick\<close>.\<close>

theorem tick_at_sqrt_ratio_inverse:
  assumes "MIN_SQRT_RATIO \<le> val p" "val p < val MAX_SQRT_RATIO"
  shows "\<exists>t a b. tick_at_sqrt_ratio p = Some t \<and> MIN_TICK \<le> t \<and> t < MAX_TICK
    \<and> sqrt_ratio_at_tick t = Some a \<and> sqrt_ratio_at_tick (t + 1) = Some b
    \<and> val a \<le> val p \<and> val p < val b
    \<and> (\<forall>u. MIN_TICK \<le> u \<and> u \<le> MAX_TICK \<and> sqrt_ratio_at_tick u = Some p \<longrightarrow> u = t)"
proof -
  obtain t where t: "tick_at_sqrt_ratio p = Some t" "MIN_TICK \<le> t" "t < MAX_TICK"
    "sqrt_price_nat t \<le> val p" "val p < sqrt_price_nat (t + 1)"
    using tick_at_sqrt_ratio_val [OF assms] by blast
  have t1: "MIN_TICK \<le> t + 1" "t \<le> MAX_TICK" "t + 1 \<le> MAX_TICK" using t(2,3) by simp_all
  obtain a where a: "sqrt_ratio_at_tick t = Some a" "val a = sqrt_price_nat t"
    using sqrt_ratio_at_tick_val [OF t(2) t1(2)] by blast
  obtain b where b: "sqrt_ratio_at_tick (t + 1) = Some b" "val b = sqrt_price_nat (t + 1)"
    using sqrt_ratio_at_tick_val [OF t1(1,3)] by blast
  have uniq: "u = t" if u: "MIN_TICK \<le> u \<and> u \<le> MAX_TICK \<and> sqrt_ratio_at_tick u = Some p" for u
  proof -
    have r: "MIN_TICK \<le> u" "u \<le> MAX_TICK" using u by blast+
    have p: "val p = sqrt_price_nat u" using sqrt_ratio_at_tick_val [OF r] u by auto
    have "\<not> t < u"
    proof
      assume "t < u"
      then have "sqrt_price_nat (t + 1) \<le> val p" unfolding p by (intro sqrt_price_le [OF t1(1) _ r(2)]) simp
      then show False using t(5) by simp
    qed
    moreover have "\<not> u < t"
    proof
      assume "u < t"
      from sqrt_price_less [OF r(1) this t1(2)] show False using t(4) p by simp
    qed
    ultimately show ?thesis by simp
  qed
  show ?thesis
  proof (intro exI conjI allI impI)
    show "val a \<le> val p" "val p < val b" unfolding a(2) b(2) by (rule t(4), rule t(5))
  qed (rule t(1), rule t(2), rule t(3), rule a(1), rule b(1), rule uniq)
qed

theorem tick_at_sqrt_ratio_inverse_witness:
  "\<exists>p. sqrt_ratio_at_tick 12345 = Some p \<and> tick_at_sqrt_ratio p = Some 12345"
proof -
  have r: "MIN_TICK \<le> 12345" "(12345::int) \<le> MAX_TICK" by (simp_all add: MIN_TICK_def MAX_TICK_def)
  obtain p where p: "sqrt_ratio_at_tick 12345 = Some p" "val p = sqrt_price_nat 12345"
    using sqrt_ratio_at_tick_val [OF r] by blast
  have "sqrt_price_nat MIN_TICK < val p" "val p < sqrt_price_nat MAX_TICK"
    unfolding p(2) by (rule sqrt_price_less; simp add: MIN_TICK_def MAX_TICK_def)+
  then have "MIN_SQRT_RATIO \<le> val p" "val p < val MAX_SQRT_RATIO" by (simp_all add: sqrt_price_limits)
  from tick_at_sqrt_ratio_inverse [OF this] p(1) r show ?thesis by auto
qed

section \<open>The loaded range\<close>

text \<open>On a consistent store with finitely many chunks \<open>loaded_tick_range\<close> never panics and returns
  exactly the least and the greatest initialised tick, or nothing when there is none.\<close>

lemma loaded_tick_range_exact:
  assumes "finite (dom (tk_chunks ts))" "store_ok ts"
  shows "loaded_tick_range ts spacing = Some (if \<exists>c. inited ts c
    then Some (Min ((\<lambda>c. compressed_to_tick c spacing) ` {c. inited ts c}),
               Max ((\<lambda>c. compressed_to_tick c spacing) ` {c. inited ts c}))
    else None)"
  using loaded_tick_range_val(1) [OF assms, of spacing] by (simp add: tick_set_def)

lemma loaded_tick_range_exact_witness: "loaded_tick_range sample_store 60 = Some (Some (180, 180))"
proof -
  have t: "compressed_to_tick 3 60 = 180"
    by (simp add: compressed_to_tick_def i32_saturating_mul_def MIN_TICK_def MAX_TICK_def)
  have "finite (dom (tk_chunks sample_store))" by (simp add: sample_store_def)
  moreover have "inited sample_store = (\<lambda>c. c = 3)" by (simp add: fun_eq_iff sample_inited)
  ultimately show ?thesis
    using loaded_tick_range_exact [OF _ sample_store_ok, of 60] by (simp add: t)
qed

section \<open>The simulation\<close>

text \<open>C12: \<open>simulate_swap\<close> follows the liquidity: on a consistent pool and store, for an amount whose
  product with the price does not wrap, it never panics, and a quote is the sum of a sequence of
  legs from the pool's price to the final one. Each leg moves in the direction of the swap with
  constant liquidity, passes no initialised tick, takes the exact input and pays the exact output
  for its move; after a leg that ends on an initialised tick the tick's net liquidity is applied.
  The legs use all of the input unless the price reached the protocol's limit or the 500 iterations
  were used, and the final tick and price agree.\<close>

theorem simulate_swap_follows_ticks:
  assumes "pool_ok pool ts" "amount_fits pool zero_for_one amount"
  shows "\<exists>r. simulate_swap pool ts amount zero_for_one = Some r
    \<and> (case r of None \<Rightarrow> True | Some (out, p, tick) \<Rightarrow>
        \<exists>ls. legs ts (cp_tick_spacing pool) zero_for_one (cp_liquidity pool) (val (cp_sqrt_price_x96 pool)) ls (val p)
          \<and> legs_in ls \<le> amount \<and> out = min (legs_out ls) u128_max \<and> 0 < out
          \<and> (legs_in ls = amount \<or> p = swap_price_limit zero_for_one \<or> length ls = MAX_ITERATIONS)
          \<and> price_at p tick \<and> in_limit zero_for_one (cp_sqrt_price_x96 pool) p)"
  by (rule simulate_swap_legs [OF assms])

definition sample_clmm_pool :: clmm_pool where
  "sample_clmm_pool = \<lparr>cp_sqrt_price_x96 = the (sqrt_ratio_at_tick 180), cp_tick = 180,
     cp_liquidity = 1000000, cp_fee_bps = 30, cp_tick_spacing = 60, cp_token0 = ''A'', cp_token1 = ''B''\<rparr>"

lemma sample_pool_ok: "pool_ok sample_clmm_pool sample_store"
proof -
  have r: "MIN_TICK \<le> 180" "(180::int) \<le> MAX_TICK" by (simp_all add: MIN_TICK_def MAX_TICK_def)
  obtain p where p: "sqrt_ratio_at_tick 180 = Some p" "val p = sqrt_price_nat 180"
    using sqrt_ratio_at_tick_val [OF r] by blast
  have "sqrt_price_nat MIN_TICK < val p" "val p < sqrt_price_nat MAX_TICK"
    unfolding p(2) by (rule sqrt_price_less; simp add: MIN_TICK_def MAX_TICK_def)+
  then have lim: "MIN_SQRT_RATIO < val p" "val p < val MAX_SQRT_RATIO" by (simp_all add: sqrt_price_limits)
  have at: "price_at p 180"
    using sqrt_price_le [of 180 181] r by (simp add: price_at_def p(2) MAX_TICK_def)
  have "nets_ok sample_store" by (simp add: nets_ok_def sample_store_def sample_chunk_def list_all_length)
  then show ?thesis
    using lim at sample_store_ok
    by (simp add: pool_ok_def sample_clmm_pool_def p(1) u128_max_def FEE_DENOMINATOR_def sample_store_def)
qed

lemma sample_amount_fits: "amount_fits sample_clmm_pool z 1000"
proof -
  have "val (cp_sqrt_price_x96 sample_clmm_pool) < 2 ^ 160"
    using sample_pool_ok max_sqrt_ratio_bound unfolding pool_ok_def by linarith
  then show ?thesis by (simp add: amount_fits_def u128_max_def)
qed

theorem simulate_swap_follows_ticks_witness:
  "\<exists>r. simulate_swap sample_clmm_pool sample_store 1000 True = Some r"
  using simulate_swap_follows_ticks [OF sample_pool_ok sample_amount_fits, of True] by blast

text \<open>What one leg pays, at the prices at its ends.\<close>

lemma leg_value:
  assumes "leg_ok z c (L, n, i, f, out)" "0 < n" "0 < c"
  shows "if z then out * 2 ^ 192 \<le> i * (c * n) else out * (c * n) \<le> i * 2 ^ 192"
proof (cases "L = 0")
  case True
  then show ?thesis using assms(1) by simp
next
  case False
  have le: "unwrap_or (u128_opt v) 0 \<le> v" for v by (simp add: u128_opt_def unwrap_or_def)
  show ?thesis
  proof (cases z)
    case True
    define q where "q = ceil_div (L * 2 ^ 96 * (c - n)) c"
    have i: "i = ceil_div q n" and out: "out \<le> L * (c - n) div 2 ^ 96"
      using assms(1) False True le [of "L * (c - n) div 2 ^ 96"]
      by (simp_all add: dir_in_def dir_out_def amount0_nat_def amount1_nat_def rounded_div_def q_def)
    have "out * 2 ^ 96 \<le> L * (c - n)"
      using mult_le_mono1 [OF out, of "2 ^ 96"] div_times_less_eq_dividend [of "L * (c - n)" "2 ^ 96"] by linarith
    then have "out * 2 ^ 96 * 2 ^ 96 \<le> L * (c - n) * 2 ^ 96" by (rule mult_le_mono1)
    then have "out * 2 ^ 192 \<le> L * 2 ^ 96 * (c - n)" by simp
    also have "\<dots> \<le> q * c" unfolding q_def by (rule ceil_div_ge [OF assms(3)])
    also have "\<dots> \<le> i * n * c" unfolding i by (rule mult_le_mono1 [OF ceil_div_ge [OF assms(2)]])
    finally show ?thesis using True by (simp add: ac_simps)
  next
    case F: False
    define q where "q = L * 2 ^ 96 * (n - c) div n"
    have i: "i = ceil_div (L * (n - c)) (2 ^ 96)" and out: "out \<le> q div c"
      using assms(1) False F le [of "q div c"]
      by (simp_all add: dir_in_def dir_out_def amount0_nat_def amount1_nat_def rounded_div_def q_def)
    have "out * c \<le> q"
      using mult_le_mono1 [OF out, of c] div_times_less_eq_dividend [of q c] by linarith
    then have "out * c * n \<le> q * n" by (rule mult_le_mono1)
    also have "\<dots> \<le> L * (n - c) * 2 ^ 96"
      using div_times_less_eq_dividend [of "L * 2 ^ 96 * (n - c)" n] by (simp add: q_def ac_simps)
    also have "\<dots> \<le> i * 2 ^ 96 * 2 ^ 96"
      unfolding i by (intro mult_le_mono1 ceil_div_ge) simp
    finally show ?thesis using F by (simp add: ac_simps)
  qed
qed

lemma legs_direction: "legs ts spacing z L c ls p \<Longrightarrow> if z then p \<le> c else c \<le> p"
proof (induction ls arbitrary: L c)
  case Nil
  then show ?case by simp
next
  case (Cons l ls)
  obtain L' n i f out where l: "l = (L', n, i, f, out)" by (cases l) auto
  from Cons.prems obtain L1 where leg: "leg_ok z c (L, n, i, f, out)" "legs ts spacing z L1 n ls p"
    unfolding l legs.simps by blast
  from leg(1) have "if z then n \<le> c else c \<le> n" by simp
  with Cons.IH [OF leg(2)] show ?case by (cases z) simp_all
qed

lemma legs_value:
  assumes "0 < p"
  shows "legs ts spacing z L c ls p \<Longrightarrow> 0 < c \<Longrightarrow> (if z then c \<le> P else P \<le> c) \<Longrightarrow>
    if z then legs_out ls * 2 ^ 192 \<le> legs_in ls * (P * P) else legs_out ls * (P * P) \<le> legs_in ls * 2 ^ 192"
proof (induction ls arbitrary: L c)
  case Nil
  then show ?case by simp
next
  case (Cons l ls)
  obtain L' n i f out where l: "l = (L', n, i, f, out)" by (cases l) auto
  from Cons.prems(1) obtain L1 where leg: "leg_ok z c (L, n, i, f, out)" "legs ts spacing z L1 n ls p"
    unfolding l legs.simps by blast
  have n: "if z then n \<le> c else c \<le> n" using leg(1) by simp
  have pos: "0 < n" using n legs_direction [OF leg(2)] assms Cons.prems(2) by (cases z) simp_all
  have "if z then n \<le> P else P \<le> n" using n Cons.prems(3) by (cases z) simp_all
  note IH = Cons.IH [OF leg(2) pos this]
  note v = leg_value [OF leg(1) pos Cons.prems(2)]
  show ?case
  proof (cases z)
    case True
    have "i * (c * n) \<le> i * (P * P)" using True Cons.prems(3) n by (intro mult_le_mono2 mult_le_mono) simp_all
    also have "\<dots> \<le> (i + f) * (P * P)" by (rule mult_le_mono1) simp
    finally have "out * 2 ^ 192 \<le> (i + f) * (P * P)" using v True by simp
    then show ?thesis using IH True unfolding l legs_sums distrib_right by simp
  next
    case False
    have "out * (P * P) \<le> out * (c * n)" using False Cons.prems(3) n by (intro mult_le_mono2 mult_le_mono) simp_all
    also have "\<dots> \<le> i * 2 ^ 192" using v False by simp
    also have "\<dots> \<le> (i + f) * 2 ^ 192" by (rule mult_le_mono1) simp
    finally show ?thesis using IH False unfolding l legs_sums distrib_right by simp
  qed
qed

text \<open>C13: \<open>simulate_swap\<close> never quotes better than the spot price: with the square-root price \<open>P\<close>
  of the pool in 96 fractional bits, a swap of token 0 for token 1 pays at most \<open>amount * P^2 / 2^192\<close>
  and does not raise the price, and one of token 1 for token 0 pays at most \<open>amount * 2^192 / P^2\<close> and
  does not lower it: no step of any leg rounds in the user's favour.\<close>

theorem simulate_swap_below_spot:
  assumes "pool_ok pool ts" "amount_fits pool zero_for_one amount"
  defines "P \<equiv> val (cp_sqrt_price_x96 pool)"
  shows "case simulate_swap pool ts amount zero_for_one of
      None \<Rightarrow> False
    | Some None \<Rightarrow> True
    | Some (Some (out, p, tick)) \<Rightarrow>
        (if zero_for_one then out * 2 ^ 192 \<le> amount * (P * P) \<and> val p \<le> P
         else out * (P * P) \<le> amount * 2 ^ 192 \<and> P \<le> val p)"
proof -
  have "if zero_for_one then out * 2 ^ 192 \<le> amount * (P * P) \<and> val p \<le> P
      else out * (P * P) \<le> amount * 2 ^ 192 \<and> P \<le> val p"
    if r: "simulate_swap pool ts amount zero_for_one = Some (Some (out, p, tick))" for out p tick
  proof -
    obtain ls where ls: "legs ts (cp_tick_spacing pool) zero_for_one (cp_liquidity pool) P ls (val p)"
      "legs_in ls \<le> amount" "out \<le> legs_out ls" "in_limit zero_for_one (cp_sqrt_price_x96 pool) p"
      using simulate_swap_legs [OF assms(1,2)] r by (auto simp: P_def)
    have pos: "0 < P" "0 < val p"
      using assms(1) in_limit_range(1) [OF assms(1) ls(4)] by (simp_all add: pool_ok_def P_def)
    have v: "if zero_for_one then legs_out ls * 2 ^ 192 \<le> legs_in ls * (P * P)
        else legs_out ls * (P * P) \<le> legs_in ls * 2 ^ 192"
      by (rule legs_value [OF pos(2) ls(1) pos(1)]) simp
    show ?thesis
    proof (cases zero_for_one)
      case True
      have "out * 2 ^ 192 \<le> legs_out ls * 2 ^ 192" by (rule mult_le_mono1 [OF ls(3)])
      also have "\<dots> \<le> legs_in ls * (P * P)" using v True by simp
      also have "\<dots> \<le> amount * (P * P)" by (rule mult_le_mono1 [OF ls(2)])
      finally show ?thesis using legs_direction [OF ls(1)] True by simp
    next
      case False
      have "out * (P * P) \<le> legs_out ls * (P * P)" by (rule mult_le_mono1 [OF ls(3)])
      also have "\<dots> \<le> legs_in ls * 2 ^ 192" using v False by simp
      also have "\<dots> \<le> amount * 2 ^ 192" by (rule mult_le_mono1 [OF ls(2)])
      finally show ?thesis using legs_direction [OF ls(1)] False by simp
    qed
  qed
  then show ?thesis using simulate_swap_legs [OF assms(1,2)] by (force split: option.splits)
qed

theorem simulate_swap_below_spot_witness:
  "case simulate_swap sample_clmm_pool sample_store 1000 False of
     None \<Rightarrow> False
   | Some None \<Rightarrow> True
   | Some (Some (out, p, tick)) \<Rightarrow>
       out * (sqrt_price_nat 180 * sqrt_price_nat 180) \<le> 1000 * 2 ^ 192"
proof -
  have "val (cp_sqrt_price_x96 sample_clmm_pool) = sqrt_price_nat 180"
    using sqrt_ratio_at_tick_val [of 180] by (auto simp: sample_clmm_pool_def MIN_TICK_def MAX_TICK_def)
  then show ?thesis
    using simulate_swap_below_spot [OF sample_pool_ok sample_amount_fits, of False]
    by (simp split: option.splits prod.splits)
qed

section \<open>A price that wraps\<close>

text \<open>The bound on \<open>amount * price\<close> is needed: \<open>get_next_sqrt_price_from_input\<close> multiplies the
  amount by the price modulo \<open>2 ^ 256\<close> with no fallback, so near the upper end of the price range
  adding \<open>2 ^ 97\<close> units of token 0 leaves the price where it is for any liquidity, and panics on a
  zero denominator for another price of the range.\<close>

lemma next_price_product_wraps:
  "(let p = U256 0 0 (2 ^ 31) 0; q = U256 0 (3 * 2 ^ 62) (2 ^ 31 - 1) 0 in
     val p < val MAX_SQRT_RATIO \<and> val q < val MAX_SQRT_RATIO
     \<and> get_next_sqrt_price_from_input p (10 ^ 12) (2 ^ 97) True = Some p
     \<and> get_next_sqrt_price_from_input q (2 ^ 127) (2 ^ 97) True = None)"
proof -
  define p q where "p = U256 0 0 (2 ^ 31) 0" and "q = U256 0 (3 * 2 ^ 62) (2 ^ 31 - 1) 0"
  define a where "a = from_u128 (2 ^ 97)"
  define n m where "n = wrapping_mul (from_u128 (10 ^ 12)) Q96_U256" and "m = wrapping_mul (from_u128 (2 ^ 127)) Q96_U256"
  have v: "val p = 2 ^ 159" "val q = 2 ^ 159 - 2 ^ 126" by (simp_all add: p_def q_def)
  have amt: "val a = 2 ^ 97" unfolding a_def by (rule val_from_u128) (simp add: u128_max_def)
  have num: "val n = 10 ^ 12 * 2 ^ 96" "val m = 2 ^ 127 * 2 ^ 96"
    unfolding n_def m_def by (rule liq_shifted(1); simp add: u128_max_def)+
  have d: "val (wrapping_add n (wrapping_mul a p)) = 10 ^ 12 * 2 ^ 96"
    "val (wrapping_add m (wrapping_mul a q)) = 0"
    by (simp_all add: val_wrapping_add num val_wrapping_mul amt v)
  obtain w where w: "mul_div_ceil n p (wrapping_add n (wrapping_mul a p)) = Some w" "val w = 2 ^ 159"
    using mul_div_rounded [where up = True, of "wrapping_add n (wrapping_mul a p)" n p]
    unfolding d(1) num v by (auto simp: rounded_div_def ceil_div_def)
  have next_eq: "get_next_sqrt_price_from_input x (10 ^ 12) (2 ^ 97) True
      = mul_div_ceil n x (wrapping_add n (wrapping_mul a x))"
    "get_next_sqrt_price_from_input x (2 ^ 127) (2 ^ 97) True
      = mul_div_ceil m x (wrapping_add m (wrapping_mul a x))" for x
    by (simp_all add: get_next_sqrt_price_from_input_def get_next_sqrt_price_from_amount0_def Let_def n_def m_def a_def)
  have "get_next_sqrt_price_from_input p (10 ^ 12) (2 ^ 97) True = Some p"
    unfolding next_eq w(1) using w(2) v(1) by (simp add: val_inject [symmetric])
  moreover have "get_next_sqrt_price_from_input q (2 ^ 127) (2 ^ 97) True = None"
    unfolding next_eq mul_div_ceil_def mul_div_internal_None by (rule d(2))
  moreover have "val p < val MAX_SQRT_RATIO" "val q < val MAX_SQRT_RATIO"
    by (simp_all add: v MAX_SQRT_RATIO_def)
  ultimately show ?thesis unfolding Let_def p_def q_def by blast
qed

end
