(* ===== verification/Stable_Math.thy ===== *)
theory Stable_Math
  imports Dex_Prelude
begin

text \<open>
  \<open>crates/dex-adapters/src/stable_math.rs\<close>: the StableSwap invariant of the Aquarius stable pools
  with its two Newton iterations of at most 255 rounds. \<open>u128\<close> values are naturals; a plain
  \<open>+\<close>, \<open>-\<close>, \<open>*\<close> or \<open>/\<close> that would panic makes the result \<open>None\<close>. The lemmas show that
  the iteration for \<open>y\<close> never panics and never ends below the exact root, so that a swap never pays
  more than the invariant allows.
\<close>

definition STABLE_FEE_DENOMINATOR :: nat where "STABLE_FEE_DENOMINATOR = 10000"

definition stable_mul_div :: "nat \<Rightarrow> nat \<Rightarrow> nat \<Rightarrow> nat option" where
  "stable_mul_div a b d =
     (if d = 0 then None else Option.bind (u128_checked_mul a b) (\<lambda>v. Some (v div d)))"

definition get_or :: "nat \<Rightarrow> nat option \<Rightarrow> nat" where
  "get_or d x = (case x of Some v \<Rightarrow> v | None \<Rightarrow> d)"

record stable_pool =
  sp_reserves :: "nat list"
  sp_decimals :: "nat list"
  sp_amp :: nat
  sp_fee_bps :: nat

section \<open>Precision\<close>

definition u128_checked_pow10 :: "nat \<Rightarrow> nat option" where
  "u128_checked_pow10 k = (if 10 ^ k \<le> u128_max then Some (10 ^ k) else None)"

fun all_some :: "'a option list \<Rightarrow> 'a list option" where
  "all_some [] = Some []"
| "all_some (None # xs) = None"
| "all_some (Some x # xs) = map_option ((#) x) (all_some xs)"

definition precision_mul :: "stable_pool \<Rightarrow> nat list option" where
  "precision_mul p =
     (let max_dec = (if sp_decimals p = [] then 7 else Max (set (sp_decimals p)))
      in all_some (map (\<lambda>d. u128_checked_pow10 (max_dec - d)) (sp_decimals p)))"

definition stable_xp :: "stable_pool \<Rightarrow> nat list \<Rightarrow> nat list" where
  "stable_xp p pmul = List.map_filter (\<lambda>(r, m). u128_checked_mul r m) (zip (sp_reserves p) pmul)"

fun u128_sum :: "nat list \<Rightarrow> nat \<Rightarrow> nat option" where
  "u128_sum [] acc = Some acc"
| "u128_sum (x # xs) acc = Option.bind (u128_checked_add acc x) (u128_sum xs)"

section \<open>The invariant D\<close>

text \<open>\<open>D^(n+1) / (n^n prod)\<close>; \<open>None\<close> is the early return of zero on an empty reserve.\<close>

fun d_product :: "nat \<Rightarrow> nat \<Rightarrow> nat list \<Rightarrow> nat \<Rightarrow> nat option" where
  "d_product n d [] d_p = Some d_p"
| "d_product n d (x # xs) d_p =
     (if x = 0 then None
      else d_product n d xs (get_or u128_max (stable_mul_div d_p d (u128_saturating_mul x n))))"

definition d_newton :: "nat \<Rightarrow> nat \<Rightarrow> nat \<Rightarrow> nat \<Rightarrow> nat \<Rightarrow> nat option" where
  "d_newton ann n s d_p d =
     (let numerator = u128_saturating_mul
            (u128_saturating_add (u128_saturating_mul ann s) (u128_saturating_mul d_p n)) d;
          denominator = u128_saturating_add (u128_saturating_mul (ann - 1) d)
            (u128_saturating_mul (n + 1) d_p)
      in if denominator = 0 then None else Some (numerator div denominator))"

definition abs_diff :: "nat \<Rightarrow> nat \<Rightarrow> nat" where
  "abs_diff a b = (if a < b then b - a else a - b)"

fun d_loop :: "nat \<Rightarrow> nat \<Rightarrow> nat \<Rightarrow> nat \<Rightarrow> nat list \<Rightarrow> nat \<Rightarrow> nat" where
  "d_loop 0 ann n s xp d = d"
| "d_loop (Suc k) ann n s xp d =
     (case d_product n d xp d of
        None \<Rightarrow> 0
      | Some d_p \<Rightarrow>
          (case d_newton ann n s d_p d of
             None \<Rightarrow> d
           | Some d' \<Rightarrow> if abs_diff d' d \<le> 1 then d' else d_loop k ann n s xp d'))"

definition stable_get_d :: "stable_pool \<Rightarrow> nat list \<Rightarrow> nat option" where
  "stable_get_d p xp =
     (let n = length xp in
      Option.bind (u128_sum xp 0) (\<lambda>s.
      if s = 0 then Some 0
      else Option.bind (u128_checked_mul (sp_amp p) n) (\<lambda>ann.
        Some (d_loop 255 ann n s xp s))))"

section \<open>The balance y\<close>

text \<open>The loop over the tokens: the running \<open>c\<close> and \<open>s\<close>; \<open>Some None\<close> is the early return of
  zero, \<open>None\<close> a panic.\<close>

fun y_terms :: "nat \<Rightarrow> nat \<Rightarrow> nat list \<Rightarrow> nat \<Rightarrow> nat \<Rightarrow> nat \<Rightarrow> nat \<Rightarrow> nat \<Rightarrow> nat \<Rightarrow> (nat \<times> nat) option" where
  "y_terms in_idx out_idx [] i x n d c s = Some (c, s)"
| "y_terms in_idx out_idx (v # vs) i x n d c s =
     (if i \<noteq> in_idx \<and> i = out_idx then y_terms in_idx out_idx vs (Suc i) x n d c s
      else
        let x_i = (if i = in_idx then x else v) in
        if x_i = 0 then None
        else y_terms in_idx out_idx vs (Suc i) x n d
               (get_or 0 (stable_mul_div c d (u128_saturating_mul x_i n))) (u128_saturating_add s x_i))"

definition u128_checked_div :: "nat \<Rightarrow> nat \<Rightarrow> nat option" where
  "u128_checked_div a b = (if b = 0 then None else Some (a div b))"

text \<open>Newton for \<open>y\<close>: \<open>y = (y^2 + c) / (2 y + b - d)\<close>, evaluated left to right.\<close>

fun y_loop :: "nat \<Rightarrow> nat \<Rightarrow> nat \<Rightarrow> nat \<Rightarrow> nat \<Rightarrow> nat option" where
  "y_loop 0 b c d y = Some y"
| "y_loop (Suc k) b c d y =
     (let numerator = u128_saturating_add (u128_saturating_mul y y) c in
      Option.bind (u128_checked_mul 2 y) (\<lambda>t.
      Option.bind (u128_checked_add t b) (\<lambda>t.
      Option.bind (u128_checked_sub t d) (\<lambda>denominator.
      if denominator = 0 then Some y
      else
        let y' = numerator div denominator in
        if abs_diff y' y \<le> 1 then Some y' else y_loop k b c d y'))))"

text \<open>The coefficients \<open>b\<close>, \<open>c\<close> and the invariant \<open>d\<close> of the loop, before it starts:
  \<open>None\<close> is a panic, \<open>Some None\<close> the early return of zero.\<close>

definition y_coeffs ::
  "stable_pool \<Rightarrow> nat \<Rightarrow> nat \<Rightarrow> nat \<Rightarrow> nat list \<Rightarrow> (nat \<times> nat \<times> nat) option option" where
  "y_coeffs p in_idx out_idx x xp =
     (let n = length xp in
      Option.bind (stable_get_d p xp) (\<lambda>d.
      Option.bind (u128_checked_mul (sp_amp p) n) (\<lambda>ann.
      case y_terms in_idx out_idx xp 0 x n d d 0 of
        None \<Rightarrow> Some None
      | Some (c0, s) \<Rightarrow>
          let c = get_or 0 (stable_mul_div c0 d (u128_saturating_mul ann n)) in
          Option.bind (u128_checked_div d ann) (\<lambda>q.
          Option.bind (u128_checked_add s q) (\<lambda>b. Some (Some (b, c, d)))))))"

definition stable_get_y :: "stable_pool \<Rightarrow> nat \<Rightarrow> nat \<Rightarrow> nat \<Rightarrow> nat list \<Rightarrow> nat option" where
  "stable_get_y p in_idx out_idx x xp =
     Option.bind (y_coeffs p in_idx out_idx x xp) (\<lambda>r.
     case r of None \<Rightarrow> Some 0 | Some (b, c, d) \<Rightarrow> y_loop 255 b c d d)"

definition stable_get_dy :: "stable_pool \<Rightarrow> nat \<Rightarrow> nat \<Rightarrow> nat \<Rightarrow> nat option" where
  "stable_get_dy p i j dx =
     (if i = j \<or> i \<ge> length (sp_reserves p) \<or> j \<ge> length (sp_reserves p) then Some 0
      else if dx = 0 then Some 0
      else
        Option.bind (precision_mul p) (\<lambda>pmul.
        let xp = stable_xp p pmul in
        if length xp \<noteq> length (sp_reserves p) then Some 0
        else
          Option.bind (u128_checked_mul dx (sp_fee_bps p)) (\<lambda>t.
          Option.bind (u128_checked_add t STABLE_FEE_DENOMINATOR) (\<lambda>t.
          let dx_fee = (t - 1) div STABLE_FEE_DENOMINATOR in
          Option.bind (u128_checked_sub dx dx_fee) (\<lambda>dx_after_fee.
          let scaled_in = get_or 0 (u128_checked_mul dx_after_fee (pmul ! i));
              x = u128_saturating_add (xp ! i) scaled_in in
          Option.bind (stable_get_y p i j x xp) (\<lambda>y.
          if y = 0 \<or> xp ! j \<le> y then Some 0
          else Some ((xp ! j - y - 1) div (pmul ! j))))))))"


section \<open>Newton for y ends at the root\<close>

text \<open>The integers at or below the positive root of \<open>y^2 + (b - d) y = c\<close>, and the last of them.\<close>

definition below_root :: "nat \<Rightarrow> nat \<Rightarrow> nat \<Rightarrow> nat \<Rightarrow> bool" where
  "below_root b c d z \<longleftrightarrow> z * z + b * z \<le> c + d * z"

definition is_root :: "nat \<Rightarrow> nat \<Rightarrow> nat \<Rightarrow> nat \<Rightarrow> bool" where
  "is_root b c d z \<longleftrightarrow> below_root b c d z \<and> \<not> below_root b c d (Suc z)"

text \<open>An upper bound of all rounds, and the condition under which none of them saturates or leaves
  128 bits.\<close>

definition y_bound :: "nat \<Rightarrow> nat \<Rightarrow> nat \<Rightarrow> nat" where
  "y_bound b c d = d + c div (d + b) + 1"

definition y_fits :: "nat \<Rightarrow> nat \<Rightarrow> nat \<Rightarrow> bool" where
  "y_fits b c d \<longleftrightarrow> 0 < d + b \<and> y_bound b c d * y_bound b c d + c \<le> u128_max
     \<and> 2 * y_bound b c d + b \<le> u128_max"

lemma below_root_int:
  "below_root b c d z \<longleftrightarrow> int z * int z + int b * int z \<le> int c + int d * int z"
  unfolding below_root_def by (simp only: of_nat_le_iff flip: of_nat_add of_nat_mult)

lemma is_root_exists: "\<exists>r. is_root b c d r"
proof -
  let ?n = "c + d + 1"
  have "c + d * ?n < ?n * ?n + b * ?n" by (simp add: algebra_simps)
  then have "\<not> below_root b c d ?n" by (simp add: below_root_def)
  moreover have "below_root b c d 0" by (simp add: below_root_def)
  ultimately have "\<exists>k<?n. (\<forall>i\<le>k. below_root b c d i) \<and> \<not> below_root b c d (Suc k)"
    using ex_least_nat_less [of "\<lambda>z. \<not> below_root b c d z" ?n] by blast
  then show ?thesis by (auto simp: is_root_def)
qed

lemma slope_above_root:
  assumes "is_root b c d r" "int r + 1 \<le> z"
  shows "int c + 1 \<le> z * (z + int b - int d)" "1 \<le> z + int b - int d"
proof -
  let ?s = "int r + 1"
  have "int c < ?s * ?s + int b * ?s - int d * ?s"
    using assms(1) unfolding is_root_def below_root_int by (simp add: algebra_simps)
  then have s: "int c < ?s * (?s + int b - int d)" by (simp add: algebra_simps)
  have "0 < ?s + int b - int d"
  proof (rule ccontr)
    assume "\<not> 0 < ?s + int b - int d"
    then have "?s * (?s + int b - int d) \<le> 0" by (intro mult_nonneg_nonpos) simp_all
    with s show False by simp
  qed
  then show "1 \<le> z + int b - int d" using assms(2) by linarith
  have "?s * (?s + int b - int d) \<le> z * (z + int b - int d)"
    using assms(2) \<open>0 < ?s + int b - int d\<close> by (intro mult_mono) simp_all
  with s show "int c + 1 \<le> z * (z + int b - int d)" by linarith
qed

lemma below_root_le:
  assumes "is_root b c d r" "below_root b c d z"
  shows "z \<le> r"
proof (rule ccontr)
  assume "\<not> z \<le> r"
  then have "int c + 1 \<le> int z * (int z + int b - int d)"
    by (intro slope_above_root(1) [OF assms(1)]) simp
  with assms(2) show False unfolding below_root_int by (simp add: algebra_simps)
qed

lemma root_at_least_gap:
  assumes "is_root b c d r"
  shows "d \<le> b + r"
proof (cases "b \<le> d")
  case True
  then obtain e where e: "d = b + e" using le_Suc_ex by blast
  have "below_root b c d (d - b)" unfolding below_root_def e by (simp add: algebra_simps)
  with below_root_le [OF assms this] show ?thesis by simp
qed simp

lemma y_step_ge:
  assumes "below_root b c d z" "0 < 2 * y + b - d" "d \<le> 2 * y + b"
  shows "z \<le> (y * y + c) div (2 * y + b - d)"
proof -
  have "int z * (2 * int y + int b - int d) \<le> int y * int y + int c"
  proof -
    have "0 \<le> (int y - int z) * (int y - int z)" by simp
    moreover have "int z * int z + int b * int z \<le> int c + int d * int z"
      using assms(1) unfolding below_root_int .
    ultimately show ?thesis by (simp add: algebra_simps)
  qed
  then have "int (z * (2 * y + b - d)) \<le> int (y * y + c)"
    using assms(3) by (simp add: of_nat_diff)
  then have "z * (2 * y + b - d) \<le> y * y + c" by linarith
  with assms(2) show ?thesis by (simp add: less_eq_div_iff_mult_less_eq)
qed

text \<open>The distance to the integer after the root at least halves in every round.\<close>

lemma y_step_halves:
  assumes "is_root b c d r" "r \<le> y" "0 < 2 * y + b - d" "d \<le> 2 * y + b"
  shows "(y * y + c) div (2 * y + b - d) \<le> Suc r + (y - Suc r) div 2"
proof -
  let ?D = "2 * y + b - d" and ?h = "(y - Suc r) div 2"
  define s e where "s = int r + 1" and "e = int y - s"
  have D: "int ?D = 2 * e + (2 * s + int b - int d)" using assms(4) by (simp add: of_nat_diff e_def)
  have c: "int c + 1 \<le> s * (s + int b - int d)" and q: "1 \<le> s + int b - int d"
    using slope_above_root [OF assms(1), of s] by (simp_all add: s_def)
  have "int y * int y + int c + 1 \<le> s * int ?D + e * e"
  proof -
    have y: "int y = s + e" by (simp add: e_def)
    show ?thesis unfolding D y using c by (simp add: algebra_simps)
  qed
  moreover have "e * e \<le> (int ?h + 1) * int ?D"
  proof (cases "y = r")
    case True
    then have "e = - 1" by (simp add: e_def s_def)
    moreover have "?h = 0" using True by simp
    moreover have "1 \<le> int ?D" using assms(3) by linarith
    ultimately show ?thesis by (simp del: of_nat_diff)
  next
    case False
    with assms(2) have e: "int (y - Suc r) = e" "0 \<le> e" by (simp_all add: e_def s_def)
    then have h: "e \<le> 2 * int ?h + 1" by linarith
    have "2 * e \<le> int ?D" using D q assms(1) e(2) by (simp add: s_def)
    then have "(2 * e) * e \<le> int ?D * (2 * int ?h + 1)" using h e(2) by (intro mult_mono) simp_all
    then have "2 * (e * e) \<le> 2 * ((int ?h + 1) * int ?D)" by (simp add: algebra_simps)
    then show ?thesis by linarith
  qed
  ultimately have "int y * int y + int c < (s + int ?h + 1) * int ?D" by (simp add: distrib_right)
  then have "int (y * y + c) < int ((Suc r + ?h + 1) * ?D)"
    by (simp only: of_nat_add of_nat_mult of_nat_Suc s_def of_nat_1) (simp only: ac_simps)
  then have "y * y + c < (Suc r + ?h + 1) * ?D" by (simp only: of_nat_less_iff)
  then have "(y * y + c) div ?D < Suc r + ?h + 1" by (rule less_mult_imp_div_less)
  then show ?thesis by simp
qed

lemma y_loop_step:
  assumes "y_fits b c d" "y \<le> y_bound b c d" "d \<le> 2 * y + b"
  shows "y_loop (Suc k) b c d y =
    (if 2 * y + b - d = 0 then Some y
     else if abs_diff ((y * y + c) div (2 * y + b - d)) y \<le> 1 then Some ((y * y + c) div (2 * y + b - d))
     else y_loop k b c d ((y * y + c) div (2 * y + b - d)))"
proof -
  have fits: "y_bound b c d * y_bound b c d + c \<le> u128_max" "2 * y_bound b c d + b \<le> u128_max"
    using assms(1) by (simp_all add: y_fits_def)
  have "y * y \<le> y_bound b c d * y_bound b c d" using assms(2) by (intro mult_mono) simp_all
  with fits(1) have yc: "y * y + c \<le> u128_max" by linarith
  have sat: "u128_saturating_mul y y = y * y" "u128_saturating_add (y * y) c = y * y + c"
    using yc by (simp_all add: u128_saturating_mul_def u128_saturating_add_def)
  have chk: "u128_checked_mul 2 y = Some (2 * y)" "u128_checked_add (2 * y) b = Some (2 * y + b)"
    "u128_checked_sub (2 * y + b) d = Some (2 * y + b - d)"
    using assms(2,3) fits(2) by (simp_all add: u128_checked_mul_def u128_checked_add_def u128_checked_sub_def)
  show ?thesis unfolding y_loop.simps Let_def sat chk bind.simps ..
qed

lemma y_loop_near_root:
  assumes "y_fits b c d" "is_root b c d r" "r < y_bound b c d" "r \<le> y" "y \<le> y_bound b c d" "y < Suc r + 2 ^ k"
  shows "\<exists>v. y_loop k b c d y = Some v \<and> r \<le> v \<and> v \<le> r + 2"
  using assms(4-)
proof (induction k arbitrary: y)
  case 0
  then show ?case by simp
next
  case (Suc k)
  let ?D = "2 * y + b - d" and ?y = "(y * y + c) div (2 * y + b - d)"
  have gap: "d \<le> 2 * y + b" "d \<le> b + r" using root_at_least_gap [OF assms(2)] Suc.prems(1) by linarith+
  note step = y_loop_step [OF assms(1) Suc.prems(2) gap(1)]
  show ?case
  proof (cases "?D = 0")
    case True
    with gap Suc.prems(1) have "y = r" "r = 0" by linarith+
    then show ?thesis using step True by simp
  next
    case False
    then have pos: "0 < ?D" by simp
    have ge: "r \<le> ?y" using y_step_ge [OF _ pos gap(1)] assms(2) by (simp add: is_root_def)
    have half: "?y \<le> Suc r + (y - Suc r) div 2"
      by (rule y_step_halves [OF assms(2) Suc.prems(1) pos gap(1)])
    show ?thesis
    proof (cases "abs_diff ?y y \<le> 1")
      case True
      then have "y \<le> ?y + 1" by (simp add: abs_diff_def split: if_splits)
      then have "?y \<le> r + 2" using half by linarith
      with ge step False True show ?thesis by simp
    next
      case far: False
      have "?y \<le> y_bound b c d" using half Suc.prems(2) assms(3) by linarith
      moreover have "?y < Suc r + 2 ^ k"
      proof -
        have "(0::nat) < 2 ^ k" by simp
        then have "y - Suc r < 2 ^ k * 2" using Suc.prems(3) unfolding power_Suc by linarith
        then have "(y - Suc r) div 2 < 2 ^ k" by (rule less_mult_imp_div_less)
        then show ?thesis using half by linarith
      qed
      ultimately show ?thesis using Suc.IH ge step False far by simp
    qed
  qed
qed

text \<open>From its start at \<open>d\<close>, possibly below the root, the loop ends within two of it.\<close>

lemma y_loop_root:
  assumes "y_fits b c d"
  shows "\<exists>r v. is_root b c d r \<and> y_loop 255 b c d d = Some v \<and> r \<le> v \<and> v \<le> r + 2"
proof -
  obtain r where r: "is_root b c d r" using is_root_exists by blast
  have pos: "0 < 2 * d + b - d" "d \<le> 2 * d + b" using assms by (simp_all add: y_fits_def)
  have D: "2 * d + b - d = d + b" by simp
  let ?y = "(d * d + c) div (d + b)"
  have ge: "r \<le> ?y" using y_step_ge [OF _ pos] r by (simp add: is_root_def)
  have "?y \<le> (c + d * (d + b)) div (d + b)" by (intro div_le_mono) (simp add: algebra_simps)
  also have "\<dots> = d + c div (d + b)" using assms by (simp add: y_fits_def)
  finally have le: "?y < y_bound b c d" by (simp add: y_bound_def)
  have top: "y_bound b c d < 2 ^ 128" using assms by (auto simp: y_fits_def u128_max_def)
  have step: "y_loop (Suc 254) b c d d = (if abs_diff ?y d \<le> 1 then Some ?y else y_loop 254 b c d ?y)"
  proof -
    have "d + b \<noteq> 0" using assms by (simp add: y_fits_def)
    moreover have "d \<le> y_bound b c d" by (simp add: y_bound_def)
    ultimately show ?thesis using y_loop_step [OF assms _ pos(2), of 254] unfolding D by (simp only: if_False)
  qed
  have 255: "(255::nat) = Suc 254" by simp
  have "\<exists>v. y_loop 255 b c d d = Some v \<and> r \<le> v \<and> v \<le> r + 2"
  proof (cases "abs_diff ?y d \<le> 1")
    case True
    show ?thesis
    proof (cases "r \<le> d")
      case True
      have "?y \<le> Suc r + (d - Suc r) div 2" using y_step_halves [OF r True pos] by (simp only: D)
      moreover have "d \<le> ?y + 1" using \<open>abs_diff ?y d \<le> 1\<close> by (simp add: abs_diff_def split: if_splits)
      ultimately have "?y \<le> r + 2" by linarith
      with ge step \<open>abs_diff ?y d \<le> 1\<close> show ?thesis unfolding 255 by simp
    next
      case False
      moreover have "?y \<le> d + 1" using \<open>abs_diff ?y d \<le> 1\<close> by (simp add: abs_diff_def split: if_splits)
      ultimately show ?thesis unfolding 255 using ge step \<open>abs_diff ?y d \<le> 1\<close> by simp
    qed
  next
    case False
    have "\<exists>v. y_loop 254 b c d ?y = Some v \<and> r \<le> v \<and> v \<le> r + 2"
    proof (rule y_loop_near_root [OF assms r _ ge])
      show "r < y_bound b c d" "?y \<le> y_bound b c d" using ge le by simp_all
      have "(2::nat) ^ 128 \<le> 2 ^ 254" by (rule power_increasing) simp_all
      then show "?y < Suc r + 2 ^ 254" using le top by linarith
    qed
    then show ?thesis unfolding 255 using step False by simp
  qed
  with r show ?thesis by blast
qed

section \<open>A balanced pool\<close>

lemma d_product_balanced:
  assumes "0 < x" "0 < n" "n * x = d" "d * d \<le> u128_max" "list_all (\<lambda>v. v = x) xs"
  shows "d_product n d xs d = Some d"
  using assms(5)
proof (induction xs)
  case (Cons v vs)
  have "x * n = d" using assms(3) by (simp add: mult.commute)
  moreover have "0 < d" using assms(1-3) by auto
  moreover have "d \<le> u128_max" using assms(4) \<open>0 < d\<close> by (metis le_square le_trans)
  ultimately have "get_or u128_max (stable_mul_div d d (u128_saturating_mul x n)) = d"
    using assms(4) by (simp add: stable_mul_div_def u128_saturating_mul_def u128_checked_mul_def get_or_def min_def)
  with Cons assms(1) show ?case by simp
qed simp

text \<open>\<open>D\<close> of a balanced pool is its sum, found in the first round.\<close>

lemma d_newton_balanced:
  assumes "0 < ann" "0 < n" "0 < d" "(ann + n) * d * d \<le> u128_max"
  shows "d_newton ann n d d d = Some d"
proof -
  have d1: "(ann + n) * d \<le> (ann + n) * d * d" using assms(3) by simp
  have le: "ann * d \<le> u128_max" "d * n \<le> u128_max" "ann * d + d * n \<le> u128_max"
    "(ann - 1) * d \<le> u128_max" "(n + 1) * d \<le> u128_max"
  proof -
    have t: "ann * d + d * n = (ann + n) * d" by (simp add: algebra_simps)
    then show "ann * d + d * n \<le> u128_max" using d1 assms(4) by linarith
    then show "ann * d \<le> u128_max" "d * n \<le> u128_max" by linarith+
    have "(ann - 1) * d \<le> ann * d" by simp
    then show "(ann - 1) * d \<le> u128_max" using \<open>ann * d \<le> u128_max\<close> by linarith
    have "(n + 1) * d \<le> (ann + n) * d" using assms(1) by (intro mult_right_mono) simp_all
    then show "(n + 1) * d \<le> u128_max" using d1 assms(4) by linarith
  qed
  have den: "(ann - 1) * d + (n + 1) * d = (ann + n) * d"
    using assms(1) by (cases ann) (simp_all add: algebra_simps)
  have num: "(ann * d + d * n) * d = (ann + n) * d * d" by (simp add: algebra_simps)
  have dle: "(ann + n) * d \<le> u128_max" using d1 assms(4) by linarith
  have "u128_saturating_mul (u128_saturating_add (u128_saturating_mul ann d) (u128_saturating_mul d n)) d
      = (ann + n) * d * d"
    unfolding u128_saturating_mul_def u128_saturating_add_def
    by (simp only: min.absorb1 le num assms(4))
  moreover have "u128_saturating_add (u128_saturating_mul (ann - 1) d) (u128_saturating_mul (n + 1) d)
      = (ann + n) * d"
    using le(4,5) den dle by (simp add: u128_saturating_mul_def u128_saturating_add_def min_def)
  moreover have "(ann + n) * d \<noteq> 0" "(ann + n) * d * d div ((ann + n) * d) = d"
    using assms(1-3) by simp_all
  ultimately show ?thesis unfolding d_newton_def Let_def by (simp only: if_False)
qed

lemma u128_sum_replicate:
  "acc + k * x \<le> u128_max \<Longrightarrow> u128_sum (replicate k x) acc = Some (acc + k * x)"
  by (induction k arbitrary: acc) (simp_all add: u128_checked_add_def algebra_simps)

lemma stable_get_d_balanced:
  assumes "0 < x" "0 < n" "0 < sp_amp p" "(sp_amp p * n + n) * (n * x) * (n * x) \<le> u128_max"
  shows "stable_get_d p (replicate n x) = Some (n * x)"
proof -
  let ?d = "n * x" and ?ann = "sp_amp p * n"
  have d: "0 < ?d" and ann: "0 < ?ann" using assms by simp_all
  have one: "1 \<le> ?d * ?d" "1 \<le> ?ann + n" using d assms(2) by (simp_all add: Suc_le_eq)
  have top: "(?ann + n) * (?d * ?d) \<le> u128_max" using assms(4) by (simp only: mult.assoc)
  have "(?ann + n) * 1 \<le> u128_max" by (rule le_trans [OF mult_le_mono2 [OF one(1)] top])
  then have "?ann + n \<le> u128_max" by (simp only: mult_1_right)
  then have b1: "?ann \<le> u128_max" by (rule add_leD1)
  have "1 * (?d * ?d) \<le> u128_max" by (rule le_trans [OF mult_le_mono1 [OF one(2)] top])
  then have b2: "?d * ?d \<le> u128_max" by (simp only: mult_1_left)
  note b = b1 b2
  from b(2) have dle: "?d \<le> u128_max" using le_square [of ?d] by linarith
  have s: "u128_sum (replicate n x) 0 = Some ?d" using dle u128_sum_replicate [of 0 n x] by simp
  have a: "u128_checked_mul (sp_amp p) n = Some ?ann" using b(1) by (simp add: u128_checked_mul_def)
  have prod: "d_product n ?d (replicate n x) ?d = Some ?d"
    using assms(1,2) b(2) by (intro d_product_balanced) (simp_all add: list_all_iff)
  have newton: "d_newton ?ann n ?d ?d ?d = Some ?d"
    using d_newton_balanced [OF ann assms(2) d assms(4)] .
  have "d_loop (Suc 254) ?ann n ?d (replicate n x) ?d = ?d"
    unfolding d_loop.simps prod newton option.case by (simp add: abs_diff_def)
  then have "d_loop 255 ?ann n ?d (replicate n x) ?d = ?d" by (simp only: eval_nat_numeral(2) flip: numeral_eq_Suc) simp
  with s a d show ?thesis by (simp add: stable_get_d_def Let_def)
qed

section \<open>Evaluation\<close>

text \<open>Rules that let the simplifier run the loops on numbers: arguments first, one round at a time.\<close>

lemma bind_weak: "m = m' \<Longrightarrow> Option.bind m f = Option.bind m' f" by simp
lemma let_weak: "m = m' \<Longrightarrow> Let m f = Let m' f" by simp

definition d_round :: "nat \<Rightarrow> nat \<Rightarrow> nat \<Rightarrow> nat list \<Rightarrow> nat \<Rightarrow> nat option" where
  "d_round ann n s xp d =
     Option.bind (d_product n d xp d) (\<lambda>d_p. Option.bind (d_newton ann n s d_p d) (\<lambda>d'.
     if abs_diff d' d \<le> 1 then None else Some d'))"

fun d_rounds :: "nat \<Rightarrow> nat \<Rightarrow> nat \<Rightarrow> nat \<Rightarrow> nat list \<Rightarrow> nat \<Rightarrow> nat option" where
  "d_rounds 0 ann n s xp d = Some d"
| "d_rounds (Suc k) ann n s xp d = Option.bind (d_round ann n s xp d) (d_rounds k ann n s xp)"

lemma d_loop_round: "d_round ann n s xp d = Some d' \<Longrightarrow> d_loop (Suc k) ann n s xp d = d_loop k ann n s xp d'"
  by (auto simp: d_round_def split: option.splits if_splits)

lemma d_loop_rounds: "d_rounds k ann n s xp d = Some d' \<Longrightarrow> d_loop (k + m) ann n s xp d = d_loop m ann n s xp d'"
proof (induction k arbitrary: d)
  case (Suc k)
  from Suc.prems obtain e where e: "d_round ann n s xp d = Some e" "d_rounds k ann n s xp e = Some d'"
    by (auto split: bind_splits)
  show ?case using d_loop_round [OF e(1), of "k + m"] Suc.IH [OF e(2)] by simp
qed simp

lemma d_loop_cycle:
  assumes "d_rounds 2 ann n s xp d = Some d"
  shows "d_loop (k * 2) ann n s xp d = d"
  by (induction k) (simp_all only: mult_0 d_loop.simps(1) mult_Suc d_loop_rounds [OF assms])

lemmas stable_eval = d_rounds.simps(1) d_rounds.simps(2) [of 0, folded One_nat_def]
  d_rounds.simps(2) [of "pred_numeral k" for k, folded numeral_eq_Suc] d_round_def
  y_loop.simps(1) y_loop.simps(2) [of "pred_numeral k" for k, folded numeral_eq_Suc]
  u128_checked_add_def u128_checked_sub_def u128_checked_mul_def u128_saturating_add_def
  u128_saturating_mul_def u128_max_def stable_mul_div_def get_or_def d_newton_def abs_diff_def
  u128_checked_div_def Let_def

lemmas stable_cong = bind_weak let_weak option.case_cong_weak

end
