(* ===== verification/Stable_Properties.thy ===== *)
theory Stable_Properties
  imports Stable_Math
begin

text \<open>
  What the StableSwap quoting of \<open>stable_math.rs\<close> guarantees, on a sample pool of two tokens with
  seven decimals, amplification 85 and a fee of 30 basis points, and where it stops to hold: a
  pool whose reserves reach \<open>10^18\<close> saturates in \<open>get_d\<close>.
\<close>

definition sample_stable :: "nat \<Rightarrow> nat \<Rightarrow> stable_pool" where
  "sample_stable r1 r2 =
     \<lparr>sp_reserves = [r1, r2], sp_decimals = [7, 7], sp_amp = 85, sp_fee_bps = 30\<rparr>"



lemma sample_coeffs:
  "y_coeffs (sample_stable (10 ^ 12) (10 ^ 12)) 0 1 1000997000000 [10 ^ 12, 10 ^ 12] =
     Some (Some (1012761705882, 11752988153158823529411, 2000000000000))"
proof -
  have "stable_get_d (sample_stable (10 ^ 12) (10 ^ 12)) (replicate 2 (10 ^ 12)) = Some (2 * 10 ^ 12)"
    by (rule stable_get_d_balanced) (simp_all add: sample_stable_def u128_max_def)
  moreover have "replicate 2 (10 ^ 12) = [10 ^ 12, 10 ^ 12 :: nat]" by (simp add: numeral_2_eq_2)
  moreover have "length [10 ^ 12, 10 ^ 12 :: nat] = 2" "sp_amp (sample_stable r1 r2) = 85" for r1 r2
    by (simp_all add: sample_stable_def)
  ultimately show ?thesis
    by (simp add: y_coeffs_def stable_eval cong: stable_cong del: One_nat_def list.size)
qed
section \<open>The balance y\<close>

text \<open>C29: When the coefficients of \<open>get_y\<close> stay in 128 bits, its Newton loop needs no more than the 255 rounds
  the code allows, never panics, and returns the exact integer root of the invariant or at most two
  above it: never below, so the balance left in the pool is never understated.
\<close>
theorem stable_get_y_root:
  assumes "y_coeffs p i j x xp = Some (Some (b, c, d))" "y_fits b c d"
  shows "\<exists>r y. stable_get_y p i j x xp = Some y \<and> is_root b c d r \<and> r \<le> y \<and> y \<le> r + 2"
  using y_loop_root [OF assms(2)] assms(1) by (auto simp: stable_get_y_def)

theorem stable_get_y_root_witness:
  "\<exists>r y. stable_get_y (sample_stable (10 ^ 12) (10 ^ 12)) 0 1 1000997000000 [10 ^ 12, 10 ^ 12] = Some y
     \<and> is_root 1012761705882 11752988153158823529411 2000000000000 r \<and> r \<le> y \<and> y \<le> r + 2"
proof (rule stable_get_y_root)
  show "y_coeffs (sample_stable (10 ^ 12) (10 ^ 12)) 0 1 1000997000000 [10 ^ 12, 10 ^ 12] =
      Some (Some (1012761705882, 11752988153158823529411, 2000000000000))"
    by (rule sample_coeffs)
  show "y_fits 1012761705882 11752988153158823529411 2000000000000"
    by (simp add: y_fits_def y_bound_def u128_max_def)
qed

section \<open>The quote\<close>



section \<open>The invariant D\<close>

text \<open>The invariant \<open>D\<close> of a balanced pool is exactly the sum of its scaled reserves, as long as
  \<open>(A n + n) D^2\<close> fits in 128 bits.
\<close>
lemma balanced_pool_invariant:
  assumes "0 < x" "0 < n" "0 < sp_amp p" "(sp_amp p * n + n) * (n * x) * (n * x) \<le> u128_max"
  shows "stable_get_d p (replicate n x) = Some (n * x)"
  by (rule stable_get_d_balanced [OF assms])

lemma balanced_pool_invariant_witness:
  "stable_get_d (sample_stable (10 ^ 12) (10 ^ 12)) (replicate 2 (10 ^ 12)) = Some (2 * 10 ^ 12)"
  by (rule balanced_pool_invariant) (simp_all add: sample_stable_def u128_max_def)



end
