(* ===== verification/Token_Graph.thy ===== *)
theory Token_Graph
  imports Dex_Prelude "HOL-Library.AList"
begin

text \<open>
  \<open>crates/dex-adapters/src/traits.rs\<close> (\<open>TokenId\<close>) and \<open>crates/router-engine/src/graph.rs\<close>:
  the adjacency list of all trading pairs and the bounded breadth-first enumeration of swap paths.
  A \<open>HashMap\<close> is an association list with distinct keys, a \<open>HashSet\<close> a set; the wall
  clock of \<open>add_pair\<close> is a parameter. The lemmas show that every path is a chain of edges of the
  graph without a repeated token or pool, that the caps hold, and that nothing is missed while no cap is reached.
\<close>

section \<open>Tokens\<close>

datatype token_id = Native | Classic string string | Contract string

fun split_once :: "char \<Rightarrow> string \<Rightarrow> (string \<times> string) option" where
  "split_once c [] = None"
| "split_once c (x # xs) =
     (if x = c then Some ([], xs) else map_option (\<lambda>(a, b). (x # a, b)) (split_once c xs))"

definition from_str_auto :: "string \<Rightarrow> token_id" where
  "from_str_auto s =
     (if s = ''native'' then Native
      else case split_once (CHR '':'') s of
        Some (code, issuer) \<Rightarrow> Classic code issuer
      | None \<Rightarrow> Contract s)"

fun canonical :: "token_id \<Rightarrow> string" where
  "canonical Native = ''native''"
| "canonical (Classic code issuer) = code @ '':'' @ issuer"
| "canonical (Contract address) = address"

lemma split_once_Some: "split_once c s = Some (a, b) \<Longrightarrow> s = a @ c # b \<and> c \<notin> set a"
  by (induction s arbitrary: a) (auto split: if_splits)

lemma split_once_None: "split_once c s = None \<longleftrightarrow> c \<notin> set s"
  by (induction s) (auto split: prod.splits)

lemma split_once_append: "c \<notin> set a \<Longrightarrow> split_once c (a @ c # b) = Some (a, b)"
  by (induction a) auto

section \<open>The graph\<close>

record edge =
  ed_target :: token_id
  ed_source :: string
  ed_pool_address :: string
  ed_fee_bps :: nat
  ed_last_updated_ms :: nat

record token_graph =
  tg_adjacency :: "(string \<times> edge list) list"
  tg_tokens :: "string set"

definition tg_new :: token_graph where
  "tg_new = \<lparr>tg_adjacency = [], tg_tokens = {}\<rparr>"

text \<open>\<open>entry(key).or_default().push(edge)\<close>\<close>

definition push_edge :: "string \<Rightarrow> edge \<Rightarrow> (string \<times> edge list) list \<Rightarrow> (string \<times> edge list) list" where
  "push_edge k e adj =
     AList.update k ((case map_of adj k of Some es \<Rightarrow> es | None \<Rightarrow> []) @ [e]) adj"

definition add_pair ::
  "token_id \<Rightarrow> token_id \<Rightarrow> string \<Rightarrow> string \<Rightarrow> nat \<Rightarrow> nat \<Rightarrow> token_graph \<Rightarrow> token_graph" where
  "add_pair token_a token_b source pool_address fee_bps now g =
     (let key_a = canonical token_a;
          key_b = canonical token_b;
          edge = (\<lambda>t. \<lparr>ed_target = t, ed_source = source, ed_pool_address = pool_address,
                       ed_fee_bps = fee_bps, ed_last_updated_ms = now\<rparr>)
      in \<lparr>tg_adjacency = push_edge key_b (edge token_a) (push_edge key_a (edge token_b) (tg_adjacency g)),
          tg_tokens = insert key_b (insert key_a (tg_tokens g))\<rparr>)"

definition remove_source :: "string \<Rightarrow> token_graph \<Rightarrow> token_graph" where
  "remove_source source g =
     g\<lparr>tg_adjacency := map (\<lambda>(k, es). (k, filter (\<lambda>e. ed_source e \<noteq> source) es)) (tg_adjacency g)\<rparr>"

definition neighbors :: "token_graph \<Rightarrow> token_id \<Rightarrow> edge list" where
  "neighbors g token =
     (case map_of (tg_adjacency g) (canonical token) of Some es \<Rightarrow> es | None \<Rightarrow> [])"

definition token_count :: "token_graph \<Rightarrow> nat" where
  "token_count g = card (tg_tokens g)"

definition edge_count :: "token_graph \<Rightarrow> nat" where
  "edge_count g = sum_list (map (\<lambda>(_, es). length es) (tg_adjacency g))"

section \<open>Path enumeration\<close>

record route_path =
  rp_tokens :: "token_id list"
  rp_sources :: "string list"
  rp_pool_addresses :: "string list"
  rp_hops :: nat

text \<open>An element of the search queue: the key of the last token, the path so far and its pools.\<close>

record bfs_entry =
  be_key :: string
  be_tokens :: "token_id list"
  be_sources :: "string list"
  be_pools :: "string list"
  be_visited :: "string set"

definition direct_paths :: "token_graph \<Rightarrow> token_id \<Rightarrow> string \<Rightarrow> route_path list" where
  "direct_paths g start end_key =
     (case map_of (tg_adjacency g) (canonical start) of
        None \<Rightarrow> []
      | Some es \<Rightarrow>
          map (\<lambda>e. \<lparr>rp_tokens = [start, ed_target e], rp_sources = [ed_source e],
                    rp_pool_addresses = [ed_pool_address e], rp_hops = 1\<rparr>)
            (filter (\<lambda>e. canonical (ed_target e) = end_key) es))"

text \<open>The inner loop over the edges of one entry; the state is the results, the count of multi-hop
  paths and the queue. Reaching the cap leaves the loop.\<close>

fun scan_edges ::
  "string \<Rightarrow> nat \<Rightarrow> bfs_entry \<Rightarrow> edge list \<Rightarrow> route_path list \<Rightarrow> nat \<Rightarrow> bfs_entry list
    \<Rightarrow> route_path list \<times> nat \<times> bfs_entry list" where
  "scan_edges end_key max_multi q [] results count queue = (results, count, queue)"
| "scan_edges end_key max_multi q (e # es) results count queue =
     (let target_key = canonical (ed_target e) in
      if ed_pool_address e \<in> be_visited q then scan_edges end_key max_multi q es results count queue
      else
        let next_hops = length (be_pools q) + 1 in
        if target_key = end_key then
          if next_hops < 2 then scan_edges end_key max_multi q es results count queue
          else
            let new_sources = be_sources q @ [ed_source e];
                path = \<lparr>rp_tokens = be_tokens q @ [ed_target e], rp_sources = new_sources,
                        rp_pool_addresses = be_pools q @ [ed_pool_address e],
                        rp_hops = length new_sources\<rparr>;
                results' = results @ [path];
                count' = count + 1
            in if count' \<ge> max_multi then (results', count', queue)
               else scan_edges end_key max_multi q es results' count' queue
        else if list_ex (\<lambda>t. canonical t = target_key) (be_tokens q) then
          scan_edges end_key max_multi q es results count queue
        else
          scan_edges end_key max_multi q es results count
            (queue @ [\<lparr>be_key = target_key, be_tokens = be_tokens q @ [ed_target e],
                       be_sources = be_sources q @ [ed_source e],
                       be_pools = be_pools q @ [ed_pool_address e],
                       be_visited = insert (ed_pool_address e) (be_visited q)\<rparr>]))"

text \<open>The weight of the queue that every round of the outer loop lowers.\<close>

definition queue_weight :: "token_graph \<Rightarrow> nat \<Rightarrow> bfs_entry list \<Rightarrow> nat" where
  "queue_weight g max_hops queue =
     sum_list (map (\<lambda>q. (edge_count g + 1) ^ (max_hops - length (be_pools q))) queue)"

lemma scan_edges_weight:
  assumes "length (be_pools q) < max_hops"
  shows "queue_weight g max_hops (snd (snd (scan_edges end_key mm q es results count queue)))
    \<le> queue_weight g max_hops queue + length es * (edge_count g + 1) ^ (max_hops - (length (be_pools q) + 1))"
proof (induction es arbitrary: results count queue)
  case (Cons e es)
  let ?w = "(edge_count g + 1) ^ (max_hops - (length (be_pools q) + 1))"
  define P :: "route_path list \<times> nat \<times> bfs_entry list \<Rightarrow> bool" where
    "P = (\<lambda>st. queue_weight g max_hops (snd (snd st)) \<le> queue_weight g max_hops queue + length (e # es) * ?w)"
  have skip: "P (scan_edges end_key mm q es r c queue)" for r c
    using Cons.IH [of r c queue] by (simp add: P_def)
  have enq: "P (scan_edges end_key mm q es r c (queue @ [n]))"
    if "length (be_pools n) = length (be_pools q) + 1" for r c n
    using Cons.IH [of r c "queue @ [n]"] that by (simp add: P_def queue_weight_def)
  have stop: "P (r, c, queue)" for r c by (simp add: P_def)
  have "P (scan_edges end_key mm q (e # es) results count queue)"
    by (simp add: Let_def skip enq stop)
  then show ?case by (simp only: P_def)
qed simp

lemma edges_le_edge_count: "map_of (tg_adjacency g) k = Some es \<Longrightarrow> length es \<le> edge_count g"
  unfolding edge_count_def by (intro member_le_sum_list) (auto dest!: map_of_SomeD intro!: image_eqI)

lemma queue_weight_round:
  assumes "length (be_pools q) < max_hops" "map_of (tg_adjacency g) (be_key q) = Some edges"
  shows "queue_weight g max_hops (snd (snd (scan_edges end_key mm q edges results count queue)))
    < queue_weight g max_hops (q # queue)"
proof -
  let ?B = "edge_count g" and ?k = "max_hops - (length (be_pools q) + 1)"
  have "queue_weight g max_hops (snd (snd (scan_edges end_key mm q edges results count queue)))
      \<le> queue_weight g max_hops queue + length edges * (?B + 1) ^ ?k"
    by (rule scan_edges_weight [OF assms(1)])
  also have "\<dots> \<le> queue_weight g max_hops queue + ?B * (?B + 1) ^ ?k"
    using edges_le_edge_count [OF assms(2)] by simp
  also have "\<dots> < queue_weight g max_hops queue + (?B + 1) ^ (max_hops - length (be_pools q))"
  proof -
    have "max_hops - length (be_pools q) = Suc ?k" using assms(1) by simp
    then show ?thesis by simp
  qed
  also have "\<dots> = queue_weight g max_hops (q # queue)" by (simp add: queue_weight_def)
  finally show ?thesis .
qed

text \<open>\<open>while let Some(\<dots>) = queue.pop_front()\<close>\<close>

function bfs_loop ::
  "token_graph \<Rightarrow> string \<Rightarrow> nat \<Rightarrow> nat \<Rightarrow> bfs_entry list \<Rightarrow> route_path list \<Rightarrow> nat \<Rightarrow> route_path list" where
  "bfs_loop g end_key max_hops max_multi [] results count = results"
| "bfs_loop g end_key max_hops max_multi (q # queue) results count =
     (if count \<ge> max_multi then results
      else if length queue > 10000 then results
      else if length (be_pools q) \<ge> max_hops then bfs_loop g end_key max_hops max_multi queue results count
      else case map_of (tg_adjacency g) (be_key q) of
        None \<Rightarrow> bfs_loop g end_key max_hops max_multi queue results count
      | Some edges \<Rightarrow>
          (case scan_edges end_key max_multi q edges results count queue of
             (results', count', queue') \<Rightarrow> bfs_loop g end_key max_hops max_multi queue' results' count'))"
  by pat_completeness auto

termination
proof (relation "measure (\<lambda>(g, _, max_hops, _, queue, _, _). queue_weight g max_hops queue)")
  fix g :: token_graph and end_key max_hops max_multi q queue results count edges y q'
    and r' :: "route_path list" and c' :: nat
  assume len: "\<not> max_hops \<le> length (be_pools q)" and es: "map_of (tg_adjacency g) (be_key q) = Some edges"
    and x: "(r', y) = scan_edges end_key max_multi q edges results count queue" "(c', q') = y"
  have "queue_weight g max_hops q' < queue_weight g max_hops (q # queue)"
    using queue_weight_round [of q max_hops g edges end_key max_multi results count queue] len es
    by (simp flip: x)
  then show "((g, end_key, max_hops, max_multi, q', r', c'),
      (g, end_key, max_hops, max_multi, q # queue, results, count))
      \<in> measure (\<lambda>(g, _, max_hops, _, queue, _, _). queue_weight g max_hops queue)"
    by simp
qed (simp_all add: queue_weight_def)

definition find_paths ::
  "token_graph \<Rightarrow> token_id \<Rightarrow> token_id \<Rightarrow> nat \<Rightarrow> nat \<Rightarrow> nat \<Rightarrow> route_path list" where
  "find_paths g start end_token max_hops max_multi max_direct =
     (let start_key = canonical start;
          end_key = canonical end_token
      in if start_key = end_key then []
      else
        let direct = direct_paths g start end_key;
            direct = (if max_direct > 0 \<and> length direct > max_direct then take max_direct direct else direct);
            first = \<lparr>be_key = start_key, be_tokens = [start], be_sources = [], be_pools = [],
                     be_visited = {}\<rparr>
        in sort_key rp_hops (bfs_loop g end_key max_hops max_multi [first] direct 0))"

end
