(* ===== verification/Path_Enumeration.thy ===== *)
theory Path_Enumeration
  imports Token_Graph
begin

text \<open>
  The reference description of what \<open>find_paths\<close> enumerates, chains of edges without a repeated
  token or pool, and the proof that the breadth-first search of \<open>graph.rs\<close> returns only such
  chains, within its caps, and all of them when no cap is reached.
\<close>

section \<open>Chains of edges\<close>

definition edges_at :: "token_graph \<Rightarrow> string \<Rightarrow> edge list" where
  "edges_at g k = (case map_of (tg_adjacency g) k of Some es \<Rightarrow> es | None \<Rightarrow> [])"

abbreviation key_of :: "edge \<Rightarrow> string" where "key_of e \<equiv> canonical (ed_target e)"

fun chain :: "token_graph \<Rightarrow> string \<Rightarrow> edge list \<Rightarrow> bool" where
  "chain g k [] \<longleftrightarrow> True"
| "chain g k (e # es) \<longleftrightarrow> e \<in> set (edges_at g k) \<and> chain g (key_of e) es"

fun end_of :: "string \<Rightarrow> edge list \<Rightarrow> string" where
  "end_of k [] = k"
| "end_of k (e # es) = end_of (key_of e) es"

definition simple_chain :: "token_graph \<Rightarrow> token_id \<Rightarrow> edge list \<Rightarrow> bool" where
  "simple_chain g start es \<longleftrightarrow> chain g (canonical start) es
     \<and> distinct (canonical start # map key_of es) \<and> distinct (map ed_pool_address es)"

definition swap_route :: "token_graph \<Rightarrow> token_id \<Rightarrow> string \<Rightarrow> edge list \<Rightarrow> bool" where
  "swap_route g start end_key es \<longleftrightarrow> simple_chain g start es \<and> es \<noteq> [] \<and> end_of (canonical start) es = end_key"

text \<open>The path record of a chain, and the queue entry of an unfinished one.\<close>

definition route :: "token_id \<Rightarrow> edge list \<Rightarrow> route_path" where
  "route start es = \<lparr>rp_tokens = start # map ed_target es, rp_sources = map ed_source es,
     rp_pool_addresses = map ed_pool_address es, rp_hops = length es\<rparr>"

definition entry :: "token_id \<Rightarrow> edge list \<Rightarrow> bfs_entry" where
  "entry start es = \<lparr>be_key = end_of (canonical start) es, be_tokens = start # map ed_target es,
     be_sources = map ed_source es, be_pools = map ed_pool_address es,
     be_visited = set (map ed_pool_address es)\<rparr>"

definition open_chain :: "token_graph \<Rightarrow> token_id \<Rightarrow> string \<Rightarrow> edge list \<Rightarrow> bool" where
  "open_chain g start end_key es \<longleftrightarrow> simple_chain g start es \<and> end_key \<notin> set (canonical start # map key_of es)"

lemma chain_append: "chain g k (xs @ ys) \<longleftrightarrow> chain g k xs \<and> chain g (end_of k xs) ys"
  by (induction xs arbitrary: k) auto

lemma end_of_append [simp]: "end_of k (xs @ ys) = end_of (end_of k xs) ys"
  by (induction xs arbitrary: k) auto

lemma end_of_last: "es \<noteq> [] \<Longrightarrow> end_of k es = key_of (last es)"
  by (induction es arbitrary: k) auto

lemma entry_sel [simp]:
  "be_key (entry start es) = end_of (canonical start) es"
  "be_pools (entry start es) = map ed_pool_address es"
  "be_visited (entry start es) = ed_pool_address ` set es"
  "be_tokens (entry start es) = start # map ed_target es"
  by (simp_all add: entry_def)

lemma rp_hops_route [simp]: "rp_hops (route start es) = length es"
  by (simp add: route_def)

section \<open>One round of the search\<close>

text \<open>The edges that finish the chain and those that prolong it.\<close>

definition finishes :: "token_id \<Rightarrow> string \<Rightarrow> edge list \<Rightarrow> edge \<Rightarrow> bool" where
  "finishes start end_key es e \<longleftrightarrow> ed_pool_address e \<notin> ed_pool_address ` set es
     \<and> key_of e = end_key \<and> es \<noteq> []"

definition prolongs :: "token_id \<Rightarrow> string \<Rightarrow> edge list \<Rightarrow> edge \<Rightarrow> bool" where
  "prolongs start end_key es e \<longleftrightarrow> ed_pool_address e \<notin> ed_pool_address ` set es
     \<and> key_of e \<noteq> end_key \<and> key_of e \<notin> set (canonical start # map key_of es)"

lemma list_ex_tokens:
  "list_ex (\<lambda>t. canonical t = k) (start # map ed_target es) \<longleftrightarrow> k \<in> set (canonical start # map key_of es)"
  by (auto simp: list_ex_iff)

lemma scan_edges_spec:
  assumes "count < max_multi"
  shows "\<exists>hs gs. scan_edges end_key max_multi (entry start es) edges results count queue
      = (results @ map (\<lambda>e. route start (es @ [e])) hs, count + length hs,
         queue @ map (\<lambda>e. entry start (es @ [e])) gs)
    \<and> count + length hs \<le> max_multi
    \<and> set hs \<subseteq> {e \<in> set edges. finishes start end_key es e}
    \<and> set gs \<subseteq> {e \<in> set edges. prolongs start end_key es e}
    \<and> (count + length hs < max_multi \<longrightarrow>
         {e \<in> set edges. finishes start end_key es e} \<subseteq> set hs \<and>
         {e \<in> set edges. prolongs start end_key es e} \<subseteq> set gs)"
  using assms
proof (induction edges arbitrary: results count queue)
  case Nil
  then show ?case by (intro exI [of _ "[]"]) simp
next
  case (Cons e edges)
  let ?q = "entry start es"
  have skip: ?case
    if "scan_edges end_key max_multi ?q (e # edges) results count queue
        = scan_edges end_key max_multi ?q edges results count queue"
      "\<not> finishes start end_key es e" "\<not> prolongs start end_key es e"
    using Cons.IH [OF Cons.prems, of results queue] that by fastforce
  consider (visited) "ed_pool_address e \<in> ed_pool_address ` set es"
    | (direct) "ed_pool_address e \<notin> ed_pool_address ` set es" "key_of e = end_key" "es = []"
    | (hit) "ed_pool_address e \<notin> ed_pool_address ` set es" "key_of e = end_key" "es \<noteq> []"
    | (loop) "ed_pool_address e \<notin> ed_pool_address ` set es" "key_of e \<noteq> end_key"
        "key_of e \<in> set (canonical start # map key_of es)"
    | (go) "ed_pool_address e \<notin> ed_pool_address ` set es" "key_of e \<noteq> end_key"
        "key_of e \<notin> set (canonical start # map key_of es)"
    by blast
  then show ?case
  proof cases
    case visited
    then show ?thesis by (intro skip) (simp_all add: finishes_def prolongs_def)
  next
    case direct
    then show ?thesis by (intro skip) (simp_all add: finishes_def prolongs_def)
  next
    case loop
    have "scan_edges end_key max_multi ?q (e # edges) results count queue
        = scan_edges end_key max_multi ?q edges results count queue"
      using loop by (auto simp: Let_def list_ex_iff)
    then show ?thesis using loop by (intro skip) (auto simp: finishes_def prolongs_def)
  next
    case hit
    let ?p = "route start (es @ [e])"
    have step: "scan_edges end_key max_multi ?q (e # edges) results count queue =
        (if max_multi \<le> count + 1 then (results @ [?p], count + 1, queue)
         else scan_edges end_key max_multi ?q edges (results @ [?p]) (count + 1) queue)"
      using hit by (simp add: Let_def route_def entry_def)
    have f: "finishes start end_key es e" "\<not> prolongs start end_key es e"
      using hit by (simp_all add: finishes_def prolongs_def)
    show ?thesis
    proof (cases "max_multi \<le> count + 1")
      case True
      with Cons.prems step f show ?thesis by (intro exI [of _ "[e]"] exI [of _ "[]"]) simp
    next
      case False
      then have "count + 1 < max_multi" by simp
      from Cons.IH [OF this, of "results @ [?p]" queue] obtain hs gs where
        "scan_edges end_key max_multi ?q edges (results @ [?p]) (count + 1) queue
          = (results @ [?p] @ map (\<lambda>e. route start (es @ [e])) hs, count + 1 + length hs,
             queue @ map (\<lambda>e. entry start (es @ [e])) gs)"
        "count + 1 + length hs \<le> max_multi"
        "set hs \<subseteq> {e \<in> set edges. finishes start end_key es e}"
        "set gs \<subseteq> {e \<in> set edges. prolongs start end_key es e}"
        "count + 1 + length hs < max_multi \<longrightarrow>
           {e \<in> set edges. finishes start end_key es e} \<subseteq> set hs \<and>
           {e \<in> set edges. prolongs start end_key es e} \<subseteq> set gs"
        by auto
      with step f False show ?thesis by (intro exI [of _ "e # hs"] exI [of _ gs]) auto
    qed
  next
    case go
    let ?n = "entry start (es @ [e])"
    have step: "scan_edges end_key max_multi ?q (e # edges) results count queue =
        scan_edges end_key max_multi ?q edges results count (queue @ [?n])"
    proof -
      have "?n = \<lparr>be_key = key_of e, be_tokens = be_tokens ?q @ [ed_target e],
          be_sources = be_sources ?q @ [ed_source e], be_pools = be_pools ?q @ [ed_pool_address e],
          be_visited = insert (ed_pool_address e) (be_visited ?q)\<rparr>"
        by (simp add: entry_def)
      moreover have "\<not> list_ex (\<lambda>t. canonical t = key_of e) (be_tokens ?q)"
        using go(3) unfolding entry_sel list_ex_tokens .
      ultimately show ?thesis using go(1,2) by (simp only: scan_edges.simps Let_def entry_sel(3) if_False)
    qed
    have f: "\<not> finishes start end_key es e" "prolongs start end_key es e"
      using go by (simp_all add: finishes_def prolongs_def)
    from Cons.IH [OF Cons.prems, of results "queue @ [?n]"] obtain hs gs where
      "scan_edges end_key max_multi ?q edges results count (queue @ [?n])
        = (results @ map (\<lambda>e. route start (es @ [e])) hs, count + length hs,
           (queue @ [?n]) @ map (\<lambda>e. entry start (es @ [e])) gs)"
      "count + length hs \<le> max_multi"
      "set hs \<subseteq> {e \<in> set edges. finishes start end_key es e}"
      "set gs \<subseteq> {e \<in> set edges. prolongs start end_key es e}"
      "count + length hs < max_multi \<longrightarrow>
         {e \<in> set edges. finishes start end_key es e} \<subseteq> set hs \<and>
         {e \<in> set edges. prolongs start end_key es e} \<subseteq> set gs"
      by blast
    with step f show ?thesis by (intro exI [of _ hs] exI [of _ "e # gs"]) auto
  qed
qed

section \<open>The whole search\<close>

lemma map_of_edges_at: "map_of (tg_adjacency g) k = Some es \<Longrightarrow> edges_at g k = es"
  by (simp add: edges_at_def)

lemma queue_weight_ge_length: "length queue \<le> queue_weight g max_hops queue"
proof (induction queue)
  case (Cons q queue)
  have "0 < (edge_count g + 1) ^ (max_hops - length (be_pools q))" by simp
  with Cons show ?case unfolding queue_weight_def list.map sum_list.Cons list.size by linarith
qed simp

lemma open_chain_snoc:
  assumes "open_chain g start end_key es" "prolongs start end_key es e"
    and "e \<in> set (edges_at g (end_of (canonical start) es))"
  shows "open_chain g start end_key (es @ [e])"
  using assms by (auto simp: open_chain_def simple_chain_def prolongs_def chain_append)

lemma swap_route_snoc:
  assumes "open_chain g start end_key es" "finishes start end_key es e"
    and "e \<in> set (edges_at g (end_of (canonical start) es))"
  shows "swap_route g start end_key (es @ [e])"
  using assms
  by (auto simp: open_chain_def simple_chain_def swap_route_def finishes_def chain_append)

text \<open>The first edge of any completion of an unfinished chain is scanned in its round.\<close>

lemma swap_route_next:
  assumes "swap_route g start end_key (es @ e # ex)" "2 \<le> length (es @ e # ex)"
  shows "e \<in> set (edges_at g (end_of (canonical start) es))"
    and "ex = [] \<Longrightarrow> finishes start end_key es e"
    and "ex \<noteq> [] \<Longrightarrow> prolongs start end_key es e"
proof -
  have r: "chain g (canonical start) (es @ e # ex)" "distinct (canonical start # map key_of (es @ e # ex))"
    "distinct (map ed_pool_address (es @ e # ex))" "end_of (key_of e) ex = end_key"
    using assms(1) by (simp_all add: swap_route_def simple_chain_def)
  show "e \<in> set (edges_at g (end_of (canonical start) es))" using r(1) by (simp add: chain_append)
  show "finishes start end_key es e" if "ex = []"
    using r assms(2) that by (auto simp: finishes_def)
  show "prolongs start end_key es e" if "ex \<noteq> []"
  proof -
    have "end_key \<in> key_of ` set ex" using r(4) that end_of_last [OF that] by (metis imageI last_in_set)
    then show ?thesis using r(2,3) by (auto simp: prolongs_def)
  qed
qed

definition multi_hop :: "token_graph \<Rightarrow> token_id \<Rightarrow> string \<Rightarrow> nat \<Rightarrow> edge list \<Rightarrow> bool" where
  "multi_hop g start end_key max_hops es \<longleftrightarrow>
     swap_route g start end_key es \<and> 2 \<le> length es \<and> length es \<le> max_hops"

text \<open>What the queue of unfinished chains \<open>ess\<close> yields: within the caps every result is a route, and
  when neither cap is reached every completion of a queued chain is among them.\<close>

definition search_result ::
  "token_graph \<Rightarrow> token_id \<Rightarrow> string \<Rightarrow> nat \<Rightarrow> nat \<Rightarrow> edge list list \<Rightarrow> nat \<Rightarrow> edge list list \<Rightarrow> bool" where
  "search_result g start end_key max_hops max_multi ess count rs \<longleftrightarrow>
     count + length rs \<le> max_multi \<and> (\<forall>es\<in>set rs. multi_hop g start end_key max_hops es)
     \<and> (count + length rs < max_multi \<and> queue_weight g max_hops (map (entry start) ess) \<le> 10000 \<longrightarrow>
          (\<forall>es\<in>set ess. \<forall>e ex. multi_hop g start end_key max_hops (es @ e # ex) \<longrightarrow> es @ e # ex \<in> set rs))"

lemma search_result_drop:
  assumes "search_result g start end_key max_hops max_multi ess count rs"
    and "\<And>e ex. \<not> multi_hop g start end_key max_hops (es @ e # ex)"
  shows "search_result g start end_key max_hops max_multi (es # ess) count rs"
  using assms by (simp add: search_result_def queue_weight_def)

lemma search_result_round:
  assumes es: "open_chain g start end_key es" and len: "length es < max_hops"
    and edges: "edges = edges_at g (end_of (canonical start) es)"
    and hs: "set hs \<subseteq> {e \<in> set edges. finishes start end_key es e}"
    and full: "count + length hs < max_multi \<longrightarrow>
      {e \<in> set edges. finishes start end_key es e} \<subseteq> set hs \<and>
      {e \<in> set edges. prolongs start end_key es e} \<subseteq> set gs"
    and weight: "queue_weight g max_hops (map (entry start) (ess @ map (\<lambda>e. es @ [e]) gs))
      \<le> queue_weight g max_hops (map (entry start) (es # ess))"
    and rs: "search_result g start end_key max_hops max_multi (ess @ map (\<lambda>e. es @ [e]) gs) (count + length hs) rs"
  shows "search_result g start end_key max_hops max_multi (es # ess) count (map (\<lambda>e. es @ [e]) hs @ rs)"
  unfolding search_result_def
proof (intro conjI ballI impI allI)
  show "count + length (map (\<lambda>e. es @ [e]) hs @ rs) \<le> max_multi"
    using rs by (simp add: search_result_def)
next
  fix fs assume "fs \<in> set (map (\<lambda>e. es @ [e]) hs @ rs)"
  then consider e where "e \<in> set hs" "fs = es @ [e]" | "fs \<in> set rs" by auto
  then show "multi_hop g start end_key max_hops fs"
  proof cases
    case 1
    then have "finishes start end_key es e" "e \<in> set edges" using hs by auto
    then show ?thesis using swap_route_snoc [OF es] 1 len edges
      by (cases es) (auto simp: multi_hop_def finishes_def)
  next
    case 2
    then show ?thesis using rs by (simp add: search_result_def)
  qed
next
  fix fs e ex
  assume caps: "count + length (map (\<lambda>e. es @ [e]) hs @ rs) < max_multi \<and>
      queue_weight g max_hops (map (entry start) (es # ess)) \<le> 10000"
    and fs: "fs \<in> set (es # ess)" and multi: "multi_hop g start end_key max_hops (fs @ e # ex)"
  have below: "count + length hs + length rs < max_multi" using caps by simp
  have rest: "fs' @ e' # ex' \<in> set rs"
    if "fs' \<in> set (ess @ map (\<lambda>e. es @ [e]) gs)" "multi_hop g start end_key max_hops (fs' @ e' # ex')" for fs' e' ex'
    using rs that weight caps below unfolding search_result_def by (meson le_trans)
  show "fs @ e # ex \<in> set (map (\<lambda>e. es @ [e]) hs @ rs)"
  proof (cases "fs \<in> set ess")
    case True
    then show ?thesis using rest multi by simp
  next
    case False
    then have "fs = es" using fs by simp
    note m = multi [unfolded this]
    have e: "e \<in> set edges" "ex = [] \<Longrightarrow> finishes start end_key es e" "ex \<noteq> [] \<Longrightarrow> prolongs start end_key es e"
      using swap_route_next [of g start end_key es e ex] m unfolding edges multi_hop_def by blast+
    show ?thesis
    proof (cases ex)
      case Nil
      then have "e \<in> set hs" using e full below by auto
      then show ?thesis using Nil \<open>fs = es\<close> by simp
    next
      case (Cons e' ex')
      then have "e \<in> set gs" using e full below by auto
      then have "(es @ [e]) @ e' # ex' \<in> set rs" using rest [of "es @ [e]" e' ex'] m Cons by simp
      then show ?thesis using Cons \<open>fs = es\<close> by simp
    qed
  qed
qed

lemma bfs_loop_spec:
  assumes "list_all (open_chain g start end_key) ess" "count \<le> max_multi"
  shows "\<exists>rs. bfs_loop g end_key max_hops max_multi (map (entry start) ess) results count = results @ map (route start) rs
    \<and> search_result g start end_key max_hops max_multi ess count rs"
  using assms
proof (induction g end_key max_hops max_multi "map (entry start) ess" results count arbitrary: ess rule: bfs_loop.induct)
  case (1 g end_key max_hops max_multi results count)
  then show ?case by (intro exI [of _ "[]"]) (simp add: search_result_def)
next
  case (2 g end_key max_hops max_multi q queue results count)
  from 2(4) obtain es rest where ess: "ess = es # rest" "q = entry start es" "queue = map (entry start) rest"
    by (cases ess) auto
  have es: "open_chain g start end_key es" "list_all (open_chain g start end_key) rest"
    using 2(5) ess(1) by simp_all
  let ?edges = "edges_at g (end_of (canonical start) es)"
  show ?case
  proof (cases "max_multi \<le> count \<or> 10000 < length queue")
    case True
    have "bfs_loop g end_key max_hops max_multi (q # queue) results count = results" using True by auto
    moreover have "length queue < queue_weight g max_hops (map (entry start) ess)"
      using queue_weight_ge_length [of "map (entry start) ess" g max_hops] ess by simp
    then have "search_result g start end_key max_hops max_multi ess count []"
      using True 2(6) by (auto simp: search_result_def)
    ultimately show ?thesis unfolding 2(4) [symmetric] by (intro exI [of _ "[]"]) simp
  next
    case False
    then have go: "\<not> max_multi \<le> count" "\<not> 10000 < length queue" by simp_all
    show ?thesis
    proof (cases "max_hops \<le> length es \<or> map_of (tg_adjacency g) (be_key q) = None")
      case True
      then have none: "\<not> multi_hop g start end_key max_hops (es @ e # ex)" for e ex
        using swap_route_next(1) [of g start end_key es e ex] ess(2)
        by (auto simp: multi_hop_def edges_at_def)
      have "\<exists>rs. bfs_loop g end_key max_hops max_multi queue results count = results @ map (route start) rs
          \<and> search_result g start end_key max_hops max_multi rest count rs"
        using True 2(1) [OF go _ ess(3) es(2) 2(6)] 2(2) [OF go _ _ ess(3) es(2) 2(6)] ess by auto
      then show ?thesis using True search_result_drop [OF _ none] go ess
        by (auto simp: ess(3))
    next
      case False
      then obtain edges where edges: "map_of (tg_adjacency g) (be_key q) = Some edges" and len: "\<not> max_hops \<le> length (be_pools q)"
        using ess(2) by auto
      have at: "edges = ?edges" using edges ess(2) by (simp add: edges_at_def)
      from scan_edges_spec [of count max_multi end_key start es edges results queue] go(1) obtain hs gs where
        scan: "scan_edges end_key max_multi q edges results count queue
          = (results @ map (\<lambda>e. route start (es @ [e])) hs, count + length hs,
             map (entry start) (rest @ map (\<lambda>e. es @ [e]) gs))"
        and hs: "count + length hs \<le> max_multi" "set hs \<subseteq> {e \<in> set edges. finishes start end_key es e}"
        and gs: "set gs \<subseteq> {e \<in> set edges. prolongs start end_key es e}"
        and full: "count + length hs < max_multi \<longrightarrow>
           {e \<in> set edges. finishes start end_key es e} \<subseteq> set hs \<and>
           {e \<in> set edges. prolongs start end_key es e} \<subseteq> set gs"
        unfolding ess(2,3) by (auto simp: comp_def)
      have "list_all (open_chain g start end_key) (rest @ map (\<lambda>e. es @ [e]) gs)"
        using es gs open_chain_snoc [OF es(1)] at by (auto simp: list_all_iff)
      from 2(3) [OF go len edges scan [symmetric] refl this hs(1)] obtain rs where
        rs: "bfs_loop g end_key max_hops max_multi (map (entry start) (rest @ map (\<lambda>e. es @ [e]) gs))
            (results @ map (\<lambda>e. route start (es @ [e])) hs) (count + length hs)
          = (results @ map (\<lambda>e. route start (es @ [e])) hs) @ map (route start) rs"
        "search_result g start end_key max_hops max_multi (rest @ map (\<lambda>e. es @ [e]) gs) (count + length hs) rs"
        by blast
      have "queue_weight g max_hops (map (entry start) (rest @ map (\<lambda>e. es @ [e]) gs))
          \<le> queue_weight g max_hops (map (entry start) (es # rest))"
        using queue_weight_round [of q max_hops g edges end_key max_multi results count queue] len edges scan ess
        by simp
      from search_result_round [OF es(1) _ at hs(2) full this rs(2)] len ess(2)
      have "search_result g start end_key max_hops max_multi ess count (map (\<lambda>e. es @ [e]) hs @ rs)"
        by (simp add: ess(1))
      moreover have "bfs_loop g end_key max_hops max_multi (q # queue) results count
          = results @ map (route start) (map (\<lambda>e. es @ [e]) hs @ rs)"
        using go len edges scan rs(1) by (simp add: comp_def)
      ultimately show ?thesis unfolding 2(4) [symmetric] by blast
    qed
  qed
qed

section \<open>The results of find\_paths\<close>

lemma open_chain_Nil: "canonical start \<noteq> end_key \<Longrightarrow> open_chain g start end_key []"
  by (auto simp: open_chain_def simple_chain_def)

definition direct_edges :: "token_graph \<Rightarrow> token_id \<Rightarrow> string \<Rightarrow> edge list" where
  "direct_edges g start end_key = filter (\<lambda>e. key_of e = end_key) (edges_at g (canonical start))"

lemma direct_paths_routes:
  "direct_paths g start end_key = map (\<lambda>e. route start [e]) (direct_edges g start end_key)"
  by (simp add: direct_paths_def direct_edges_def edges_at_def route_def split: option.split)

lemma direct_edges_route:
  "canonical start \<noteq> end_key \<Longrightarrow> set (direct_edges g start end_key) = {e. swap_route g start end_key [e]}"
  by (auto simp: direct_edges_def swap_route_def simple_chain_def)

lemma find_paths_result:
  assumes "canonical start \<noteq> canonical end_token"
  shows "\<exists>rs. find_paths g start end_token max_hops max_multi max_direct
      = sort_key rp_hops (map (\<lambda>e. route start [e])
          (take (if max_direct = 0 then length (direct_edges g start (canonical end_token)) else max_direct)
             (direct_edges g start (canonical end_token))) @ map (route start) rs)
    \<and> search_result g start (canonical end_token) max_hops max_multi [[]] 0 rs"
proof -
  let ?ds = "direct_edges g start (canonical end_token)"
  let ?n = "if max_direct = 0 then length ?ds else max_direct"
  let ?first = "\<lparr>be_key = canonical start, be_tokens = [start], be_sources = [], be_pools = [], be_visited = {}\<rparr>"
  have first: "map (entry start) [[]] = [?first]" by (simp add: entry_def)
  obtain rs where rs: "bfs_loop g (canonical end_token) max_hops max_multi [?first] (map (\<lambda>e. route start [e]) (take ?n ?ds)) 0
      = map (\<lambda>e. route start [e]) (take ?n ?ds) @ map (route start) rs"
    "search_result g start (canonical end_token) max_hops max_multi [[]] 0 rs"
    using bfs_loop_spec [of g start "canonical end_token" "[[]]" 0 max_multi max_hops] open_chain_Nil [OF assms]
    unfolding first by auto
  have "find_paths g start end_token max_hops max_multi max_direct
      = sort_key rp_hops (bfs_loop g (canonical end_token) max_hops max_multi [?first]
          (map (\<lambda>e. route start [e]) (take ?n ?ds)) 0)"
    using assms by (auto simp: find_paths_def Let_def direct_paths_routes take_map simp del: bfs_loop.simps)
  with rs show ?thesis by (metis (no_types))
qed

lemma multi_hop_empty_queue:
  assumes "search_result g start end_key max_hops max_multi [[]] 0 rs" "length rs < max_multi"
    and "(edge_count g + 1) ^ max_hops \<le> 10000"
  shows "set rs = {es. multi_hop g start end_key max_hops es}"
proof
  show "set rs \<subseteq> {es. multi_hop g start end_key max_hops es}"
    using assms(1) by (auto simp: search_result_def)
  have "queue_weight g max_hops (map (entry start) [[]]) \<le> 10000"
    using assms(3) by (simp add: queue_weight_def)
  then have all: "multi_hop g start end_key max_hops (e # ex) \<Longrightarrow> e # ex \<in> set rs" for e ex
    using assms(1,2) unfolding search_result_def by (metis append_Nil add_0 list.set_intros(1))
  show "{es. multi_hop g start end_key max_hops es} \<subseteq> set rs"
  proof clarify
    fix es assume "multi_hop g start end_key max_hops es"
    then show "es \<in> set rs" using all by (cases es) (auto simp: multi_hop_def)
  qed
qed

lemma filter_hops:
  assumes "\<forall>es\<in>set rs. 2 \<le> length es"
  shows "filter (\<lambda>p. 2 \<le> rp_hops p) (map (\<lambda>e. route start [e]) ds @ map (route start) rs) = map (route start) rs"
    "filter (\<lambda>p. rp_hops p = 1) (map (\<lambda>e. route start [e]) ds @ map (route start) rs) = map (\<lambda>e. route start [e]) ds"
  using assms by (auto simp: filter_empty_conv filter_id_conv)

lemma length_filter_sort_key: "length (filter P (sort_key f xs)) = length (filter P xs)"
  by (simp add: filter_sort)

end
