(* ===== verification/Path_Finder.thy ===== *)
theory Path_Finder
  imports Path_Enumeration
begin

text \<open>
  \<open>crates/router-engine/src/path_finder.rs\<close>: the finder that owns the token graph, filters
  excluded tokens and caches the paths of its default limits for thirty seconds behind a mutex. A call returns its
  value and the finder after it; \<open>None\<close> is a panic. A panic while the lock is held poisons the
  mutex, which the later calls see. Wall-clock readings are parameters. The lemmas show that the
  cache never changes an answer and that excluded tokens never appear in a path.
\<close>

section \<open>Configuration and state\<close>

record trading_pair =
  tp_token_a :: token_id
  tp_token_b :: token_id
  tp_source :: string
  tp_pool_address :: string
  tp_fee_bps :: nat
  tp_reserve_a :: "nat option"
  tp_reserve_b :: "nat option"

record path_finder_config =
  pc_max_hops :: nat
  pc_max_multi_hop_paths :: nat
  pc_max_direct_paths :: nat
  pc_bridge_tokens :: "token_id list"
  pc_excluded_tokens :: "token_id list"

definition path_finder_config_default :: path_finder_config where
  "path_finder_config_default =
     \<lparr>pc_max_hops = 3, pc_max_multi_hop_paths = 50, pc_max_direct_paths = 0,
      pc_bridge_tokens = [Native, Classic ''USDC'' ''GA5ZSEJYB37JRC5AVCIA5MOP4RHTM335X2KGX3IHOJAPP5RE34K4KZVN''],
      pc_excluded_tokens = []\<rparr>"

record cached_paths =
  cp_paths :: "route_path list"
  cp_cached_at_ms :: nat

text \<open>\<open>pf_poisoned\<close> is the poison flag of the mutex around the cache.\<close>

record path_finder =
  pf_graph :: token_graph
  pf_config :: path_finder_config
  pf_excluded_tokens :: "string set"
  pf_cache :: "string \<times> string \<Rightarrow> cached_paths option"
  pf_poisoned :: bool

definition CACHE_TTL_MS :: nat where "CACHE_TTL_MS = 30000"

definition path_finder_new :: "path_finder_config \<Rightarrow> path_finder" where
  "path_finder_new config =
     \<lparr>pf_graph = tg_new, pf_config = config,
      pf_excluded_tokens = canonical ` set (pc_excluded_tokens config),
      pf_cache = Map.empty, pf_poisoned = False\<rparr>"

definition token_allowed :: "path_finder \<Rightarrow> token_id \<Rightarrow> bool" where
  "token_allowed pf token \<longleftrightarrow>
     pf_excluded_tokens pf = {} \<or> canonical token \<notin> pf_excluded_tokens pf"

definition path_allowed :: "path_finder \<Rightarrow> route_path \<Rightarrow> bool" where
  "path_allowed pf path \<longleftrightarrow> list_all (token_allowed pf) (rp_tokens path)"

section \<open>Operations\<close>

text \<open>The loop over the pairs; \<open>clock i\<close> is the time read by \<open>add_pair\<close> for the \<open>i\<close>-th pair.\<close>

fun add_allowed_pairs ::
  "path_finder \<Rightarrow> string \<Rightarrow> (nat \<Rightarrow> nat) \<Rightarrow> nat \<Rightarrow> trading_pair list \<Rightarrow> token_graph \<Rightarrow> token_graph" where
  "add_allowed_pairs pf source clock i [] g = g"
| "add_allowed_pairs pf source clock i (p # ps) g =
     (if \<not> token_allowed pf (tp_token_a p) \<or> \<not> token_allowed pf (tp_token_b p)
      then add_allowed_pairs pf source clock (Suc i) ps g
      else add_allowed_pairs pf source clock (Suc i) ps
             (add_pair (tp_token_a p) (tp_token_b p) source (tp_pool_address p) (tp_fee_bps p) (clock i) g))"

text \<open>\<open>lock().unwrap()\<close> panics on a poisoned mutex, after the graph has been updated.\<close>

definition update_from_source ::
  "string \<Rightarrow> (nat \<Rightarrow> nat) \<Rightarrow> trading_pair list \<Rightarrow> path_finder \<Rightarrow> unit option \<times> path_finder" where
  "update_from_source source clock pairs pf =
     (let g = remove_source source (pf_graph pf);
          g = add_allowed_pairs pf source clock 0 pairs g;
          pf = pf\<lparr>pf_graph := g\<rparr>
      in if pf_poisoned pf then (None, pf) else (Some (), pf\<lparr>pf_cache := Map.empty\<rparr>))"

definition find_paths_with_limits ::
  "nat \<Rightarrow> token_id \<Rightarrow> token_id \<Rightarrow> nat \<Rightarrow> nat \<Rightarrow> nat \<Rightarrow> path_finder
    \<Rightarrow> route_path list option \<times> path_finder" where
  "find_paths_with_limits now token_in token_out max_hops max_multi max_direct pf =
     (let cache_key = (canonical token_in, canonical token_out);
          use_cache = (max_hops = pc_max_hops (pf_config pf)
            \<and> max_multi = pc_max_multi_hop_paths (pf_config pf)
            \<and> max_direct = pc_max_direct_paths (pf_config pf));
          compute =
            (let paths = Token_Graph.find_paths (pf_graph pf) token_in token_out max_hops max_multi max_direct
             in (Some paths,
                 if use_cache \<and> \<not> pf_poisoned pf
                 then pf\<lparr>pf_cache := (pf_cache pf)(cache_key \<mapsto> \<lparr>cp_paths = paths, cp_cached_at_ms = now\<rparr>)\<rparr>
                 else pf))
      in if use_cache \<and> \<not> pf_poisoned pf then
           (case pf_cache pf cache_key of
              None \<Rightarrow> compute
            | Some cached \<Rightarrow>
                if now < cp_cached_at_ms cached then (None, pf\<lparr>pf_poisoned := True\<rparr>)
                else if now - cp_cached_at_ms cached < CACHE_TTL_MS then (Some (cp_paths cached), pf)
                else compute)
         else compute)"

definition find_paths ::
  "nat \<Rightarrow> token_id \<Rightarrow> token_id \<Rightarrow> path_finder \<Rightarrow> route_path list option \<times> path_finder" where
  "find_paths now token_in token_out pf =
     find_paths_with_limits now token_in token_out (pc_max_hops (pf_config pf))
       (pc_max_multi_hop_paths (pf_config pf)) (pc_max_direct_paths (pf_config pf)) pf"

definition default_max_hops :: "path_finder \<Rightarrow> nat" where
  "default_max_hops pf = pc_max_hops (pf_config pf)"

definition default_max_multi_hop_paths :: "path_finder \<Rightarrow> nat" where
  "default_max_multi_hop_paths pf = pc_max_multi_hop_paths (pf_config pf)"

definition default_max_direct_paths :: "path_finder \<Rightarrow> nat" where
  "default_max_direct_paths pf = pc_max_direct_paths (pf_config pf)"

definition invalidate :: "token_id \<Rightarrow> token_id \<Rightarrow> path_finder \<Rightarrow> path_finder" where
  "invalidate token_a token_b pf =
     (let key_a = canonical token_a;
          key_b = canonical token_b
      in if pf_poisoned pf then pf
         else pf\<lparr>pf_cache := (\<lambda>(k0, k1).
                if k0 \<noteq> key_a \<and> k0 \<noteq> key_b \<and> k1 \<noteq> key_a \<and> k1 \<noteq> key_b
                then pf_cache pf (k0, k1) else None)\<rparr>)"

definition clear_cache :: "path_finder \<Rightarrow> path_finder" where
  "clear_cache pf = (if pf_poisoned pf then pf else pf\<lparr>pf_cache := Map.empty\<rparr>)"

definition stats :: "path_finder \<Rightarrow> nat \<times> nat" where
  "stats pf = (token_count (pf_graph pf), edge_count (pf_graph pf))"

section \<open>The edges after an update\<close>

lemma map_of_push_edge:
  "map_of (push_edge k e adj) =
     (map_of adj)(k \<mapsto> (case map_of adj k of Some es \<Rightarrow> es | None \<Rightarrow> []) @ [e])"
  by (simp add: push_edge_def update_conv')

definition half_edge :: "token_id \<Rightarrow> string \<Rightarrow> string \<Rightarrow> nat \<Rightarrow> nat \<Rightarrow> edge" where
  "half_edge t source pool_address fee_bps now =
     \<lparr>ed_target = t, ed_source = source, ed_pool_address = pool_address, ed_fee_bps = fee_bps,
      ed_last_updated_ms = now\<rparr>"

lemma edges_at_add_pair:
  "edges_at (add_pair a b source pool fee now g) k =
     edges_at g k @ (if k = canonical a then [half_edge b source pool fee now] else [])
       @ (if k = canonical b then [half_edge a source pool fee now] else [])"
  by (auto simp: edges_at_def add_pair_def Let_def map_of_push_edge half_edge_def)

lemma edges_at_remove_source:
  "edges_at (remove_source source g) k = filter (\<lambda>e. ed_source e \<noteq> source) (edges_at g k)"
proof -
  have "map_of (map (\<lambda>(k, es). (k, f es)) adj) k = map_option f (map_of adj k)" for f :: "edge list \<Rightarrow> edge list" and adj
    by (induction adj) auto
  then show ?thesis by (simp add: edges_at_def remove_source_def split: option.split)
qed

lemma edges_at_new [simp]: "edges_at tg_new k = []"
  by (simp add: edges_at_def tg_new_def)

text \<open>The edges that the allowed pairs of a list contribute to one token.\<close>

fun pair_edges ::
  "path_finder \<Rightarrow> string \<Rightarrow> (nat \<Rightarrow> nat) \<Rightarrow> nat \<Rightarrow> trading_pair list \<Rightarrow> string \<Rightarrow> edge list" where
  "pair_edges pf source clock i [] k = []"
| "pair_edges pf source clock i (p # ps) k =
     (if token_allowed pf (tp_token_a p) \<and> token_allowed pf (tp_token_b p)
      then (if k = canonical (tp_token_a p)
            then [half_edge (tp_token_b p) source (tp_pool_address p) (tp_fee_bps p) (clock i)] else [])
         @ (if k = canonical (tp_token_b p)
            then [half_edge (tp_token_a p) source (tp_pool_address p) (tp_fee_bps p) (clock i)] else [])
      else []) @ pair_edges pf source clock (Suc i) ps k"

lemma edges_at_add_allowed_pairs:
  "edges_at (add_allowed_pairs pf source clock i ps g) k = edges_at g k @ pair_edges pf source clock i ps k"
  by (induction ps arbitrary: i g) (simp_all add: edges_at_add_pair)

lemma edges_at_update:
  "edges_at (pf_graph (snd (update_from_source source clock pairs pf))) k =
     filter (\<lambda>e. ed_source e \<noteq> source) (edges_at (pf_graph pf) k) @ pair_edges pf source clock 0 pairs k"
  by (simp add: update_from_source_def Let_def edges_at_add_allowed_pairs edges_at_remove_source)

lemma pair_edges_source: "e \<in> set (pair_edges pf source clock i ps k) \<Longrightarrow> ed_source e = source"
  by (induction ps arbitrary: i) (auto simp: half_edge_def split: if_splits)

lemma pair_edges_allowed:
  "e \<in> set (pair_edges pf source clock i ps k) \<Longrightarrow>
     token_allowed pf (ed_target e) \<and> (pf_excluded_tokens pf = {} \<or> k \<notin> pf_excluded_tokens pf)"
  by (induction ps arbitrary: i) (auto simp: half_edge_def token_allowed_def split: if_splits)

section \<open>Reachable finders\<close>

text \<open>Token ids as \<open>from_str_auto\<close> builds them: one id per canonical string.\<close>

definition canonical_token :: "token_id \<Rightarrow> bool" where
  "canonical_token t \<longleftrightarrow> from_str_auto (canonical t) = t"

lemma canonical_token_inj: "canonical_token s \<Longrightarrow> canonical_token t \<Longrightarrow> canonical s = canonical t \<Longrightarrow> s = t"
  unfolding canonical_token_def by metis

text \<open>Any sequence of calls on a new finder, with any clock readings.\<close>

inductive finder_run :: "path_finder_config \<Rightarrow> path_finder \<Rightarrow> bool" for config where
  run_new: "finder_run config (path_finder_new config)"
| run_update: "finder_run config pf \<Longrightarrow> finder_run config (snd (update_from_source source clock pairs pf))"
| run_find: "finder_run config pf \<Longrightarrow> canonical_token ti \<Longrightarrow> canonical_token to_tok
    \<Longrightarrow> finder_run config (snd (find_paths_with_limits now ti to_tok h m d pf))"
| run_invalidate: "finder_run config pf \<Longrightarrow> finder_run config (invalidate a b pf)"
| run_clear: "finder_run config pf \<Longrightarrow> finder_run config (clear_cache pf)"

definition cache_coherent :: "path_finder \<Rightarrow> bool" where
  "cache_coherent pf \<longleftrightarrow> pf_poisoned pf \<or>
     (\<forall>ti to_tok cached. canonical_token ti \<longrightarrow> canonical_token to_tok
        \<longrightarrow> pf_cache pf (canonical ti, canonical to_tok) = Some cached
        \<longrightarrow> cp_paths cached = Token_Graph.find_paths (pf_graph pf) ti to_tok
              (pc_max_hops (pf_config pf)) (pc_max_multi_hop_paths (pf_config pf))
              (pc_max_direct_paths (pf_config pf)))"

lemma cache_coherentD:
  "cache_coherent pf \<Longrightarrow> \<not> pf_poisoned pf \<Longrightarrow> canonical_token ti \<Longrightarrow> canonical_token to_tok
    \<Longrightarrow> pf_cache pf (canonical ti, canonical to_tok) = Some cached
    \<Longrightarrow> cp_paths cached = Token_Graph.find_paths (pf_graph pf) ti to_tok
          (pc_max_hops (pf_config pf)) (pc_max_multi_hop_paths (pf_config pf)) (pc_max_direct_paths (pf_config pf))"
  by (auto simp: cache_coherent_def)

text \<open>The three outcomes of a lookup: a hit, a panic on a clock behind the entry, or a computation.\<close>

lemma find_cases [consumes 0, case_names hit panic compute]:
  assumes "\<And>cached. pf_cache pf (canonical ti, canonical to_tok) = Some cached \<Longrightarrow> \<not> pf_poisoned pf
      \<Longrightarrow> h = pc_max_hops (pf_config pf) \<Longrightarrow> m = pc_max_multi_hop_paths (pf_config pf)
      \<Longrightarrow> d = pc_max_direct_paths (pf_config pf)
      \<Longrightarrow> find_paths_with_limits now ti to_tok h m d pf = (Some (cp_paths cached), pf) \<Longrightarrow> P"
    and "find_paths_with_limits now ti to_tok h m d pf = (None, pf\<lparr>pf_poisoned := True\<rparr>) \<Longrightarrow> P"
    and "\<And>cache. find_paths_with_limits now ti to_tok h m d pf
        = (Some (Token_Graph.find_paths (pf_graph pf) ti to_tok h m d), pf\<lparr>pf_cache := cache\<rparr>)
      \<Longrightarrow> cache = pf_cache pf \<or>
          (h = pc_max_hops (pf_config pf) \<and> m = pc_max_multi_hop_paths (pf_config pf)
           \<and> d = pc_max_direct_paths (pf_config pf)
           \<and> cache = (pf_cache pf)((canonical ti, canonical to_tok) \<mapsto>
               \<lparr>cp_paths = Token_Graph.find_paths (pf_graph pf) ti to_tok h m d, cp_cached_at_ms = now\<rparr>)) \<Longrightarrow> P"
  shows P
proof -
  let ?use = "h = pc_max_hops (pf_config pf) \<and> m = pc_max_multi_hop_paths (pf_config pf)
    \<and> d = pc_max_direct_paths (pf_config pf) \<and> \<not> pf_poisoned pf"
  note f = find_paths_with_limits_def [of now ti to_tok h m d pf, unfolded Let_def]
  show P
  proof (cases ?use)
    case True
    show P
    proof (cases "pf_cache pf (canonical ti, canonical to_tok)")
      case None
      show P by (rule assms(3) [of "(pf_cache pf)((canonical ti, canonical to_tok) \<mapsto>
          \<lparr>cp_paths = Token_Graph.find_paths (pf_graph pf) ti to_tok h m d, cp_cached_at_ms = now\<rparr>)"])
          (use True None f in simp_all)
    next
      case (Some cached)
      consider (late) "now < cp_cached_at_ms cached"
        | (hit) "\<not> now < cp_cached_at_ms cached" "now - cp_cached_at_ms cached < CACHE_TTL_MS"
        | (old) "\<not> now < cp_cached_at_ms cached" "\<not> now - cp_cached_at_ms cached < CACHE_TTL_MS"
        by blast
      then show P
      proof cases
        case late
        show P by (rule assms(2)) (use True Some f late in simp)
      next
        case hit
        show P by (rule assms(1) [OF Some]) (use True Some f hit in simp_all)
      next
        case old
        show P by (rule assms(3) [of "(pf_cache pf)((canonical ti, canonical to_tok) \<mapsto>
            \<lparr>cp_paths = Token_Graph.find_paths (pf_graph pf) ti to_tok h m d, cp_cached_at_ms = now\<rparr>)"])
            (use True Some f old in simp_all)
      qed
    qed
  next
    case False
    show P by (rule assms(3) [of "pf_cache pf"]) (use False f in auto)
  qed
qed

lemma cache_coherent_find:
  assumes "cache_coherent pf" "canonical_token ti" "canonical_token to_tok"
  shows "cache_coherent (snd (find_paths_with_limits now ti to_tok h m d pf))"
proof (cases rule: find_cases [of pf ti to_tok h m d now])
  case (compute cache)
  moreover have same: "canonical s = canonical ti \<longleftrightarrow> s = ti" "canonical s = canonical to_tok \<longleftrightarrow> s = to_tok"
    if "canonical_token s" for s
    using canonical_token_inj that assms(2,3) by blast+
  ultimately show ?thesis
    using assms(1) same by (auto simp: cache_coherent_def split: if_splits)
qed (use assms in \<open>auto simp: cache_coherent_def\<close>)

lemma cache_coherent_invalidate: "cache_coherent pf \<Longrightarrow> cache_coherent (invalidate a b pf)"
  by (auto simp: cache_coherent_def invalidate_def Let_def split: if_splits)

lemma finder_run_coherent: "finder_run config pf \<Longrightarrow> cache_coherent pf"
proof (induction rule: finder_run.induct)
  case run_new
  then show ?case by (simp add: cache_coherent_def path_finder_new_def)
next
  case (run_update pf source clock pairs)
  then show ?case by (simp add: cache_coherent_def update_from_source_def Let_def)
next
  case (run_find pf ti to_tok now h m d)
  then show ?case by (simp add: cache_coherent_find)
next
  case (run_invalidate pf a b)
  then show ?case by (simp add: cache_coherent_invalidate)
next
  case (run_clear pf)
  then show ?case by (simp add: cache_coherent_def clear_cache_def)
qed

section \<open>Excluded tokens\<close>

definition graph_allowed :: "path_finder \<Rightarrow> bool" where
  "graph_allowed pf \<longleftrightarrow> (\<forall>k. \<forall>e\<in>set (edges_at (pf_graph pf) k).
     token_allowed pf (ed_target e) \<and> (pf_excluded_tokens pf = {} \<or> k \<notin> pf_excluded_tokens pf))"

lemma excluded_unchanged [simp]:
  "pf_excluded_tokens (snd (update_from_source source clock pairs pf)) = pf_excluded_tokens pf"
  "pf_excluded_tokens (invalidate a b pf) = pf_excluded_tokens pf"
  "pf_excluded_tokens (clear_cache pf) = pf_excluded_tokens pf"
  "pf_excluded_tokens (snd (find_paths_with_limits now ti to_tok h m d pf)) = pf_excluded_tokens pf"
  by (auto simp: update_from_source_def invalidate_def clear_cache_def find_paths_with_limits_def Let_def
      split: option.split)

lemma graph_unchanged [simp]:
  "pf_graph (invalidate a b pf) = pf_graph pf"
  "pf_graph (clear_cache pf) = pf_graph pf"
  "pf_graph (snd (find_paths_with_limits now ti to_tok h m d pf)) = pf_graph pf"
  by (auto simp: invalidate_def clear_cache_def find_paths_with_limits_def Let_def split: option.split)

lemma finder_run_allowed: "finder_run config pf \<Longrightarrow> graph_allowed pf"
proof (induction rule: finder_run.induct)
  case run_new
  then show ?case by (simp add: graph_allowed_def path_finder_new_def)
next
  case (run_update pf source clock pairs)
  have same: "token_allowed (snd (update_from_source source clock pairs pf)) t = token_allowed pf t" for t
    by (simp add: token_allowed_def)
  show ?case
    unfolding graph_allowed_def edges_at_update same excluded_unchanged
  proof (intro allI ballI)
    fix k e
    assume "e \<in> set (filter (\<lambda>e. ed_source e \<noteq> source) (edges_at (pf_graph pf) k) @ pair_edges pf source clock 0 pairs k)"
    then consider "e \<in> set (edges_at (pf_graph pf) k)" | "e \<in> set (pair_edges pf source clock 0 pairs k)" by auto
    then show "token_allowed pf (ed_target e) \<and> (pf_excluded_tokens pf = {} \<or> k \<notin> pf_excluded_tokens pf)"
      using run_update.IH pair_edges_allowed unfolding graph_allowed_def by cases blast+
  qed
qed (simp_all add: graph_allowed_def token_allowed_def)

lemma chain_allowed:
  "graph_allowed pf \<Longrightarrow> chain (pf_graph pf) k es \<Longrightarrow> list_all (\<lambda>e. token_allowed pf (ed_target e)) es"
  by (induction es arbitrary: k) (auto simp: graph_allowed_def)

lemma swap_route_allowed:
  assumes "graph_allowed pf" "swap_route (pf_graph pf) start end_key es"
  shows "path_allowed pf (route start es)"
proof -
  have c: "chain (pf_graph pf) (canonical start) es" "es \<noteq> []"
    using assms(2) by (auto simp: swap_route_def simple_chain_def)
  then obtain e where "e \<in> set (edges_at (pf_graph pf) (canonical start))" by (cases es) auto
  then have "token_allowed pf start" using assms(1) by (auto simp: graph_allowed_def token_allowed_def)
  then show ?thesis using chain_allowed [OF assms(1) c(1)]
    by (simp add: path_allowed_def route_def list_all_iff)
qed

lemma find_paths_routes:
  assumes "p \<in> set (Token_Graph.find_paths g start end_token h m d)"
  shows "\<exists>es. p = route start es \<and> swap_route g start (canonical end_token) es \<and> (length es = 1 \<or> length es \<le> h)"
proof -
  have ne: "canonical start \<noteq> canonical end_token" using assms by (auto simp: Token_Graph.find_paths_def)
  obtain rs where rs: "Token_Graph.find_paths g start end_token h m d
      = sort_key rp_hops (map (\<lambda>e. route start [e])
          (take (if d = 0 then length (direct_edges g start (canonical end_token)) else d)
             (direct_edges g start (canonical end_token))) @ map (route start) rs)"
    "search_result g start (canonical end_token) h m [[]] 0 rs"
    using find_paths_result [OF ne, of g h m d] by blast
  have "p \<in> (\<lambda>e. route start [e]) ` set (direct_edges g start (canonical end_token)) \<union> route start ` set rs"
    using assms unfolding rs(1) by (auto dest: in_set_takeD)
  then show ?thesis
    using direct_edges_route [OF ne, of g] rs(2) by (auto simp: search_result_def multi_hop_def)
qed

end
