(* ===== verification/Router_Properties.thy ===== *)
theory Router_Properties
  imports Path_Finder
begin

text \<open>
  What the path discovery of the router guarantees, over all graphs and over every sequence of
  calls on the finder, with a sample finder of three tokens and three pools on which the theorems
  are applied, and the behaviour of the cache when the wall clock is set back.
\<close>

section \<open>A sample finder\<close>

definition sample_pair :: "string \<Rightarrow> string \<Rightarrow> string \<Rightarrow> trading_pair" where
  "sample_pair a b pool =
     \<lparr>tp_token_a = Contract a, tp_token_b = Contract b, tp_source = ''soroswap'', tp_pool_address = pool,
      tp_fee_bps = 30, tp_reserve_a = None, tp_reserve_b = None\<rparr>"

definition sample_pairs :: "trading_pair list" where
  "sample_pairs = [sample_pair ''a'' ''b'' ''p1'', sample_pair ''b'' ''c'' ''p2'',
     sample_pair ''a'' ''c'' ''p3'']"

definition sample_finder :: path_finder where
  "sample_finder = snd (update_from_source ''soroswap'' (\<lambda>_. 0) sample_pairs
     (path_finder_new path_finder_config_default))"

lemma sample_finder_run: "finder_run path_finder_config_default sample_finder"
  unfolding sample_finder_def by (intro run_update run_new)

lemma sample_graph:
  "tg_adjacency (pf_graph sample_finder) =
     [(''a'', [half_edge (Contract ''b'') ''soroswap'' ''p1'' 30 0, half_edge (Contract ''c'') ''soroswap'' ''p3'' 30 0]),
      (''b'', [half_edge (Contract ''a'') ''soroswap'' ''p1'' 30 0, half_edge (Contract ''c'') ''soroswap'' ''p2'' 30 0]),
      (''c'', [half_edge (Contract ''b'') ''soroswap'' ''p2'' 30 0, half_edge (Contract ''a'') ''soroswap'' ''p3'' 30 0])]"
  by (simp add: sample_finder_def update_from_source_def Let_def path_finder_new_def tg_new_def
      remove_source_def sample_pairs_def sample_pair_def token_allowed_def path_finder_config_default_def
      add_pair_def push_edge_def half_edge_def)

lemma sample_config [simp]:
  "pf_config sample_finder = path_finder_config_default" "pf_poisoned sample_finder = False"
  "pf_cache sample_finder = Map.empty"
  by (simp_all add: sample_finder_def update_from_source_def Let_def path_finder_new_def)

lemma sample_paths:
  "Token_Graph.find_paths (pf_graph sample_finder) (Contract ''a'') (Contract ''c'') 3 50 0 =
     [\<lparr>rp_tokens = [Contract ''a'', Contract ''c''], rp_sources = [''soroswap''],
       rp_pool_addresses = [''p3''], rp_hops = 1\<rparr>,
      \<lparr>rp_tokens = [Contract ''a'', Contract ''b'', Contract ''c''], rp_sources = [''soroswap'', ''soroswap''],
       rp_pool_addresses = [''p1'', ''p2''], rp_hops = 2\<rparr>]"
  by (simp add: Token_Graph.find_paths_def Let_def direct_paths_def sample_graph half_edge_def
      sort_key_def)

section \<open>Token identifiers\<close>

text \<open>Parsing a token id and printing it again gives the same string, for every string; printing and
  parsing gives the same id exactly for the native asset, for classic assets whose code has no
  colon, and for contract addresses without a colon other than \<open>native\<close>.\<close>
lemma token_id_roundtrip:
  "canonical (from_str_auto s) = s
   \<and> (from_str_auto (canonical t) = t \<longleftrightarrow>
        (case t of Native \<Rightarrow> True
         | Classic code issuer \<Rightarrow> CHR '':'' \<notin> set code
         | Contract address \<Rightarrow> CHR '':'' \<notin> set address \<and> address \<noteq> ''native''))"
proof
  show "canonical (from_str_auto s) = s"
    by (auto simp: from_str_auto_def split: option.split dest: split_once_Some)
  show "from_str_auto (canonical t) = t \<longleftrightarrow>
        (case t of Native \<Rightarrow> True
         | Classic code issuer \<Rightarrow> CHR '':'' \<notin> set code
         | Contract address \<Rightarrow> CHR '':'' \<notin> set address \<and> address \<noteq> ''native'')"
  proof (cases t)
    case (Classic code issuer)
    have "code @ '':'' @ issuer \<noteq> ''native''"
    proof
      assume "code @ '':'' @ issuer = ''native''"
      then have "CHR '':'' \<in> set ''native''" by (metis append_Cons in_set_conv_decomp append_Nil)
      then show False by simp
    qed
    then show ?thesis
      using Classic by (auto simp: from_str_auto_def split_once_append split_once_None split: option.splits dest: split_once_Some)
  qed (auto simp: from_str_auto_def split_once_None [symmetric] split: option.splits dest: split_once_Some)
qed

section \<open>Path enumeration\<close>

text \<open>C27: Every path that \<open>find_paths\<close> returns, under any limits, is a chain of edges of the graph from the
  start to the end token that repeats no token and no pool, within the hop limit beyond a single
  hop; the paths are sorted by hops, at most \<open>m\<close> of them have several hops, and at most \<open>d\<close> a
  single one when \<open>d\<close> is not zero.\<close>
theorem find_paths_sound:
  shows "(\<forall>p\<in>set (Token_Graph.find_paths g start end_token h m d).
      \<exists>es. p = route start es \<and> swap_route g start (canonical end_token) es \<and> (length es = 1 \<or> length es \<le> h))
    \<and> sorted (map rp_hops (Token_Graph.find_paths g start end_token h m d))
    \<and> length (filter (\<lambda>p. 2 \<le> rp_hops p) (Token_Graph.find_paths g start end_token h m d)) \<le> m
    \<and> (d = 0 \<or> length (filter (\<lambda>p. rp_hops p = 1) (Token_Graph.find_paths g start end_token h m d)) \<le> d)"
proof (cases "canonical start = canonical end_token")
  case True
  then show ?thesis by (simp add: Token_Graph.find_paths_def)
next
  case False
  obtain ds rs where f: "Token_Graph.find_paths g start end_token h m d
      = sort_key rp_hops (map (\<lambda>e. route start [e]) (take (if d = 0 then length ds else d) ds) @ map (route start) rs)"
    and rs: "search_result g start (canonical end_token) h m [[]] 0 rs"
    using find_paths_result [OF False, of g h m d] by blast
  have two: "\<forall>es\<in>set rs. 2 \<le> length es" using rs by (auto simp: search_result_def multi_hop_def)
  show ?thesis
    using find_paths_routes [of _ g start end_token h m d] rs
    by (simp add: f length_filter_sort_key filter_hops [OF two] search_result_def
        del: filter_append One_nat_def)
qed

theorem find_paths_sound_witness:
  "\<exists>es. \<lparr>rp_tokens = [Contract ''a'', Contract ''b'', Contract ''c''],
         rp_sources = [''soroswap'', ''soroswap''], rp_pool_addresses = [''p1'', ''p2''], rp_hops = 2\<rparr>
       = route (Contract ''a'') es
     \<and> swap_route (pf_graph sample_finder) (Contract ''a'') (canonical (Contract ''c'')) es
     \<and> (length es = 1 \<or> length es \<le> 3)"
  using find_paths_sound [of "pf_graph sample_finder" "Contract ''a''" "Contract ''c''" 3 50 0]
  unfolding sample_paths by simp

text \<open>C26: While no limit is reached nothing is missed: when all direct paths are asked for, fewer than \<open>m\<close>
  multi-hop paths came back and the graph is small enough for the queue limit of 10,000, the
  result is exactly the set of all chains without a repeated token or pool of at most \<open>h\<close> hops.\<close>
theorem find_paths_complete:
  assumes "canonical start \<noteq> canonical end_token" "(edge_count g + 1) ^ h \<le> 10000"
    and "length (filter (\<lambda>p. 2 \<le> rp_hops p) (Token_Graph.find_paths g start end_token h m 0)) < m"
  shows "set (Token_Graph.find_paths g start end_token h m 0) =
    route start ` {es. swap_route g start (canonical end_token) es \<and> (length es = 1 \<or> length es \<le> h)}"
proof -
  let ?k = "canonical end_token"
  obtain rs where f: "Token_Graph.find_paths g start end_token h m 0
      = sort_key rp_hops (map (\<lambda>e. route start [e]) (direct_edges g start ?k) @ map (route start) rs)"
    and rs: "search_result g start ?k h m [[]] 0 rs"
    using find_paths_result [OF assms(1), of g h m 0] by auto
  have two: "\<forall>es\<in>set rs. 2 \<le> length es" using rs by (auto simp: search_result_def multi_hop_def)
  have "length rs < m"
    using assms(3) by (simp add: f length_filter_sort_key filter_hops [OF two] del: filter_append)
  then have multi: "set rs = {es. multi_hop g start ?k h es}" by (rule multi_hop_empty_queue [OF rs _ assms(2)])
  have "{es. swap_route g start ?k es \<and> (length es = 1 \<or> length es \<le> h)}
      = (\<lambda>e. [e]) ` {e. swap_route g start ?k [e]} \<union> {es. multi_hop g start ?k h es}" (is "?l = ?r")
  proof (rule set_eqI)
    fix es :: "edge list"
    have "es = [] \<or> (\<exists>e. es = [e]) \<or> 2 \<le> length es" by (cases es; cases "tl es") auto
    then show "es \<in> ?l \<longleftrightarrow> es \<in> ?r" by (auto simp: multi_hop_def swap_route_def)
  qed
  then show ?thesis
    unfolding f by (simp add: direct_edges_route [OF assms(1)] multi image_Un image_image)
qed

theorem find_paths_complete_witness:
  "set (Token_Graph.find_paths (pf_graph sample_finder) (Contract ''a'') (Contract ''c'') 3 50 0) =
    route (Contract ''a'') ` {es. swap_route (pf_graph sample_finder) (Contract ''a'') (canonical (Contract ''c'')) es
      \<and> (length es = 1 \<or> length es \<le> 3)}"
proof (rule find_paths_complete)
  have "edge_count (pf_graph sample_finder) = 6" by (simp add: edge_count_def sample_graph)
  then show "(edge_count (pf_graph sample_finder) + 1) ^ 3 \<le> 10000" by simp
qed (simp_all add: sample_paths)

section \<open>The finder\<close>

text \<open>After \<open>update_from_source\<close> the edges at every token are those of the other sources, unchanged and in
  their order, followed by the ones of the given pairs whose two tokens are allowed.\<close>
lemma update_replaces_source:
  "edges_at (pf_graph (snd (update_from_source source clock pairs pf))) k =
     filter (\<lambda>e. ed_source e \<noteq> source) (edges_at (pf_graph pf) k) @ pair_edges pf source clock 0 pairs k
   \<and> filter (\<lambda>e. ed_source e = source) (edges_at (pf_graph (snd (update_from_source source clock pairs pf))) k)
     = pair_edges pf source clock 0 pairs k"
  unfolding edges_at_update by (auto simp: filter_empty_conv filter_id_conv dest: pair_edges_source)

text \<open>C25: After any sequence of updates, lookups, invalidations and clearings, whatever the clock read, a
  lookup that returns gives exactly the paths of the current graph under its limits: the cache
  is never stale.\<close>
theorem lookup_is_fresh:
  assumes "finder_run config pf" "canonical_token token_in" "canonical_token token_out"
    and "find_paths_with_limits now token_in token_out h m d pf = (Some paths, pf')"
  shows "paths = Token_Graph.find_paths (pf_graph pf) token_in token_out h m d \<and> pf_graph pf' = pf_graph pf"
proof (cases rule: find_cases [of pf token_in token_out h m d now])
  case (hit cached)
  then show ?thesis
    using cache_coherentD [OF finder_run_coherent [OF assms(1)] _ assms(2,3)] assms(4) by auto
qed (use assms(4) in auto)

theorem lookup_is_fresh_witness:
  "fst (find_paths_with_limits 5 (Contract ''a'') (Contract ''c'') 3 50 0
          (snd (find_paths_with_limits 4 (Contract ''a'') (Contract ''c'') 3 50 0 sample_finder)))
     = Some (Token_Graph.find_paths (pf_graph sample_finder) (Contract ''a'') (Contract ''c'') 3 50 0)"
proof -
  let ?pf = "snd (find_paths_with_limits 4 (Contract ''a'') (Contract ''c'') 3 50 0 sample_finder)"
  have tokens: "canonical_token (Contract ''a'')" "canonical_token (Contract ''c'')"
    by (simp_all add: canonical_token_def from_str_auto_def)
  have run: "finder_run path_finder_config_default ?pf" by (intro run_find sample_finder_run tokens)
  obtain paths pf' where r: "find_paths_with_limits 5 (Contract ''a'') (Contract ''c'') 3 50 0 ?pf = (Some paths, pf')"
    by (simp add: find_paths_with_limits_def path_finder_config_default_def CACHE_TTL_MS_def Let_def)
  show ?thesis using lookup_is_fresh [OF run tokens r] unfolding r by simp
qed

text \<open>No path that the finder ever returns touches an excluded token, at any position, for any start and
  end token.\<close>
lemma excluded_tokens_never_routed:
  assumes "finder_run config pf" "canonical_token token_in" "canonical_token token_out"
    and "find_paths_with_limits now token_in token_out h m d pf = (Some paths, pf')" "p \<in> set paths"
  shows "path_allowed pf p"
proof -
  have paths: "paths = Token_Graph.find_paths (pf_graph pf) token_in token_out h m d"
  proof (cases rule: find_cases [of pf token_in token_out h m d now])
    case (hit cached)
    then show ?thesis
      using cache_coherentD [OF finder_run_coherent [OF assms(1)] _ assms(2,3)] assms(4) by auto
  qed (use assms(4) in auto)
  obtain es where "p = route token_in es" "swap_route (pf_graph pf) token_in (canonical token_out) es"
    using find_paths_routes [of p "pf_graph pf" token_in token_out h m d] assms(5) paths by blast
  then show ?thesis using swap_route_allowed [OF finder_run_allowed [OF assms(1)]] by simp
qed

lemma excluded_tokens_never_routed_witness:
  "path_allowed sample_finder
     \<lparr>rp_tokens = [Contract ''a'', Contract ''b'', Contract ''c''], rp_sources = [''soroswap'', ''soroswap''],
      rp_pool_addresses = [''p1'', ''p2''], rp_hops = 2\<rparr>"
proof (rule excluded_tokens_never_routed [OF sample_finder_run])
  show "canonical_token (Contract ''a'')" "canonical_token (Contract ''c'')"
    by (simp_all add: canonical_token_def from_str_auto_def)
  show "find_paths_with_limits 4 (Contract ''a'') (Contract ''c'') 3 50 0 sample_finder =
      (Some (Token_Graph.find_paths (pf_graph sample_finder) (Contract ''a'') (Contract ''c'') 3 50 0),
       snd (find_paths_with_limits 4 (Contract ''a'') (Contract ''c'') 3 50 0 sample_finder))"
    by (simp add: find_paths_with_limits_def path_finder_config_default_def Let_def)
  show "\<lparr>rp_tokens = [Contract ''a'', Contract ''b'', Contract ''c''], rp_sources = [''soroswap'', ''soroswap''],
      rp_pool_addresses = [''p1'', ''p2''], rp_hops = 2\<rparr>
    \<in> set (Token_Graph.find_paths (pf_graph sample_finder) (Contract ''a'') (Contract ''c'') 3 50 0)"
    by (simp add: sample_paths)
qed

lemma poisoned_forever:
  "pf_poisoned pf \<Longrightarrow> fst (update_from_source source clock pairs pf) = None
     \<and> pf_poisoned (snd (update_from_source source clock pairs pf))
     \<and> pf_poisoned (snd (find_paths_with_limits now ti to_tok h m d pf))
     \<and> pf_poisoned (invalidate a b pf) \<and> pf_poisoned (clear_cache pf)"
  by (auto simp: update_from_source_def find_paths_with_limits_def invalidate_def clear_cache_def Let_def)

text \<open>A clock that is set back between two lookups of one pair makes \<open>now - cached_at_ms\<close> underflow while the
  cache is locked: the lookup panics, the mutex is poisoned, and from then on every
  \<open>update_from_source\<close> panics at \<open>lock().unwrap()\<close>.\<close>
lemma clock_set_back_disables_updates:
  "\<exists>pf. finder_run path_finder_config_default pf
     \<and> Path_Finder.find_paths 999 (Contract ''a'') (Contract ''c'') pf = (None, pf\<lparr>pf_poisoned := True\<rparr>)
     \<and> fst (update_from_source source clock pairs (pf\<lparr>pf_poisoned := True\<rparr>)) = None"
proof -
  let ?pf = "snd (Path_Finder.find_paths 1000 (Contract ''a'') (Contract ''c'') sample_finder)"
  have tokens: "canonical_token (Contract ''a'')" "canonical_token (Contract ''c'')"
    by (simp_all add: canonical_token_def from_str_auto_def)
  have "finder_run path_finder_config_default ?pf"
    unfolding Path_Finder.find_paths_def by (intro run_find sample_finder_run tokens)
  moreover have "Path_Finder.find_paths 999 (Contract ''a'') (Contract ''c'') ?pf = (None, ?pf\<lparr>pf_poisoned := True\<rparr>)"
    by (simp add: Path_Finder.find_paths_def find_paths_with_limits_def Let_def)
  ultimately show ?thesis using poisoned_forever by fastforce
qed

end
