(* ===== verification/F64.thy ===== *)
theory F64
  imports Dex_Prelude Complex_Main "HOL-Library.Log_Nat"
begin

text \<open>
  IEEE double-precision arithmetic as far as \<open>split_optimizer.rs\<close> and \<open>comet_math.rs\<close> use it: a
  finite \<open>f64\<close> is its rational value, every operation is the exact operation rounded to nearest,
  ties to even, with 53 significant bits and the subnormal range. The values of those files stay
  far below \<open>2 ^ 1024\<close> and no denominator is zero, so infinities and NaN do not occur; the sign of
  zero is not distinguished, which no comparison observes.
\<close>

type_synonym f64 = rat

section \<open>Rounding\<close>

definition round_half_even :: "rat \<Rightarrow> int" where
  "round_half_even z =
     (let n = \<lfloor>z\<rfloor>; r = z - of_int n in
      if r < 1 / 2 then n else if r > 1 / 2 then n + 1 else if even n then n else n + 1)"

definition f64_exponent :: "rat \<Rightarrow> int" where
  "f64_exponent x =
     (let (p, q) = quotient_of \<bar>x\<bar>;
          e = int (floorlog 2 (nat p)) - int (floorlog 2 (nat q))
      in if \<bar>x\<bar> < 2 powi e then e - 1 else e)"

definition f64_ulp :: "rat \<Rightarrow> rat" where
  "f64_ulp x = 2 powi (max (f64_exponent x - 52) (- 1074))"

definition f64_round :: "rat \<Rightarrow> f64" where
  "f64_round x = (if x = 0 then 0 else of_int (round_half_even (x / f64_ulp x)) * f64_ulp x)"

section \<open>Operations\<close>

definition f64_add :: "f64 \<Rightarrow> f64 \<Rightarrow> f64" where "f64_add x y = f64_round (x + y)"
definition f64_sub :: "f64 \<Rightarrow> f64 \<Rightarrow> f64" where "f64_sub x y = f64_round (x - y)"
definition f64_mul :: "f64 \<Rightarrow> f64 \<Rightarrow> f64" where "f64_mul x y = f64_round (x * y)"
definition f64_div :: "f64 \<Rightarrow> f64 \<Rightarrow> f64" where "f64_div x y = f64_round (x / y)"

text \<open>The casts \<open>v as f64\<close> and \<open>x as u128\<close>, the second truncating and saturating.\<close>

definition f64_of_nat :: "nat \<Rightarrow> f64" where "f64_of_nat v = f64_round (of_nat v)"

definition f64_as_u128 :: "f64 \<Rightarrow> nat" where
  "f64_as_u128 x = (if x \<le> 0 then 0 else min (nat \<lfloor>x\<rfloor>) u128_max)"

definition f64_clamp :: "f64 \<Rightarrow> f64 \<Rightarrow> f64 \<Rightarrow> f64" where
  "f64_clamp lo hi x = (if x < lo then lo else if x > hi then hi else x)"

section \<open>Facts\<close>

lemma round_half_even_le: "z \<le> of_int n \<Longrightarrow> round_half_even z \<le> n"
proof -
  assume z: "z \<le> of_int n"
  show ?thesis
  proof (cases "\<lfloor>z\<rfloor> = n")
    case True
    then have "z - of_int \<lfloor>z\<rfloor> = 0" using z of_int_floor_le [of z] by simp
    then show ?thesis using True by (simp add: round_half_even_def)
  next
    case False
    moreover have "\<lfloor>z\<rfloor> \<le> n" using z by (simp add: floor_le_iff)
    ultimately have "\<lfloor>z\<rfloor> + 1 \<le> n" by simp
    then show ?thesis by (auto simp: round_half_even_def Let_def)
  qed
qed

lemma round_half_even_ge: "of_int n \<le> z \<Longrightarrow> n \<le> round_half_even z"
proof -
  assume "of_int n \<le> z"
  then have "n \<le> \<lfloor>z\<rfloor>" by (simp add: le_floor_iff)
  moreover have "\<lfloor>z\<rfloor> \<le> round_half_even z" by (simp add: round_half_even_def Let_def)
  ultimately show ?thesis by simp
qed

lemma f64_ulp_pos: "0 < f64_ulp x"
  by (simp add: f64_ulp_def)

lemma f64_exponent_le:
  assumes "x \<noteq> 0"
  shows "2 powi (f64_exponent x) \<le> \<bar>x\<bar>"
proof -
  obtain p q where pq: "quotient_of \<bar>x\<bar> = (p, q)" by fastforce
  have q: "0 < q" using quotient_of_denom_pos [OF pq] .
  have x: "\<bar>x\<bar> = of_int p / of_int q" using quotient_of_div [OF pq] .
  have p: "0 < p"
  proof (rule ccontr)
    assume "\<not> 0 < p"
    then have "\<bar>x\<bar> \<le> 0" unfolding x using q by (intro divide_nonpos_pos) simp_all
    then show False using assms by simp
  qed
  have lp: "2 ^ (floorlog 2 (nat p) - 1) \<le> nat p" "nat q < 2 ^ floorlog 2 (nat q)" "0 < floorlog 2 (nat p)"
    using floorlog_bounds [of "nat p" 2] floorlog_bounds [of "nat q" 2] p q floorlog_eq_zero_iff [of 2 "nat p"]
    by auto
  let ?e = "int (floorlog 2 (nat p)) - int (floorlog 2 (nat q))"
  have P: "(2 :: rat) powi (int (floorlog 2 (nat p)) - 1) \<le> of_int p"
  proof -
    have "(2 :: rat) powi (int (floorlog 2 (nat p)) - 1) = of_nat (2 ^ (floorlog 2 (nat p) - 1))"
      using lp(3) by (simp add: power_int_def nat_diff_distrib)
    also have "\<dots> \<le> of_nat (nat p)" using lp(1) by (simp only: of_nat_le_iff)
    finally show ?thesis using p by simp
  qed
  have Q: "of_int q \<le> (2 :: rat) powi int (floorlog 2 (nat q))"
  proof -
    have "(of_nat (nat q) :: rat) \<le> of_nat (2 ^ floorlog 2 (nat q))" using lp(2) by (simp only: of_nat_le_iff less_imp_le)
    then show ?thesis using q by simp
  qed
  have "(2 :: rat) powi (?e - 1) = 2 powi (int (floorlog 2 (nat p)) - 1) / 2 powi int (floorlog 2 (nat q))"
    by (simp add: power_int_diff [symmetric] algebra_simps del: power_int_of_nat)
  also have "\<dots> \<le> of_int p / of_int q" using P Q p q by (intro frac_le) simp_all
  finally show ?thesis using pq x by (auto simp: f64_exponent_def Let_def not_less)
qed

lemma f64_exponent_gt:
  assumes "x \<noteq> 0"
  shows "\<bar>x\<bar> < 2 powi (f64_exponent x + 1)"
proof -
  obtain p q where pq: "quotient_of \<bar>x\<bar> = (p, q)" by fastforce
  have q: "0 < q" using quotient_of_denom_pos [OF pq] .
  have x: "\<bar>x\<bar> = of_int p / of_int q" using quotient_of_div [OF pq] .
  let ?lp = "floorlog 2 (nat p)" and ?lq = "floorlog 2 (nat q)"
  have lq: "2 ^ (?lq - 1) \<le> nat q" "0 < ?lq"
    using floorlog_bounds [of "nat q" 2] q floorlog_eq_zero_iff [of 2 "nat q"] by auto
  have "nat p < 2 ^ ?lp" using floorlog_bounds [of "nat p" 2] by (cases "nat p = 0") auto
  then have "(of_nat (nat p) :: rat) < of_nat (2 ^ ?lp)" by (simp only: of_nat_less_iff)
  moreover have "0 \<le> p"
  proof (rule ccontr)
    assume "\<not> 0 \<le> p"
    then have "\<bar>x\<bar> < 0" unfolding x using q by (intro divide_neg_pos) simp_all
    then show False by simp
  qed
  ultimately have P: "(of_int p :: rat) < 2 powi int ?lp" by simp
  have "(of_nat (2 ^ (?lq - 1)) :: rat) \<le> of_nat (nat q)" using lq(1) by (simp only: of_nat_le_iff)
  then have Q: "(2 :: rat) powi (int ?lq - 1) \<le> of_int q"
    using lq(2) q by (simp add: power_int_def nat_diff_distrib)
  have "of_int p / of_int q < (2 :: rat) powi int ?lp / 2 powi (int ?lq - 1)"
    using P Q q \<open>0 \<le> p\<close> by (intro frac_less) simp_all
  also have "\<dots> = 2 powi (int ?lp - int ?lq + 1)"
    by (simp add: power_int_diff [symmetric] algebra_simps del: power_int_of_nat)
  finally show ?thesis using pq x by (auto simp: f64_exponent_def Let_def)
qed

text \<open>Away from the subnormal range the relative error of a rounding is at most \<open>2 ^ -53\<close>.\<close>

lemma round_half_even_error: "\<bar>of_int (round_half_even z) - z\<bar> \<le> 1 / 2"
proof -
  define n where "n = (of_int \<lfloor>z\<rfloor> :: rat)"
  have "n \<le> z" "z < n + 1" using floor_correct [of z] by (simp_all add: n_def)
  moreover have "of_int (round_half_even z) = (if z - n < 1 / 2 then n else if z - n > 1 / 2 then n + 1
      else if even \<lfloor>z\<rfloor> then n else n + 1)"
    by (simp add: round_half_even_def Let_def n_def)
  ultimately show ?thesis by (auto simp: abs_le_iff)
qed

lemma f64_round_error:
  assumes "1 / 2 ^ 100 \<le> \<bar>x\<bar>"
  shows "\<bar>f64_round x - x\<bar> \<le> \<bar>x\<bar> / 2 ^ 53"
proof -
  have x: "x \<noteq> 0" using assms by auto
  have "- 100 < f64_exponent x + 1"
  proof (rule ccontr)
    assume "\<not> - 100 < f64_exponent x + 1"
    then have "(2 :: rat) powi (f64_exponent x + 1) \<le> 2 powi (- 100)" by (intro power_int_increasing) simp_all
    also have "2 powi (- 100) = (1 / 2 ^ 100 :: rat)"
      by (simp only: power_int_minus power_int_numeral inverse_eq_divide)
    also note assms
    also note f64_exponent_gt [OF x]
    finally show False by simp
  qed
  then have ulp: "f64_ulp x = 2 powi (f64_exponent x - 52)" by (simp add: f64_ulp_def)
  also have "\<dots> = 2 powi f64_exponent x / 2 ^ 52" by (simp add: power_int_diff)
  also have "\<dots> \<le> \<bar>x\<bar> / 2 ^ 52" using f64_exponent_le [OF x] by (intro divide_right_mono) simp_all
  finally have le: "f64_ulp x \<le> \<bar>x\<bar> / 2 ^ 52" .
  let ?u = "f64_ulp x" and ?r = "round_half_even (x / f64_ulp x)"
  have "\<bar>f64_round x - x\<bar> = \<bar>(of_int ?r - x / ?u) * ?u\<bar>"
    using x f64_ulp_pos [of x] by (simp add: f64_round_def left_diff_distrib)
  also have "\<dots> = \<bar>of_int ?r - x / ?u\<bar> * ?u" using f64_ulp_pos [of x] by (simp add: abs_mult)
  also have "\<dots> \<le> 1 / 2 * ?u" using f64_ulp_pos [of x] by (intro mult_right_mono round_half_even_error) simp
  also have "\<dots> \<le> 1 / 2 * (\<bar>x\<bar> / 2 ^ 52)" using le by (intro mult_left_mono) simp_all
  finally show ?thesis by simp
qed

text \<open>The natural numbers up to \<open>2 ^ 53\<close> are representable, and rounding does not pass them.\<close>

lemma f64_grid:
  assumes "x \<noteq> 0" "\<bar>x\<bar> \<le> of_nat n" "n \<le> 2 ^ 53"
  shows "\<exists>m. of_nat n / f64_ulp x = of_int m"
proof -
  have le: "(2 :: rat) powi f64_exponent x \<le> of_nat n"
    using f64_exponent_le [OF assms(1)] assms(2) by linarith
  show ?thesis
  proof (cases "f64_exponent x \<le> 52")
    case True
    define k where "k = nat (- max (f64_exponent x - 52) (- 1074))"
    have "f64_ulp x = 2 powi (- int k)" using True by (simp add: f64_ulp_def k_def)
    then have "of_nat n / f64_ulp x = of_nat n * 2 ^ k" by (simp add: power_int_minus divide_inverse)
    then show ?thesis by (intro exI [of _ "int n * 2 ^ k"]) simp
  next
    case False
    define j where "j = nat (f64_exponent x - 53)"
    have j: "f64_exponent x = 53 + int j" using False by (simp add: j_def)
    have "(2 :: rat) ^ (53 + j) \<le> of_nat n" using le unfolding j by (simp add: power_int_def nat_add_distrib)
    then have "(2 :: nat) ^ (53 + j) \<le> n" by (metis of_nat_le_iff of_nat_numeral of_nat_power)
    with assms(3) have n: "n = 2 ^ 53" "j = 0"
      using power_le_imp_le_exp [of "2 :: nat" "53 + j" 53] by (auto intro: antisym order_trans)
    have "f64_ulp x = 2" using j n by (simp add: f64_ulp_def)
    then show ?thesis using n by (intro exI [of _ "2 ^ 52"]) simp
  qed
qed

lemma f64_round_le_nat:
  assumes "0 \<le> x" "x \<le> of_nat n" "n \<le> 2 ^ 53"
  shows "f64_round x \<le> of_nat n"
proof (cases "x = 0")
  case False
  obtain m where m: "of_nat n / f64_ulp x = of_int m" using f64_grid [OF False _ assms(3)] assms(1,2) by auto
  have "x / f64_ulp x \<le> of_int m"
    unfolding m [symmetric] using assms(2) f64_ulp_pos [of x] by (intro divide_right_mono) simp_all
  then have "of_int (round_half_even (x / f64_ulp x)) \<le> (of_nat n / f64_ulp x :: rat)"
    unfolding m using round_half_even_le by simp
  then show ?thesis using False f64_ulp_pos [of x] by (simp add: f64_round_def field_simps)
qed (simp add: f64_round_def)

lemma f64_of_nat_exact:
  assumes "n \<le> 2 ^ 53"
  shows "f64_of_nat n = of_nat n"
proof (cases "n = 0")
  case False
  let ?x = "of_nat n :: rat"
  obtain m where m: "?x / f64_ulp ?x = of_int m" using f64_grid [of ?x n] assms False by auto
  have "round_half_even (?x / f64_ulp ?x) = m"
    unfolding m by (intro antisym round_half_even_le round_half_even_ge) simp_all
  then have "f64_round ?x = ?x / f64_ulp ?x * f64_ulp ?x" using False m by (simp add: f64_round_def)
  then show ?thesis using f64_ulp_pos [of ?x] by (simp add: f64_of_nat_def)
qed (simp add: f64_of_nat_def f64_round_def)

text \<open>A fraction of an amount is at most the amount.\<close>

lemma f64_fraction_le:
  assumes "0 \<le> x" "x \<le> 1" "n \<le> 2 ^ 53"
  shows "f64_as_u128 (f64_mul x (f64_of_nat n)) \<le> n"
proof -
  have "f64_mul x (f64_of_nat n) \<le> of_nat n"
    unfolding f64_mul_def f64_of_nat_exact [OF assms(3)]
    using assms by (intro f64_round_le_nat) (simp_all add: mult_left_le_one_le)
  then have "nat \<lfloor>f64_mul x (f64_of_nat n)\<rfloor> \<le> n" by (simp add: nat_le_iff floor_le_iff)
  then show ?thesis by (simp add: f64_as_u128_def min_def)
qed

lemma f64_clamp_range: "lo \<le> hi \<Longrightarrow> lo \<le> f64_clamp lo hi x \<and> f64_clamp lo hi x \<le> hi"
  by (simp add: f64_clamp_def)

end
