(* ===== verification/Split_Optimizer.thy ===== *)
theory Split_Optimizer
  imports F64 Path_Finder
begin

text \<open>
  \<open>crates/router-engine/src/split_optimizer.rs\<close> with the records of \<open>types.rs\<close> it fills: the
  ranking of quoted paths, Brent's method over \<open>f64\<close>, the recursive split over several paths, the
  removal of dust legs, and the construction of the route. The quoting closure is a parameter of the
  code and of the model; its outer \<open>option\<close> is a panic, as everywhere: \<open>overflow-checks\<close> are on
  in the release profile. The elapsed time is an argument.
\<close>

section \<open>Records\<close>

record quote =
  qt_source :: string
  qt_pool_address :: string
  qt_token_in :: token_id
  qt_token_out :: token_id
  qt_amount_in :: nat
  qt_amount_out :: nat
  qt_price_impact_bps :: nat
  qt_fee_bps :: nat
  qt_path :: "token_id list"
  qt_timestamp_ms :: nat

record sub_order =
  so_path :: route_path
  so_amount_in :: nat
  so_expected_amount_out :: nat
  so_fraction :: f64

record route_debug_candidate =
  rc_source :: string
  rc_path :: "string list"
  rc_pool_addresses :: "string list"
  rc_amount_out :: nat
  rc_price_impact_bps :: nat

record route_debug_planned_split =
  rs_source :: string
  rs_path :: "string list"
  rs_pool_addresses :: "string list"
  rs_amount_in :: nat
  rs_expected_amount_out :: nat
  rs_fraction_bps :: nat

record route_debug =
  rd_quoted_paths_count :: nat
  rd_candidate_paths_count :: nat
  rd_best_single_out :: nat
  rd_second_best_out :: "nat option"
  rd_best_single_impact_bps :: nat
  rd_split_threshold_bps :: nat
  rd_competitive_delta_bps :: nat
  rd_min_split_fraction_bps :: nat
  rd_split_attempted :: bool
  rd_split_rejected_reason :: "string option"
  rd_optimization_strategy :: string
  rd_used_rest_best_approximation :: bool
  rd_split_total_out :: "nat option"
  rd_dust_filtered_legs :: nat
  rd_candidate_routes :: "route_debug_candidate list"
  rd_planned_split :: "route_debug_planned_split list"

record optimal_route =
  rt_sub_orders :: "sub_order list"
  rt_total_amount_in :: nat
  rt_total_expected_out :: nat
  rt_price_impact_bps :: nat
  rt_is_split :: bool
  rt_improvement_bps :: nat
  rt_minimum_out :: nat
  rt_compute_time_ms :: nat
  rt_debug :: "route_debug option"

record split_config =
  sc_split_threshold_bps :: nat
  sc_split_competitive_delta_bps :: nat
  sc_min_split_fraction_bps :: nat
  sc_min_split_amount_in_bps :: nat
  sc_max_leg_rate_deviation_bps :: nat
  sc_min_split_improvement_bps :: nat
  sc_max_splits :: nat
  sc_tolerance :: f64
  sc_max_iterations :: nat

definition split_config_default :: split_config where
  "split_config_default =
     \<lparr>sc_split_threshold_bps = 5, sc_split_competitive_delta_bps = 50, sc_min_split_fraction_bps = 5,
      sc_min_split_amount_in_bps = 10, sc_max_leg_rate_deviation_bps = 500,
      sc_min_split_improvement_bps = 5, sc_max_splits = 5, sc_tolerance = f64_round (1 / 10000),
      sc_max_iterations = 18\<rparr>"

record quoted_path =
  qp_path :: route_path
  qp_quote :: quote

type_synonym quote_fn = "route_path \<Rightarrow> nat \<Rightarrow> quote option option"

section \<open>Checked arithmetic and slippage\<close>

definition as_u32 :: "nat \<Rightarrow> nat" where "as_u32 v = v mod 2 ^ 32"

fun u128_sum_checked :: "nat list \<Rightarrow> nat option" where
  "u128_sum_checked [] = Some 0"
| "u128_sum_checked (v # vs) = Option.bind (u128_sum_checked vs) (\<lambda>s. u128_checked_add v s)"

definition SPLIT_MIN_OUTPUT_EXTRA_BPS :: nat where "SPLIT_MIN_OUTPUT_EXTRA_BPS = 150"

definition apply_slippage :: "nat \<Rightarrow> nat \<Rightarrow> nat option" where
  "apply_slippage amount slippage_bps =
     Option.bind (u128_checked_sub 10000 slippage_bps) (\<lambda>keep.
     Option.bind (u128_checked_mul amount keep) (\<lambda>v. Some (v div 10000)))"

definition apply_split_minimum_slippage :: "nat \<Rightarrow> nat \<Rightarrow> nat option" where
  "apply_split_minimum_slippage amount slippage_bps =
     apply_slippage amount (u32_saturating_add slippage_bps SPLIT_MIN_OUTPUT_EXTRA_BPS)"

definition split_amount_in_fraction_bps :: "nat \<Rightarrow> nat \<Rightarrow> nat" where
  "split_amount_in_fraction_bps amount_in total_amount =
     (if total_amount = 0 then 0 else as_u32 (u128_saturating_mul amount_in 10000 div total_amount))"

definition leg_rate_matches_full_quote :: "quoted_path \<Rightarrow> nat \<Rightarrow> nat \<Rightarrow> nat \<Rightarrow> bool" where
  "leg_rate_matches_full_quote quoted_path leg_amount_in leg_amount_out max_deviation_bps =
     (if leg_amount_in = 0 \<or> leg_amount_out = 0 then False
      else
        let full_in = qt_amount_in (qp_quote quoted_path);
            full_out = qt_amount_out (qp_quote quoted_path)
        in if full_in = 0 \<or> full_out = 0 then False
           else
             let full_rate = f64_div (f64_of_nat full_out) (f64_of_nat full_in);
                 leg_rate = f64_div (f64_of_nat leg_amount_out) (f64_of_nat leg_amount_in)
             in if full_rate \<le> 0 then False
                else
                  let max_mul = f64_add 1 (f64_div (f64_of_nat max_deviation_bps) 10000);
                      min_mul = f64_div 1 max_mul
                  in leg_rate \<le> f64_mul full_rate max_mul \<and> leg_rate \<ge> f64_mul full_rate min_mul)"

section \<open>Brent's method\<close>

record brent_state =
  br_a :: f64
  br_b :: f64
  br_x :: f64
  br_w :: f64
  br_v :: f64
  br_fx :: f64
  br_fw :: f64
  br_fv :: f64
  br_d :: f64
  br_e :: f64

definition f64_golden :: f64 where "f64_golden = f64_round (381966011250105 / 1000000000000000)"

text \<open>The parabolic step through \<open>x\<close>, \<open>w\<close> and \<open>v\<close>, when it is accepted.\<close>

definition brent_parabola :: "brent_state \<Rightarrow> f64 \<Rightarrow> f64 \<Rightarrow> f64 \<Rightarrow> f64 option" where
  "brent_parabola s midpoint tol1 tol2 =
     (if \<bar>br_e s\<bar> > tol1 then
        let x = br_x s; w = br_w s; v = br_v s; a = br_a s; b = br_b s;
            r = f64_mul (f64_sub x w) (f64_sub (br_fx s) (br_fv s));
            q0 = f64_mul (f64_sub x v) (f64_sub (br_fx s) (br_fw s));
            p0 = f64_sub (f64_mul (f64_sub x v) q0) (f64_mul (f64_sub x w) r);
            q1 = f64_mul 2 (f64_sub q0 r);
            (p, q) = (if q1 > 0 then (- p0, q1) else (p0, - q1))
        in if \<bar>p\<bar> < \<bar>f64_mul (f64_mul (f64_round (1 / 2)) q) (br_e s)\<bar>
              \<and> p > f64_mul q (f64_sub a x) \<and> p < f64_mul q (f64_sub b x)
           then
             let d = f64_div p q; u = f64_add x d
             in Some (if f64_sub u a < tol2 \<or> f64_sub b u < tol2
                      then (if x < midpoint then tol1 else - tol1) else d)
           else None
      else None)"

text \<open>The next point and the new \<open>d\<close> and \<open>e\<close>.\<close>

definition brent_direction :: "brent_state \<Rightarrow> f64 \<Rightarrow> f64 \<Rightarrow> f64 \<Rightarrow> f64 \<times> f64" where
  "brent_direction s midpoint tol1 tol2 =
     (case brent_parabola s midpoint tol1 tol2 of
        Some d \<Rightarrow> (d, d)
      | None \<Rightarrow>
          let e = (if br_x s < midpoint then f64_sub (br_b s) (br_x s) else f64_sub (br_a s) (br_x s))
          in (f64_mul f64_golden e, e))"

definition brent_point :: "f64 \<Rightarrow> f64 \<Rightarrow> f64 \<Rightarrow> f64" where
  "brent_point x d tol1 =
     (if \<bar>d\<bar> \<ge> tol1 then f64_add x d else if d > 0 then f64_add x tol1 else f64_sub x tol1)"

definition brent_update :: "brent_state \<Rightarrow> f64 \<Rightarrow> f64 \<Rightarrow> brent_state" where
  "brent_update s u fu =
     (if fu \<le> br_fx s then
        (if u < br_x s then s\<lparr>br_b := br_x s\<rparr> else s\<lparr>br_a := br_x s\<rparr>)
          \<lparr>br_v := br_w s, br_fv := br_fw s, br_w := br_x s, br_fw := br_fx s, br_x := u, br_fx := fu\<rparr>
      else
        let s' = (if u < br_x s then s\<lparr>br_a := u\<rparr> else s\<lparr>br_b := u\<rparr>)
        in if fu \<le> br_fw s \<or> br_w s = br_x s
           then s'\<lparr>br_v := br_w s, br_fv := br_fw s, br_w := u, br_fw := fu\<rparr>
           else if fu \<le> br_fv s \<or> br_v s = br_x s \<or> br_v s = br_w s
           then s'\<lparr>br_v := u, br_fv := fu\<rparr>
           else s')"

text \<open>The loop, with the number of rounds left; the objective returns \<open>None\<close> when it panics.\<close>

fun brent_loop :: "nat \<Rightarrow> f64 \<Rightarrow> (f64 \<Rightarrow> f64 option) \<Rightarrow> brent_state \<Rightarrow> brent_state option" where
  "brent_loop 0 tol f s = Some s"
| "brent_loop (Suc n) tol f s =
     (let midpoint = f64_mul (f64_round (1 / 2)) (f64_add (br_a s) (br_b s));
          tol1 = f64_add (f64_mul tol \<bar>br_x s\<bar>) (f64_round (1 / 10000000000));
          tol2 = f64_mul 2 tol1
      in if \<bar>f64_sub (br_x s) midpoint\<bar>
              \<le> f64_sub tol2 (f64_mul (f64_round (1 / 2)) (f64_sub (br_b s) (br_a s)))
         then Some s
         else
           let (d, e) = brent_direction s midpoint tol1 tol2;
               u = brent_point (br_x s) d tol1
           in Option.bind (f u) (\<lambda>v.
              brent_loop n tol f (brent_update (s\<lparr>br_d := d, br_e := e\<rparr>) u (- v))))"

definition brent_maximize :: "split_config \<Rightarrow> f64 \<Rightarrow> f64 \<Rightarrow> (f64 \<Rightarrow> f64 option) \<Rightarrow> f64 option" where
  "brent_maximize cfg a b f =
     (let x = f64_add a (f64_mul f64_golden (f64_sub b a)) in
      Option.bind (f x) (\<lambda>v.
      let fx = - v in
      Option.bind (brent_loop (sc_max_iterations cfg) (sc_tolerance cfg) f
        \<lparr>br_a = a, br_b = b, br_x = x, br_w = x, br_v = x, br_fx = fx, br_fw = fx, br_fv = fx,
         br_d = 0, br_e = 0\<rparr>) (\<lambda>s.
      Some (f64_clamp 0 1 (br_x s)))))"

section \<open>Splitting over paths\<close>

text \<open>\<open>quote_fn(..).await.map(|q| q.amount_out).unwrap_or(0)\<close>, and the same guarded by a positive
  amount.\<close>

definition quote_out :: "quote_fn \<Rightarrow> route_path \<Rightarrow> nat \<Rightarrow> nat option" where
  "quote_out quote_fn path amount =
     Option.bind (quote_fn path amount) (\<lambda>q. Some (case q of Some q \<Rightarrow> qt_amount_out q | None \<Rightarrow> 0))"

definition quote_positive :: "quote_fn \<Rightarrow> route_path \<Rightarrow> nat \<Rightarrow> nat option" where
  "quote_positive quote_fn path amount =
     (if amount > 0 then quote_out quote_fn path amount else Some 0)"

definition fraction_of :: "f64 \<Rightarrow> nat \<Rightarrow> nat" where
  "fraction_of x total_amount = f64_as_u128 (f64_mul x (f64_of_nat total_amount))"

definition optimize_two_paths ::
    "split_config \<Rightarrow> quote_fn \<Rightarrow> route_path \<Rightarrow> route_path \<Rightarrow> nat \<Rightarrow> (nat \<times> nat) list option" where
  "optimize_two_paths cfg quote_fn path_a path_b total_amount =
     Option.bind (brent_maximize cfg 0 1 (\<lambda>x.
       let amount_a = fraction_of x total_amount; amount_b = total_amount - amount_a in
       Option.bind (quote_positive quote_fn path_a amount_a) (\<lambda>out_a.
       Option.bind (quote_positive quote_fn path_b amount_b) (\<lambda>out_b.
       Option.bind (u128_checked_add out_a out_b) (\<lambda>out. Some (f64_of_nat out)))))) (\<lambda>optimal_x.
     let amount_a = fraction_of optimal_x total_amount; amount_b = total_amount - amount_a in
     Option.bind (quote_positive quote_fn path_a amount_a) (\<lambda>out_a.
     Option.bind (quote_positive quote_fn path_b amount_b) (\<lambda>out_b.
     Some [(amount_a, out_a), (amount_b, out_b)])))"

text \<open>The loop of \<open>approximate_weighted_paths_output\<close>: paths left, what is allocated, what it pays.\<close>

fun weighted_loop ::
    "quote_fn \<Rightarrow> nat \<Rightarrow> nat \<Rightarrow> quoted_path list \<Rightarrow> nat \<Rightarrow> nat \<Rightarrow> nat option" where
  "weighted_loop quote_fn total_amount weight_sum [] allocated total_out = Some total_out"
| "weighted_loop quote_fn total_amount weight_sum (p # ps) allocated total_out =
     Option.bind
       (if ps = [] then Some (total_amount - allocated, allocated)
        else
          let share = u128_saturating_mul total_amount (max (qt_amount_out (qp_quote p)) 1) div weight_sum in
          Option.bind (u128_checked_add allocated share) (\<lambda>allocated'. Some (share, allocated')))
       (\<lambda>(amount, allocated').
     if amount = 0 then weighted_loop quote_fn total_amount weight_sum ps allocated' total_out
     else
       Option.bind (quote_out quote_fn (qp_path p) amount) (\<lambda>out.
       Option.bind (u128_checked_add total_out out) (\<lambda>total_out'.
       weighted_loop quote_fn total_amount weight_sum ps allocated' total_out')))"

definition approximate_weighted_paths_output ::
    "quote_fn \<Rightarrow> quoted_path list \<Rightarrow> nat \<Rightarrow> nat option" where
  "approximate_weighted_paths_output quote_fn paths total_amount =
     (if paths = [] \<or> total_amount = 0 then Some 0
      else
        Option.bind (u128_sum_checked (map (\<lambda>p. max (qt_amount_out (qp_quote p)) 1) paths)) (\<lambda>s.
        weighted_loop quote_fn total_amount (max s 1) paths 0 0))"

definition total_out_for_paths :: "split_config \<Rightarrow> quote_fn \<Rightarrow> quoted_path list \<Rightarrow> nat \<Rightarrow> nat option" where
  "total_out_for_paths cfg quote_fn paths total_amount =
     (if paths = [] \<or> total_amount = 0 then Some 0
      else case paths of
        [p] \<Rightarrow> quote_out quote_fn (qp_path p) total_amount
      | [p, q] \<Rightarrow>
          Option.bind (optimize_two_paths cfg quote_fn (qp_path p) (qp_path q) total_amount) (\<lambda>split.
          u128_sum_checked (map snd split))
      | _ \<Rightarrow> approximate_weighted_paths_output quote_fn paths total_amount)"

fun optimize_n_paths ::
    "split_config \<Rightarrow> quote_fn \<Rightarrow> quoted_path list \<Rightarrow> nat \<Rightarrow> (nat \<times> nat) list option" where
  "optimize_n_paths cfg quote_fn [] total_amount = None"
| "optimize_n_paths cfg quote_fn (p # rest) total_amount =
     (if rest = [] then
        Option.bind (quote_out quote_fn (qp_path p) total_amount) (\<lambda>out. Some [(total_amount, out)])
      else if tl rest = [] then
        optimize_two_paths cfg quote_fn (qp_path p) (qp_path (hd rest)) total_amount
      else
        Option.bind (brent_maximize cfg 0 1 (\<lambda>x.
          let amount_a = fraction_of x total_amount; amount_rest = total_amount - amount_a in
          Option.bind (quote_out quote_fn (qp_path p) amount_a) (\<lambda>out_a.
          Option.bind (total_out_for_paths cfg quote_fn rest amount_rest) (\<lambda>out_rest.
          Option.bind (u128_checked_add out_a out_rest) (\<lambda>out. Some (f64_of_nat out)))))) (\<lambda>optimal_fraction.
        let amount_a = fraction_of optimal_fraction total_amount; amount_rest = total_amount - amount_a in
        Option.bind (quote_out quote_fn (qp_path p) amount_a) (\<lambda>out_a.
        if amount_rest > 0 then
          Option.bind (optimize_n_paths cfg quote_fn rest amount_rest) (\<lambda>rest_results.
          Some ((amount_a, out_a) # rest_results))
        else Some [(amount_a, out_a)])))"

section \<open>Dust legs\<close>

text \<open>The positions that survive the filter; \<open>None\<close> when an index or a product is out of range.\<close>

fun kept_positions ::
    "split_config \<Rightarrow> quoted_path list \<Rightarrow> nat list \<Rightarrow> nat \<Rightarrow> nat \<Rightarrow> nat \<Rightarrow> (nat \<times> nat) list \<Rightarrow> nat list option" where
  "kept_positions cfg candidates active total_amount total_out position [] = Some []"
| "kept_positions cfg candidates active total_amount total_out position ((amount, out) # legs) =
     (if amount = 0 then kept_positions cfg candidates active total_amount total_out (Suc position) legs
      else
        Option.bind (nth_opt active position) (\<lambda>candidate.
        Option.bind (u128_checked_mul out 10000) (\<lambda>scaled.
        let amount_in_bps = split_amount_in_fraction_bps amount total_amount;
            out_bps = as_u32 (scaled div total_out)
        in Option.bind
             (if amount_in_bps \<ge> sc_min_split_amount_in_bps cfg \<and> out_bps \<ge> sc_min_split_fraction_bps cfg
              then Option.bind (nth_opt candidates candidate) (\<lambda>c.
                     Some (leg_rate_matches_full_quote c amount out (sc_max_leg_rate_deviation_bps cfg)))
              else Some False) (\<lambda>keep.
           Option.bind (kept_positions cfg candidates active total_amount total_out (Suc position) legs) (\<lambda>rest.
           Some (if keep then position # rest else rest))))))"

definition nonzero_legs :: "(nat \<times> nat) list \<Rightarrow> nat" where
  "nonzero_legs split = length (filter (\<lambda>(amount, _). amount > 0) split)"


lemma kept_positions_ConsE:
  assumes "kept_positions cfg candidates active total_amount total_out position ((amount, out) # legs) = Some kept"
  obtains (zero) "amount = 0" "kept_positions cfg candidates active total_amount total_out (Suc position) legs = Some kept"
  | (kept) rest where "0 < amount" "position < length active" "active ! position < length candidates"
      "kept_positions cfg candidates active total_amount total_out (Suc position) legs = Some rest" "kept = position # rest"
  | (dropped) "0 < amount" "position < length active"
      "kept_positions cfg candidates active total_amount total_out (Suc position) legs = Some kept"
  using assms by (cases "amount = 0") (auto simp: nth_opt_def bind_eq_Some_conv Let_def split: if_splits)

lemma nonzero_legs_simps [simp]:
  "nonzero_legs [] = 0" "nonzero_legs ((0, out) # legs) = nonzero_legs legs"
  "0 < amount \<Longrightarrow> nonzero_legs ((amount, out) # legs) = Suc (nonzero_legs legs)"
  by (simp_all add: nonzero_legs_def)

lemma kept_positions_count:
  "kept_positions cfg candidates active total_amount total_out position legs = Some kept \<Longrightarrow>
   length kept \<le> nonzero_legs legs \<and> (nonzero_legs legs = 0 \<or> nonzero_legs legs \<le> length active - position)"
proof (induction legs arbitrary: position kept)
  case (Cons leg legs)
  obtain amount out where leg: "leg = (amount, out)" by force
  from Cons.prems [unfolded leg] show ?case
  proof (cases rule: kept_positions_ConsE)
    case zero
    then show ?thesis using Cons.IH [OF zero(2)] by (auto simp: leg)
  next
    case (kept rest)
    then show ?thesis using Cons.IH [OF kept(4)] by (auto simp: leg)
  next
    case dropped
    then show ?thesis using Cons.IH [OF dropped(3)] by (auto simp: leg)
  qed
qed simp

text \<open>The loop of \<open>filter_dust_split_legs\<close>: every round keeps fewer paths.\<close>

function dust_loop ::
    "split_config \<Rightarrow> quote_fn \<Rightarrow> quoted_path list \<Rightarrow> nat \<Rightarrow> nat list \<Rightarrow> (nat \<times> nat) list \<Rightarrow> nat
      \<Rightarrow> (nat list \<times> (nat \<times> nat) list \<times> nat) option" where
  "dust_loop cfg quote_fn candidates total_amount active split dust =
     Option.bind (u128_sum_checked (map snd split)) (\<lambda>total_out.
     if total_out = 0 \<or> length active < 2 then Some (active, split, dust)
     else
       Option.bind (kept_positions cfg candidates active total_amount total_out 0 split) (\<lambda>kept.
       if length kept = nonzero_legs split \<or> kept = [] then Some (active, split, dust)
       else
         let active' = map (\<lambda>position. active ! position) kept;
             active_candidates = map (\<lambda>idx. candidates ! idx) active'
         in Option.bind
              (if length active_candidates = 1 then
                 Option.bind (quote_out quote_fn (qp_path (hd active_candidates)) total_amount) (\<lambda>out.
                 Some [(total_amount, out)])
               else optimize_n_paths cfg quote_fn active_candidates total_amount) (\<lambda>split'.
            dust_loop cfg quote_fn candidates total_amount active' split'
              (dust + (nonzero_legs split - length kept)))))"
  by pat_completeness auto
termination
  by (relation "measure (\<lambda>(cfg, quote_fn, candidates, total_amount, active, split, dust). length active)")
    (auto dest!: kept_positions_count)

declare dust_loop.simps [simp del]

definition filter_dust_split_legs ::
    "split_config \<Rightarrow> quote_fn \<Rightarrow> quoted_path list \<Rightarrow> (nat \<times> nat) list \<Rightarrow> nat
      \<Rightarrow> (nat list \<times> (nat \<times> nat) list \<times> nat) option" where
  "filter_dust_split_legs cfg quote_fn candidates split_result total_amount =
     (if sc_min_split_fraction_bps cfg = 0 \<or> length candidates < 2
      then Some ([0..<length candidates], split_result, 0)
      else dust_loop cfg quote_fn candidates total_amount [0..<length candidates] split_result 0)"

section \<open>The route\<close>

fun join :: "string \<Rightarrow> string list \<Rightarrow> string" where
  "join sep [] = []"
| "join sep [x] = x"
| "join sep (x # y # xs) = x @ sep @ join sep (y # xs)"

text \<open>The separator \<open>" \<rightarrow> "\<close> in UTF-8.\<close>

definition arrow :: string where "arrow = [CHR '' '', CHR 0xE2, CHR 0x86, CHR 0x92, CHR '' '']"

definition candidate_debug :: "quoted_path \<Rightarrow> route_debug_candidate" where
  "candidate_debug candidate =
     \<lparr>rc_source = join arrow (rp_sources (qp_path candidate)),
      rc_path = map canonical (rp_tokens (qp_path candidate)),
      rc_pool_addresses = rp_pool_addresses (qp_path candidate),
      rc_amount_out = qt_amount_out (qp_quote candidate),
      rc_price_impact_bps = qt_price_impact_bps (qp_quote candidate)\<rparr>"

definition build_candidate_debug :: "quoted_path list \<Rightarrow> route_debug_candidate list" where
  "build_candidate_debug = map candidate_debug"

text \<open>The planned legs with a positive amount, each with the candidate of its own position.\<close>

fun planned_split_from ::
    "quoted_path list \<Rightarrow> nat \<Rightarrow> nat \<Rightarrow> (nat \<times> nat) list \<Rightarrow> route_debug_planned_split list option" where
  "planned_split_from candidates total_amount i [] = Some []"
| "planned_split_from candidates total_amount i ((amount, out) # legs) =
     (if amount = 0 then planned_split_from candidates total_amount (Suc i) legs
      else
        Option.bind (nth_opt candidates i) (\<lambda>c.
        Option.bind (if total_amount = 0 then Some 0
                     else Option.bind (u128_checked_mul amount 10000) (\<lambda>v.
                       Some (as_u32 (v div total_amount)))) (\<lambda>fraction_bps.
        Option.bind (planned_split_from candidates total_amount (Suc i) legs) (\<lambda>rest.
        Some (\<lparr>rs_source = join arrow (rp_sources (qp_path c)),
               rs_path = map canonical (rp_tokens (qp_path c)),
               rs_pool_addresses = rp_pool_addresses (qp_path c),
               rs_amount_in = amount, rs_expected_amount_out = out,
               rs_fraction_bps = fraction_bps\<rparr> # rest)))))"

definition build_planned_split_debug ::
    "quoted_path list \<Rightarrow> (nat \<times> nat) list \<Rightarrow> nat \<Rightarrow> route_debug_planned_split list option" where
  "build_planned_split_debug candidates split_result total_amount =
     planned_split_from candidates total_amount 0 split_result"

text \<open>The sub-orders: the legs with a positive amount are numbered after the filter, and the number
  selects the candidate.\<close>

fun sub_orders_from :: "quoted_path list \<Rightarrow> nat \<Rightarrow> nat \<Rightarrow> (nat \<times> nat) list \<Rightarrow> sub_order list option" where
  "sub_orders_from candidates total_amount i [] = Some []"
| "sub_orders_from candidates total_amount i ((amount, out) # legs) =
     Option.bind (nth_opt candidates i) (\<lambda>c.
     Option.bind (sub_orders_from candidates total_amount (Suc i) legs) (\<lambda>rest.
     Some (\<lparr>so_path = qp_path c, so_amount_in = amount, so_expected_amount_out = out,
            so_fraction = f64_div (f64_of_nat amount) (f64_of_nat total_amount)\<rparr> # rest)))"

definition build_sub_orders :: "quoted_path list \<Rightarrow> (nat \<times> nat) list \<Rightarrow> nat \<Rightarrow> sub_order list option" where
  "build_sub_orders candidates split_result total_amount =
     sub_orders_from candidates total_amount 0 (filter (\<lambda>(amount, _). amount > 0) split_result)"

definition empty_route :: "nat \<Rightarrow> nat \<Rightarrow> optimal_route" where
  "empty_route total_amount compute_time_ms =
     \<lparr>rt_sub_orders = [], rt_total_amount_in = total_amount, rt_total_expected_out = 0,
      rt_price_impact_bps = 0, rt_is_split = False, rt_improvement_bps = 0, rt_minimum_out = 0,
      rt_compute_time_ms = compute_time_ms, rt_debug = None\<rparr>"

text \<open>The route over the best single path, which five returns of \<open>optimize\<close> share.\<close>

definition single_route :: "quoted_path \<Rightarrow> nat \<Rightarrow> nat \<Rightarrow> nat \<Rightarrow> route_debug \<Rightarrow> optimal_route option" where
  "single_route best total_amount slippage_bps elapsed debug =
     Option.bind (apply_slippage (qt_amount_out (qp_quote best)) slippage_bps) (\<lambda>minimum_out.
     Some \<lparr>rt_sub_orders = [\<lparr>so_path = qp_path best, so_amount_in = total_amount,
             so_expected_amount_out = qt_amount_out (qp_quote best), so_fraction = 1\<rparr>],
           rt_total_amount_in = total_amount, rt_total_expected_out = qt_amount_out (qp_quote best),
           rt_price_impact_bps = qt_price_impact_bps (qp_quote best), rt_is_split = False,
           rt_improvement_bps = 0, rt_minimum_out = minimum_out, rt_compute_time_ms = elapsed,
           rt_debug = Some debug\<rparr>)"

text \<open>\<open>sort_by\<close> on the outputs, best first, is stable.\<close>

definition sort_by_output :: "quoted_path list \<Rightarrow> quoted_path list" where
  "sort_by_output = sort_key (\<lambda>p. - int (qt_amount_out (qp_quote p)))"

definition gap_bps :: "nat \<Rightarrow> nat \<Rightarrow> nat option" where
  "gap_bps best second =
     (if best = 0 then Some u32_max
      else Option.bind (u128_checked_mul (best - second) 10000) (\<lambda>v. Some (as_u32 (v div best))))"

definition competitive_enough :: "split_config \<Rightarrow> nat \<Rightarrow> nat option \<Rightarrow> bool option" where
  "competitive_enough cfg best second_best =
     (case second_best of
        None \<Rightarrow> Some False
      | Some second \<Rightarrow>
          Option.bind (gap_bps best second) (\<lambda>gap. Some (gap \<le> sc_split_competitive_delta_bps cfg)))"

definition base_debug :: "split_config \<Rightarrow> quoted_path list \<Rightarrow> quoted_path list \<Rightarrow> route_debug" where
  "base_debug cfg quoted_paths ranked =
     \<lparr>rd_quoted_paths_count = length quoted_paths, rd_candidate_paths_count = 1,
      rd_best_single_out = qt_amount_out (qp_quote (hd ranked)),
      rd_second_best_out = map_option (\<lambda>p. qt_amount_out (qp_quote p)) (nth_opt ranked 1),
      rd_best_single_impact_bps = qt_price_impact_bps (qp_quote (hd ranked)),
      rd_split_threshold_bps = sc_split_threshold_bps cfg,
      rd_competitive_delta_bps = sc_split_competitive_delta_bps cfg,
      rd_min_split_fraction_bps = sc_min_split_fraction_bps cfg, rd_split_attempted = False,
      rd_split_rejected_reason = None, rd_optimization_strategy = [],
      rd_used_rest_best_approximation = False, rd_split_total_out = None, rd_dust_filtered_legs = 0,
      rd_candidate_routes = [], rd_planned_split = []\<rparr>"

text \<open>What \<open>optimize\<close> does once a split is worth trying.\<close>

definition optimize_split ::
    "split_config \<Rightarrow> quote_fn \<Rightarrow> nat \<Rightarrow> quoted_path list \<Rightarrow> nat \<Rightarrow> nat \<Rightarrow> quoted_path list \<Rightarrow> nat \<Rightarrow> optimal_route option" where
  "optimize_split cfg quote_fn elapsed quoted_paths total_amount slippage_bps ranked max_splits =
     (let best_single = hd ranked;
          best_single_out = qt_amount_out (qp_quote best_single);
          candidates = take max_splits ranked;
          many = length candidates > 2
      in
      Option.bind (optimize_n_paths cfg quote_fn candidates total_amount) (\<lambda>split0.
      Option.bind (filter_dust_split_legs cfg quote_fn candidates split0 total_amount)
        (\<lambda>(indices, split_result, dust_filtered_legs).
      let effective = map (\<lambda>idx. candidates ! idx) indices in
      Option.bind (build_planned_split_debug effective split_result total_amount) (\<lambda>planned_split.
      Option.bind (u128_sum_checked (map snd split_result)) (\<lambda>total_out.
      let debug = (base_debug cfg quoted_paths ranked)
            \<lparr>rd_candidate_paths_count := length candidates, rd_split_attempted := True,
             rd_optimization_strategy := (if many then ''recursive_pairwise_approx_rest'' else ''two_path_brent''),
             rd_used_rest_best_approximation := many, rd_split_total_out := Some total_out,
             rd_dust_filtered_legs := dust_filtered_legs,
             rd_candidate_routes := build_candidate_debug candidates, rd_planned_split := planned_split\<rparr>
      in
      if total_out \<le> best_single_out then
        single_route best_single total_amount slippage_bps elapsed
          (debug\<lparr>rd_split_rejected_reason := Some ''no_improvement''\<rparr>)
      else
        Option.bind (build_sub_orders effective split_result total_amount) (\<lambda>sub_orders.
        Option.bind (u128_checked_mul (total_out - best_single_out) 10000) (\<lambda>gain.
        if best_single_out = 0 then None
        else
          let improvement_bps = as_u32 (gain div best_single_out) in
          if improvement_bps < sc_min_split_improvement_bps cfg then
            single_route best_single total_amount slippage_bps elapsed
              (debug\<lparr>rd_split_rejected_reason := Some ''improvement_below_min''\<rparr>)
          else
            Option.bind (apply_split_minimum_slippage total_out slippage_bps) (\<lambda>minimum_out.
            Some \<lparr>rt_sub_orders = sub_orders, rt_total_amount_in = total_amount,
                  rt_total_expected_out = total_out,
                  rt_price_impact_bps = qt_price_impact_bps (qp_quote best_single) div 2,
                  rt_is_split = True, rt_improvement_bps = improvement_bps,
                  rt_minimum_out = minimum_out, rt_compute_time_ms = elapsed,
                  rt_debug = Some debug\<rparr>))))))))"

definition optimize ::
    "split_config \<Rightarrow> quote_fn \<Rightarrow> nat \<Rightarrow> quoted_path list \<Rightarrow> nat \<Rightarrow> nat \<Rightarrow> nat option \<Rightarrow> optimal_route option" where
  "optimize cfg quote_fn elapsed quoted_paths total_amount slippage_bps max_splits_override =
     (if quoted_paths = [] then Some (empty_route total_amount elapsed)
      else
        let ranked = sort_by_output quoted_paths;
            best_single = hd ranked;
            best_single_impact = qt_price_impact_bps (qp_quote best_single);
            debug = base_debug cfg quoted_paths ranked;
            max_splits = (case max_splits_override of Some n \<Rightarrow> n | None \<Rightarrow> sc_max_splits cfg)
        in
        Option.bind (competitive_enough cfg (qt_amount_out (qp_quote best_single)) (rd_second_best_out debug))
          (\<lambda>competitive.
        if max_splits \<le> 1 then
          single_route best_single total_amount slippage_bps elapsed
            (debug\<lparr>rd_split_rejected_reason := Some ''max_splits_1'',
                   rd_optimization_strategy := ''single_path_only''\<rparr>)
        else if length ranked < 2 then
          single_route best_single total_amount slippage_bps elapsed
            (debug\<lparr>rd_split_rejected_reason := Some ''not_enough_paths'',
                   rd_optimization_strategy := ''not_applicable''\<rparr>)
        else if best_single_impact < sc_split_threshold_bps cfg \<and> \<not> (competitive \<and> best_single_impact > 0) then
          single_route best_single total_amount slippage_bps elapsed
            (debug\<lparr>rd_candidate_paths_count := length ranked,
                   rd_split_rejected_reason := Some ''below_threshold_and_not_competitive'',
                   rd_optimization_strategy := ''not_attempted''\<rparr>)
        else optimize_split cfg quote_fn elapsed quoted_paths total_amount slippage_bps ranked max_splits))"

end
