(* ===== verification/Split_Legs.thy ===== *)
theory Split_Legs
  imports Split_Optimizer
begin

text \<open>
  Invariants of the splits that \<open>split_optimizer.rs\<close> computes: the legs use up the amount, each
  carries the quote of its own path, and nothing panics while the quotes are of a reasonable size.
\<close>

section \<open>Amounts and quotes of a split\<close>

text \<open>\<open>split_of qf ps T split\<close>: the legs are those of the first paths of \<open>ps\<close>, their amounts sum to
  \<open>T\<close>, and every leg with a positive amount carries the quote of its path.\<close>

definition split_of :: "quote_fn \<Rightarrow> quoted_path list \<Rightarrow> nat \<Rightarrow> (nat \<times> nat) list \<Rightarrow> bool" where
  "split_of qf ps T split \<longleftrightarrow> length split \<le> length ps \<and> sum_list (map fst split) = T
     \<and> (\<forall>i < length split. 0 < fst (split ! i) \<longrightarrow>
          quote_out qf (qp_path (ps ! i)) (fst (split ! i)) = Some (snd (split ! i)))"

lemma brent_maximize_range: "brent_maximize cfg a b f = Some x \<Longrightarrow> 0 \<le> x \<and> x \<le> 1"
  using f64_clamp_range [of 0 1] by (auto simp: brent_maximize_def Let_def bind_eq_Some_conv)

lemma fraction_of_le: "0 \<le> x \<and> x \<le> 1 \<Longrightarrow> T \<le> 2 ^ 53 \<Longrightarrow> fraction_of x T \<le> T"
  unfolding fraction_of_def by (rule f64_fraction_le) simp_all

lemma quote_positive_out: "quote_positive qf p a = Some out \<Longrightarrow> 0 < a \<Longrightarrow> quote_out qf p a = Some out"
  by (simp add: quote_positive_def)

lemma split_of_Nil [simp]: "split_of qf ps T [] \<longleftrightarrow> T = 0"
  by (auto simp: split_of_def)

lemma split_of_Cons:
  assumes "0 < a \<Longrightarrow> quote_out qf (qp_path p) a = Some out" "split_of qf ps T split"
  shows "split_of qf (p # ps) (a + T) ((a, out) # split)"
  using assms by (auto simp: split_of_def nth_Cons split: nat.splits)

lemma optimize_two_split:
  assumes "optimize_two_paths cfg qf (qp_path p) (qp_path q) T = Some split" "T \<le> 2 ^ 53"
  shows "split_of qf [p, q] T split"
proof -
  from assms(1) obtain x out_a out_b where r: "0 \<le> x \<and> x \<le> 1"
    "quote_positive qf (qp_path p) (fraction_of x T) = Some out_a"
    "quote_positive qf (qp_path q) (T - fraction_of x T) = Some out_b"
    "split = [(fraction_of x T, out_a), (T - fraction_of x T, out_b)]"
    unfolding optimize_two_paths_def Let_def bind_eq_Some_conv using brent_maximize_range by blast
  have "split_of qf [p, q] (fraction_of x T + ((T - fraction_of x T) + 0)) split"
    unfolding r(4) using r(2,3) by (intro split_of_Cons quote_positive_out) simp_all
  then show ?thesis using fraction_of_le [OF r(1) assms(2)] by simp
qed

lemma optimize_n_split:
  assumes "optimize_n_paths cfg qf ps T = Some split" "T \<le> 2 ^ 53"
  shows "split_of qf ps T split"
  using assms
proof (induction ps arbitrary: T split)
  case (Cons p rest)
  show ?case
  proof (cases rest)
    case Nil
    with Cons.prems show ?thesis
      using split_of_Cons [of T qf p _ "[]" 0 "[]"] by (auto simp: bind_eq_Some_conv)
  next
    case q: (Cons q rest')
    show ?thesis
    proof (cases rest')
      case Nil
      then show ?thesis using Cons.prems optimize_two_split by (simp add: q)
    next
      case (Cons q' rest'')
      define a where "a x = fraction_of x T" for x
      from Cons.prems(1) obtain x out_a where r: "0 \<le> x \<and> x \<le> 1" "quote_out qf (qp_path p) (a x) = Some out_a"
        "(if T - a x > 0 then Option.bind (optimize_n_paths cfg qf rest (T - a x)) (\<lambda>rs. Some ((a x, out_a) # rs))
          else Some [(a x, out_a)]) = Some split"
        unfolding a_def q Cons by (auto simp: Let_def bind_eq_Some_conv dest: brent_maximize_range)
      have le: "a x \<le> T" using fraction_of_le [OF r(1) Cons.prems(2)] by (simp add: a_def)
      show ?thesis
      proof (cases "T - a x > 0")
        case True
        then obtain rs where rs: "optimize_n_paths cfg qf rest (T - a x) = Some rs" "split = (a x, out_a) # rs"
          using r(3) by (auto simp: bind_eq_Some_conv)
        have "split_of qf rest (T - a x) rs" using Cons.IH [OF rs(1)] Cons.prems(2) by simp
        from split_of_Cons [OF r(2) this] show ?thesis using le rs(2) by simp
      next
        case False
        then have "split = [(a x, out_a)]" "T = a x" using r(3) le by simp_all
        then show ?thesis using r(2) by (auto simp: split_of_def)
      qed
    qed
  qed
qed simp

section \<open>Dust legs\<close>

lemma kept_positions_in:
  "kept_positions cfg candidates active T total_out position legs = Some kept \<Longrightarrow>
   \<forall>k \<in> set kept. k < length active \<and> active ! k < length candidates"
proof (induction legs arbitrary: position kept)
  case (Cons leg legs)
  obtain amount out where leg: "leg = (amount, out)" by force
  from Cons.prems [unfolded leg] show ?case
    by (cases rule: kept_positions_ConsE) (use Cons.IH in auto)
qed simp

lemma single_split_of:
  "quote_out qf (qp_path p) T = Some out \<Longrightarrow> split_of qf [p] T [(T, out)]"
  by (simp add: split_of_def)

lemma dust_loop_split:
  assumes "dust_loop cfg qf candidates T active split dust = Some (active', split', dust')"
    and "T \<le> 2 ^ 53" "\<forall>k \<in> set active. k < length candidates"
    and "split_of qf (map (\<lambda>idx. candidates ! idx) active) T split"
  shows "(\<forall>k \<in> set active'. k < length candidates)
    \<and> split_of qf (map (\<lambda>idx. candidates ! idx) active') T split'"
  using assms
proof (induction cfg qf candidates T active split dust rule: dust_loop.induct)
  case (1 cfg qf candidates T active split dust)
  from 1(2) [unfolded dust_loop.simps [of cfg qf candidates T active split dust]]
  obtain total_out where t: "u128_sum_checked (map snd split) = Some total_out"
    by (auto simp: bind_eq_Some_conv)
  show ?case
  proof (cases "total_out = 0 \<or> length active < 2")
    case True
    then show ?thesis using 1(2-) by (simp add: dust_loop.simps [of cfg qf candidates T active split dust] t)
  next
    case go: False
    from 1(2) obtain kept where k: "kept_positions cfg candidates active T total_out 0 split = Some kept"
      unfolding dust_loop.simps [of cfg qf candidates T active split dust] t bind.simps if_not_P [OF go]
      by (auto simp: bind_eq_Some_conv)
    show ?thesis
    proof (cases "length kept = nonzero_legs split \<or> kept = []")
      case True
      then show ?thesis using 1(2-) go by (simp add: dust_loop.simps [of cfg qf candidates T active split dust] t k)
    next
      case False
      define act where "act = map (\<lambda>position. active ! position) kept"
      define cs where "cs = map (\<lambda>idx. candidates ! idx) act"
      from 1(2) obtain split1 where s1: "(if length cs = 1 then
            Option.bind (quote_out qf (qp_path (hd cs)) T) (\<lambda>out. Some [(T, out)])
          else optimize_n_paths cfg qf cs T) = Some split1"
        "dust_loop cfg qf candidates T act split1 (dust + (nonzero_legs split - length kept)) = Some (active', split', dust')"
        unfolding dust_loop.simps [of cfg qf candidates T active split dust] t bind.simps if_not_P [OF go] k
          if_not_P [OF False] Let_def act_def [symmetric] cs_def [symmetric]
        by (auto simp: bind_eq_Some_conv)
      have in_range: "\<forall>k \<in> set act. k < length candidates"
        using kept_positions_in [OF k] by (auto simp: act_def)
      have "split_of qf cs T split1"
      proof (cases "length cs = 1")
        case True
        then obtain c where "cs = [c]" by (auto simp: length_Suc_conv)
        with s1(1) show ?thesis by (auto simp: bind_eq_Some_conv intro: single_split_of)
      next
        case False
        with s1(1) show ?thesis using optimize_n_split [OF _ 1(3)] by simp
      qed
      then show ?thesis
        using 1(1) [OF t go k False act_def cs_def s1 1(3) in_range] by (simp add: cs_def)
    qed
  qed
qed

lemma filter_dust_split:
  assumes "filter_dust_split_legs cfg qf candidates split T = Some (active, split', dust)"
    and "T \<le> 2 ^ 53" "split_of qf candidates T split"
  shows "(\<forall>k \<in> set active. k < length candidates)
    \<and> split_of qf (map (\<lambda>idx. candidates ! idx) active) T split'"
  using assms dust_loop_split [OF _ assms(2), of cfg qf candidates "[0..<length candidates]" split 0 active split' dust]
  by (auto simp: filter_dust_split_legs_def map_nth split: if_splits)

section \<open>No panic\<close>

text \<open>A quoting function that always returns, with outputs of at most \<open>2 ^ 100\<close>.\<close>

definition modest_quotes :: "quote_fn \<Rightarrow> bool" where
  "modest_quotes qf \<longleftrightarrow> (\<forall>p a. \<exists>q. qf p a = Some q \<and> (\<forall>x. q = Some x \<longrightarrow> qt_amount_out x \<le> 2 ^ 100))"

definition modest_split :: "nat \<Rightarrow> (nat \<times> nat) list \<Rightarrow> bool" where
  "modest_split n split \<longleftrightarrow> length split \<le> n \<and> (\<forall>leg \<in> set split. snd leg \<le> 2 ^ 100)"

lemma quote_out_some: "modest_quotes qf \<Longrightarrow> \<exists>out. quote_out qf p a = Some out \<and> out \<le> 2 ^ 100"
  unfolding modest_quotes_def quote_out_def by (metis (mono_tags, lifting) bind.bind_lunit le0 option.exhaust option.simps(4,5))

lemma quote_positive_some: "modest_quotes qf \<Longrightarrow> \<exists>out. quote_positive qf p a = Some out \<and> out \<le> 2 ^ 100"
  using quote_out_some [of qf p a] by (simp add: quote_positive_def)

lemma sum_checked_some:
  assumes "\<forall>v \<in> set vs. v \<le> 2 ^ 100" "length vs \<le> 2 ^ 10"
  shows "u128_sum_checked vs = Some (sum_list vs)" "sum_list vs \<le> length vs * 2 ^ 100" "sum_list vs \<le> 2 ^ 110"
proof -
  have "u128_sum_checked vs = Some (sum_list vs) \<and> sum_list vs \<le> length vs * 2 ^ 100"
    using assms
  proof (induction vs)
    case (Cons v vs)
    then have v: "v \<le> 2 ^ 100" "length vs < 2 ^ 10" and IH: "u128_sum_checked vs = Some (sum_list vs)"
      "sum_list vs \<le> length vs * 2 ^ 100" by auto
    then have s: "v + sum_list vs \<le> length (v # vs) * 2 ^ 100" by simp
    also have "\<dots> \<le> 2 ^ 10 * 2 ^ 100" using v(2) by (intro mult_right_mono) simp_all
    finally show ?case using IH s by (simp add: u128_checked_add_def u128_max_def)
  qed simp
  then show "u128_sum_checked vs = Some (sum_list vs)" "sum_list vs \<le> length vs * 2 ^ 100" by simp_all
  moreover have "length vs * 2 ^ 100 \<le> 2 ^ 10 * 2 ^ 100" using assms(2) by (intro mult_right_mono) simp_all
  ultimately show "sum_list vs \<le> 2 ^ 110" by simp
qed

lemma brent_loop_some: "(\<And>x. \<exists>v. f x = Some v) \<Longrightarrow> \<exists>s'. brent_loop n tol f s = Some s'"
proof (induction n arbitrary: s)
  case (Suc n)
  have "\<exists>c u g. brent_loop (Suc n) tol f s = (if c then Some s else Option.bind (f u) (\<lambda>v. brent_loop n tol f (g v)))"
    unfolding brent_loop.simps Let_def split_beta by (intro exI, rule refl)
  then obtain c u g where eq: "brent_loop (Suc n) tol f s
      = (if c then Some s else Option.bind (f u) (\<lambda>v. brent_loop n tol f (g v)))" by blast
  obtain v where "f u = Some v" using Suc.prems by blast
  then show ?case unfolding eq using Suc.IH [OF Suc.prems] by simp
qed simp

lemma brent_maximize_some:
  assumes "\<And>x. \<exists>v. f x = Some v"
  shows "\<exists>x. brent_maximize cfg a b f = Some x"
proof -
  have "\<exists>x0 s0. brent_maximize cfg a b f = Option.bind (f x0) (\<lambda>v.
      Option.bind (brent_loop (sc_max_iterations cfg) (sc_tolerance cfg) f (s0 v)) (\<lambda>s. Some (f64_clamp 0 1 (br_x s))))"
    unfolding brent_maximize_def Let_def by (intro exI, rule refl)
  then obtain x0 s0 where eq: "brent_maximize cfg a b f = Option.bind (f x0) (\<lambda>v.
      Option.bind (brent_loop (sc_max_iterations cfg) (sc_tolerance cfg) f (s0 v)) (\<lambda>s. Some (f64_clamp 0 1 (br_x s))))"
    by blast
  obtain v where v: "f x0 = Some v" using assms by blast
  obtain s where "brent_loop (sc_max_iterations cfg) (sc_tolerance cfg) f (s0 v) = Some s"
    using brent_loop_some [of f _ _ "s0 v", OF assms] by blast
  then show ?thesis unfolding eq v by simp
qed

lemma add_outs:
  assumes "a \<le> 2 ^ 110" "b \<le> 2 ^ 110"
  shows "u128_checked_add a b = Some (a + b)"
proof -
  have "a + b \<le> 2 ^ 111" using assms by simp
  also have "\<dots> \<le> u128_max" by (simp add: u128_max_def)
  finally show ?thesis by (simp add: u128_checked_add_def)
qed

lemma optimize_two_some:
  assumes "modest_quotes qf"
  shows "\<exists>split. optimize_two_paths cfg qf pa pb T = Some split \<and> modest_split 2 split \<and> split \<noteq> []"
proof -
  define F where "F x = (let amount_a = fraction_of x T; amount_b = T - amount_a in
       Option.bind (quote_positive qf pa amount_a) (\<lambda>out_a.
       Option.bind (quote_positive qf pb amount_b) (\<lambda>out_b.
       Option.bind (u128_checked_add out_a out_b) (\<lambda>out. Some (f64_of_nat out)))))" for x
  have outs: "\<exists>a b. quote_positive qf pa (fraction_of x T) = Some a \<and> a \<le> 2 ^ 100
      \<and> quote_positive qf pb (T - fraction_of x T) = Some b \<and> b \<le> 2 ^ 100" for x
    using quote_positive_some [OF assms] by metis
  have "\<exists>v. F x = Some v" for x
  proof -
    obtain a b where "quote_positive qf pa (fraction_of x T) = Some a" "a \<le> 2 ^ 100"
      "quote_positive qf pb (T - fraction_of x T) = Some b" "b \<le> 2 ^ 100" using outs by blast
    then show ?thesis using add_outs [of a b] by (simp add: F_def Let_def)
  qed
  from brent_maximize_some [of F cfg 0 1, OF this] obtain x where "brent_maximize cfg 0 1 F = Some x" by blast
  then show ?thesis using outs [of x] unfolding optimize_two_paths_def F_def [symmetric]
    by (auto simp: Let_def modest_split_def)
qed

lemma weighted_loop_some:
  assumes "modest_quotes qf" "T \<le> 2 ^ 64"
  shows "allocated + length ps * 2 ^ 64 \<le> 2 ^ 100 \<Longrightarrow> total_out + length ps * 2 ^ 100 \<le> 2 ^ 110 \<Longrightarrow> weight_sum \<noteq> 0 \<Longrightarrow>
    (\<forall>p \<in> set ps. max (qt_amount_out (qp_quote p)) 1 \<le> weight_sum) \<Longrightarrow>
    \<exists>v. weighted_loop qf T weight_sum ps allocated total_out = Some v \<and> v \<le> total_out + length ps * 2 ^ 100"
proof (induction ps arbitrary: allocated total_out)
  case (Cons p ps)
  let ?w = "max (qt_amount_out (qp_quote p)) 1"
  define share where "share = u128_saturating_mul T ?w div weight_sum"
  have "share \<le> T * ?w div weight_sum" unfolding share_def u128_saturating_mul_def by (intro div_le_mono) simp
  also have "\<dots> \<le> T * weight_sum div weight_sum"
    using Cons.prems(4) by (intro div_le_mono mult_le_mono) simp_all
  also have "\<dots> = T" using Cons.prems(3) by simp
  finally have share: "share \<le> 2 ^ 64" using assms(2) by simp
  define r where "r = (if ps = [] then (T - allocated, allocated) else (share, allocated + share))"
  have "allocated + share \<le> 2 ^ 110" using share Cons.prems(1) by simp
  then have "u128_checked_add allocated share = Some (allocated + share)"
    by (simp add: u128_checked_add_def u128_max_def)
  then have step: "(if ps = [] then Some (T - allocated, allocated)
      else let share = u128_saturating_mul T ?w div weight_sum in
        Option.bind (u128_checked_add allocated share) (\<lambda>allocated'. Some (share, allocated'))) = Some r"
    by (simp add: r_def share_def Let_def)
  obtain amount al where am: "r = (amount, al)" by force
  have al: "al + length ps * 2 ^ 64 \<le> 2 ^ 100"
    using am share Cons.prems(1) by (auto simp: r_def split: if_splits)
  obtain out where out: "quote_out qf (qp_path p) amount = Some out" "out \<le> 2 ^ 100"
    using quote_out_some [OF assms(1)] by blast
  have t: "total_out + out + length ps * 2 ^ 100 \<le> total_out + length (p # ps) * 2 ^ 100" using out(2) by simp
  then have t': "total_out + out + length ps * 2 ^ 100 \<le> 2 ^ 110" using Cons.prems(2) by (rule order_trans)
  then have add: "u128_checked_add total_out out = Some (total_out + out)"
    by (simp add: u128_checked_add_def u128_max_def)
  have "total_out + length ps * 2 ^ 100 \<le> 2 ^ 110" using Cons.prems(2) by simp
  then show ?case
    using Cons.IH [OF al t' Cons.prems(3)] Cons.IH [OF al _ Cons.prems(3), of total_out] Cons.prems(4) t
    unfolding weighted_loop.simps step am by (auto simp: out(1) add)
qed simp

lemma total_out_some:
  assumes "modest_quotes qf" "T \<le> 2 ^ 64" "length ps \<le> 2 ^ 10" "\<forall>p \<in> set ps. qt_amount_out (qp_quote p) \<le> 2 ^ 100"
  shows "\<exists>v. total_out_for_paths cfg qf ps T = Some v \<and> v \<le> 2 ^ 110"
proof (cases "ps = [] \<or> T = 0")
  case True
  then show ?thesis by (auto simp: total_out_for_paths_def)
next
  case False
  then consider p where "ps = [p]" | p q where "ps = [p, q]" | "length ps > 2"
    by (cases ps; cases "tl ps"; cases "tl (tl ps)") auto
  then show ?thesis
  proof cases
    case 1
    obtain out where "quote_out qf (qp_path p) T = Some out" "out \<le> 2 ^ 100" using quote_out_some [OF assms(1)] by blast
    with 1 False show ?thesis by (simp add: total_out_for_paths_def)
  next
    case 2
    obtain split where "optimize_two_paths cfg qf (qp_path p) (qp_path q) T = Some split" "modest_split 2 split"
      using optimize_two_some [OF assms(1)] by blast
    then show ?thesis using 2 False sum_checked_some [of "map snd split"]
      by (simp add: total_out_for_paths_def modest_split_def)
  next
    case 3
    have ws: "\<forall>v \<in> set (map (\<lambda>p. max (qt_amount_out (qp_quote p)) 1) ps). v \<le> 2 ^ 100" using assms(4) by simp
    note sum = sum_checked_some [OF ws] 
    have "total_out_for_paths cfg qf ps T = approximate_weighted_paths_output qf ps T"
      using 3 False by (auto simp: total_out_for_paths_def split: list.splits)
    also have "\<dots> = weighted_loop qf T (max (sum_list (map (\<lambda>p. max (qt_amount_out (qp_quote p)) 1) ps)) 1) ps 0 0"
      using False sum(1) assms(3) by (simp add: approximate_weighted_paths_output_def)
    finally have eq: "total_out_for_paths cfg qf ps T = \<dots>" .
    have le: "0 + length ps * 2 ^ 64 \<le> 2 ^ 100" "0 + length ps * 2 ^ 100 \<le> 2 ^ 110"
      using mult_le_mono1 [OF assms(3), of "2 ^ 64"] mult_le_mono1 [OF assms(3), of "2 ^ 100"] by simp_all
    have mem: "\<forall>p \<in> set ps. max (qt_amount_out (qp_quote p)) 1 \<le> max (sum_list (map (\<lambda>p. max (qt_amount_out (qp_quote p)) 1) ps)) 1"
    proof
      fix p assume "p \<in> set ps"
      then have "max (qt_amount_out (qp_quote p)) 1 \<in> set (map (\<lambda>p. max (qt_amount_out (qp_quote p)) 1) ps)" by auto
      then have "max (qt_amount_out (qp_quote p)) 1 \<le> sum_list (map (\<lambda>p. max (qt_amount_out (qp_quote p)) 1) ps)"
        by (rule member_le_sum_list) simp
      then show "max (qt_amount_out (qp_quote p)) 1 \<le> max (sum_list (map (\<lambda>p. max (qt_amount_out (qp_quote p)) 1) ps)) 1"
        by (rule order_trans) (rule max.cobounded1)
    qed
    from weighted_loop_some [OF assms(1,2) le _ mem] le(2) show ?thesis unfolding eq by fastforce
  qed
qed

lemma optimize_n_some:
  assumes "modest_quotes qf"
  shows "ps \<noteq> [] \<Longrightarrow> length ps \<le> 2 ^ 10 \<Longrightarrow> T \<le> 2 ^ 64 \<Longrightarrow> \<forall>p \<in> set ps. qt_amount_out (qp_quote p) \<le> 2 ^ 100 \<Longrightarrow>
    \<exists>split. optimize_n_paths cfg qf ps T = Some split \<and> modest_split (length ps) split"
proof (induction ps arbitrary: T)
  case (Cons p rest)
  show ?case
  proof (cases rest)
    case Nil
    then show ?thesis using quote_out_some [OF assms, of "qp_path p" T] by (auto simp: modest_split_def)
  next
    case q: (Cons q rest')
    show ?thesis
    proof (cases "rest' = []")
      case True
      then show ?thesis using optimize_two_some [OF assms, of cfg "qp_path p" "qp_path q" T]
        by (auto simp: q numeral_2_eq_2)
    next
      case many: False
      define F where "F x = (let amount_a = fraction_of x T; amount_rest = T - amount_a in
          Option.bind (quote_out qf (qp_path p) amount_a) (\<lambda>out_a.
          Option.bind (total_out_for_paths cfg qf rest amount_rest) (\<lambda>out_rest.
          Option.bind (u128_checked_add out_a out_rest) (\<lambda>out. Some (f64_of_nat out)))))" for x
      have rest: "length rest \<le> 2 ^ 10" "\<forall>p \<in> set rest. qt_amount_out (qp_quote p) \<le> 2 ^ 100" "rest \<noteq> []"
        using Cons.prems(2,4) q by auto
      have le: "T - a \<le> 2 ^ 64" for a using Cons.prems(3) by simp
      have "\<exists>v. F x = Some v" for x
      proof -
        obtain a where a: "quote_out qf (qp_path p) (fraction_of x T) = Some a" "a \<le> 2 ^ 100"
          using quote_out_some [OF assms] by blast
        obtain b where b: "total_out_for_paths cfg qf rest (T - fraction_of x T) = Some b" "b \<le> 2 ^ 110"
          using total_out_some [OF assms le rest(1,2)] by blast
        have "a \<le> 2 ^ 110" using a(2) by simp
        then show ?thesis using a(1) b add_outs [of a b] by (simp add: F_def Let_def)
      qed
      from brent_maximize_some [of F cfg 0 1, OF this] obtain x where x: "brent_maximize cfg 0 1 F = Some x" by blast
      obtain a where a: "quote_out qf (qp_path p) (fraction_of x T) = Some a" "a \<le> 2 ^ 100"
        using quote_out_some [OF assms] by blast
      obtain rs where rs: "optimize_n_paths cfg qf rest (T - fraction_of x T) = Some rs" "modest_split (length rest) rs"
        using Cons.IH [OF rest(3,1) le rest(2)] by blast
      have "optimize_n_paths cfg qf (p # rest) T = Some (if T - fraction_of x T > 0
          then (fraction_of x T, a) # rs else [(fraction_of x T, a)])"
        unfolding optimize_n_paths.simps F_def [symmetric] using q many x a(1) rs(1) by (simp add: Let_def)
      then show ?thesis using a(2) rs(2) by (auto simp: modest_split_def)
    qed
  qed
qed simp

lemma kept_positions_some:
  assumes "\<forall>k \<in> set active. k < length candidates"
  shows "position + length legs \<le> length active \<Longrightarrow> \<forall>leg \<in> set legs. snd leg \<le> 2 ^ 100 \<Longrightarrow>
    \<exists>kept. kept_positions cfg candidates active T total_out position legs = Some kept"
proof (induction legs arbitrary: position)
  case (Cons leg legs)
  obtain amount out where leg: "leg = (amount, out)" by force
  obtain rest where rest: "kept_positions cfg candidates active T total_out (Suc position) legs = Some rest"
    using Cons.IH [of "Suc position"] Cons.prems by auto
  have "out * 10000 \<le> 2 ^ 100 * 10000" using Cons.prems(2) by (intro mult_right_mono) (simp_all add: leg)
  then have mul: "u128_checked_mul out 10000 = Some (out * 10000)"
    by (simp add: u128_checked_mul_def u128_max_def)
  have pos: "position < length active" "active ! position < length candidates"
    using Cons.prems(1) assms by simp_all
  then show ?case using rest mul by (simp add: leg nth_opt_def Let_def)
qed simp

lemma modest_split_sum:
  assumes "modest_split n split" "n \<le> 2 ^ 10"
  shows "u128_sum_checked (map snd split) = Some (sum_list (map snd split))" "sum_list (map snd split) \<le> 2 ^ 110"
  using sum_checked_some [of "map snd split"] assms by (auto simp: modest_split_def)

lemma dust_loop_some:
  assumes "modest_quotes qf" "T \<le> 2 ^ 64" "\<forall>p \<in> set candidates. qt_amount_out (qp_quote p) \<le> 2 ^ 100"
  shows "length active \<le> 2 ^ 10 \<Longrightarrow> \<forall>k \<in> set active. k < length candidates \<Longrightarrow> modest_split (length active) split \<Longrightarrow>
    \<exists>active' split' dust'. dust_loop cfg qf candidates T active split dust = Some (active', split', dust')
      \<and> modest_split (length active') split' \<and> length active' \<le> length active"
proof (induction "length active" arbitrary: active split dust rule: less_induct)
  case less
  note sum = modest_split_sum(1) [OF less.prems(3,1)]
  obtain kept where k: "kept_positions cfg candidates active T (sum_list (map snd split)) 0 split = Some kept"
    using kept_positions_some [OF less.prems(2), of 0 split cfg T "sum_list (map snd split)"] less.prems(3)
    by (auto simp: modest_split_def)
  show ?case
  proof (cases "sum_list (map snd split) = 0 \<or> length active < 2 \<or> length kept = nonzero_legs split \<or> kept = []")
    case True
    then show ?thesis using less.prems(3) by (auto simp: dust_loop.simps [of _ _ _ _ active] sum k)
  next
    case False
    define act where "act = map (\<lambda>position. active ! position) kept"
    define cs where "cs = map (\<lambda>idx. candidates ! idx) act"
    have len: "length act < length active" "length act \<le> 2 ^ 10"
      using kept_positions_count [OF k] False less.prems(1) by (auto simp: act_def)
    have range: "\<forall>k \<in> set act. k < length candidates" using kept_positions_in [OF k] by (auto simp: act_def)
    have cs: "cs \<noteq> []" "length cs \<le> 2 ^ 10" "length cs = length act" "\<forall>p \<in> set cs. qt_amount_out (qp_quote p) \<le> 2 ^ 100"
      using False len range assms(3) by (auto simp: cs_def act_def)
    have "\<exists>split1. (if length cs = 1 then
            Option.bind (quote_out qf (qp_path (hd cs)) T) (\<lambda>out. Some [(T, out)])
          else optimize_n_paths cfg qf cs T) = Some split1 \<and> modest_split (length act) split1"
      using optimize_n_some [OF assms(1) cs(1,2) assms(2) cs(4), of cfg] quote_out_some [OF assms(1), of "qp_path (hd cs)" T] cs(3)
      by (auto simp: modest_split_def)
    then obtain split1 where s1: "(if length cs = 1 then
            Option.bind (quote_out qf (qp_path (hd cs)) T) (\<lambda>out. Some [(T, out)])
          else optimize_n_paths cfg qf cs T) = Some split1" "modest_split (length act) split1" by blast
    have go: "\<not> (sum_list (map snd split) = 0 \<or> length active < 2)" "\<not> (length kept = nonzero_legs split \<or> kept = [])"
      using False by blast+
    have "dust_loop cfg qf candidates T active split dust
        = dust_loop cfg qf candidates T act split1 (dust + (nonzero_legs split - length kept))"
      unfolding dust_loop.simps [of cfg qf candidates T active split dust] sum bind.simps if_not_P [OF go(1)] k
        if_not_P [OF go(2)] Let_def act_def [symmetric] cs_def [symmetric] s1(1) ..
    with less.hyps [OF len(1) len(2) range s1(2)] len(1) show ?thesis by fastforce
  qed
qed

lemma filter_dust_some:
  assumes "modest_quotes qf" "T \<le> 2 ^ 64" "\<forall>p \<in> set candidates. qt_amount_out (qp_quote p) \<le> 2 ^ 100"
    and "length candidates \<le> 2 ^ 10" "modest_split (length candidates) split"
  shows "\<exists>active split' dust. filter_dust_split_legs cfg qf candidates split T = Some (active, split', dust)
    \<and> modest_split (length active) split' \<and> length active \<le> 2 ^ 10"
proof -
  obtain active' split' dust' where "dust_loop cfg qf candidates T [0..<length candidates] split 0 = Some (active', split', dust')"
    "modest_split (length active') split'" "length active' \<le> length candidates"
    using dust_loop_some [OF assms(1-3), of "[0..<length candidates]" split cfg 0] assms(4,5) by auto
  then show ?thesis using assms(4,5) by (auto simp: filter_dust_split_legs_def)
qed

lemma planned_split_some:
  "i + length legs \<le> length cs \<Longrightarrow> \<forall>leg \<in> set legs. fst leg \<le> 2 ^ 64 \<Longrightarrow>
   \<exists>ps. planned_split_from cs T i legs = Some ps"
proof (induction legs arbitrary: i)
  case (Cons leg legs)
  obtain amount out where leg: "leg = (amount, out)" by force
  have "amount * 10000 \<le> 2 ^ 64 * 10000" using Cons.prems(2) by (intro mult_right_mono) (simp_all add: leg)
  then have "u128_checked_mul amount 10000 = Some (amount * 10000)"
    by (simp add: u128_checked_mul_def u128_max_def)
  then show ?case using Cons.IH [of "Suc i"] Cons.prems by (auto simp: leg nth_opt_def)
qed simp

lemma sub_orders_some:
  "i + length legs \<le> length cs \<Longrightarrow> \<exists>os. sub_orders_from cs T i legs = Some os"
proof (induction legs arbitrary: i)
  case (Cons leg legs)
  obtain amount out where leg: "leg = (amount, out)" by force
  obtain os where "sub_orders_from cs T (Suc i) legs = Some os" using Cons.IH [of "Suc i"] Cons.prems by auto
  then show ?case using Cons.prems by (simp add: leg nth_opt_def)
qed simp

lemma apply_slippage_some:
  assumes "v \<le> 2 ^ 110" "s \<le> 10000"
  shows "apply_slippage v s = Some (v * (10000 - s) div 10000)"
proof -
  have "v * (10000 - s) \<le> 2 ^ 110 * 10000" using assms by (intro mult_le_mono) auto
  then show ?thesis using assms(2) by (simp add: apply_slippage_def u128_checked_sub_def u128_checked_mul_def u128_max_def)
qed

end
