(* ===== verification/Split_Properties.thy ===== *)
theory Split_Properties
  imports Split_Legs
begin

text \<open>
  What the split optimiser promises: a route is never worse than the best single path, it uses up
  exactly the input, its legs carry the quotes of their paths, and it does not panic; and two
  defects, the shift of the legs behind an empty one and the panic for a large slippage.
\<close>

section \<open>The two kinds of route\<close>

lemma optimize_routeE:
  assumes "optimize cfg qf elapsed quoted T slippage max_splits = Some r" "quoted \<noteq> []"
  obtains (single) debug where "single_route (hd (sort_by_output quoted)) T slippage elapsed debug = Some r"
  | (split) n candidates split0 indices split dust where
      "n = (case max_splits of Some n \<Rightarrow> n | None \<Rightarrow> sc_max_splits cfg)" "2 \<le> n" "2 \<le> length quoted"
      "candidates = take n (sort_by_output quoted)"
      "optimize_n_paths cfg qf candidates T = Some split0"
      "filter_dust_split_legs cfg qf candidates split0 T = Some (indices, split, dust)"
      "u128_sum_checked (map snd split) = Some (rt_total_expected_out r)"
      "qt_amount_out (qp_quote (hd (sort_by_output quoted))) < rt_total_expected_out r"
      "0 < qt_amount_out (qp_quote (hd (sort_by_output quoted)))"
      "build_sub_orders (map (\<lambda>idx. candidates ! idx) indices) split T = Some (rt_sub_orders r)"
      "rt_improvement_bps r = as_u32 ((rt_total_expected_out r - qt_amount_out (qp_quote (hd (sort_by_output quoted)))) * 10000
        div qt_amount_out (qp_quote (hd (sort_by_output quoted))))"
      "sc_min_split_improvement_bps cfg \<le> rt_improvement_bps r"
      "apply_split_minimum_slippage (rt_total_expected_out r) slippage = Some (rt_minimum_out r)"
      "rt_is_split r" "rt_total_amount_in r = T"
proof -
  define n where "n = (case max_splits of Some n \<Rightarrow> n | None \<Rightarrow> sc_max_splits cfg)"
  let ?ranked = "sort_by_output quoted"
  have len: "length ?ranked = length quoted" by (simp add: sort_by_output_def)
  have "(\<exists>debug. single_route (hd ?ranked) T slippage elapsed debug = Some r)
    \<or> (2 \<le> n \<and> 2 \<le> length quoted \<and> optimize_split cfg qf elapsed quoted T slippage ?ranked n = Some r)"
    using assms len unfolding optimize_def Let_def n_def [symmetric]
    by (auto simp: bind_eq_Some_conv split: if_splits)
  then show thesis
  proof
    assume "\<exists>debug. single_route (hd ?ranked) T slippage elapsed debug = Some r"
    then show thesis using single by blast
  next
    assume a: "2 \<le> n \<and> 2 \<le> length quoted \<and> optimize_split cfg qf elapsed quoted T slippage ?ranked n = Some r"
    obtain split0 indices split' dust planned total_out where s:
      "optimize_n_paths cfg qf (take n ?ranked) T = Some split0"
      "filter_dust_split_legs cfg qf (take n ?ranked) split0 T = Some (indices, split', dust)"
      "build_planned_split_debug (map (\<lambda>idx. take n ?ranked ! idx) indices) split' T = Some planned"
      "u128_sum_checked (map snd split') = Some total_out"
      using a unfolding optimize_split_def Let_def by (auto simp: bind_eq_Some_conv)
    note rest = a [THEN conjunct2, THEN conjunct2, unfolded optimize_split_def Let_def s(1,2) bind.simps prod.case s(3,4)]
    show thesis
    proof (cases "total_out \<le> qt_amount_out (qp_quote (hd ?ranked))")
      case True
      then show thesis using rest single by auto
    next
      case False
      from rest obtain subs where b: "build_sub_orders (map (\<lambda>idx. take n ?ranked ! idx) indices) split' T = Some subs"
        unfolding if_not_P [OF False] by (auto simp: bind_eq_Some_conv)
      let ?imp = "as_u32 ((total_out - qt_amount_out (qp_quote (hd ?ranked))) * 10000 div qt_amount_out (qp_quote (hd ?ranked)))"
      from rest have pos: "0 < qt_amount_out (qp_quote (hd ?ranked))"
        unfolding if_not_P [OF False] b by (auto simp: bind_eq_Some_conv split: if_splits)
      show thesis
      proof (cases "?imp < sc_min_split_improvement_bps cfg")
        case True
        with rest show thesis unfolding if_not_P [OF False] b bind.simps
          using pos single by (auto simp: bind_eq_Some_conv u128_checked_mul_eq_Some split: if_splits)
      next
        case imp: False
        from rest obtain m where "apply_split_minimum_slippage total_out slippage = Some m"
          "rt_sub_orders r = subs" "rt_total_expected_out r = total_out" "rt_is_split r" "rt_total_amount_in r = T"
          "rt_improvement_bps r = ?imp" "rt_minimum_out r = m"
          unfolding if_not_P [OF False] b bind.simps
          using pos imp by (auto simp: bind_eq_Some_conv u128_checked_mul_eq_Some)
        then show thesis using split [OF n_def _ _ refl s(1,2)] a s(4) False pos b imp by simp
      qed
    qed
  qed
qed

lemma single_routeD:
  assumes "single_route best T slippage elapsed debug = Some r"
  shows "rt_total_expected_out r = qt_amount_out (qp_quote best)" "rt_total_amount_in r = T" "\<not> rt_is_split r"
    "apply_slippage (qt_amount_out (qp_quote best)) slippage = Some (rt_minimum_out r)"
    "map so_amount_in (rt_sub_orders r) = [T]" "map so_path (rt_sub_orders r) = [qp_path best]"
    "map so_expected_amount_out (rt_sub_orders r) = [qt_amount_out (qp_quote best)]"
  using assms by (auto simp: single_route_def bind_eq_Some_conv)

lemma ranked_best:
  assumes "p \<in> set quoted"
  shows "qt_amount_out (qp_quote p) \<le> qt_amount_out (qp_quote (hd (sort_by_output quoted)))"
    and "hd (sort_by_output quoted) \<in> set quoted"
proof -
  let ?ranked = "sort_by_output quoted"
  have ne: "?ranked \<noteq> []" using assms by (auto simp: sort_by_output_def dest: arg_cong [where f = set])
  have s: "sorted (map (\<lambda>p. - int (qt_amount_out (qp_quote p))) ?ranked)" by (simp add: sort_by_output_def)
  have "p \<in> set ?ranked" using assms by (simp add: sort_by_output_def)
  then show "qt_amount_out (qp_quote p) \<le> qt_amount_out (qp_quote (hd ?ranked))"
    using s ne by (cases ?ranked) auto
  show "hd ?ranked \<in> set quoted" using hd_in_set [OF ne] by (simp add: sort_by_output_def)
qed

lemma apply_slippageD:
  assumes "apply_slippage v s = Some m"
  shows "s \<le> 10000" "m = v * (10000 - s) div 10000" "m \<le> v"
proof -
  show s: "s \<le> 10000" and m: "m = v * (10000 - s) div 10000"
    using assms by (auto simp: apply_slippage_def bind_eq_Some_conv u128_checked_sub_eq_Some u128_checked_mul_eq_Some)
  have "v * (10000 - s) div 10000 \<le> v * 10000 div 10000" by (intro div_le_mono mult_le_mono2) simp
  then show "m \<le> v" using m by simp
qed

text \<open>C21: A route is never worse than a single path: for every quoted path the route's expected output
  is at least that path's, a split beats them all strictly and by the configured number of basis
  points, and the minimum output is the expected one less the slippage (with 150 basis points more
  for a split), never above it.\<close>

theorem optimize_never_worse:
  assumes "optimize cfg qf elapsed quoted T slippage max_splits = Some r" "p \<in> set quoted"
  shows "qt_amount_out (qp_quote p) \<le> rt_total_expected_out r
    \<and> (rt_is_split r \<longrightarrow> qt_amount_out (qp_quote p) < rt_total_expected_out r
        \<and> sc_min_split_improvement_bps cfg \<le> rt_improvement_bps r)
    \<and> rt_minimum_out r = rt_total_expected_out r
        * (10000 - (if rt_is_split r then u32_saturating_add slippage 150 else slippage)) div 10000
    \<and> rt_minimum_out r \<le> rt_total_expected_out r \<and> rt_total_amount_in r = T"
proof -
  have ne: "quoted \<noteq> []" using assms(2) by auto
  note best = ranked_best(1) [OF assms(2)]
  from assms(1) ne show ?thesis
  proof (cases rule: optimize_routeE)
    case (single debug)
    note d = single_routeD [OF single]
    then show ?thesis using best apply_slippageD [OF d(4)] by simp
  next
    case split
    then show ?thesis
      using best apply_slippageD [of "rt_total_expected_out r" "u32_saturating_add slippage 150" "rt_minimum_out r"]
      by (auto simp: apply_split_minimum_slippage_def SPLIT_MIN_OUTPUT_EXTRA_BPS_def)
  qed
qed

lemma sub_orders_amounts:
  "sub_orders_from cs T i legs = Some os \<Longrightarrow> map so_amount_in os = map fst legs
     \<and> map so_expected_amount_out os = map snd legs
     \<and> (\<forall>k < length os. i + k < length cs \<and> so_path (os ! k) = qp_path (cs ! (i + k)))"
proof (induction legs arbitrary: i os)
  case (Cons leg legs)
  obtain amount out where leg: "leg = (amount, out)" by force
  from Cons.prems obtain rest where r: "sub_orders_from cs T (Suc i) legs = Some rest" "i < length cs"
    "os = \<lparr>so_path = qp_path (cs ! i), so_amount_in = amount, so_expected_amount_out = out,
      so_fraction = f64_div (f64_of_nat amount) (f64_of_nat T)\<rparr> # rest"
    by (auto simp: leg nth_opt_def bind_eq_Some_conv split: if_splits)
  note IH = Cons.IH [OF r(1)]
  have "i + k < length cs \<and> so_path (os ! k) = qp_path (cs ! (i + k))" if "k < length os" for k
    using IH r(2,3) that by (cases k) auto
  then show ?case using IH r(3) by (simp add: leg)
qed simp

lemma sum_list_positive: "sum_list (map fst (filter (\<lambda>(amount, _). 0 < amount) legs)) = sum_list (map fst (legs :: (nat \<times> 'a) list))"
  by (induction legs) auto

text \<open>C22: A route uses up exactly the input: for an amount of at most \<open>2 ^ 53\<close> (the integers a
  \<open>f64\<close> represents), the amounts of the sub-orders sum to the requested amount, whatever the quotes
  are and however many legs were dropped as dust.\<close>

theorem split_conserves_input:
  assumes "optimize cfg qf elapsed quoted T slippage max_splits = Some r" "quoted \<noteq> []" "T \<le> 2 ^ 53"
  shows "sum_list (map so_amount_in (rt_sub_orders r)) = T"
  using assms(1,2)
proof (cases rule: optimize_routeE)
  case (single debug)
  then show ?thesis using single_routeD(5) [OF single] by simp
next
  case (split n candidates split0 indices split' dust)
  have "split_of qf (map (\<lambda>idx. candidates ! idx) indices) T split'"
    using filter_dust_split [OF split(6) assms(3)] optimize_n_split [OF split(5) assms(3)] by blast
  then have "sum_list (map fst split') = T" by (simp add: split_of_def)
  moreover have "map so_amount_in (rt_sub_orders r) = map fst (filter (\<lambda>(amount, _). amount > 0) split')"
    using split(10) sub_orders_amounts unfolding build_sub_orders_def by blast
  ultimately show ?thesis by (simp add: sum_list_positive)
qed

text \<open>C23: The optimiser does not panic: when the quoting function returns, with outputs of at most
  \<open>2 ^ 100\<close>, at most 1024 paths were quoted with positive outputs, the input is at most \<open>2 ^ 53\<close> and
  the slippage at most 98.5%, \<open>optimize\<close> returns a route, whatever the configuration.\<close>

theorem optimize_never_panics:
  assumes qf: "modest_quotes qf" and T: "T \<le> 2 ^ 53" and slip: "slippage + 150 \<le> 10000"
    and quoted: "length quoted \<le> 2 ^ 10"
      "\<forall>p \<in> set quoted. 0 < qt_amount_out (qp_quote p) \<and> qt_amount_out (qp_quote p) \<le> 2 ^ 100"
  shows "\<exists>r. optimize cfg qf elapsed quoted T slippage max_splits = Some r"
proof (cases "quoted = []")
  case True
  then show ?thesis by (simp add: optimize_def)
next
  case False
  define n where "n = (case max_splits of Some n \<Rightarrow> n | None \<Rightarrow> sc_max_splits cfg)"
  let ?ranked = "sort_by_output quoted"
  let ?best = "hd ?ranked"
  have ranked: "set ?ranked = set quoted" "length ?ranked = length quoted" "?ranked \<noteq> []"
    using False by (auto simp: sort_by_output_def dest: arg_cong [where f = length])
  have out: "p \<in> set quoted \<Longrightarrow> qt_amount_out (qp_quote p) \<le> 2 ^ 100" for p using quoted(2) by blast
  have best: "0 < qt_amount_out (qp_quote ?best)" "qt_amount_out (qp_quote ?best) \<le> 2 ^ 100"
    using quoted(2) hd_in_set [OF ranked(3)] ranked(1) by auto
  have T64: "T \<le> 2 ^ 64" using T by simp
  have slip': "slippage \<le> 10000" "u32_saturating_add slippage 150 \<le> 10000"
    using slip by (simp_all add: u32_saturating_add_def u32_max_def)
  have "qt_amount_out (qp_quote ?best) \<le> 2 ^ 110" using best(2) by simp
  then have single: "\<exists>r. single_route ?best T slippage elapsed debug = Some r" for debug
    using apply_slippage_some [OF _ slip'(1)] by (simp add: single_route_def)
  have mul: "v \<le> 2 ^ 110 \<Longrightarrow> \<exists>w. u128_checked_mul v 10000 = Some w" for v
  proof -
    assume "v \<le> 2 ^ 110"
    then have "v * 10000 \<le> 2 ^ 110 * 10000" by (rule mult_le_mono1)
    then show ?thesis by (simp add: u128_checked_mul_def u128_max_def)
  qed
  have split: "\<exists>r. optimize_split cfg qf elapsed quoted T slippage ?ranked n = Some r" if n: "2 \<le> n"
  proof -
    define cs where "cs = take n ?ranked"
    have cs: "cs \<noteq> []" "length cs \<le> 2 ^ 10" "\<forall>p \<in> set cs. qt_amount_out (qp_quote p) \<le> 2 ^ 100"
      using n ranked quoted(1) out by (auto simp: cs_def dest: in_set_takeD)
    obtain split0 where s0: "optimize_n_paths cfg qf cs T = Some split0" "modest_split (length cs) split0"
      using optimize_n_some [OF qf cs(1,2) T64 cs(3)] by blast
    obtain indices split' dust where s1: "filter_dust_split_legs cfg qf cs split0 T = Some (indices, split', dust)"
      "modest_split (length indices) split'" "length indices \<le> 2 ^ 10"
      using filter_dust_some [OF qf T64 cs(3,2) s0(2)] by blast
    have sp: "split_of qf (map (\<lambda>idx. cs ! idx) indices) T split'"
      using filter_dust_split [OF s1(1) T] optimize_n_split [OF s0(1) T] by blast
    have len: "0 + length split' \<le> length (map (\<lambda>idx. cs ! idx) indices)" using sp by (simp add: split_of_def)
    have "fst leg \<le> 2 ^ 64" if "leg \<in> set split'" for leg
      using sp T64 member_le_sum_list [of "fst leg" "map fst split'"] that by (auto simp: split_of_def)
    then have "\<forall>leg \<in> set split'. fst leg \<le> 2 ^ 64" by blast
    from planned_split_some [OF len this] obtain planned where
      p: "build_planned_split_debug (map (\<lambda>idx. cs ! idx) indices) split' T = Some planned"
      unfolding build_planned_split_debug_def by blast
    note sum = modest_split_sum [OF s1(2,3)]
    let ?total = "sum_list (map snd split')"
    have "0 + length (filter (\<lambda>(amount, _). amount > 0) split') \<le> length (map (\<lambda>idx. cs ! idx) indices)"
      by (rule order_trans [OF _ len]) simp
    then obtain subs where subs: "build_sub_orders (map (\<lambda>idx. cs ! idx) indices) split' T = Some subs"
      unfolding build_sub_orders_def using sub_orders_some by blast
    obtain w where w: "u128_checked_mul (?total - qt_amount_out (qp_quote ?best)) 10000 = Some w"
      using mul [OF order_trans [OF diff_le_self sum(2)]] by blast
    have slip_split: "apply_split_minimum_slippage ?total slippage = Some (?total * (10000 - u32_saturating_add slippage 150) div 10000)"
      unfolding apply_split_minimum_slippage_def SPLIT_MIN_OUTPUT_EXTRA_BPS_def
      by (rule apply_slippage_some [OF sum(2) slip'(2)])
    show ?thesis
      unfolding optimize_split_def cs_def [symmetric] Let_def s0(1) s1(1) bind.simps prod.case p sum(1) subs w slip_split
      using single best(1) by simp
  qed
  have "\<exists>c. competitive_enough cfg (qt_amount_out (qp_quote ?best)) second = Some c" for second
  proof (cases second)
    case (Some v)
    have "qt_amount_out (qp_quote ?best) - v \<le> 2 ^ 110" using best(2) by simp
    from mul [OF this] Some show ?thesis by (auto simp: competitive_enough_def gap_bps_def)
  qed (auto simp: competitive_enough_def)
  then obtain c where c: "competitive_enough cfg (qt_amount_out (qp_quote ?best)) (rd_second_best_out (base_debug cfg quoted ?ranked)) = Some c"
    by blast
  show ?thesis
    unfolding optimize_def if_not_P [OF False] Let_def c bind.simps n_def [symmetric]
    using single split by (cases "n \<le> 1") simp_all
qed

section \<open>Two paths\<close>

lemma dust_loop_shrinks:
  assumes "dust_loop cfg qf candidates T active split dust = Some (active', split', dust')"
  shows "active' = active \<and> split' = split \<or> length active' < length active \<and> active' \<noteq> []"
  using assms
proof (induction cfg qf candidates T active split dust rule: dust_loop.induct)
  case (1 cfg qf candidates T active split dust)
  from 1(2) [unfolded dust_loop.simps [of cfg qf candidates T active split dust]]
  obtain total_out where t: "u128_sum_checked (map snd split) = Some total_out"
    by (auto simp: bind_eq_Some_conv)
  show ?case
  proof (cases "total_out = 0 \<or> length active < 2")
    case True
    then show ?thesis using 1(2) by (simp add: dust_loop.simps [of cfg qf candidates T active split dust] t)
  next
    case go: False
    from 1(2) obtain kept where k: "kept_positions cfg candidates active T total_out 0 split = Some kept"
      unfolding dust_loop.simps [of cfg qf candidates T active split dust] t bind.simps if_not_P [OF go]
      by (auto simp: bind_eq_Some_conv)
    show ?thesis
    proof (cases "length kept = nonzero_legs split \<or> kept = []")
      case True
      then show ?thesis using 1(2) go by (simp add: dust_loop.simps [of cfg qf candidates T active split dust] t k)
    next
      case False
      define act where "act = map (\<lambda>position. active ! position) kept"
      define cs where "cs = map (\<lambda>idx. candidates ! idx) act"
      from 1(2) obtain split1 where s1: "(if length cs = 1 then
            Option.bind (quote_out qf (qp_path (hd cs)) T) (\<lambda>out. Some [(T, out)])
          else optimize_n_paths cfg qf cs T) = Some split1"
        "dust_loop cfg qf candidates T act split1 (dust + (nonzero_legs split - length kept)) = Some (active', split', dust')"
        unfolding dust_loop.simps [of cfg qf candidates T active split dust] t bind.simps if_not_P [OF go] k
          if_not_P [OF False] Let_def act_def [symmetric] cs_def [symmetric]
        by (auto simp: bind_eq_Some_conv)
      have "length act < length active" "act \<noteq> []" using kept_positions_count [OF k] False by (auto simp: act_def)
      then show ?thesis using 1(1) [OF t go k False act_def cs_def s1] by auto
    qed
  qed
qed

lemma two_path_legs:
  assumes "split_of qf [a, b] T split" "length split = 2"
  shows "\<exists>x oa y ob. split = [(x, oa), (y, ob)] \<and> x + y = T \<and> (0 < x \<longrightarrow> quote_out qf (qp_path a) x = Some oa)
    \<and> (0 < y \<longrightarrow> quote_out qf (qp_path b) y = Some ob)"
proof -
  obtain x oa y ob where "split = [(x, oa), (y, ob)]"
    using assms(2) by (auto simp: length_Suc_conv numeral_2_eq_2)
  moreover have "0 < length split" "1 < length split" using assms(2) by simp_all
  ultimately show ?thesis using assms(1) by (fastforce simp: split_of_def)
qed

text \<open>C24: With two candidate paths a route is truthful: when the quotes used for the ranking are those
  of the quoting function, every sub-order's expected output is the quote of its own path for its
  own amount, and the expected outputs sum to the route's.\<close>

theorem two_path_route_truthful:
  assumes "optimize cfg qf elapsed quoted T slippage (Some 2) = Some r"
    and "quoted \<noteq> []" "0 < T" "T \<le> 2 ^ 53"
    and "\<forall>p \<in> set quoted. quote_out qf (qp_path p) T = Some (qt_amount_out (qp_quote p))"
  shows "(\<forall>so \<in> set (rt_sub_orders r). quote_out qf (so_path so) (so_amount_in so) = Some (so_expected_amount_out so))
    \<and> sum_list (map so_expected_amount_out (rt_sub_orders r)) = rt_total_expected_out r"
  using assms(1,2)
proof (cases rule: optimize_routeE)
  case (single debug)
  note d = single_routeD [OF single]
  obtain so where "rt_sub_orders r = [so]" using d(5) by (auto simp: map_eq_Cons_conv)
  then show ?thesis using d assms(2,5) ranked_best(2) [of "hd quoted" quoted] by auto
next
  case (split n cs split0 indices split' dust)
  let ?best = "hd (sort_by_output quoted)"
  have n: "n = 2" using split(1) by simp
  obtain a b rest where ab: "sort_by_output quoted = a # b # rest"
    using split(3) by (cases "sort_by_output quoted" rule: list.exhaust; cases "tl (sort_by_output quoted)")
      (auto simp: sort_by_output_def dest: arg_cong [where f = length])
  have cs: "cs = [a, b]" using split(4) by (simp add: n ab)
  have "set [a, b] \<subseteq> set (sort_by_output quoted)" by (simp add: ab)
  then have mem: "a \<in> set quoted" "b \<in> set quoted" by (simp_all add: sort_by_output_def)
  have full: "quote_out qf (qp_path p) T = Some v \<Longrightarrow> p \<in> {a, b} \<Longrightarrow> v < rt_total_expected_out r" for p v
    using assms(5) mem ranked_best(1) [OF mem(1)] ranked_best(1) [OF mem(2)] split(8) by fastforce
  obtain x oa ob where s0: "quote_positive qf (qp_path a) (fraction_of x T) = Some oa"
    "quote_positive qf (qp_path b) (T - fraction_of x T) = Some ob"
    "split0 = [(fraction_of x T, oa), (T - fraction_of x T, ob)]"
    using split(5) unfolding cs by (auto simp: optimize_two_paths_def Let_def bind_eq_Some_conv)
  have sp0: "split_of qf [a, b] T split0" using optimize_n_split [OF split(5) assms(4)] by (simp add: cs)
  have sp: "split_of qf (map (\<lambda>idx. cs ! idx) indices) T split'" "\<forall>k \<in> set indices. k < 2"
    using filter_dust_split [OF split(6) assms(4)] sp0 by (simp_all add: cs numeral_2_eq_2)
  have "indices = [0, 1] \<and> split' = split0 \<or> length indices = 1"
    using split(6) dust_loop_shrinks [of cfg qf cs T "[0..<2]" split0 0 indices split' dust]
    by (auto simp: filter_dust_split_legs_def cs upt_rec less_Suc_eq split: if_splits)
  then show ?thesis
  proof
    assume "length indices = 1"
    then obtain k where k: "indices = [k]" by (auto simp: length_Suc_conv)
    then obtain p where p: "map (\<lambda>idx. cs ! idx) indices = [p]" "p \<in> {a, b}"
      using sp(2) by (auto simp: cs less_2_cases_iff)
    then obtain out where "split' = [(T, out)]" "quote_out qf (qp_path p) T = Some out"
      using sp(1) assms(3) by (cases split') (auto simp: split_of_def)
    then have "rt_total_expected_out r < rt_total_expected_out r"
      using full [OF _ p(2)] split(7) by (auto simp: bind_eq_Some_conv u128_checked_add_eq_Some)
    then show ?thesis by simp
  next
    assume same: "indices = [0, 1] \<and> split' = split0"
    obtain xa oa xb ob where legs: "split0 = [(xa, oa), (xb, ob)]" "xa + xb = T"
      "0 < xa \<longrightarrow> quote_out qf (qp_path a) xa = Some oa" "0 < xb \<longrightarrow> quote_out qf (qp_path b) xb = Some ob"
      using two_path_legs [OF sp0] s0(3) by auto
    have total: "rt_total_expected_out r = oa + ob"
      using split(7) same legs(1) by (auto simp: bind_eq_Some_conv u128_checked_add_eq_Some)
    have z: "xa = 0 \<Longrightarrow> oa = 0" "xb = 0 \<Longrightarrow> ob = 0"
      using s0 legs(1) by (auto simp: quote_positive_def split: if_splits)
    have pos: "0 < xa" "0 < xb"
    proof -
      show "0 < xa"
      proof (rule ccontr)
        assume "\<not> 0 < xa"
        then have "oa = 0" "xb = T" using z(1) legs(2) by simp_all
        then show False using full [of b ob] legs(4) total assms(3) by simp
      qed
      show "0 < xb"
      proof (rule ccontr)
        assume "\<not> 0 < xb"
        then have "ob = 0" "xa = T" using z(2) legs(2) by simp_all
        then show False using full [of a oa] legs(3) total assms(3) by simp
      qed
    qed
    have "rt_sub_orders r = the (build_sub_orders [a, b] split0 T)" using split(10) same by (simp add: cs)
    then show ?thesis using pos legs total by (simp add: build_sub_orders_def nth_opt_def)
  qed
qed

section \<open>Three paths\<close>

text \<open>The first two points of Brent's method on the unit interval, up to the rounding.\<close>

lemma f64_round_within:
  assumes "1 / 2 ^ 100 \<le> lo" "lo \<le> x" "x \<le> hi"
  shows "lo - lo / 10 ^ 9 \<le> f64_round x \<and> f64_round x \<le> hi + hi / 10 ^ 9"
proof -
  have x: "0 < x" "\<bar>x\<bar> = x" using assms less_le_trans [of 0 "1 / 2 ^ 100" lo] by simp_all
  have "\<bar>f64_round x - x\<bar> \<le> x / 2 ^ 53" using f64_round_error [of x] assms x by simp
  also have "\<dots> \<le> x / 10 ^ 9" using x(1) by (intro divide_left_mono) simp_all
  finally have "\<bar>f64_round x - x\<bar> \<le> x / 10 ^ 9" .
  moreover have "x / 10 ^ 9 \<le> hi / 10 ^ 9" using assms(3) by (rule divide_right_mono) simp
  moreover have "lo - lo / 10 ^ 9 \<le> x - x / 10 ^ 9" using assms(2) by simp
  ultimately show ?thesis using assms(3) by linarith
qed

definition first_point :: f64 where "first_point = f64_add 0 (f64_mul f64_golden (f64_sub 1 0))"

definition second_point :: f64 where
  "second_point = f64_add first_point (f64_mul f64_golden (f64_sub 1 first_point))"

lemma f64_one: "f64_round 1 = 1"
  using f64_of_nat_exact [of 1] by (simp add: f64_of_nat_def)

lemma golden_bounds: "381 / 1000 \<le> f64_golden \<and> f64_golden \<le> 383 / 1000"
  using f64_round_within [of "3819 / 10000" "381966011250105 / 1000000000000000" "382 / 1000"]
  by (simp add: f64_golden_def)

lemma first_point_bounds: "380 / 1000 \<le> first_point \<and> first_point \<le> 385 / 1000"
proof -
  have "3805 / 10000 \<le> f64_mul f64_golden 1 \<and> f64_mul f64_golden 1 \<le> 384 / 1000"
    using f64_round_within [of "381 / 1000" f64_golden "383 / 1000"] golden_bounds by (simp add: f64_mul_def)
  then show ?thesis
    using f64_round_within [of "3805 / 10000" "f64_mul f64_golden 1" "384 / 1000"]
    by (simp add: first_point_def f64_add_def f64_sub_def f64_one)
qed

lemma second_step_bounds:
  "23 / 100 \<le> f64_mul f64_golden (f64_sub 1 first_point) \<and> f64_mul f64_golden (f64_sub 1 first_point) \<le> 24 / 100"
proof -
  let ?e = "f64_sub 1 first_point"
  have e: "614 / 1000 \<le> ?e" "?e \<le> 621 / 1000"
    using f64_round_within [of "615 / 1000" "1 - first_point" "620 / 1000"] first_point_bounds
    by (simp_all add: f64_sub_def)
  have "381 / 1000 * (614 / 1000) \<le> f64_golden * ?e" "f64_golden * ?e \<le> 383 / 1000 * (621 / 1000)"
    using golden_bounds e by (intro mult_mono; simp)+
  then show ?thesis
    using f64_round_within [of "2330 / 10000" "f64_golden * ?e" "2380 / 10000"] by (simp add: f64_mul_def)
qed

lemma second_point_bounds: "60 / 100 \<le> second_point \<and> second_point \<le> 64 / 100"
  using f64_round_within [of "61 / 100" "first_point + f64_mul f64_golden (f64_sub 1 first_point)" "63 / 100"]
    first_point_bounds second_step_bounds
  by (simp add: second_point_def f64_add_def)

definition one_round :: split_config where "one_round = split_config_default\<lparr>sc_max_iterations := 1\<rparr>"

lemma brent_one_round:
  "brent_maximize one_round 0 1 f = Option.bind (f first_point) (\<lambda>v. Option.bind (f second_point) (\<lambda>w.
     Some (if v \<le> w then second_point else first_point)))"
proof -
  define half where "half = f64_round (1 / 2)"
  define tol1 where "tol1 = f64_add (f64_mul (f64_round (1 / 10000)) \<bar>first_point\<bar>) (f64_round (1 / 10000000000))"
  define mid where "mid = f64_mul half (f64_add 0 1)"
  have half: "49 / 100 \<le> half" "half \<le> 51 / 100"
    using f64_round_within [of "1 / 2" "1 / 2" "1 / 2"] by (simp_all add: half_def)
  have mid: "48 / 100 \<le> mid" using f64_round_within [of "49 / 100" half "51 / 100"] half
    by (simp add: mid_def f64_mul_def f64_add_def f64_one)
  have q: "48 / 100 \<le> f64_mul half (f64_sub 1 0)"
    using f64_round_within [of "49 / 100" half "51 / 100"] half by (simp add: f64_mul_def f64_sub_def f64_one)
  have t0: "9 / 100000 \<le> f64_round (1 / 10000)" "f64_round (1 / 10000) \<le> 11 / 100000"
    using f64_round_within [of "1 / 10000" "1 / 10000" "1 / 10000"] by simp_all
  have "9 / 100000 * (380 / 1000) \<le> f64_round (1 / 10000) * first_point"
    "f64_round (1 / 10000) * first_point \<le> 11 / 100000 * (385 / 1000)"
    using t0 first_point_bounds by (intro mult_mono; simp)+
  then have t1: "3 / 100000 \<le> f64_mul (f64_round (1 / 10000)) \<bar>first_point\<bar>"
    "f64_mul (f64_round (1 / 10000)) \<bar>first_point\<bar> \<le> 5 / 100000"
    using f64_round_within [of "32 / 1000000" "f64_round (1 / 10000) * first_point" "45 / 1000000"] first_point_bounds
    by (simp_all add: f64_mul_def)
  have t2: "0 \<le> f64_round (1 / 10000000000)" "f64_round (1 / 10000000000) \<le> 1 / 1000000000"
    using f64_round_within [of "1 / 10000000000" "1 / 10000000000" "1 / 10000000000"] by simp_all
  have tol1: "2 / 100000 \<le> tol1" "tol1 \<le> 6 / 100000"
    using f64_round_within [of "3 / 100000" "f64_mul (f64_round (1 / 10000)) \<bar>first_point\<bar> + f64_round (1 / 10000000000)" "55 / 1000000"] t1 t2
    by (simp_all add: tol1_def f64_add_def)
  have tol2: "f64_mul 2 tol1 \<le> 1 / 1000"
    using f64_round_within [of "4 / 100000" "2 * tol1" "12 / 100000"] tol1 by (simp add: f64_mul_def)
  have "f64_sub (f64_mul 2 tol1) (f64_mul half (f64_sub 1 0)) < 0"
  proof -
    define y where "y = f64_mul 2 tol1 - f64_mul half (f64_sub 1 0)"
    have y: "y \<le> - (47 / 100)" using q tol2 by (simp add: y_def)
    then have "\<bar>f64_round y - y\<bar> \<le> - y / 2 ^ 53" using f64_round_error [of y] by simp
    then have "f64_round y \<le> y - y / 2 ^ 53" by linarith
    also have "\<dots> < 0" using y by (simp add: field_simps)
    finally show ?thesis by (simp add: f64_sub_def y_def)
  qed
  then have go: "\<not> \<bar>f64_sub first_point mid\<bar> \<le> f64_sub (f64_mul 2 tol1) (f64_mul half (f64_sub 1 0))" by simp
  have d: "f64_mul f64_golden (f64_sub 1 first_point) \<ge> tol1" "0 < f64_mul f64_golden (f64_sub 1 first_point)"
    using second_step_bounds tol1 by linarith+
  have below: "first_point < mid" using first_point_bounds mid by linarith
  have u: "\<not> second_point < first_point" using first_point_bounds second_point_bounds by linarith
  have clamp: "f64_clamp 0 1 first_point = first_point" "f64_clamp 0 1 second_point = second_point"
    using first_point_bounds second_point_bounds by (auto simp: f64_clamp_def)
  have tol_pos: "\<not> tol1 < 0" using tol1 by linarith
  show ?thesis
    unfolding brent_maximize_def one_round_def split_config_default_def
    using go d below tol_pos
    by (simp add: Let_def first_point_def [symmetric] half_def [symmetric] tol1_def [symmetric] mid_def [symmetric]
        brent_direction_def brent_parabola_def brent_point_def second_point_def [symmetric] brent_update_def u clamp
        if_distrib [where f = "f64_clamp 0 1"] if_distrib [where f = br_x] cong: if_cong)
qed

lemma one_round_fractions:
  "fraction_of first_point 2 = 0" "fraction_of second_point 2 = 1"
  "fraction_of first_point 1 = 0" "fraction_of second_point 1 = 0"
proof -
  have n: "f64_of_nat 2 = 2" "f64_of_nat 1 = 1" using f64_of_nat_exact [of 2] f64_of_nat_exact [of 1] by simp_all
  have within: "0 < f64_mul x y \<and> of_int k \<le> f64_mul x y \<and> f64_mul x y < of_int k + 1 \<Longrightarrow> f64_as_u128 (f64_mul x y) = nat k"
    if "k \<le> 1" for x y k
    using that floor_unique [of k "f64_mul x y"] by (auto simp: f64_as_u128_def u128_max_def min_def)
  have "0 < f64_mul first_point 2 \<and> f64_mul first_point 2 < 1"
    using f64_round_within [of "70 / 100" "first_point * 2" "80 / 100"] first_point_bounds by (simp add: f64_mul_def)
  then show "fraction_of first_point 2 = 0" using within [of 0 first_point 2] by (simp add: fraction_of_def n)
  have "1 \<le> f64_mul second_point 2 \<and> f64_mul second_point 2 < 2"
    using f64_round_within [of "110 / 100" "second_point * 2" "130 / 100"] second_point_bounds by (simp add: f64_mul_def)
  then show "fraction_of second_point 2 = 1" using within [of 1 second_point 2] by (simp add: fraction_of_def n)
  have "0 < f64_mul first_point 1 \<and> f64_mul first_point 1 < 1"
    using f64_round_within [of "30 / 100" "first_point" "40 / 100"] first_point_bounds by (simp add: f64_mul_def)
  then show "fraction_of first_point 1 = 0" using within [of 0 first_point 1] n(2) by (simp add: fraction_of_def)
  have "0 < f64_mul second_point 1 \<and> f64_mul second_point 1 < 1"
    using f64_round_within [of "50 / 100" "second_point" "70 / 100"] second_point_bounds by (simp add: f64_mul_def)
  then show "fraction_of second_point 1 = 0" using within [of 0 second_point 1] n(2) by (simp add: fraction_of_def)
qed

text \<open>Three pools between two tokens: pool A pays 10 for 2 units and nothing for 1, pools B and C pay 9
  for any amount.\<close>

definition sample_path :: "string \<Rightarrow> route_path" where
  "sample_path pool = \<lparr>rp_tokens = [Native, Contract ''USDC''], rp_sources = [''soroswap''],
     rp_pool_addresses = [pool], rp_hops = 1\<rparr>"

definition sample_quote :: "string \<Rightarrow> nat \<Rightarrow> nat \<Rightarrow> quote" where
  "sample_quote pool amount out = \<lparr>qt_source = ''soroswap'', qt_pool_address = pool, qt_token_in = Native,
     qt_token_out = Contract ''USDC'', qt_amount_in = amount, qt_amount_out = out, qt_price_impact_bps = 100,
     qt_fee_bps = 30, qt_path = [], qt_timestamp_ms = 0\<rparr>"

definition sample_fn :: quote_fn where
  "sample_fn path amount =
     (if rp_pool_addresses path = [''A''] then Some (if amount \<ge> 2 then Some (sample_quote ''A'' amount 10) else None)
      else Some (Some (sample_quote (hd (rp_pool_addresses path)) amount 9)))"

definition sample_quoted :: "string \<Rightarrow> nat \<Rightarrow> quoted_path" where
  "sample_quoted pool out = \<lparr>qp_path = sample_path pool, qp_quote = sample_quote pool 2 out\<rparr>"

lemma sample_out:
  "quote_out sample_fn (sample_path ''A'') amount = Some (if amount \<ge> 2 then 10 else 0)"
  "quote_out sample_fn (sample_path ''B'') amount = Some 9"
  "quote_out sample_fn (sample_path ''C'') amount = Some 9"
  by (simp_all add: quote_out_def sample_fn_def sample_path_def sample_quote_def)

lemma small_sums:
  "u128_checked_add 10 9 = Some 19" "u128_checked_add 9 9 = Some 18" "u128_checked_add 0 9 = Some 9"
  "u128_checked_add 9 0 = Some 9" "u128_checked_add 0 18 = Some 18" "u128_checked_add 10 0 = Some 10"
  "u128_checked_add 18 0 = Some 18" "u128_checked_add 0 0 = Some 0"
  by (simp_all add: u128_checked_add_def u128_max_def)

lemma f64_small: "f64_of_nat 0 = 0" "f64_of_nat 9 = 9" "f64_of_nat 10 = 10" "f64_of_nat 18 = 18" "f64_of_nat 19 = 19"
  using f64_of_nat_exact [of 0] f64_of_nat_exact [of 9] f64_of_nat_exact [of 10] f64_of_nat_exact [of 18]
    f64_of_nat_exact [of 19] by simp_all

lemma sample_two_paths:
  "optimize_two_paths one_round sample_fn (sample_path ''B'') (sample_path ''C'') 2 = Some [(1, 9), (1, 9)]"
  "optimize_two_paths one_round sample_fn (sample_path ''B'') (sample_path ''C'') 1 = Some [(0, 0), (1, 9)]"
  by (simp_all add: optimize_two_paths_def brent_one_round quote_positive_def sample_out one_round_fractions
      small_sums f64_small Let_def del: One_nat_def)

lemma sample_three_paths:
  "optimize_n_paths one_round sample_fn [sample_quoted ''A'' 10, sample_quoted ''B'' 9, sample_quoted ''C'' 9] 2
    = Some [(0, 0), (1, 9), (1, 9)]"
  by (simp add: brent_one_round sample_quoted_def sample_out one_round_fractions sample_two_paths
      sample_two_paths(2) [unfolded One_nat_def]
      total_out_for_paths_def small_sums f64_small Let_def del: One_nat_def)

lemma sample_leg_dust: "leg_rate_matches_full_quote (sample_quoted pool 9) 1 9 500 = False"
proof -
  have n: "f64_of_nat 2 = 2" "f64_of_nat 500 = 500" "f64_of_nat 1 = 1"
    using f64_of_nat_exact [of 2] f64_of_nat_exact [of 500] f64_of_nat_exact [of 1] by simp_all
  have full: "4 \<le> f64_div 9 2" "f64_div 9 2 \<le> 46 / 10"
    using f64_round_within [of "9 / 2" "9 / 2" "9 / 2"] by (simp_all add: f64_div_def)
  have leg: "8 \<le> f64_div 9 1" using f64_round_within [of 9 9 9] by (simp add: f64_div_def)
  have dev: "4 / 100 \<le> f64_div 500 10000" "f64_div 500 10000 \<le> 6 / 100"
    using f64_round_within [of "5 / 100" "5 / 100" "5 / 100"] by (simp_all add: f64_div_def)
  have mul: "1 \<le> f64_add 1 (f64_div 500 10000)" "f64_add 1 (f64_div 500 10000) \<le> 11 / 10"
    using f64_round_within [of "104 / 100" "1 + f64_div 500 10000" "106 / 100"] dev by (simp_all add: f64_add_def)
  have "4 * 1 \<le> f64_div 9 2 * f64_add 1 (f64_div 500 10000)"
    "f64_div 9 2 * f64_add 1 (f64_div 500 10000) \<le> 46 / 10 * (11 / 10)"
    using full mul by (intro mult_mono; simp)+
  then have "f64_mul (f64_div 9 2) (f64_add 1 (f64_div 500 10000)) \<le> 7"
    using f64_round_within [of 4 "f64_div 9 2 * f64_add 1 (f64_div 500 10000)" 6] by (simp add: f64_mul_def)
  then have "\<not> f64_div 9 1 \<le> f64_mul (f64_div 9 2) (f64_add 1 (f64_div 500 10000))" using leg by linarith
  then show ?thesis
    by (simp add: leg_rate_matches_full_quote_def sample_quoted_def sample_quote_def n f64_small Let_def
        del: One_nat_def)
qed

definition three_quoted :: "quoted_path list" where
  "three_quoted = [sample_quoted ''A'' 10, sample_quoted ''B'' 9, sample_quoted ''C'' 9]"

lemma three_ranked: "sort_by_output three_quoted = three_quoted"
  by (simp add: sort_by_output_def three_quoted_def sample_quoted_def sample_quote_def)

lemma three_kept:
  "kept_positions one_round three_quoted [0, 1, 2] 2 18 0 [(0, 0), (1, 9), (1, 9)] = Some []"
proof -
  have "sc_max_leg_rate_deviation_bps one_round = 500" by (simp add: one_round_def split_config_default_def)
  then show ?thesis
    by (simp add: three_quoted_def nth_opt_def u128_checked_mul_def u128_max_def Let_def
        sample_leg_dust sample_leg_dust [unfolded One_nat_def] del: One_nat_def)
qed

lemma three_filtered:
  "filter_dust_split_legs one_round sample_fn three_quoted [(0, 0), (1, 9), (1, 9)] 2
    = Some ([0, 1, 2], [(0, 0), (1, 9), (1, 9)], 0)"
proof -
  have c: "sc_min_split_fraction_bps one_round = 5" "length three_quoted = 3"
    by (simp_all add: one_round_def split_config_default_def three_quoted_def)
  have upt: "[0..<3] = [0, 1, 2]" by (simp add: upt_rec)
  have sum: "u128_sum_checked (map snd [(0, 0), (1, 9), (1, 9)]) = Some 18"
    by (simp add: small_sums)
  show ?thesis
    unfolding filter_dust_split_legs_def c upt
      dust_loop.simps [of one_round sample_fn three_quoted 2 "[0, 1, 2]" "[(0, 0), (1, 9), (1, 9)]" 0]
      sum bind.simps three_kept
    by simp
qed

lemma three_competitive:
  "competitive_enough one_round (qt_amount_out (qp_quote (hd three_quoted)))
     (rd_second_best_out (base_debug one_round three_quoted three_quoted)) = Some False"
  by (simp add: competitive_enough_def gap_bps_def base_debug_def three_quoted_def sample_quoted_def sample_quote_def
      nth_opt_def u128_checked_mul_def u128_max_def as_u32_def one_round_def split_config_default_def)

lemma three_optimized:
  "optimize one_round sample_fn 0 three_quoted 2 slippage None
    = optimize_split one_round sample_fn 0 three_quoted 2 slippage three_quoted 5"
proof -
  show ?thesis
    by (simp add: optimize_def three_ranked three_competitive Let_def)
      (simp add: three_quoted_def sample_quoted_def sample_quote_def one_round_def split_config_default_def)
qed

definition shifted_orders :: "sub_order list" where
  "shifted_orders = map (\<lambda>pool. \<lparr>so_path = sample_path pool, so_amount_in = 1, so_expected_amount_out = 9,
     so_fraction = f64_div 1 2\<rparr>) [''A'', ''B'']"

lemma three_split:
  "\<exists>route. (\<forall>slippage. optimize one_round sample_fn 0 three_quoted 2 slippage None
      = Option.bind (apply_split_minimum_slippage 18 slippage) (\<lambda>m. Some (route m)))
    \<and> (\<forall>m. rt_sub_orders (route m) = shifted_orders \<and> rt_is_split (route m) \<and> rt_total_expected_out (route m) = 18)"
proof -
  have t: "take 5 three_quoted = three_quoted" "map ((!) three_quoted) [0, 1, 2] = three_quoted"
    "qt_amount_out (qp_quote (hd three_quoted)) = 10" "sc_min_split_improvement_bps one_round = 5"
    by (simp_all add: three_quoted_def sample_quoted_def sample_quote_def one_round_def split_config_default_def)
  have n: "optimize_n_paths one_round sample_fn three_quoted 2 = Some [(0, 0), (1, 9), (1, 9)]"
    unfolding three_quoted_def by (rule sample_three_paths)
  have sum: "u128_sum_checked (map snd [(0, 0), (1, 9), (1, 9)]) = Some 18" by (simp add: small_sums)
  obtain planned where p: "build_planned_split_debug three_quoted [(0, 0), (1, 9), (1, 9)] 2 = Some planned"
    by (simp add: build_planned_split_debug_def three_quoted_def nth_opt_def u128_checked_mul_def u128_max_def)
  have "f64_of_nat 1 = 1" "f64_of_nat 2 = 2" using f64_of_nat_exact [of 1] f64_of_nat_exact [of 2] by simp_all
  then have o: "build_sub_orders three_quoted [(0, 0), (1, 9), (1, 9)] 2 = Some shifted_orders"
    by (simp add: build_sub_orders_def three_quoted_def nth_opt_def sample_quoted_def shifted_orders_def)
  have gain: "u128_checked_mul (18 - 10) 10000 = Some 80000" by (simp add: u128_checked_mul_def u128_max_def)
  have le: "\<not> (18::nat) \<le> 10" "\<not> (10::nat) = 0" "\<not> as_u32 (80000 div 10) < 5" by (simp_all add: as_u32_def)
  show ?thesis
    unfolding three_optimized optimize_split_def t n bind.simps three_filtered prod.case p sum Let_def o gain
      if_not_P [OF le(1)] if_not_P [OF le(2)] if_not_P [OF le(3)]
    by (rule exI, rule conjI, rule allI, rule refl) simp
qed

text \<open>C34: The legs behind an empty leg are shifted: the sub-orders are numbered after the empty legs
  are removed, and the number selects the path. Here the best split of 2 units over pools A, B and C
  is one unit through B and one through C; the route returned sends one unit through A, which pays
  nothing for it, and one through B, and still promises 18.\<close>

theorem sub_orders_shifted:
  "optimize_n_paths one_round sample_fn three_quoted 2 = Some [(0, 0), (1, 9), (1, 9)]
   \<and> (\<exists>r. optimize one_round sample_fn 0 three_quoted 2 50 None = Some r \<and> rt_is_split r
      \<and> rt_total_expected_out r = 18
      \<and> map (\<lambda>so. (so_path so, so_amount_in so, so_expected_amount_out so)) (rt_sub_orders r)
        = [(sample_path ''A'', 1, 9), (sample_path ''B'', 1, 9)])
   \<and> quote_out sample_fn (sample_path ''A'') 1 = Some 0"
proof -
  have n: "optimize_n_paths one_round sample_fn three_quoted 2 = Some [(0, 0), (1, 9), (1, 9)]"
    unfolding three_quoted_def by (rule sample_three_paths)
  have "apply_split_minimum_slippage 18 50 = Some 17"
    by (simp add: apply_split_minimum_slippage_def SPLIT_MIN_OUTPUT_EXTRA_BPS_def u32_saturating_add_def u32_max_def
        apply_slippage_def u128_checked_sub_def u128_checked_mul_def u128_max_def)
  then show ?thesis using three_split n sample_out(1) [of 1] by (auto simp: shifted_orders_def)
qed

text \<open>A slippage above 98.5% panics on a split: the extra 150 basis points are added before the
  subtraction from 10000, so a request the API accepts (anything below 100%) makes \<open>optimize\<close> panic
  exactly when the split would win, while the same request without splits returns a route.\<close>

lemma split_slippage_panics:
  "optimize one_round sample_fn 0 three_quoted 2 9900 None = None
   \<and> (\<exists>r. optimize one_round sample_fn 0 three_quoted 2 9900 (Some 1) = Some r \<and> \<not> rt_is_split r)
   \<and> (\<exists>r. optimize one_round sample_fn 0 three_quoted 2 9850 None = Some r \<and> rt_is_split r)"
proof -
  have "apply_split_minimum_slippage 18 9900 = None" "apply_split_minimum_slippage 18 9850 = Some 0"
    by (simp_all add: apply_split_minimum_slippage_def SPLIT_MIN_OUTPUT_EXTRA_BPS_def u32_saturating_add_def u32_max_def
        apply_slippage_def u128_checked_sub_def u128_checked_mul_def u128_max_def)
  moreover have "\<exists>r. optimize one_round sample_fn 0 three_quoted 2 9900 (Some 1) = Some r \<and> \<not> rt_is_split r"
  proof -
    have best: "qt_amount_out (qp_quote (hd three_quoted)) = 10" "three_quoted \<noteq> []"
      by (simp_all add: three_quoted_def sample_quoted_def sample_quote_def)
    then show ?thesis
      by (simp add: optimize_def three_ranked three_competitive [unfolded best(1)] Let_def single_route_def apply_slippage_def u128_checked_sub_def
          u128_checked_mul_def u128_max_def)
  qed
  ultimately show ?thesis using three_split by auto
qed

section \<open>Witnesses\<close>

lemma three_route:
  "\<exists>r. optimize one_round sample_fn 0 three_quoted 2 50 None = Some r \<and> rt_is_split r \<and> rt_total_expected_out r = 18"
proof -
  have "apply_split_minimum_slippage 18 50 = Some 17"
    by (simp add: apply_split_minimum_slippage_def SPLIT_MIN_OUTPUT_EXTRA_BPS_def u32_saturating_add_def u32_max_def
        apply_slippage_def u128_checked_sub_def u128_checked_mul_def u128_max_def)
  then show ?thesis using three_split by auto
qed

theorem optimize_never_worse_witness:
  "\<exists>r. optimize one_round sample_fn 0 three_quoted 2 50 None = Some r \<and> 10 < rt_total_expected_out r
     \<and> rt_minimum_out r = 17"
proof -
  obtain r where r: "optimize one_round sample_fn 0 three_quoted 2 50 None = Some r" "rt_is_split r"
    "rt_total_expected_out r = 18" using three_route by blast
  have "sample_quoted ''A'' 10 \<in> set three_quoted" by (simp add: three_quoted_def)
  from optimize_never_worse [OF r(1) this] r show ?thesis
    by (simp add: sample_quoted_def sample_quote_def u32_saturating_add_def u32_max_def)
qed

theorem split_conserves_input_witness:
  "\<exists>r. optimize one_round sample_fn 0 three_quoted 2 50 None = Some r \<and> rt_is_split r
     \<and> sum_list (map so_amount_in (rt_sub_orders r)) = 2"
proof -
  obtain r where r: "optimize one_round sample_fn 0 three_quoted 2 50 None = Some r" "rt_is_split r"
    using three_route by blast
  have "three_quoted \<noteq> []" by (simp add: three_quoted_def)
  from split_conserves_input [OF r(1) this] r show ?thesis by simp
qed

theorem optimize_never_panics_witness:
  "\<exists>r. optimize split_config_default sample_fn 0 three_quoted 2 50 None = Some r"
proof (rule optimize_never_panics)
  show "modest_quotes sample_fn"
    by (auto simp: modest_quotes_def sample_fn_def sample_quote_def)
qed (simp_all add: three_quoted_def sample_quoted_def sample_quote_def)

text \<open>Two equal pools that pay 8 for one unit and 10 for more.\<close>

definition flat_fn :: quote_fn where
  "flat_fn path amount = Some (if amount = 0 then None
     else Some (sample_quote (hd (rp_pool_addresses path)) amount (if amount = 1 then 8 else 10)))"

definition two_quoted :: "quoted_path list" where
  "two_quoted = [sample_quoted ''A'' 10, sample_quoted ''B'' 10]"

lemma two_route:
  "\<exists>r. optimize one_round flat_fn 0 two_quoted 2 50 (Some 2) = Some r \<and> rt_is_split r"
proof -
  have q: "quote_positive flat_fn (sample_path pool) amount
      = Some (if amount = 0 then 0 else if amount = 1 then 8 else 10)" for pool amount
    by (simp add: quote_positive_def quote_out_def flat_fn_def sample_quote_def)
  have f: "f64_of_nat 10 = 10" "f64_of_nat 16 = 16" using f64_of_nat_exact [of 10] f64_of_nat_exact [of 16] by simp_all
  have add: "u128_checked_add 0 10 = Some 10" "u128_checked_add 8 8 = Some 16" "u128_checked_add 8 0 = Some 8"
    by (simp_all add: u128_checked_add_def u128_max_def)
  have n: "optimize_n_paths one_round flat_fn two_quoted 2 = Some [(1, 8), (1, 8)]"
    by (simp add: two_quoted_def sample_quoted_def optimize_two_paths_def brent_one_round q one_round_fractions f add Let_def
        del: One_nat_def)
  have c: "sc_min_split_fraction_bps one_round = 5" "length two_quoted = 2"
    "sc_min_split_amount_in_bps one_round = 10" "sc_min_split_improvement_bps one_round = 5"
    "sc_split_threshold_bps one_round = 5" "sc_split_competitive_delta_bps one_round = 50"
    by (simp_all add: one_round_def split_config_default_def two_quoted_def)
  have sum: "u128_sum_checked (map snd [(1, 8), (1, 8)]) = Some 16" by (simp add: add)
  have upt: "[0..<2] = [0, 1]" by (simp add: upt_rec)
  have same: "leg_rate_matches_full_quote (sample_quoted ''A'' 10) 1 8 d = leg_rate_matches_full_quote (sample_quoted ''B'' 10) 1 8 d" for d
    by (simp add: leg_rate_matches_full_quote_def sample_quoted_def sample_quote_def)
  have bps: "split_amount_in_fraction_bps 1 2 = 5000" "as_u32 5000 = 5000"
    by (simp_all add: split_amount_in_fraction_bps_def as_u32_def u128_saturating_mul_def u128_max_def)
  have "kept_positions one_round two_quoted [0, 1] 2 16 0 [(1, 8), (1, 8)]
      = Some (if leg_rate_matches_full_quote (sample_quoted ''B'' 10) 1 8 (sc_max_leg_rate_deviation_bps one_round) then [0, 1] else [])"
    by (simp add: two_quoted_def nth_opt_def u128_checked_mul_def u128_max_def Let_def c same bps del: One_nat_def)
  then have filt: "filter_dust_split_legs one_round flat_fn two_quoted [(1, 8), (1, 8)] 2 = Some ([0, 1], [(1, 8), (1, 8)], 0)"
    unfolding filter_dust_split_legs_def c upt dust_loop.simps [of one_round flat_fn two_quoted 2 "[0, 1]" "[(1, 8), (1, 8)]" 0]
      sum bind.simps
    by simp
  have t: "take 2 two_quoted = two_quoted" "map ((!) two_quoted) [0, 1] = two_quoted"
    "qt_amount_out (qp_quote (hd two_quoted)) = 10" "two_quoted \<noteq> []" "sort_by_output two_quoted = two_quoted"
    "qt_price_impact_bps (qp_quote (hd two_quoted)) = 100"
    by (simp_all add: two_quoted_def sample_quoted_def sample_quote_def sort_by_output_def)
  obtain planned where p: "build_planned_split_debug two_quoted [(1, 8), (1, 8)] 2 = Some planned"
    by (simp add: build_planned_split_debug_def two_quoted_def nth_opt_def u128_checked_mul_def u128_max_def)
  obtain orders where o: "build_sub_orders two_quoted [(1, 8), (1, 8)] 2 = Some orders"
    by (simp add: build_sub_orders_def two_quoted_def nth_opt_def)
  have gain: "u128_checked_mul (16 - 10) 10000 = Some 60000" by (simp add: u128_checked_mul_def u128_max_def)
  have le: "\<not> (16::nat) \<le> 10" "\<not> (10::nat) = 0" "\<not> as_u32 (60000 div 10) < 5" by (simp_all add: as_u32_def)
  have slip: "apply_split_minimum_slippage 16 50 = Some 15"
    by (simp add: apply_split_minimum_slippage_def SPLIT_MIN_OUTPUT_EXTRA_BPS_def u32_saturating_add_def u32_max_def
        apply_slippage_def u128_checked_sub_def u128_checked_mul_def u128_max_def)
  have "\<exists>r. optimize_split one_round flat_fn 0 two_quoted 2 50 two_quoted 2 = Some r \<and> rt_is_split r"
    unfolding optimize_split_def t n bind.simps filt prod.case p sum Let_def o gain c slip
      if_not_P [OF le(1)] if_not_P [OF le(2)] if_not_P [OF le(3)] by simp
  moreover have "\<exists>b. competitive_enough one_round 10 (rd_second_best_out (base_debug one_round two_quoted two_quoted)) = Some b"
    by (simp add: competitive_enough_def gap_bps_def base_debug_def two_quoted_def sample_quoted_def sample_quote_def
        nth_opt_def u128_checked_mul_def u128_max_def)
  ultimately show ?thesis by (auto simp: optimize_def t c Let_def)
qed

theorem two_path_route_truthful_witness:
  "\<exists>r. optimize one_round flat_fn 0 two_quoted 2 50 (Some 2) = Some r \<and> rt_is_split r
     \<and> sum_list (map so_expected_amount_out (rt_sub_orders r)) = rt_total_expected_out r"
proof -
  obtain r where r: "optimize one_round flat_fn 0 two_quoted 2 50 (Some 2) = Some r" "rt_is_split r"
    using two_route by blast
  have "\<forall>p \<in> set two_quoted. quote_out flat_fn (qp_path p) 2 = Some (qt_amount_out (qp_quote p))"
    by (simp add: two_quoted_def sample_quoted_def sample_quote_def quote_out_def flat_fn_def)
  from two_path_route_truthful [OF r(1) _ _ _ this] r show ?thesis by (simp add: two_quoted_def)
qed

end
