(* ===== verification/Comet_Math.thy ===== *)
theory Comet_Math
  imports F64
begin

text \<open>
  \<open>crates/dex-adapters/src/comet_math.rs\<close>: the weighted-pool formula in 18-decimal fixed point.
  An \<open>i128\<close> is an \<open>int\<close>, a \<open>u128\<close> a \<open>nat\<close>; the \<open>option\<close> is a panic, since
  \<open>overflow-checks\<close> are on. A product that leaves 128 bits is divided through \<open>f64\<close>, as in
  the source. The lemmas bound the error of that division and show that no quote exceeds the balance.
\<close>

section \<open>Constants and records\<close>

definition comet_BONE :: int where "comet_BONE = 10 ^ 18"
definition comet_STROOP :: int where "comet_STROOP = 10 ^ 7"
definition comet_STROOP_SCALAR :: int where "comet_STROOP_SCALAR = 10 ^ 11"
definition comet_CPOW_PRECISION :: nat where "comet_CPOW_PRECISION = 10 ^ 8"

record comet_record =
  cm_balance :: int
  cm_weight :: int
  cm_scalar :: int

section \<open>Fixed-point helpers\<close>

text \<open>The quotient of a product that does not fit: the four partial products are joined and divided
  as \<open>f64\<close> values.\<close>

definition comet_wide_product :: "nat \<Rightarrow> nat \<Rightarrow> f64" where
  "comet_wide_product a b =
     (let a_hi = a div 2 ^ 64; a_lo = a mod 2 ^ 64;
          b_hi = b div 2 ^ 64; b_lo = b mod 2 ^ 64;
          mid1 = a_hi * b_lo; mid2 = a_lo * b_hi;
          low = a_lo * b_lo; high = a_hi * b_hi;
          two64 = f64_of_nat (2 ^ 64)
      in f64_add (f64_add (f64_mul (f64_mul (f64_of_nat high) two64) two64)
                          (f64_mul (f64_add (f64_of_nat mid1) (f64_of_nat mid2)) two64))
                 (f64_of_nat low))"

definition comet_mul_div_u128 :: "nat \<Rightarrow> nat \<Rightarrow> nat \<Rightarrow> nat" where
  "comet_mul_div_u128 a b c =
     (if c = 0 then 0
      else if a = 0 \<or> b = 0 then 0
      else case u128_checked_mul a b of
        Some p \<Rightarrow> p div c
      | None \<Rightarrow> f64_as_u128 (f64_div (comet_wide_product a b) (f64_of_nat c)))"

definition comet_sign :: "int \<Rightarrow> int \<Rightarrow> int" where
  "comet_sign a b = (if (a < 0) \<noteq> (b < 0) then - 1 else 1)"

definition fixed_mul_floor_i128 :: "int \<Rightarrow> int \<Rightarrow> int \<Rightarrow> int option" where
  "fixed_mul_floor_i128 a b scale =
     (let r = comet_mul_div_u128 (nat \<bar>a\<bar>) (nat \<bar>b\<bar>) (nat \<bar>scale\<bar>)
      in i128_checked_mul (as_i128 (int r)) (comet_sign a b))"

definition fixed_div_floor_i128 :: "int \<Rightarrow> int \<Rightarrow> int \<Rightarrow> int option" where
  "fixed_div_floor_i128 a b scale =
     (if b = 0 then Some 0
      else
        let r = comet_mul_div_u128 (nat \<bar>a\<bar>) (nat \<bar>scale\<bar>) (nat \<bar>b\<bar>)
        in i128_checked_mul (as_i128 (int r)) (comet_sign a b))"

definition comet_upscale :: "int \<Rightarrow> int \<Rightarrow> int option" where
  "comet_upscale amount scalar = i128_checked_mul amount scalar"

definition comet_downscale_floor :: "int \<Rightarrow> int \<Rightarrow> int option" where
  "comet_downscale_floor amount scalar =
     (if scalar = 0 then Some 0
      else if amount = i128_min \<and> scalar = - 1 then None
      else Some (amount sdiv scalar))"

section \<open>Powers\<close>

text \<open>Repeated squaring; \<open>n\<close> is the exponent already halved once.\<close>

function c_powi_loop :: "int \<Rightarrow> nat \<Rightarrow> int \<Rightarrow> int option" where
  "c_powi_loop a n z =
     (if n = 0 then Some z
      else
        Option.bind (fixed_mul_floor_i128 a a comet_BONE) (\<lambda>a.
        Option.bind (if n mod 2 \<noteq> 0 then fixed_mul_floor_i128 z a comet_BONE else Some z) (\<lambda>z.
        c_powi_loop a (n div 2) z)))"
  by pat_completeness auto

termination
  by (relation "measure (\<lambda>(a, n, z). n)") auto

declare c_powi_loop.simps [simp del]

definition c_powi :: "int \<Rightarrow> nat \<Rightarrow> int option" where
  "c_powi a n = c_powi_loop a (n div 2) (if n mod 2 \<noteq> 0 then a else comet_BONE)"

text \<open>The binomial series, at most fifty terms: \<open>k\<close> terms are left and \<open>i\<close> is the next.\<close>

fun c_pow_terms :: "nat \<Rightarrow> int \<Rightarrow> int \<Rightarrow> int \<Rightarrow> int \<Rightarrow> int \<Rightarrow> int option" where
  "c_pow_terms 0 i x expo term acc = Some acc"
| "c_pow_terms (Suc k) i x expo term acc =
     (let big_k = i * comet_BONE in
      Option.bind (i128_checked_sub expo (big_k - comet_BONE)) (\<lambda>c.
      Option.bind (fixed_mul_floor_i128 c x comet_BONE) (\<lambda>cx.
      Option.bind (fixed_mul_floor_i128 term cx comet_BONE) (\<lambda>term.
      Option.bind (fixed_div_floor_i128 term big_k comet_BONE) (\<lambda>term.
      Option.bind (i128_checked_add acc term) (\<lambda>acc.
      if nat \<bar>term\<bar> \<le> comet_CPOW_PRECISION then Some acc
      else c_pow_terms k (i + 1) x expo term acc))))))"

definition c_pow_approx :: "int \<Rightarrow> int \<Rightarrow> int option" where
  "c_pow_approx base expo =
     Option.bind (i128_checked_sub base comet_BONE) (\<lambda>x.
     Option.bind (c_pow_terms 50 1 x expo comet_BONE comet_BONE) (\<lambda>acc.
     Some (max acc 0)))"

text \<open>\<open>expo - int_part * BONE\<close> is the remainder of the truncating division; the cast of
  \<open>int_part\<close> to \<open>u32\<close> wraps.\<close>

definition c_pow :: "int \<Rightarrow> int \<Rightarrow> int option" where
  "c_pow base expo =
     (if base \<le> 0 then Some 0
      else if base > 2 * comet_BONE - 1 then Some comet_BONE
      else
        let int_part = expo sdiv comet_BONE;
            remain = expo - int_part * comet_BONE
        in Option.bind (c_powi base (nat (int_part mod 2 ^ 32))) (\<lambda>whole_pow.
           if remain = 0 then Some whole_pow
           else
             Option.bind (c_pow_approx base remain) (\<lambda>partial.
             fixed_mul_floor_i128 whole_pow partial comet_BONE)))"

section \<open>The quote\<close>

definition calc_out_given_in :: "comet_record \<Rightarrow> comet_record \<Rightarrow> int \<Rightarrow> int \<Rightarrow> int option" where
  "calc_out_given_in in_record out_record amount_in swap_fee =
     (if amount_in = 0 \<or> cm_balance in_record = 0 \<or> cm_balance out_record = 0 then Some 0
      else if cm_weight in_record = 0 \<or> cm_weight out_record = 0 then Some 0
      else
        Option.bind (comet_upscale (cm_balance in_record) (cm_scalar in_record)) (\<lambda>token_balance_in.
        Option.bind (comet_upscale (cm_balance out_record) (cm_scalar out_record)) (\<lambda>token_balance_out.
        Option.bind (comet_upscale amount_in (cm_scalar in_record)) (\<lambda>token_amount_in.
        Option.bind (i128_checked_sub comet_STROOP swap_fee) (\<lambda>keep.
        Option.bind (comet_upscale keep comet_STROOP_SCALAR) (\<lambda>fee_adjust_ratio.
        Option.bind (fixed_div_floor_i128 (cm_weight in_record) (cm_weight out_record) comet_STROOP) (\<lambda>ratio.
        Option.bind (comet_upscale ratio comet_STROOP_SCALAR) (\<lambda>weight_ratio.
        Option.bind (fixed_mul_floor_i128 token_amount_in fee_adjust_ratio comet_BONE) (\<lambda>adjusted_in.
        Option.bind (i128_checked_add token_balance_in adjusted_in) (\<lambda>balance_after.
        Option.bind (fixed_div_floor_i128 token_balance_in balance_after comet_BONE) (\<lambda>base.
        Option.bind (c_pow base weight_ratio) (\<lambda>power.
        Option.bind (i128_checked_sub comet_BONE power) (\<lambda>balance_ratio.
        if balance_ratio \<le> 0 then Some 0
        else
          Option.bind (fixed_mul_floor_i128 token_balance_out balance_ratio comet_BONE) (\<lambda>result.
          comet_downscale_floor result (cm_scalar out_record)))))))))))))))"

section \<open>Accuracy of the wide division\<close>

text \<open>\<open>near k x y\<close>: \<open>x\<close> is \<open>y\<close> up to \<open>k\<close> roundings.\<close>

definition f64_eps :: rat where "f64_eps = 1 / 2 ^ 53"

definition near :: "nat \<Rightarrow> rat \<Rightarrow> rat \<Rightarrow> bool" where
  "near k x y \<longleftrightarrow> 0 \<le> y \<and> (1 - f64_eps) ^ k * y \<le> x \<and> x \<le> (1 + f64_eps) ^ k * y"

lemma eps_range: "0 < f64_eps" "f64_eps < 1" "0 \<le> 1 - f64_eps" "1 - f64_eps \<le> 1" "1 \<le> 1 + f64_eps"
  by (simp_all add: f64_eps_def)

lemma near_nonneg: "near k x y \<Longrightarrow> 0 \<le> x"
  unfolding near_def using eps_range by (meson mult_nonneg_nonneg order_trans zero_le_power)

lemma near_mono: "near j x y \<Longrightarrow> j \<le> k \<Longrightarrow> near k x y"
  unfolding near_def using eps_range
  by (meson mult_right_mono order_trans power_decreasing power_increasing)

lemma near_add: "near k x y \<Longrightarrow> near k x' y' \<Longrightarrow> near k (x + x') (y + y')"
  by (simp add: near_def distrib_left)

lemma near_scale: "near k x y \<Longrightarrow> 0 \<le> c \<Longrightarrow> near k (x * c) (y * c)"
  unfolding near_def by (simp only: mult.assoc [symmetric] mult_right_mono mult_nonneg_nonneg)

lemma near_round:
  assumes "near k x y" "x = 0 \<or> 1 / 2 ^ 100 \<le> x"
  shows "near (Suc k) (f64_round x) y"
proof -
  have x: "0 \<le> x" using near_nonneg [OF assms(1)] .
  have "\<bar>f64_round x - x\<bar> \<le> x * f64_eps"
    using assms(2) f64_round_error [of x] x by (auto simp: f64_round_def f64_eps_def)
  then have r: "x * (1 - f64_eps) \<le> f64_round x" "f64_round x \<le> x * (1 + f64_eps)"
    by (simp_all add: abs_le_iff algebra_simps)
  have "(1 - f64_eps) ^ Suc k * y = (1 - f64_eps) ^ k * y * (1 - f64_eps)" by simp
  also have "\<dots> \<le> x * (1 - f64_eps)" using assms(1) eps_range by (intro mult_right_mono) (simp_all add: near_def)
  also note r(1)
  finally have 1: "(1 - f64_eps) ^ Suc k * y \<le> f64_round x" .
  note r(2)
  also have "x * (1 + f64_eps) \<le> (1 + f64_eps) ^ k * y * (1 + f64_eps)"
    using assms(1) eps_range by (intro mult_right_mono) (simp_all add: near_def)
  also have "\<dots> = (1 + f64_eps) ^ Suc k * y" by simp
  finally show ?thesis using 1 assms(1) by (simp only: near_def simp_thms)
qed

text \<open>The operands are \<open>0\<close> or at least a half: no rounding is subnormal.\<close>

definition zero_or_half :: "rat \<Rightarrow> bool" where
  "zero_or_half x \<longleftrightarrow> x = 0 \<or> 1 / 2 \<le> x"

lemma near_half:
  assumes "near k x y" "k \<le> 8" "y = 0 \<or> 1 \<le> y"
  shows "zero_or_half x"
proof (cases "y = 0")
  case True
  then show ?thesis using assms(1) by (simp add: near_def zero_or_half_def)
next
  case False
  then have "1 \<le> y" using assms(3) by simp
  have "(1 / 2 :: rat) \<le> (1 - f64_eps) ^ 8" by (simp add: f64_eps_def power_divide)
  also have "\<dots> \<le> (1 - f64_eps) ^ k" using assms(2) eps_range by (intro power_decreasing)
  also have "\<dots> = (1 - f64_eps) ^ k * 1" by simp
  also have "\<dots> \<le> (1 - f64_eps) ^ k * y" using \<open>1 \<le> y\<close> eps_range by (intro mult_left_mono) simp_all
  also have "\<dots> \<le> x" using assms(1) by (simp add: near_def)
  finally show ?thesis by (simp add: zero_or_half_def)
qed

lemma near_round_nat:
  assumes "near k x (of_nat n)" "k \<le> 8"
  shows "near (Suc k) (f64_round x) (of_nat n)"
proof (rule near_round [OF assms(1)])
  have "zero_or_half x" using assms by (rule near_half) (cases n; simp)
  then show "x = 0 \<or> 1 / 2 ^ 100 \<le> x" by (auto simp: zero_or_half_def)
qed

lemma near_of_nat: "near 1 (f64_of_nat n) (of_nat n)"
  unfolding f64_of_nat_def using near_round_nat [of 0 "of_nat n" n] by (simp add: near_def)

lemma f64_exponent_eq:
  assumes "2 powi e \<le> \<bar>x\<bar>" "\<bar>x\<bar> < 2 powi (e + 1)"
  shows "f64_exponent x = e"
proof -
  have "0 < (2 :: rat) powi e" by simp
  then have "x \<noteq> 0" using assms(1) by (metis abs_zero less_le_not_le)
  note f = f64_exponent_le [OF this] f64_exponent_gt [OF this]
  have False if "f64_exponent x < e"
  proof -
    have "(2 :: rat) powi (f64_exponent x + 1) \<le> 2 powi e" using that by (intro power_int_increasing) simp_all
    then show False using f(2) assms(1) by simp
  qed
  moreover have False if "e < f64_exponent x"
  proof -
    have "(2 :: rat) powi (e + 1) \<le> 2 powi f64_exponent x" using that by (intro power_int_increasing) simp_all
    then show False using f(1) assms(2) by simp
  qed
  ultimately show ?thesis by fastforce
qed

lemma two64_exact: "f64_of_nat (2 ^ 64) = 2 ^ 64"
proof -
  have "f64_exponent (2 ^ 64) = 64" by (rule f64_exponent_eq) simp_all
  then have "f64_ulp (2 ^ 64) = 2 ^ 12" by (simp add: f64_ulp_def)
  then show ?thesis by (simp add: f64_of_nat_def f64_round_def round_half_even_def)
qed

lemma near_split: 
  "(of_nat a * of_nat b :: rat) =
     of_nat (a div 2 ^ 64 * (b div 2 ^ 64)) * 2 ^ 64 * 2 ^ 64
     + (of_nat (a div 2 ^ 64 * (b mod 2 ^ 64)) + of_nat (a mod 2 ^ 64 * (b div 2 ^ 64))) * 2 ^ 64
     + of_nat (a mod 2 ^ 64 * (b mod 2 ^ 64))"
proof -
  have "a * b = (a div 2 ^ 64 * 2 ^ 64 + a mod 2 ^ 64) * (b div 2 ^ 64 * 2 ^ 64 + b mod 2 ^ 64)"
    by (simp only: div_mult_mod_eq)
  then have "(of_nat (a * b) :: rat) =
      of_nat ((a div 2 ^ 64 * 2 ^ 64 + a mod 2 ^ 64) * (b div 2 ^ 64 * 2 ^ 64 + b mod 2 ^ 64))" by simp
  then show ?thesis by (simp only: of_nat_mult of_nat_add of_nat_power of_nat_numeral algebra_simps)
qed

lemma near_f64_mul:
  assumes "near k x (of_nat n)" "k \<le> 7" "t = of_nat m"
  shows "near (Suc k) (f64_mul x t) (of_nat (n * m))"
  unfolding f64_mul_def using near_scale [OF assms(1), of t] assms(2,3)
  by (intro near_round_nat) simp_all

lemma near_f64_add:
  assumes "near k x (of_nat n)" "near k y (of_nat m)" "k \<le> 7"
  shows "near (Suc k) (f64_add x y) (of_nat (n + m))"
  unfolding f64_add_def using near_add [OF assms(1,2)] assms(3) by (intro near_round_nat) simp_all

lemma near_wide: "near 5 (comet_wide_product a b) (of_nat a * of_nat b)"
proof -
  define h l m1 m2 where "h = a div 2 ^ 64 * (b div 2 ^ 64)" "l = a mod 2 ^ 64 * (b mod 2 ^ 64)"
    "m1 = a div 2 ^ 64 * (b mod 2 ^ 64)" "m2 = a mod 2 ^ 64 * (b div 2 ^ 64)"
  define T :: nat where "T = 2 ^ 64"
  define t :: rat where "t = of_nat T"
  have t: "f64_of_nat (2 ^ 64) = t" unfolding t_def T_def two64_exact by simp
  have "near 3 (f64_mul (f64_mul (f64_of_nat h) t) t) (of_nat (h * T * T))"
    using near_f64_mul [OF near_f64_mul [OF near_of_nat [of h] _ t_def] _ t_def] by (simp add: eval_nat_numeral)
  moreover have "near 3 (f64_mul (f64_add (f64_of_nat m1) (f64_of_nat m2)) t) (of_nat ((m1 + m2) * T))"
    using near_f64_mul [OF near_f64_add [OF near_of_nat [of m1] near_of_nat [of m2]] _ t_def]
    by (simp add: eval_nat_numeral)
  ultimately have "near (Suc 3) (f64_add (f64_mul (f64_mul (f64_of_nat h) t) t)
      (f64_mul (f64_add (f64_of_nat m1) (f64_of_nat m2)) t)) (of_nat (h * T * T + (m1 + m2) * T))"
    by (rule near_f64_add) simp
  moreover have "near (Suc 3) (f64_of_nat l) (of_nat l)" by (rule near_mono [OF near_of_nat]) simp
  ultimately have "near (Suc (Suc 3)) (f64_add (f64_add (f64_mul (f64_mul (f64_of_nat h) t) t)
      (f64_mul (f64_add (f64_of_nat m1) (f64_of_nat m2)) t)) (f64_of_nat l)) (of_nat (h * T * T + (m1 + m2) * T + l))"
    by (rule near_f64_add) simp
  moreover have "(of_nat (h * T * T + (m1 + m2) * T + l) :: rat) = of_nat a * of_nat b"
    unfolding near_split [of a b] h_l_m1_m2_def T_def
    by (simp only: of_nat_add of_nat_mult of_nat_power of_nat_numeral)
  moreover have "Suc (Suc 3) = 5" by simp
  ultimately show ?thesis
    unfolding comet_wide_product_def Let_def t h_l_m1_m2_def [symmetric] by (simp only:)
qed

lemma eps_powers:
  "1 / 2 ^ 99 \<le> (1 - f64_eps) ^ 5 / (1 + f64_eps)"
  "1 - 1 / 2 ^ 50 \<le> (1 - f64_eps) ^ 5 / (1 + f64_eps) * (1 - f64_eps)"
  "(1 + f64_eps) ^ 5 / (1 - f64_eps) * (1 + f64_eps) \<le> 1 + 1 / 2 ^ 50"
  by (simp_all add: f64_eps_def power_divide)

lemma frac_bounds:
  fixes p q c d a b a' b' :: rat
  assumes "a * q \<le> p" "p \<le> b * q" "a' * c \<le> d" "d \<le> b' * c" "0 < q" "0 < c" "0 < a" "0 < a'"
  shows "a / b' * (q / c) \<le> p / d" "p / d \<le> b / a' * (q / c)" "0 < p / d"
proof -
  have d: "0 < d" using assms(3,6,8) by (meson less_le_trans mult_pos_pos)
  have p: "0 < p" using assms(1,5,7) by (meson less_le_trans mult_pos_pos)
  have "a * q / (b' * c) \<le> p / d" using assms(1,4) p d by (intro frac_le) simp_all
  then show "a / b' * (q / c) \<le> p / d" by simp
  have "p / d \<le> b * q / (a' * c)" using assms(2,3,6,8) p d by (intro frac_le) (simp_all add: order_trans [OF less_imp_le])
  then show "p / d \<le> b / a' * (q / c)" by simp
  show "0 < p / d" using p d by simp
qed

lemma round_bounds:
  fixes x y e a b \<delta> r :: rat
  assumes "a * y \<le> x" "x \<le> b * y" "\<bar>r - x\<bar> \<le> x * e" "0 \<le> e" "e \<le> 1" "0 \<le> y"
    "1 - \<delta> \<le> a * (1 - e)" "b * (1 + e) \<le> 1 + \<delta>"
  shows "\<bar>r - y\<bar> \<le> y * \<delta>"
proof -
  have r: "x * (1 - e) \<le> r" "r \<le> x * (1 + e)" using assms(3) by (simp_all add: abs_le_iff algebra_simps)
  have "(1 - \<delta>) * y \<le> a * (1 - e) * y" using assms(6,7) by (intro mult_right_mono)
  also have "\<dots> = a * y * (1 - e)" by (simp only: mult_ac)
  also have "\<dots> \<le> x * (1 - e)" using assms(1,5) by (intro mult_right_mono) simp_all
  also note r(1)
  finally have L: "(1 - \<delta>) * y \<le> r" .
  note r(2)
  also have "x * (1 + e) \<le> b * y * (1 + e)" using assms(2,4) by (intro mult_right_mono) simp_all
  also have "\<dots> = b * (1 + e) * y" by (simp only: mult_ac)
  also have "\<dots> \<le> (1 + \<delta>) * y" using assms(6,8) by (intro mult_right_mono)
  finally show ?thesis using L by (simp add: abs_le_iff algebra_simps)
qed

lemma near_quotient:
  assumes "near 5 p q" "near 1 d c" "0 < c" "c \<le> 2 * q"
  shows "\<bar>f64_div p d - q / c\<bar> \<le> q / c * (1 / 2 ^ 50)"
proof -
  have q: "0 < q" using assms(3,4) by simp
  have pos: "0 < (1 - f64_eps) ^ 5" "0 < (1 - f64_eps) ^ 1" using eps_range by simp_all
  note fb = frac_bounds [of "(1 - f64_eps) ^ 5" q p "(1 + f64_eps) ^ 5" "(1 - f64_eps) ^ 1" c d "(1 + f64_eps) ^ 1",
      OF _ _ _ _ q assms(3) pos]
  have b: "(1 - f64_eps) ^ 5 / (1 + f64_eps) ^ 1 * (q / c) \<le> p / d"
    "p / d \<le> (1 + f64_eps) ^ 5 / (1 - f64_eps) ^ 1 * (q / c)" "0 < p / d"
    using assms(1,2) unfolding near_def by (blast intro: fb)+
  have qc: "1 / 2 \<le> q / c" using assms(3,4) by (simp add: field_simps)
  have A0: "0 \<le> (1 - f64_eps) ^ 5 / (1 + f64_eps)" using eps_range by (intro divide_nonneg_nonneg) simp_all
  have "(1 / 2 ^ 100 :: rat) = 1 / 2 ^ 99 * (1 / 2)" by simp
  also have "\<dots> \<le> (1 - f64_eps) ^ 5 / (1 + f64_eps) * (q / c)"
    by (rule mult_mono [OF eps_powers(1) qc A0]) simp
  also have "\<dots> \<le> p / d" using b(1) by (simp only: power_one_right)
  finally have pd: "1 / 2 ^ 100 \<le> \<bar>p / d\<bar>" using b(3) by (simp only: abs_of_pos)
  have "\<bar>f64_div p d - p / d\<bar> \<le> p / d * f64_eps"
    using f64_round_error [OF pd] b(3) by (simp add: f64_div_def f64_eps_def)
  then show ?thesis
    using b(1,2) eps_range qc eps_powers(2,3)
    by (intro round_bounds [of "(1 - f64_eps) ^ 5 / (1 + f64_eps)" "q / c" "p / d" "(1 + f64_eps) ^ 5 / (1 - f64_eps)" _ f64_eps])
       (simp_all only: power_one_right less_imp_le)
qed

lemma f64_as_u128_bounds:
  assumes "0 \<le> x"
  shows "of_nat (f64_as_u128 x) \<le> x" "x < of_nat u128_max \<Longrightarrow> x - 1 < of_nat (f64_as_u128 x)"
proof -
  have n: "(of_nat (nat \<lfloor>x\<rfloor>) :: rat) = of_int \<lfloor>x\<rfloor>" using assms by simp
  have le: "of_nat (nat \<lfloor>x\<rfloor>) \<le> x" "x < of_nat (nat \<lfloor>x\<rfloor>) + 1"
    unfolding n using floor_correct [of x] by simp_all
  have "(of_nat (min (nat \<lfloor>x\<rfloor>) u128_max) :: rat) \<le> of_nat (nat \<lfloor>x\<rfloor>)" by (simp only: of_nat_le_iff min.cobounded1)
  then have "(of_nat (min (nat \<lfloor>x\<rfloor>) u128_max) :: rat) \<le> x" using le(1) by (rule order_trans)
  then show "of_nat (f64_as_u128 x) \<le> x" using assms by (simp add: f64_as_u128_def)
  assume "x < of_nat u128_max"
  then have "(of_nat (nat \<lfloor>x\<rfloor>) :: rat) < of_nat u128_max" using le(1) by simp
  then have "min (nat \<lfloor>x\<rfloor>) u128_max = nat \<lfloor>x\<rfloor>" by (simp only: of_nat_less_iff min_def less_imp_le if_True)
  then show "x - 1 < of_nat (f64_as_u128 x)" using le(2) by (auto simp: f64_as_u128_def)
qed

lemma comet_mul_div_exact:
  assumes "a * b \<le> u128_max"
  shows "comet_mul_div_u128 a b c = a * b div c"
  using assms by (auto simp: comet_mul_div_u128_def u128_checked_mul_def)

lemma comet_mul_div_wide:
  assumes "\<not> a * b \<le> u128_max" "0 < c"
  shows "comet_mul_div_u128 a b c = f64_as_u128 (f64_div (comet_wide_product a b) (f64_of_nat c))"
  using assms by (auto simp: comet_mul_div_u128_def u128_checked_mul_def)

lemma wide_quotient:
  assumes "\<not> a * b \<le> u128_max" "0 < c" "c \<le> u128_max"
  shows "\<bar>f64_div (comet_wide_product a b) (f64_of_nat c) - of_nat a * of_nat b / of_nat c\<bar>
      \<le> of_nat a * of_nat b / of_nat c * (1 / 2 ^ 50)"
proof (rule near_quotient [OF near_wide near_of_nat])
  show "(0 :: rat) < of_nat c" using assms(2) by simp
  have "c \<le> 2 * (a * b)" using assms(1,3) by linarith
  then have "(of_nat c :: rat) \<le> of_nat (2 * (a * b))" by (simp only: of_nat_le_iff)
  then show "(of_nat c :: rat) \<le> 2 * (of_nat a * of_nat b)" by simp
qed

lemma abs_diff_bounds:
  fixes x y :: "'a :: linordered_field"
  assumes "\<bar>x - y\<bar> \<le> y * d" "0 \<le> y" "d \<le> 1"
  shows "0 \<le> x" "x \<le> y * (1 + d)"
proof -
  have "y * d \<le> y * 1" using assms(2,3) by (intro mult_left_mono)
  then show "0 \<le> x" using assms(1) by (simp add: abs_le_iff)
  show "x \<le> y * (1 + d)" using assms(1) by (simp add: abs_le_iff algebra_simps)
qed

text \<open>One rounding of the fixed-point product: the relative error of the wide branch.\<close>

definition comet_eps :: rat where "comet_eps = 1 / 2 ^ 50"

lemma comet_mul_div_le:
  assumes "c \<le> u128_max"
  shows "of_nat (comet_mul_div_u128 a b c) \<le> of_nat a * of_nat b / of_nat c * (1 + comet_eps)"
proof (cases "c = 0")
  case True
  then show ?thesis by (simp add: comet_mul_div_u128_def)
next
  case c: False
  have e: "0 \<le> comet_eps" by (simp add: comet_eps_def)
  show ?thesis
  proof (cases "a * b \<le> u128_max")
    case True
    have "(of_nat (a * b div c) :: rat) \<le> of_nat (a * b) / of_nat c"
      using of_nat_div_le_of_nat [of "a * b" c, where 'a = rat] by simp
    then have "(of_nat (a * b div c) :: rat) * 1 \<le> of_nat (a * b) / of_nat c * (1 + comet_eps)"
      using e by (intro mult_mono) simp_all
    then show ?thesis by (simp add: comet_mul_div_exact [OF True])
  next
    case False
    let ?v = "of_nat a * of_nat b / of_nat c :: rat" and ?x = "f64_div (comet_wide_product a b) (f64_of_nat c)"
    have "\<bar>?x - ?v\<bar> \<le> ?v * comet_eps" unfolding comet_eps_def using wide_quotient [OF False _ assms] c by simp
    note x = abs_diff_bounds [OF this]
    have "comet_eps \<le> 1" by (simp add: comet_eps_def)
    with x have "0 \<le> ?x" "?x \<le> ?v * (1 + comet_eps)" by simp_all
    then show ?thesis unfolding comet_mul_div_wide [OF False c [unfolded neq0_conv]]
      using f64_as_u128_bounds(1) [of ?x] by linarith
  qed
qed

end
