(* ===== verification/Comet_Bounds.thy ===== *)
theory Comet_Bounds
  imports Comet_Math
begin

text \<open>
  Bounds of every step of \<open>calc_out_given_in\<close>: each fixed-point operation multiplies the bound by
  at most \<open>1 + comet_eps\<close>, the repeated squaring and the series keep the number of such factors
  below \<open>2 ^ 35\<close>, and so no step leaves 128 bits.
\<close>

section \<open>One operation\<close>

abbreviation EE :: rat where "EE \<equiv> 1 + comet_eps"

lemma EE_ge_1: "1 \<le> EE" and EE_pos: "0 < EE"
  by (simp_all add: comet_eps_def)

lemma one_plus_power: "0 \<le> (e :: rat) \<Longrightarrow> (1 + e) ^ k * (1 - of_nat k * e) \<le> 1"
proof (induction k)
  case (Suc k)
  have "(1 + e) * (1 - of_nat (Suc k) * e) = 1 - of_nat k * e - (of_nat k + 1) * e * e"
    by (simp add: algebra_simps)
  also have "\<dots> \<le> 1 - of_nat k * e" using Suc.prems by simp
  finally have "(1 + e) ^ k * ((1 + e) * (1 - of_nat (Suc k) * e)) \<le> (1 + e) ^ k * (1 - of_nat k * e)"
    using Suc.prems by (intro mult_left_mono) simp_all
  also have "\<dots> \<le> 1" using Suc by simp
  finally show ?case by (simp only: power_Suc2 mult.assoc)
qed simp

lemma EE_power_le_2: 
  assumes "k \<le> 2 ^ 40"
  shows "EE ^ k \<le> 2"
proof -
  have "(of_nat k :: rat) \<le> of_nat (2 ^ 40)" using assms by (simp only: of_nat_le_iff)
  then have "of_nat k * comet_eps \<le> 2 ^ 40 * (1 / 2 ^ 50)"
    unfolding comet_eps_def by (intro mult_right_mono) simp_all
  also have "\<dots> \<le> 1 / 2" by simp
  finally have "(1 / 2 :: rat) \<le> 1 - of_nat k * comet_eps" by simp
  then have "EE ^ k * (1 / 2) \<le> EE ^ k * (1 - of_nat k * comet_eps)"
    using EE_ge_1 by (intro mult_left_mono) simp_all
  also have "\<dots> \<le> 1" by (rule one_plus_power) (simp add: comet_eps_def)
  finally show ?thesis by simp
qed

lemma signed_result:
  assumes "(of_nat r :: rat) \<le> v" "v \<le> 2 ^ 126" "sg = 1 \<or> sg = - 1"
  shows "i128_checked_mul (as_i128 (int r)) sg = Some (int r * sg)"
proof -
  have "(of_nat r :: rat) \<le> of_nat (2 ^ 126)" using assms(1,2) by simp
  then have "r \<le> 2 ^ 126" by (simp only: of_nat_le_iff)
  then have "int r \<le> 2 ^ 126" by (metis of_nat_le_iff of_nat_numeral of_nat_power)
  then have "in_i128 (int r)" "in_i128 (int r * sg)" using assms(3) by (auto simp: in_i128_def)
  then show ?thesis by (simp add: as_i128_id i128_checked_mul_def)
qed

lemma comet_sign_cases: "comet_sign a b = 1 \<or> comet_sign a b = - 1"
  by (simp add: comet_sign_def)

definition abs_rat :: "int \<Rightarrow> rat" where "abs_rat a = of_int \<bar>a\<bar>"

lemma abs_rat_nat: "(of_nat (nat \<bar>a\<bar>) :: rat) = abs_rat a"
  by (simp add: abs_rat_def)

lemma fixed_mul_ok:
  assumes "nat \<bar>s\<bar> \<le> u128_max" "abs_rat a * abs_rat b / abs_rat s * EE \<le> v" "v \<le> 2 ^ 126"
  obtains r where "fixed_mul_floor_i128 a b s = Some r" "abs_rat r \<le> v" "0 \<le> a \<Longrightarrow> 0 \<le> b \<Longrightarrow> 0 \<le> r"
proof -
  let ?r = "comet_mul_div_u128 (nat \<bar>a\<bar>) (nat \<bar>b\<bar>) (nat \<bar>s\<bar>)"
  have le: "(of_nat ?r :: rat) \<le> v"
    using comet_mul_div_le [OF assms(1), of "nat \<bar>a\<bar>" "nat \<bar>b\<bar>"] assms(2) unfolding abs_rat_nat by simp
  have "fixed_mul_floor_i128 a b s = Some (int ?r * comet_sign a b)"
    unfolding fixed_mul_floor_i128_def Let_def by (rule signed_result [OF le assms(3) comet_sign_cases])
  moreover have "abs_rat (int ?r * comet_sign a b) \<le> v"
    using le by (simp add: abs_rat_def comet_sign_def)
  moreover have "0 \<le> a \<Longrightarrow> 0 \<le> b \<Longrightarrow> 0 \<le> int ?r * comet_sign a b" by (simp add: comet_sign_def)
  ultimately show ?thesis using that by blast
qed

lemma fixed_div_ok:
  assumes "b \<noteq> 0" "nat \<bar>b\<bar> \<le> u128_max" "abs_rat a * abs_rat s / abs_rat b * EE \<le> v" "v \<le> 2 ^ 126"
  obtains r where "fixed_div_floor_i128 a b s = Some r" "abs_rat r \<le> v" "0 \<le> a \<Longrightarrow> 0 \<le> b \<Longrightarrow> 0 \<le> r"
proof -
  let ?r = "comet_mul_div_u128 (nat \<bar>a\<bar>) (nat \<bar>s\<bar>) (nat \<bar>b\<bar>)"
  have le: "(of_nat ?r :: rat) \<le> v"
    using comet_mul_div_le [OF assms(2), of "nat \<bar>a\<bar>" "nat \<bar>s\<bar>"] assms(3) unfolding abs_rat_nat by simp
  have "fixed_div_floor_i128 a b s = Some (int ?r * comet_sign a b)"
    unfolding fixed_div_floor_i128_def Let_def using assms(1) signed_result [OF le assms(4) comet_sign_cases] by simp
  moreover have "abs_rat (int ?r * comet_sign a b) \<le> v"
    using le by (simp add: abs_rat_def comet_sign_def)
  moreover have "0 \<le> a \<Longrightarrow> 0 \<le> b \<Longrightarrow> 0 \<le> int ?r * comet_sign a b" by (simp add: comet_sign_def)
  ultimately show ?thesis using that by blast
qed

section \<open>Powers\<close>

abbreviation BB :: rat where "BB \<equiv> 10 ^ 18"

lemma BONE_simps [simp]: "abs_rat comet_BONE = BB" "nat \<bar>comet_BONE\<bar> \<le> u128_max" "0 < comet_BONE"
  by (simp_all add: abs_rat_def comet_BONE_def u128_max_def)

lemma abs_rat_nonneg [simp]: "0 \<le> abs_rat a"
  by (simp add: abs_rat_def)

text \<open>The product of two values, each a bound times roundings, divided by \<open>BONE\<close>.\<close>

lemma mul_bone_ok:
  assumes "abs_rat a \<le> s * EE ^ p" "abs_rat b \<le> BB * EE ^ q" "p + q + 1 \<le> 2 ^ 40" "0 \<le> s" "s \<le> 2 ^ 125"
  obtains r where "fixed_mul_floor_i128 a b comet_BONE = Some r" "abs_rat r \<le> s * EE ^ (p + q + 1)"
    "0 \<le> a \<Longrightarrow> 0 \<le> b \<Longrightarrow> 0 \<le> r"
proof -
  have E: "0 \<le> EE ^ k" for k using EE_pos by simp
  have "abs_rat a * abs_rat b \<le> s * EE ^ p * (BB * EE ^ q)"
    using assms(1,2,4) E by (intro mult_mono) simp_all
  then have "abs_rat a * abs_rat b / BB * EE \<le> s * EE ^ p * (BB * EE ^ q) / BB * EE"
    using EE_pos by (intro mult_right_mono divide_right_mono) simp_all
  also have "\<dots> = s * EE ^ (p + q + 1)" by (simp add: power_add)
  finally have 1: "abs_rat a * abs_rat b / abs_rat comet_BONE * EE \<le> s * EE ^ (p + q + 1)" by simp
  have "s * EE ^ (p + q + 1) \<le> 2 ^ 125 * 2"
    using assms(4,5) by (intro mult_mono EE_power_le_2 [OF assms(3)] E) simp_all
  also have "\<dots> = 2 ^ 126" by simp
  finally show ?thesis using fixed_mul_ok [OF BONE_simps(2) 1] that by blast
qed

lemma c_powi_loop_ok:
  assumes "0 \<le> a" "abs_rat a \<le> BB * EE ^ p" "0 \<le> z" "abs_rat z \<le> BB * EE ^ q"
    "q + 2 * (p + 1) * n \<le> 2 ^ 40"
  shows "\<exists>r. c_powi_loop a n z = Some r \<and> 0 \<le> r \<and> abs_rat r \<le> BB * EE ^ (q + 2 * (p + 1) * n)"
  using assms
proof (induction a n z arbitrary: p q rule: c_powi_loop.induct)
  case (1 a n z)
  note prems = "1.prems"
  show ?case
  proof (cases "n = 0")
    case True
    then show ?thesis using prems by (subst c_powi_loop.simps) simp
  next
    case False
    have le: "2 * (p + 1) \<le> 2 * (p + 1) * n" using False by (cases n) simp_all
    have le': "q + (p + p + 2) \<le> 2 ^ 40" 
    proof -
      have "q + (p + p + 2) = q + 2 * (p + 1)" by simp
      also have "\<dots> \<le> q + 2 * (p + 1) * n" using le by (rule add_left_mono)
      also note prems(5)
      finally show ?thesis .
    qed 
    then have "p + p + 1 \<le> 2 ^ 40" by simp
    then obtain b where b: "fixed_mul_floor_i128 a a comet_BONE = Some b" "abs_rat b \<le> BB * EE ^ (p + p + 1)" "0 \<le> b"
      using mul_bone_ok [OF prems(2) prems(2)] prems(1) by auto
    define z' q' where "z' = (if n mod 2 \<noteq> 0 then fixed_mul_floor_i128 z b comet_BONE else Some z)"
      and "q' = (if n mod 2 \<noteq> 0 then q + (p + p + 1) + 1 else q)"
    have Q: "q' + 2 * (p + p + 1 + 1) * (n div 2) = q + 2 * (p + 1) * n"
    proof -
      define h where "h = n div 2"
      have "n mod 2 = 0 \<and> n = 2 * h \<or> n mod 2 = 1 \<and> n = 2 * h + 1" unfolding h_def by presburger
      then show ?thesis unfolding q'_def h_def [symmetric] by (elim disjE conjE) (simp_all add: algebra_simps)
    qed
    have "q + (p + p + 1) + 1 \<le> 2 ^ 40" using le' by simp
    then obtain y where y: "z' = Some y" "abs_rat y \<le> BB * EE ^ q'" "0 \<le> y"
      using mul_bone_ok [OF prems(4) b(2)] prems(3,4) b(3) unfolding z'_def q'_def by (cases "n mod 2 = 0") auto
    have "\<exists>r. c_powi_loop b (n div 2) y = Some r \<and> 0 \<le> r \<and> abs_rat r \<le> BB * EE ^ (q' + 2 * (p + p + 1 + 1) * (n div 2))"
      by (rule "1.IH" [OF False b(1) y(1) [unfolded z'_def] b(3,2) y(3,2)]) (use prems(5) in \<open>simp only: Q\<close>)
    moreover have "c_powi_loop a n z = c_powi_loop b (n div 2) y"
      using False b(1) y(1) [unfolded z'_def] by (subst c_powi_loop.simps) simp
    ultimately show ?thesis unfolding Q by simp
  qed
qed

lemma c_powi_ok:
  assumes "0 \<le> a" "abs_rat a \<le> BB * EE" "n < 2 ^ 32"
  shows "\<exists>r. c_powi a n = Some r \<and> 0 \<le> r \<and> abs_rat r \<le> BB * 2"
proof -
  have k: "1 + 2 * (1 + 1) * (n div 2) \<le> 2 ^ 40" using assms(3) by simp
  let ?z = "if n mod 2 \<noteq> 0 then a else comet_BONE"
  have z: "0 \<le> ?z" "abs_rat ?z \<le> BB * EE ^ 1"
    using assms(1,2) EE_ge_1 by (auto simp: comet_BONE_def abs_rat_def)
  have a: "abs_rat a \<le> BB * EE ^ 1" using assms(2) by simp
  obtain r where r: "c_powi_loop a (n div 2) ?z = Some r" "0 \<le> r" "abs_rat r \<le> BB * EE ^ (1 + 2 * (1 + 1) * (n div 2))"
    using c_powi_loop_ok [OF assms(1) a z k] by blast
  have "BB * EE ^ (1 + 2 * (1 + 1) * (n div 2)) \<le> BB * 2"
    by (intro mult_left_mono EE_power_le_2 k) simp
  then show ?thesis using r unfolding c_powi_def by (blast intro: order_trans)
qed

text \<open>A term of the series gains at most four roundings over the one before.\<close>

lemma c_pow_term:
  assumes "1 \<le> i" "i \<le> 50" "0 \<le> expo" "expo \<le> comet_BONE" "abs_rat x \<le> BB * EE"
    "abs_rat t \<le> BB * EE ^ p" "p + 4 \<le> 2 ^ 40"
  obtains c cx t1 t2 where "i128_checked_sub expo (i * comet_BONE - comet_BONE) = Some c"
    "fixed_mul_floor_i128 c x comet_BONE = Some cx" "fixed_mul_floor_i128 t cx comet_BONE = Some t1"
    "fixed_div_floor_i128 t1 (i * comet_BONE) comet_BONE = Some t2" "abs_rat t2 \<le> BB * EE ^ (p + 4)"
proof -
  define I where "I = (of_int i :: rat)"
  have I: "0 < I" "I \<le> 50" unfolding I_def using assms(1,2) by (auto simp del: of_int_0_less_iff)
  let ?c = "expo - (i * comet_BONE - comet_BONE)"
  have c: "\<bar>?c\<bar> \<le> i * comet_BONE" using assms(1,3,4) by (simp add: comet_BONE_def abs_le_iff)
  then have cr: "abs_rat ?c \<le> I * BB * EE ^ 0"
    unfolding abs_rat_def I_def comet_BONE_def by (simp flip: of_int_le_iff)
  have "i * comet_BONE \<le> 50 * comet_BONE" using assms(2) by (simp add: comet_BONE_def)
  then have "in_i128 ?c" using c by (auto simp: in_i128_def comet_BONE_def abs_le_iff)
  then have 1: "i128_checked_sub expo (i * comet_BONE - comet_BONE) = Some ?c" by (simp add: i128_checked_sub_def)
  have IB: "0 \<le> I * BB" "I * BB \<le> 2 ^ 125" using I by simp_all
  have x: "abs_rat x \<le> BB * EE ^ 1" using assms(5) by simp
  obtain cx where cx: "fixed_mul_floor_i128 ?c x comet_BONE = Some cx" "abs_rat cx \<le> I * BB * EE ^ (0 + 1 + 1)"
    using mul_bone_ok [OF cr x _ IB] by auto
  have cx': "abs_rat cx / I \<le> BB * EE ^ 2"
    using cx(2) I by (simp add: field_simps numeral_2_eq_2)
  have "abs_rat t * abs_rat cx \<le> BB * EE ^ p * (I * BB * EE ^ 2)"
    using assms(6) cx(2) EE_pos I by (intro mult_mono) (simp_all add: numeral_2_eq_2)
  then have "abs_rat t * abs_rat cx / BB * EE \<le> BB * EE ^ p * (I * BB * EE ^ 2) / BB * EE"
    using EE_pos by (intro mult_right_mono divide_right_mono) simp_all
  also have "\<dots> = I * BB * EE ^ (p + 3)" by (simp add: power_add eval_nat_numeral)
  finally have v1: "abs_rat t * abs_rat cx / abs_rat comet_BONE * EE \<le> I * BB * EE ^ (p + 3)" by simp
  have "I * BB * EE ^ (p + 3) \<le> 50 * BB * 2"
    using I assms(7) EE_pos by (intro mult_mono EE_power_le_2) simp_all
  also have "\<dots> \<le> 2 ^ 126" by simp
  finally have v1': "I * BB * EE ^ (p + 3) \<le> 2 ^ 126" .
  obtain t1 where t1: "fixed_mul_floor_i128 t cx comet_BONE = Some t1" "abs_rat t1 \<le> I * BB * EE ^ (p + 3)"
    using fixed_mul_ok [OF BONE_simps(2) v1 v1'] by blast
  have iB: "abs_rat (i * comet_BONE) = I * BB" "i * comet_BONE \<noteq> 0" "nat \<bar>i * comet_BONE\<bar> \<le> u128_max"
    using assms(1,2) by (simp_all add: abs_rat_def I_def comet_BONE_def u128_max_def abs_mult)
  have "abs_rat t1 * BB / (I * BB) * EE \<le> I * BB * EE ^ (p + 3) * BB / (I * BB) * EE"
    using t1(2) I EE_pos by (intro mult_right_mono divide_right_mono) simp_all
  also have "\<dots> = BB * EE ^ (p + 4)" using I by (simp add: power_add eval_nat_numeral)
  finally have v2: "abs_rat t1 * abs_rat comet_BONE / abs_rat (i * comet_BONE) * EE \<le> BB * EE ^ (p + 4)"
    unfolding iB(1) by simp
  have "BB * EE ^ (p + 4) \<le> BB * 2" using assms(7) by (intro mult_left_mono EE_power_le_2) simp_all
  also have "\<dots> \<le> 2 ^ 126" by simp
  finally have "BB * EE ^ (p + 4) \<le> 2 ^ 126" .
  then obtain t2 where "fixed_div_floor_i128 t1 (i * comet_BONE) comet_BONE = Some t2" "abs_rat t2 \<le> BB * EE ^ (p + 4)"
    using fixed_div_ok [OF iB(2,3) v2] by blast
  then show ?thesis using that 1 cx(1) t1(1) by blast
qed

lemma abs_rat_add: "abs_rat (a + b) \<le> abs_rat a + abs_rat b"
  unfolding abs_rat_def by (simp only: of_int_add [symmetric] of_int_le_iff abs_triangle_ineq)

lemma in_i128_abs_rat:
  assumes "abs_rat a \<le> 2 ^ 126"
  shows "in_i128 a"
proof -
  have "(of_int \<bar>a\<bar> :: rat) \<le> of_int (2 ^ 126)" using assms by (simp add: abs_rat_def)
  then have "\<bar>a\<bar> \<le> 2 ^ 126" by (simp only: of_int_le_iff)
  then show ?thesis by (auto simp: in_i128_def abs_le_iff)
qed

lemma c_pow_terms_ok:
  assumes "1 \<le> i" "i + int k \<le> 51" "0 \<le> expo" "expo \<le> comet_BONE" "abs_rat x \<le> BB * EE"
    "abs_rat t \<le> BB * EE ^ p" "p + 4 * k \<le> 2 ^ 40" "abs_rat acc \<le> m" "m + of_nat k * (BB * 2) \<le> 2 ^ 126"
  shows "\<exists>r. c_pow_terms k i x expo t acc = Some r \<and> abs_rat r \<le> m + of_nat k * (BB * 2)"
  using assms
proof (induction k arbitrary: i t p acc m)
  case (Suc k)
  note prems = Suc.prems
  have p4: "p + 4 \<le> 2 ^ 40" and i50: "i \<le> 50" using prems(2,7) by simp_all
  obtain c cx t1 t2 where s: "i128_checked_sub expo (i * comet_BONE - comet_BONE) = Some c"
    "fixed_mul_floor_i128 c x comet_BONE = Some cx" "fixed_mul_floor_i128 t cx comet_BONE = Some t1"
    "fixed_div_floor_i128 t1 (i * comet_BONE) comet_BONE = Some t2" and t2: "abs_rat t2 \<le> BB * EE ^ (p + 4)"
    using c_pow_term [OF prems(1) i50 prems(3-6) p4] by blast
  have "BB * EE ^ (p + 4) \<le> BB * 2" using p4 by (intro mult_left_mono EE_power_le_2) simp_all
  then have "abs_rat t2 \<le> BB * 2" using t2 by linarith
  then have acc: "abs_rat (acc + t2) \<le> m + BB * 2"
    using abs_rat_add [of acc t2] prems(8) by linarith
  have m: "m + BB * 2 + of_nat k * (BB * 2) = m + of_nat (Suc k) * (BB * 2)" by (simp add: algebra_simps)
  have mk: "m + BB * 2 \<le> m + of_nat (Suc k) * (BB * 2)" unfolding m [symmetric] by simp
  then have "in_i128 (acc + t2)" using prems(9) acc by (intro in_i128_abs_rat) linarith
  then have a: "i128_checked_add acc t2 = Some (acc + t2)" by (simp add: i128_checked_add_def)
  show ?case
  proof (cases "nat \<bar>t2\<bar> \<le> comet_CPOW_PRECISION")
    case True
    have "c_pow_terms (Suc k) i x expo t acc = Some (acc + t2)"
      using True by (simp only: c_pow_terms.simps Let_def s a bind.bind_lunit if_True)
    then show ?thesis using acc mk by (blast intro: order_trans)
  next
    case False
    have "\<exists>r. c_pow_terms k (i + 1) x expo t2 (acc + t2) = Some r \<and> abs_rat r \<le> m + BB * 2 + of_nat k * (BB * 2)"
    proof (rule Suc.IH [OF _ _ prems(3,4,5) t2 _ acc])
      show "m + BB * 2 + of_nat k * (BB * 2) \<le> 2 ^ 126" using prems(9) unfolding m .
    qed (use prems(1,2,7) in simp_all)
    moreover have "c_pow_terms (Suc k) i x expo t acc = c_pow_terms k (i + 1) x expo t2 (acc + t2)"
      using False by (simp only: c_pow_terms.simps Let_def s a bind.bind_lunit if_False)
    ultimately show ?thesis unfolding m by simp
  qed
qed simp

lemma c_pow_approx_ok:
  assumes "0 \<le> base" "abs_rat base \<le> BB * EE" "0 \<le> expo" "expo \<le> comet_BONE"
  shows "\<exists>r. c_pow_approx base expo = Some r \<and> 0 \<le> r \<and> abs_rat r \<le> BB * 101"
proof -
  have "abs_rat base \<le> BB * 2" using assms(2) by (simp add: comet_eps_def)
  then have "(of_int base :: rat) \<le> of_int (2 * 10 ^ 18)" using assms(1) by (simp add: abs_rat_def)
  then have b2: "base \<le> 2 * 10 ^ 18" by (simp only: of_int_le_iff)
  have "in_i128 (base - comet_BONE)" using assms(1) b2 by (simp add: in_i128_def comet_BONE_def)
  then have 1: "i128_checked_sub base comet_BONE = Some (base - comet_BONE)" by (simp add: i128_checked_sub_def)
  have "\<bar>base - comet_BONE\<bar> \<le> comet_BONE" using assms(1) b2 by (simp add: comet_BONE_def abs_le_iff)
  then have "abs_rat (base - comet_BONE) \<le> BB" unfolding abs_rat_def comet_BONE_def by (simp flip: of_int_le_iff)
  also have "BB \<le> BB * EE" using EE_ge_1 by simp
  finally have x: "abs_rat (base - comet_BONE) \<le> BB * EE" .
  have "\<exists>r. c_pow_terms 50 1 (base - comet_BONE) expo comet_BONE comet_BONE = Some r \<and>
      abs_rat r \<le> BB + of_nat 50 * (BB * 2)"
    by (rule c_pow_terms_ok [OF _ _ assms(3,4) x, of _ _ _ 0]) simp_all
  then obtain r where r: "c_pow_terms 50 1 (base - comet_BONE) expo comet_BONE comet_BONE = Some r"
    "abs_rat r \<le> BB * 101" by auto
  have "c_pow_approx base expo = Some (max r 0)" by (simp add: c_pow_approx_def 1 r(1))
  moreover have "abs_rat (max r 0) \<le> abs_rat r" unfolding abs_rat_def by (simp only: of_int_le_iff)
  then have "abs_rat (max r 0) \<le> BB * 101" using r(2) by linarith
  ultimately show ?thesis by (intro exI [of _ "max r 0"]) simp
qed

lemma c_pow_ok:
  assumes "0 \<le> base" "abs_rat base \<le> BB * EE" "0 \<le> expo"
  shows "\<exists>r. c_pow base expo = Some r \<and> 0 \<le> r \<and> abs_rat r \<le> BB * 500"
proof (cases "base \<le> 0 \<or> base > 2 * comet_BONE - 1")
  case True
  then have "c_pow base expo = Some 0 \<or> c_pow base expo = Some comet_BONE" by (auto simp: c_pow_def)
  then show ?thesis by (auto simp: abs_rat_def comet_BONE_def)
next
  case False
  define ip rem where "ip = expo sdiv comet_BONE" and "rem = expo - ip * comet_BONE"
  have "ip = expo div comet_BONE" unfolding ip_def using assms(3) by (intro sdiv_pos) simp_all
  then have "rem = expo mod comet_BONE" unfolding rem_def by (simp add: minus_div_mult_eq_mod)
  then have rem: "0 \<le> rem" "rem \<le> comet_BONE" by (simp_all add: comet_BONE_def)
  have "ip mod 2 ^ 32 < 2 ^ 32" by simp
  then have "nat (ip mod 2 ^ 32) < 2 ^ 32" by (simp add: nat_less_iff)
  then obtain w where w: "c_powi base (nat (ip mod 2 ^ 32)) = Some w" "0 \<le> w" "abs_rat w \<le> BB * 2"
    using c_powi_ok [OF assms(1,2)] by blast
  obtain q where q: "c_pow_approx base rem = Some q" "0 \<le> q" "abs_rat q \<le> BB * 101"
    using c_pow_approx_ok [OF assms(1,2) rem] by blast
  have "abs_rat w * abs_rat q \<le> BB * 2 * (BB * 101)" using w(3) q(3) by (intro mult_mono) simp_all
  moreover have "EE \<le> 2" by (simp add: comet_eps_def)
  ultimately have "abs_rat w * abs_rat q / BB * EE \<le> BB * 2 * (BB * 101) / BB * 2"
    using EE_pos by (intro mult_mono [OF divide_right_mono]) simp_all
  then have v: "abs_rat w * abs_rat q / abs_rat comet_BONE * EE \<le> BB * 500" by simp
  obtain r where r: "fixed_mul_floor_i128 w q comet_BONE = Some r" "abs_rat r \<le> BB * 500" "0 \<le> r"
    using fixed_mul_ok [OF BONE_simps(2) v] w(2) q(2) by auto
  have "c_pow base expo = (if rem = 0 then Some w else Some r)"
    unfolding c_pow_def Let_def ip_def [symmetric] rem_def [symmetric] using False w(1) q(1) r(1) by simp
  then show ?thesis using w r by auto
qed

section \<open>The quote\<close>

text \<open>A record of a pool: a positive balance below \<open>2 ^ 50\<close> units, a normalised weight, and a
  scalar to at most 18 decimals.\<close>

definition comet_record_ok :: "comet_record \<Rightarrow> bool" where
  "comet_record_ok r \<longleftrightarrow> 0 < cm_balance r \<and> cm_balance r < 2 ^ 50 \<and> 0 < cm_weight r
     \<and> cm_weight r \<le> comet_STROOP \<and> 0 < cm_scalar r \<and> cm_scalar r \<le> comet_BONE"

lemma upscale_ok:
  assumes "0 \<le> a" "a \<le> A" "0 \<le> s" "s \<le> S" "A * S \<le> 2 ^ 126"
  shows "comet_upscale a s = Some (a * s)" "0 \<le> a * s" "a * s \<le> A * S"
proof -
  show 1: "0 \<le> a * s" using assms(1,3) by simp
  show 2: "a * s \<le> A * S" using assms(1-4) by (intro mult_mono) simp_all
  show "comet_upscale a s = Some (a * s)"
    using 1 order_trans [OF 2 assms(5)] by (simp add: comet_upscale_def i128_checked_mul_def in_i128_def)
qed

lemma abs_rat_le:
  assumes "0 \<le> a" "a \<le> b"
  shows "abs_rat a \<le> of_int b"
  using assms by (simp add: abs_rat_def)

lemma abs_rat_leD:
  assumes "abs_rat a \<le> of_int b"
  shows "a \<le> b"
proof -
  have "(of_int \<bar>a\<bar> :: rat) \<le> of_int b" using assms by (simp add: abs_rat_def)
  then have "\<bar>a\<bar> \<le> b" by (simp only: of_int_le_iff)
  then show ?thesis by simp
qed

text \<open>The last two operations: a part of the balance, scaled back, is at most the balance.\<close>

lemma downscaled_part:
  assumes ok: "comet_record_ok r" and br: "0 < br" "br \<le> comet_BONE"
  shows "\<exists>v out. fixed_mul_floor_i128 (cm_balance r * cm_scalar r) br comet_BONE = Some v
     \<and> comet_downscale_floor v (cm_scalar r) = Some out \<and> 0 \<le> out \<and> out \<le> cm_balance r"
proof -
  let ?b = "cm_balance r" and ?s = "cm_scalar r"
  let ?w = "of_int ?b * of_int ?s * EE :: rat"
  have b: "0 < ?b" "?b < 2 ^ 50" and s: "0 < ?s" "?s \<le> 10 ^ 18"
    using ok by (simp_all add: comet_record_ok_def comet_BONE_def)
  have bs: "abs_rat (?b * ?s) = of_int ?b * of_int ?s" using b(1) s(1) by (simp add: abs_rat_def abs_mult)
  have "abs_rat br / BB \<le> 1" using br by (simp add: abs_rat_def comet_BONE_def)
  then have "of_int ?b * of_int ?s * (abs_rat br / BB) * EE \<le> of_int ?b * of_int ?s * 1 * EE"
    using b(1) s(1) EE_pos by (intro mult_right_mono mult_left_mono) simp_all
  then have v: "abs_rat (?b * ?s) * abs_rat br / abs_rat comet_BONE * EE \<le> ?w" by (simp add: bs)
  have "(of_int ?b :: rat) \<le> of_int (2 ^ 50)" "(of_int ?s :: rat) \<le> of_int (10 ^ 18)"
    using b(2) s(2) by (simp_all only: of_int_le_iff less_imp_le)
  moreover have "EE \<le> 2" by (simp add: comet_eps_def)
  ultimately have "?w \<le> of_int (2 ^ 50) * of_int (10 ^ 18) * 2"
    using b(1) s(1) EE_pos by (intro mult_mono) simp_all
  also have "\<dots> \<le> 2 ^ 126" by simp
  finally have w: "?w \<le> 2 ^ 126" .
  obtain v where v: "fixed_mul_floor_i128 (?b * ?s) br comet_BONE = Some v" "abs_rat v \<le> ?w" "0 \<le> v"
    using fixed_mul_ok [OF BONE_simps(2) v w] b(1) s(1) br(1) by auto
  have "of_int ?b * comet_eps < 1"
  proof -
    have "(of_int ?b :: rat) < of_int (2 ^ 50)" using b(2) by (simp only: of_int_less_iff)
    then show ?thesis by (simp add: comet_eps_def)
  qed
  then have "of_int ?b * comet_eps * of_int ?s < 1 * (of_int ?s :: rat)"
    using s(1) by (intro mult_strict_right_mono) simp_all
  then have "?w < of_int ((?b + 1) * ?s)" by (simp add: algebra_simps)
  then have "(of_int v :: rat) < of_int ((?b + 1) * ?s)" using v(2,3) by (simp add: abs_rat_def)
  then have "v < (?b + 1) * ?s" by (simp only: of_int_less_iff)
  moreover have "v div ?s * ?s \<le> v" using s(1) pos_mod_sign [of ?s v] by (simp add: minus_mod_eq_div_mult [symmetric])
  ultimately have "v div ?s * ?s < (?b + 1) * ?s" by linarith
  then have "v div ?s < ?b + 1" using s(1) by (simp only: mult_less_cancel_right_pos)
  moreover have "comet_downscale_floor v ?s = Some (v div ?s)"
    using s(1) v(3) by (simp add: comet_downscale_floor_def sdiv_pos)
  moreover have "0 \<le> v div ?s" using v(3) s(1) by (simp add: pos_imp_zdiv_nonneg_iff)
  ultimately show ?thesis using v(1) by auto
qed


lemma calc_out_ok:
  assumes i: "comet_record_ok i" and o': "comet_record_ok ro" and amt: "0 < amount" "amount \<le> 2 ^ 60"
    and fee: "0 \<le> fee" "fee \<le> comet_STROOP"
  shows "\<exists>out. calc_out_given_in i ro amount fee = Some out \<and> 0 \<le> out \<and> out \<le> cm_balance ro"
proof -
  have ib: "0 < cm_balance i" "cm_balance i \<le> 2 ^ 50" and iw: "0 < cm_weight i" "cm_weight i \<le> 10 ^ 7"
    and isc: "0 < cm_scalar i" "cm_scalar i \<le> 10 ^ 18" and ob: "0 < cm_balance ro" "cm_balance ro \<le> 2 ^ 50"
    and ow: "0 < cm_weight ro" "cm_weight ro \<le> 10 ^ 7" and os: "0 < cm_scalar ro" "cm_scalar ro \<le> 10 ^ 18"
    using i o' by (simp_all add: comet_record_ok_def comet_BONE_def comet_STROOP_def)
  have u1: "comet_upscale (cm_balance i) (cm_scalar i) = Some (cm_balance i * cm_scalar i)"
    and u1b: "0 < cm_balance i * cm_scalar i" "cm_balance i * cm_scalar i \<le> 2 ^ 50 * 10 ^ 18"
    using upscale_ok [of "cm_balance i" "2 ^ 50" "cm_scalar i" "10 ^ 18"] ib isc by simp_all
  have u2: "comet_upscale (cm_balance ro) (cm_scalar ro) = Some (cm_balance ro * cm_scalar ro)"
    using upscale_ok [of "cm_balance ro" "2 ^ 50" "cm_scalar ro" "10 ^ 18"] ob os by simp
  have u3: "comet_upscale amount (cm_scalar i) = Some (amount * cm_scalar i)"
    and u3b: "0 \<le> amount * cm_scalar i" "amount * cm_scalar i \<le> 2 ^ 60 * 10 ^ 18"
    using upscale_ok [of amount "2 ^ 60" "cm_scalar i" "10 ^ 18"] amt isc by simp_all
  have k: "i128_checked_sub comet_STROOP fee = Some (comet_STROOP - fee)"
    using fee by (simp add: i128_checked_sub_def in_i128_def comet_STROOP_def)
  have u4: "comet_upscale (comet_STROOP - fee) comet_STROOP_SCALAR = Some ((comet_STROOP - fee) * comet_STROOP_SCALAR)"
    and u4b: "0 \<le> (comet_STROOP - fee) * comet_STROOP_SCALAR" "(comet_STROOP - fee) * comet_STROOP_SCALAR \<le> comet_BONE"
    using upscale_ok [of "comet_STROOP - fee" "10 ^ 7" comet_STROOP_SCALAR "10 ^ 11"] fee
    by (simp_all add: comet_STROOP_def comet_STROOP_SCALAR_def comet_BONE_def)
  obtain ratio where r: "fixed_div_floor_i128 (cm_weight i) (cm_weight ro) comet_STROOP = Some ratio"
      "abs_rat ratio \<le> 2 * 10 ^ 14" "0 \<le> ratio"
  proof -
    have "abs_rat (cm_weight i) * abs_rat comet_STROOP / abs_rat (cm_weight ro) \<le> 10 ^ 7 * 10 ^ 7 / 1"
      using iw ow by (intro frac_le mult_mono) (simp_all add: abs_rat_def comet_STROOP_def)
    then have "abs_rat (cm_weight i) * abs_rat comet_STROOP / abs_rat (cm_weight ro) * EE \<le> 10 ^ 7 * 10 ^ 7 / 1 * 2"
      using EE_pos by (intro mult_mono) (simp_all add: comet_eps_def)
    then have v: "abs_rat (cm_weight i) * abs_rat comet_STROOP / abs_rat (cm_weight ro) * EE \<le> 2 * 10 ^ 14" by simp
    have "cm_weight ro \<noteq> 0" "nat \<bar>cm_weight ro\<bar> \<le> u128_max" using ow by (auto simp: u128_max_def)
    from fixed_div_ok [OF this v] show ?thesis using that iw ow by auto
  qed
  have "ratio \<le> 2 * 10 ^ 14" by (rule abs_rat_leD) (use r(2) in simp)
  then have u5: "comet_upscale ratio comet_STROOP_SCALAR = Some (ratio * comet_STROOP_SCALAR)"
    and u5b: "0 \<le> ratio * comet_STROOP_SCALAR"
    using upscale_ok [of ratio "2 * 10 ^ 14" comet_STROOP_SCALAR "10 ^ 11"] r(3)
    by (simp_all add: comet_STROOP_SCALAR_def)
  define tai far tbi where "tai = amount * cm_scalar i" and "far = (comet_STROOP - fee) * comet_STROOP_SCALAR"
    and "tbi = cm_balance i * cm_scalar i"
  note abbr = tai_def [symmetric] far_def [symmetric] tbi_def [symmetric]
  obtain adj where a: "fixed_mul_floor_i128 tai far comet_BONE = Some adj" "abs_rat adj \<le> 2 ^ 61 * 10 ^ 18" "0 \<le> adj"
  proof -
    have "abs_rat tai \<le> 2 ^ 60 * 10 ^ 18" using abs_rat_le [OF u3b] unfolding abbr by simp
    moreover have "abs_rat far \<le> BB" using abs_rat_le [OF u4b] unfolding abbr by (simp add: comet_BONE_def)
    ultimately have "abs_rat tai * abs_rat far \<le> 2 ^ 60 * 10 ^ 18 * BB" by (intro mult_mono) simp_all
    then have "abs_rat tai * abs_rat far / BB \<le> 2 ^ 60 * 10 ^ 18 * BB / BB" by (intro divide_right_mono) simp_all
    then have "abs_rat tai * abs_rat far / BB * EE \<le> 2 ^ 60 * 10 ^ 18 * BB / BB * 2"
      using EE_pos by (intro mult_mono) (simp_all add: comet_eps_def)
    then have "abs_rat tai * abs_rat far / abs_rat comet_BONE * EE \<le> 2 ^ 61 * 10 ^ 18" by simp
    from fixed_mul_ok [OF BONE_simps(2) this] show ?thesis using that u3b(1) u4b(1) unfolding abbr by auto
  qed
  have adj: "adj \<le> 2 ^ 61 * 10 ^ 18" by (rule abs_rat_leD) (use a(2) in simp)
  have tb: "0 < tbi" "tbi \<le> 2 ^ 50 * 10 ^ 18" using u1b unfolding abbr by simp_all
  have u6: "i128_checked_add tbi adj = Some (tbi + adj)"
    using tb a(3) adj by (simp add: i128_checked_add_def in_i128_def)
  obtain base where b: "fixed_div_floor_i128 tbi (tbi + adj) comet_BONE = Some base" "abs_rat base \<le> BB * EE" "0 \<le> base"
  proof -
    have "abs_rat tbi / abs_rat (tbi + adj) \<le> 1" using tb a(3) by (simp add: abs_rat_def)
    then have "BB * (abs_rat tbi / abs_rat (tbi + adj)) * EE \<le> BB * 1 * EE"
      using EE_pos by (intro mult_right_mono mult_left_mono) simp_all
    then have v: "abs_rat tbi * abs_rat comet_BONE / abs_rat (tbi + adj) * EE \<le> BB * EE" by (simp add: mult.commute)
    have "BB * EE \<le> 2 ^ 126" by (simp add: comet_eps_def)
    moreover have "tbi + adj \<noteq> 0" "nat \<bar>tbi + adj\<bar> \<le> u128_max" using tb a(3) adj by (simp_all add: u128_max_def)
    ultimately show ?thesis using fixed_div_ok [OF _ _ v] that tb a(3) by auto
  qed
  obtain power where p: "c_pow base (ratio * comet_STROOP_SCALAR) = Some power" "0 \<le> power" "abs_rat power \<le> BB * 500"
    using c_pow_ok [OF b(3,2) u5b] by blast
  have "power \<le> 500 * 10 ^ 18" by (rule abs_rat_leD) (use p(3) in simp)
  then have u7: "i128_checked_sub comet_BONE power = Some (comet_BONE - power)"
    using p(2) by (simp add: i128_checked_sub_def in_i128_def comet_BONE_def)
  have nz: "\<not> (amount = 0 \<or> cm_balance i = 0 \<or> cm_balance ro = 0)" "\<not> (cm_weight i = 0 \<or> cm_weight ro = 0)"
    using amt ib ob iw ow by simp_all
  have calc: "calc_out_given_in i ro amount fee =
      (if comet_BONE - power \<le> 0 then Some 0
       else Option.bind (fixed_mul_floor_i128 (cm_balance ro * cm_scalar ro) (comet_BONE - power) comet_BONE)
              (\<lambda>result. comet_downscale_floor result (cm_scalar ro)))"
    unfolding calc_out_given_in_def if_not_P [OF nz(1)] if_not_P [OF nz(2)] u1 u2 u3 k u4 r(1) u5 bind.bind_lunit abbr
      a(1) u6 b(1) p(1) u7 ..
  show ?thesis
  proof (cases "comet_BONE - power \<le> 0")
    case True
    then show ?thesis using ob unfolding calc by simp
  next
    case False
    then show ?thesis using downscaled_part [OF o', of "comet_BONE - power"] p(2) unfolding calc by auto
  qed
qed

end
