(* ===== verification/Pool_Quotes.thy ===== *)
theory Pool_Quotes
  imports Comet_Bounds Stable_Math
begin

text \<open>
  The quotes of a single pool from its hydrated state: \<open>quote_comet_pool\<close> of
  \<open>crates/dex-adapters/src/comet.rs\<close>, and \<open>quote_aquarius_pool\<close> with the constant-product and
  stable-swap formulas of \<open>aquarius.rs\<close>. The outer \<open>option\<close> is a panic, the inner one the
  absence of a quote.
\<close>

section \<open>Records\<close>

record adapter_quote =
  aq_amount_out :: nat
  aq_fee_bps :: nat
  aq_price_impact_bps :: nat

record comet_pool_state =
  co_records :: "string \<Rightarrow> comet_record option"
  co_swap_fee :: int

record aquarius_pool_state =
  ap_pool_address :: string
  ap_tokens :: "string list"
  ap_reserves :: "nat list"
  ap_fee_bps :: nat
  ap_is_stable :: bool
  ap_amp :: nat

definition i128_as_u32 :: "int \<Rightarrow> nat" where "i128_as_u32 v = nat (v mod 2 ^ 32)"

section \<open>Comet\<close>

definition comet_price_impact :: "nat \<Rightarrow> int \<Rightarrow> nat option" where
  "comet_price_impact amount_in balance =
     Option.bind (i128_checked_mul (as_i128 (int amount_in)) 10000) (\<lambda>scaled.
     Option.bind (i128_checked_mul 2 balance) (\<lambda>twice.
     if twice = 0 then None else Some (i128_as_u32 (min (scaled sdiv twice) 10000))))"

definition quote_comet_pool ::
  "comet_pool_state \<Rightarrow> string \<Rightarrow> string \<Rightarrow> nat \<Rightarrow> adapter_quote option option" where
  "quote_comet_pool state token_in token_out amount_in =
     (case co_records state token_in of
        None \<Rightarrow> Some None
      | Some in_record \<Rightarrow>
          (case co_records state token_out of
             None \<Rightarrow> Some None
           | Some out_record \<Rightarrow>
               Option.bind (calc_out_given_in in_record out_record (as_i128 (int amount_in)) (co_swap_fee state))
                 (\<lambda>amount_out.
               if amount_out \<le> 0 then Some None
               else
                 Option.bind (comet_price_impact amount_in (cm_balance in_record)) (\<lambda>impact.
                 Some (Some \<lparr>aq_amount_out = nat amount_out,
                             aq_fee_bps = i128_as_u32 (co_swap_fee state sdiv 1000),
                             aq_price_impact_bps = impact\<rparr>)))))"

section \<open>Aquarius\<close>

fun position_of :: "'a \<Rightarrow> 'a list \<Rightarrow> nat option" where
  "position_of x [] = None"
| "position_of x (y # ys) = (if y = x then Some 0 else map_option Suc (position_of x ys))"

definition constant_product_quote :: "nat \<Rightarrow> nat \<Rightarrow> nat \<Rightarrow> nat \<Rightarrow> nat option" where
  "constant_product_quote amount_in reserve_in reserve_out fee_bps =
     (if reserve_in = 0 \<or> reserve_out = 0 \<or> amount_in = 0 then Some 0
      else
        Option.bind (u128_checked_sub 10000 fee_bps) (\<lambda>keep.
        Option.bind (u128_checked_mul amount_in keep) (\<lambda>kept.
        let in_after_fee = kept div 10000 in
        Option.bind (u128_checked_mul in_after_fee reserve_out) (\<lambda>numerator.
        Option.bind (u128_checked_add reserve_in in_after_fee) (\<lambda>denominator.
        Some (numerator div denominator))))))"

definition stable_swap_quote_multi :: "nat list \<Rightarrow> nat \<Rightarrow> nat \<Rightarrow> nat \<Rightarrow> nat \<Rightarrow> nat \<Rightarrow> nat option" where
  "stable_swap_quote_multi reserves in_idx out_idx amount_in fee_bps amp =
     (if reserves = [] \<or> in_idx \<ge> length reserves \<or> out_idx \<ge> length reserves then Some 0
      else stable_get_dy \<lparr>sp_reserves = reserves, sp_decimals = replicate (length reserves) 7,
                          sp_amp = amp, sp_fee_bps = fee_bps\<rparr> in_idx out_idx amount_in)"

definition half_impact_bps :: "nat \<Rightarrow> nat \<Rightarrow> nat option" where
  "half_impact_bps amount_in reserve_in =
     Option.bind (u128_checked_mul amount_in 10000) (\<lambda>scaled.
     Option.bind (u128_checked_mul 2 reserve_in) (\<lambda>twice.
     Some (min (scaled div twice) 10000)))"

definition quote_aquarius_pool ::
  "aquarius_pool_state \<Rightarrow> string \<Rightarrow> string \<Rightarrow> nat \<Rightarrow> adapter_quote option option" where
  "quote_aquarius_pool state token_in token_out amount_in =
     (if amount_in = 0 \<or> ap_reserves state = [] then Some None
      else
        case (position_of token_in (ap_tokens state), position_of token_out (ap_tokens state)) of
          (Some in_idx, Some out_idx) \<Rightarrow>
            if in_idx = out_idx then Some None
            else
              (case nth_opt (ap_reserves state) in_idx of
                 None \<Rightarrow> Some None
               | Some reserve_in \<Rightarrow>
                   if reserve_in = 0 then Some None
                   else
                     let finish = (\<lambda>amount_out.
                           if amount_out = 0 then Some None
                           else
                             Option.bind (half_impact_bps amount_in reserve_in) (\<lambda>impact.
                             Some (Some \<lparr>aq_amount_out = amount_out, aq_fee_bps = ap_fee_bps state,
                                         aq_price_impact_bps = impact\<rparr>)))
                     in if ap_is_stable state then
                          Option.bind (stable_swap_quote_multi (ap_reserves state) in_idx out_idx amount_in
                            (ap_fee_bps state) (ap_amp state)) finish
                        else
                          (case nth_opt (ap_reserves state) out_idx of
                             None \<Rightarrow> Some None
                           | Some reserve_out \<Rightarrow>
                               Option.bind (constant_product_quote amount_in reserve_in reserve_out (ap_fee_bps state)) finish))
        | _ \<Rightarrow> Some None)"

section \<open>The constant product\<close>

text \<open>Every constant-product formula of the repository has this shape, with the part of the input
  that reaches the pool after the fee: the output stays below the reserve, and the product of the
  reserves does not fall.\<close>

lemma product_quote:
  fixes ri ro kept amount out :: nat
  assumes "0 < ri" "0 < ro" "kept \<le> amount" "out \<le> kept * ro div (ri + kept)"
  shows "out < ro" "ri * ro \<le> (ri + amount) * (ro - out)"
proof -
  have "out * (ri + kept) \<le> kept * ro div (ri + kept) * (ri + kept)" using assms(4) by (rule mult_le_mono1)
  also have "\<dots> \<le> kept * ro" by (rule div_times_less_eq_dividend)
  finally have "out * (ri + kept) \<le> kept * ro" .
  then have 1: "out * (ri + kept) \<le> (ri + kept) * ro - ri * ro" by (simp add: algebra_simps)
  moreover have "(ri + kept) * ro - ri * ro < (ri + kept) * ro" using assms(1,2) by simp
  ultimately have "(ri + kept) * out < (ri + kept) * ro" by (simp only: mult.commute)
  then show out: "out < ro" by (simp only: mult_less_cancel1)
  have "ri * ro \<le> (ri + kept) * ro - (ri + kept) * out" using 1 out assms(1) by (simp add: algebra_simps)
  also have "\<dots> = (ri + kept) * (ro - out)" by (simp add: diff_mult_distrib2)
  also have "\<dots> \<le> (ri + amount) * (ro - out)" using assms(3) by (intro mult_le_mono1) simp
  finally show "ri * ro \<le> (ri + amount) * (ro - out)" .
qed

lemma kept_le: "keep \<le> (10000 :: nat) \<Longrightarrow> amount * keep div 10000 \<le> amount"
  using div_le_mono [of "amount * keep" "amount * 10000" 10000] by simp

lemma constant_product_quote_sound:
  assumes "constant_product_quote amount ri ro fee = Some out" "0 < out"
  shows "out < ro" "ri * ro \<le> (ri + amount) * (ro - out)"
proof -
  let ?kept = "amount * (10000 - fee) div 10000"
  have r: "0 < ri" "0 < ro" and q: "out = ?kept * ro div (ri + ?kept)"
    using assms by (auto simp: constant_product_quote_def bind_eq_Some_conv res_simps Let_def split: if_splits)
  show "out < ro" "ri * ro \<le> (ri + amount) * (ro - out)"
    using product_quote [OF r kept_le [of "10000 - fee" amount], of out] q by simp_all
qed

lemma position_of_Some: "position_of x xs = Some i \<Longrightarrow> i < length xs \<and> xs ! i = x"
  by (induction xs arbitrary: i) (auto split: if_splits)

end
