(* ===== verification/Comet_Properties.thy ===== *)
theory Comet_Properties
  imports Pool_Quotes
begin

text \<open>
  What a Comet quote guarantees: it never panics and never exceeds the balance it is paid from, and the
  wide division it rests on is accurate to one part in \<open>2 ^ 50\<close>, but not exact.
\<close>

text \<open>The 256-bit division of the weighted-pool formula: whatever the operands, while the quotient
  fits 128 bits, the result is within one unit and one part in \<open>2 ^ 50\<close> of the exact quotient, and
  never above it by more than that part.\<close>

lemma comet_mul_div_accurate:
  assumes "0 < c" "c \<le> u128_max" "of_nat a * of_nat b / of_nat c * (1 + 1 / 2 ^ 50) < (of_nat u128_max :: rat)"
  shows "\<bar>of_nat (comet_mul_div_u128 a b c) - of_nat a * of_nat b / of_nat c\<bar>
      \<le> of_nat a * of_nat b / of_nat c / 2 ^ 50 + (1 :: rat)
    \<and> (of_nat (comet_mul_div_u128 a b c) :: rat) \<le> of_nat a * of_nat b / of_nat c * (1 + 1 / 2 ^ 50)"
proof -
  let ?v = "of_nat a * of_nat b / of_nat c :: rat"
  define d where "d = (1 / 2 ^ 50 :: rat)"
  have d: "0 \<le> d" "d \<le> 1" by (simp_all add: d_def)
  have v: "0 \<le> ?v" by simp
  have up: "of_nat (comet_mul_div_u128 a b c) \<le> ?v * (1 + d)"
    using comet_mul_div_le [OF assms(2), of a b] by (simp add: comet_eps_def d_def)
  have "?v - ?v * d - 1 \<le> of_nat (comet_mul_div_u128 a b c)"
  proof (cases "a * b \<le> u128_max")
    case True
    define p where "p = a * b"
    have "p < (p div c + 1) * c" using assms(1) dividend_less_times_div [of c p] by (simp add: mult.commute)
    then have "a * b < (a * b div c + 1) * c" unfolding p_def .
    then have "(of_nat (a * b) :: rat) \<le> of_nat ((a * b div c + 1) * c)" by (simp only: of_nat_le_iff less_imp_le)
    then have "?v \<le> of_nat (a * b div c) + 1" using assms(1) by (simp add: field_simps)
    then show ?thesis using comet_mul_div_exact [OF True, of c] mult_nonneg_nonneg [OF v d(1)] by linarith
  next
    case False
    let ?x = "f64_div (comet_wide_product a b) (f64_of_nat c)"
    have x: "\<bar>?x - ?v\<bar> \<le> ?v * d" using wide_quotient [OF False assms(1,2)] by (simp only: d_def)
    have x0: "0 \<le> ?x" "?x \<le> ?v * (1 + d)" using abs_diff_bounds [OF x v d(2)] by simp_all
    then have "?x < of_nat u128_max" using assms(3) unfolding d_def by linarith
    then have "?x - 1 < of_nat (f64_as_u128 ?x)" by (rule f64_as_u128_bounds(2) [OF x0(1)])
    moreover have "?v - ?v * d \<le> ?x" using x by (simp add: abs_le_iff)
    ultimately show ?thesis unfolding comet_mul_div_wide [OF False assms(1)] by linarith
  qed
  moreover have "?v * (1 + d) = ?v + ?v * d" by (simp add: distrib_left)
  moreover have "?v / 2 ^ 50 = ?v * d" by (simp add: d_def)
  ultimately show ?thesis using up by (simp only: d_def [symmetric]) (simp add: abs_le_iff)
qed

lemma comet_mul_div_accurate_witness:
  "\<bar>of_nat (comet_mul_div_u128 (10 ^ 21) (10 ^ 18) (10 ^ 18)) - (10 ^ 21 :: rat)\<bar> \<le> 10 ^ 21 / 2 ^ 50 + 1"
proof -
  have "of_nat (10 ^ 21) * of_nat (10 ^ 18) / of_nat (10 ^ 18) = (10 ^ 21 :: rat)" by simp
  then show ?thesis using comet_mul_div_accurate [of "10 ^ 18" "10 ^ 21" "10 ^ 18"] by (simp add: u128_max_def)
qed

text \<open>C20: A Comet pool quotes without panic and within its balance: for records with positive balances
  below \<open>2 ^ 50\<close> units and normalised weights, a fee of at most one, and an amount of at most
  \<open>2 ^ 60\<close>, the quote is either absent or positive, at most the balance of the output token, with a
  price impact of at most 10,000 basis points.\<close>

theorem comet_quote_within_balance:
  assumes "co_records state token_in = Some i" "co_records state token_out = Some ro"
    and "comet_record_ok i" "comet_record_ok ro" "0 \<le> co_swap_fee state" "co_swap_fee state \<le> comet_STROOP"
    and "amount \<le> 2 ^ 60"
  shows "\<exists>r. quote_comet_pool state token_in token_out amount = Some r
    \<and> (\<forall>q. r = Some q \<longrightarrow> 0 < aq_amount_out q \<and> int (aq_amount_out q) \<le> cm_balance ro
         \<and> aq_price_impact_bps q \<le> 10000)"
proof -
  have "int amount \<le> 2 ^ 60" using assms(7) by (metis of_nat_le_iff of_nat_numeral of_nat_power)
  then have a: "as_i128 (int amount) = int amount" by (intro as_i128_id) (simp add: in_i128_def)
  have ib: "0 < cm_balance i" "cm_balance i < 2 ^ 50" using assms(3) by (simp_all add: comet_record_ok_def)
  have "\<exists>out. calc_out_given_in i ro (int amount) (co_swap_fee state) = Some out \<and> 0 \<le> out \<and> out \<le> cm_balance ro"
  proof (cases "amount = 0")
    case True
    then show ?thesis using assms(4) by (simp add: calc_out_given_in_def comet_record_ok_def)
  next
    case False
    then show ?thesis using calc_out_ok [OF assms(3,4) _ \<open>int amount \<le> 2 ^ 60\<close> assms(5,6)] by simp
  qed
  then obtain out where out: "calc_out_given_in i ro (int amount) (co_swap_fee state) = Some out" "0 \<le> out" "out \<le> cm_balance ro"
    by blast
  have m: "i128_checked_mul (int amount) 10000 = Some (int amount * 10000)" "i128_checked_mul 2 (cm_balance i) = Some (2 * cm_balance i)"
    using \<open>int amount \<le> 2 ^ 60\<close> ib by (simp_all add: i128_checked_mul_def in_i128_def)
  have "0 \<le> int amount * 10000 sdiv (2 * cm_balance i)"
    using ib by (subst sdiv_pos) (simp_all add: pos_imp_zdiv_nonneg_iff)
  then have "i128_as_u32 (min (int amount * 10000 sdiv (2 * cm_balance i)) 10000) \<le> 10000"
    by (simp add: i128_as_u32_def)
  then obtain imp where "comet_price_impact amount (cm_balance i) = Some imp" "imp \<le> 10000"
    using ib unfolding comet_price_impact_def a by (simp add: m)
  then show ?thesis using assms(1,2) out unfolding quote_comet_pool_def a by (cases "out = 0") simp_all
qed

text \<open>A pool of two tokens, a fifth and four fifths of the weight.\<close>

definition sample_blnd :: comet_record where
  "sample_blnd = \<lparr>cm_balance = 300000000000000, cm_weight = 8000000, cm_scalar = 100000000000\<rparr>"

definition sample_usdc :: comet_record where
  "sample_usdc = \<lparr>cm_balance = 4000000000000, cm_weight = 2000000, cm_scalar = 100000000000\<rparr>"

definition sample_comet :: comet_pool_state where
  "sample_comet = \<lparr>co_records = [''blnd'' \<mapsto> sample_blnd, ''usdc'' \<mapsto> sample_usdc], co_swap_fee = 30000\<rparr>"

theorem comet_quote_within_balance_witness:
  "\<exists>r. quote_comet_pool sample_comet ''usdc'' ''blnd'' 10000000 = Some r
    \<and> (\<forall>q. r = Some q \<longrightarrow> 0 < aq_amount_out q \<and> int (aq_amount_out q) \<le> 300000000000000
         \<and> aq_price_impact_bps q \<le> 10000)"
  using comet_quote_within_balance [of sample_comet "''usdc''" sample_usdc "''blnd''" sample_blnd 10000000]
  by (simp add: sample_comet_def sample_usdc_def sample_blnd_def comet_record_ok_def comet_STROOP_def comet_BONE_def)

text \<open>The wide division is not exact: multiplying an odd fixed-point value by \<open>1.0\<close> does not
  return it as soon as the product leaves 128 bits, that is from 341 tokens of 18 decimals on.\<close>

lemma comet_wide_product_inexact:
  assumes "odd a" "int u128_max < a * comet_BONE" "a < 2 ^ 126"
  shows "fixed_mul_floor_i128 a comet_BONE comet_BONE \<noteq> Some a"
proof
  assume eq: "fixed_mul_floor_i128 a comet_BONE comet_BONE = Some a"
  define n c where "n = nat a" and "c = nat comet_BONE"
  have a0: "0 < a" using assms(2) by (simp add: comet_BONE_def u128_max_def)
  have na: "int n = a" "int c = comet_BONE" using a0 by (simp_all add: n_def c_def comet_BONE_def)
  have c: "0 < c" "c \<le> u128_max" by (simp_all add: c_def comet_BONE_def u128_max_def)
  have wide: "\<not> n * c \<le> u128_max"
  proof
    assume "n * c \<le> u128_max"
    then have "int (n * c) \<le> int u128_max" by (simp only: of_nat_le_iff)
    then show False using assms(2) by (simp add: na)
  qed
  let ?y = "comet_wide_product n c / f64_of_nat c"
  let ?x = "f64_div (comet_wide_product n c) (f64_of_nat c)"
  have q: "of_nat n * of_nat c / of_nat c = (of_nat n :: rat)" using c(1) by simp
  define d where "d = (1 / 2 ^ 50 :: rat)"
  have d: "0 \<le> d" "d \<le> 1 / 2" by (simp_all add: d_def)
  have x: "\<bar>?x - of_nat n\<bar> \<le> of_nat n * d" using wide_quotient [OF wide c] unfolding q d_def .
  have "2 ^ 68 \<le> n"
  proof (rule ccontr)
    assume "\<not> 2 ^ 68 \<le> n"
    then have "n * c \<le> 2 ^ 68 * 10 ^ 18" by (intro mult_le_mono) (simp_all add: c_def comet_BONE_def)
    also have "\<dots> \<le> u128_max" by (simp add: u128_max_def)
    finally show False using wide by simp
  qed
  then have n68: "(2 ^ 68 :: rat) \<le> of_nat n" by (metis of_nat_le_iff of_nat_numeral of_nat_power)
  have nd: "of_nat n * d \<le> of_nat n * (1 / 2 :: rat)" using d(2) by (intro mult_left_mono) simp_all
  have "of_nat n * (1 / 2) \<le> ?x" using x nd unfolding abs_le_iff by linarith
  moreover have "(2 ^ 67 :: rat) = 2 ^ 68 * (1 / 2)" by simp
  moreover have "(2 ^ 68 :: rat) * (1 / 2) \<le> of_nat n * (1 / 2)" using n68 by (intro mult_right_mono) simp_all
  ultimately have x67: "2 ^ 67 \<le> ?x" by linarith
  have e53: "53 \<le> f64_exponent ?y"
  proof (rule ccontr)
    assume e: "\<not> 53 \<le> f64_exponent ?y"
    have y0: "?y \<noteq> 0" using x67 by (auto simp: f64_div_def f64_round_def)
    have "\<bar>?y\<bar> < 2 powi (f64_exponent ?y + 1)" using f64_exponent_gt [OF y0] .
    also have "\<dots> \<le> 2 powi 53" using e by (intro power_int_increasing) simp_all
    finally have "?y \<le> 2 powi 53" using abs_ge_self [of ?y] by linarith
    moreover have "(2 powi 53 :: rat) = of_nat (2 ^ 53)" by simp
    ultimately have "?y \<le> of_nat (2 ^ 53)" by (simp only:)
    moreover have "0 \<le> ?y" using near_nonneg [OF near_wide] near_nonneg [OF near_of_nat] by simp
    ultimately have "f64_round ?y \<le> of_nat (2 ^ 53)" by (intro f64_round_le_nat) simp_all
    then show False using x67 by (simp add: f64_div_def)
  qed
  define k where "k = nat (f64_exponent ?y - 53)"
  have "f64_ulp ?y = 2 powi int (Suc k)" using e53 by (simp add: f64_ulp_def k_def)
  then have u: "f64_ulp ?y = of_int (2 * 2 ^ k)" by (simp only: power_int_of_nat) simp
  obtain m where m: "?x = of_int (m * (2 * 2 ^ k))"
    unfolding f64_div_def f64_round_def u using that [of "round_half_even (?y / f64_ulp ?y)"] that [of 0] u
    by (cases "?y = 0") simp_all
  have "0 \<le> ?x" using x67 by (rule order_trans [rotated]) simp
  then have m0: "0 \<le> m * (2 * 2 ^ k)" unfolding m by (simp only: of_int_0_le_iff)
  have r: "comet_mul_div_u128 n c c = min (nat (m * (2 * 2 ^ k))) u128_max"
    unfolding comet_mul_div_wide [OF wide c(1)] m using m0 x67 [unfolded m] by (auto simp: f64_as_u128_def simp del: of_int_mult)
  have "?x \<le> of_nat n * 2" using x nd unfolding abs_le_iff by linarith
  then have "(of_int (m * (2 * 2 ^ k)) :: rat) \<le> of_int (int n * 2)" unfolding m by simp
  then have le2: "m * (2 * 2 ^ k) \<le> int n * 2" by (simp only: of_int_le_iff)
  then have le: "nat (m * (2 * 2 ^ k)) \<le> u128_max" using assms(3) na by (simp add: u128_max_def nat_le_iff)
  have "even (comet_mul_div_u128 n c c)" unfolding r using le m0 by (simp add: min_def even_nat_iff)
  then have "even (int (comet_mul_div_u128 n c c))" by simp
  moreover have "int (comet_mul_div_u128 n c c) = a"
  proof -
    have s: "comet_sign a comet_BONE = 1" using a0 by (simp add: comet_sign_def comet_BONE_def)
    have "as_i128 (int (comet_mul_div_u128 n c c)) = a"
      using eq a0 BONE_simps(3) by (simp add: fixed_mul_floor_i128_def s n_def c_def i128_checked_mul_eq_Some)
    moreover have "int (comet_mul_div_u128 n c c) = m * (2 * 2 ^ k)" unfolding r using le m0 by (simp add: min_def)
    then have "in_i128 (int (comet_mul_div_u128 n c c))" using le2 m0 assms(3) na by (simp add: in_i128_def)
    ultimately show ?thesis by (simp add: as_i128_id)
  qed
  ultimately show False using assms(1) by simp
qed

lemma comet_wide_product_inexact_witness:
  "fixed_mul_floor_i128 (10 ^ 21 + 1) comet_BONE comet_BONE \<noteq> Some (10 ^ 21 + 1)"
  by (rule comet_wide_product_inexact) (simp_all add: comet_BONE_def u128_max_def)

end
