(* ===== verification/Quote_Engine.thy ===== *)
theory Quote_Engine
  imports Split_Optimizer Pool_Quotes Clmm_Pool "HOL-Library.Char_ord" "HOL-Library.List_Lexorder"
begin

text \<open>
  \<open>crates/router-engine/src/quote_engine.rs\<close>: the engine that joins the path finder, the local
  quotes of every kind of pool and the split optimiser. An engine is a record with the contents of its
  locks; an operation takes it and returns it updated. The outer \<open>option\<close> of a result is a panic.

  A DEX adapter (the trait of \<open>crates/dex-adapters/src/traits.rs\<close>) talks to the network: what it
  answers is a parameter, one function per call the engine makes. The wall clock is an argument too.
\<close>

section \<open>State\<close>

record clmm_quote_state =
  cq_source :: string
  cq_pool_address :: string
  cq_is_complete :: bool
  cq_pool :: clmm_pool
  cq_ticks :: tick_store
  cq_coverage :: "coverage_snapshot option"

record xyk_pool_state =
  xy_source :: string
  xy_pool_address :: string
  xy_token_a :: string
  xy_token_b :: string
  xy_fee_bps :: nat
  xy_reserve_a :: nat
  xy_reserve_b :: nat
  xy_updated_at_ms :: nat

record quote_hydration =
  hy_xyk_pools :: "string \<Rightarrow> xyk_pool_state option"
  hy_clmm_pools :: "string \<Rightarrow> clmm_quote_state option"
  hy_comet_pools :: "string \<Rightarrow> comet_pool_state option"
  hy_aquarius_pools :: "string \<Rightarrow> aquarius_pool_state option"

record adapter_trading_pair =
  at_token_a :: token_id
  at_token_b :: token_id
  at_pool_address :: string
  at_fee_bps :: nat
  at_reserve_a :: "nat option"
  at_reserve_b :: "nat option"

text \<open>\<open>da_get_quote\<close> is what is left of an adapter's answer after \<open>ok().flatten()\<close>. What
  \<open>get_trading_pairs\<close> answers differs from call to call and is an argument of the operations that
  call it, \<open>None\<close> being an error.\<close>

record dex_adapter =
  da_id :: string
  da_get_quote :: "token_id \<Rightarrow> token_id \<Rightarrow> nat \<Rightarrow> string \<Rightarrow> adapter_quote option"

record quote_engine =
  qe_path_finder :: path_finder
  qe_split_config :: split_config
  qe_adapters :: "dex_adapter list"
  qe_cached_pools :: "trading_pair list"
  qe_clmm_quote_states :: "string \<Rightarrow> clmm_quote_state option"
  qe_aquarius_pools :: "string \<Rightarrow> aquarius_pool_state option"

record route_request =
  rq_token_in :: token_id
  rq_token_out :: token_id
  rq_amount_in :: nat
  rq_slippage_bps :: "nat option"
  rq_max_hops :: "nat option"
  rq_max_splits :: "nat option"
  rq_prefer_soroban :: "bool option"

definition CLASSIC_SOURCE :: string where "CLASSIC_SOURCE = ''classic_dex''"

definition MIN_XYK_RESERVE_STROOPS :: nat where "MIN_XYK_RESERVE_STROOPS = 100000000"

text \<open>\<open>format!("{source}:{pool_address}")\<close>, the key of the xy=k and of the CLMM maps.\<close>

definition pool_key :: "string \<Rightarrow> string \<Rightarrow> string" where
  "pool_key source pool_address = source @ '':'' @ pool_address"

definition quote_engine_new :: "path_finder_config \<Rightarrow> split_config \<Rightarrow> quote_engine" where
  "quote_engine_new path_finder_config split_config =
     \<lparr>qe_path_finder = path_finder_new path_finder_config, qe_split_config = split_config,
      qe_adapters = [], qe_cached_pools = [], qe_clmm_quote_states = Map.empty,
      qe_aquarius_pools = Map.empty\<rparr>"

section \<open>Maintaining the state\<close>

definition set_aquarius_pools :: "(string \<Rightarrow> aquarius_pool_state option) \<Rightarrow> quote_engine \<Rightarrow> quote_engine" where
  "set_aquarius_pools pools eng = eng\<lparr>qe_aquarius_pools := pools\<rparr>"

definition update_clmm_quote_state ::
  "string \<Rightarrow> string \<Rightarrow> clmm_pool \<Rightarrow> tick_store \<Rightarrow> bool \<Rightarrow> coverage_snapshot option
    \<Rightarrow> quote_engine \<Rightarrow> quote_engine" where
  "update_clmm_quote_state source pool_address pool ts is_complete coverage eng =
     eng\<lparr>qe_clmm_quote_states := (qe_clmm_quote_states eng)(pool_key source pool_address \<mapsto>
       \<lparr>cq_source = source, cq_pool_address = pool_address, cq_is_complete = is_complete,
        cq_pool = pool, cq_ticks = ts, cq_coverage = coverage\<rparr>)\<rparr>"

definition to_trading_pair :: "string \<Rightarrow> adapter_trading_pair \<Rightarrow> trading_pair" where
  "to_trading_pair source p =
     \<lparr>tp_token_a = at_token_a p, tp_token_b = at_token_b p, tp_source = source,
      tp_pool_address = at_pool_address p, tp_fee_bps = at_fee_bps p,
      tp_reserve_a = at_reserve_a p, tp_reserve_b = at_reserve_b p\<rparr>"

text \<open>\<open>cache.retain(|p| p.source != source); cache.extend(pairs)\<close>\<close>

definition replace_cached :: "string \<Rightarrow> trading_pair list \<Rightarrow> trading_pair list \<Rightarrow> trading_pair list" where
  "replace_cached source pairs cache = filter (\<lambda>p. tp_source p \<noteq> source) cache @ pairs"

text \<open>The update of the path finder panics on a poisoned mutex (\<open>Path_Finder\<close>); the cached pools
  are then left as they were.\<close>

definition update_pairs_from_cache ::
  "string \<Rightarrow> (nat \<Rightarrow> nat) \<Rightarrow> trading_pair list \<Rightarrow> quote_engine \<Rightarrow> unit option \<times> quote_engine" where
  "update_pairs_from_cache source clock pairs eng =
     (let (done_upd, pf) = update_from_source source clock pairs (qe_path_finder eng);
          eng = eng\<lparr>qe_path_finder := pf\<rparr>
      in case done_upd of
           None \<Rightarrow> (None, eng)
         | Some _ \<Rightarrow> (Some (), eng\<lparr>qe_cached_pools := replace_cached source pairs (qe_cached_pools eng)\<rparr>))"

definition push_adapter :: "dex_adapter \<Rightarrow> quote_engine \<Rightarrow> quote_engine" where
  "push_adapter adapter eng = eng\<lparr>qe_adapters := qe_adapters eng @ [adapter]\<rparr>"

definition register_adapter ::
  "(nat \<Rightarrow> nat) \<Rightarrow> adapter_trading_pair list option \<Rightarrow> dex_adapter \<Rightarrow> quote_engine
    \<Rightarrow> unit option \<times> quote_engine" where
  "register_adapter clock answer adapter eng =
     (case answer of
        None \<Rightarrow> (Some (), push_adapter adapter eng)
      | Some pairs \<Rightarrow>
          let trading_pairs = map (to_trading_pair (da_id adapter)) pairs
          in case update_pairs_from_cache (da_id adapter) clock trading_pairs eng of
               (None, eng) \<Rightarrow> (None, eng)
             | (Some _, eng) \<Rightarrow> (Some (), push_adapter adapter eng))"

definition register_quote_adapter :: "dex_adapter \<Rightarrow> quote_engine \<Rightarrow> quote_engine" where
  "register_quote_adapter adapter eng = push_adapter adapter eng"

definition unregister_adapter :: "string \<Rightarrow> quote_engine \<Rightarrow> quote_engine" where
  "unregister_adapter adapter_id eng =
     eng\<lparr>qe_adapters := filter (\<lambda>a. da_id a \<noteq> adapter_id) (qe_adapters eng),
         qe_path_finder := clear_cache (qe_path_finder eng)\<rparr>"

text \<open>The loop over the adapters; \<open>clocks k\<close> are the times read for the \<open>k\<close>-th of them, and
  \<open>answers k\<close> the pairs it returns.\<close>

fun refresh_loop ::
  "(nat \<Rightarrow> nat \<Rightarrow> nat) \<Rightarrow> (nat \<Rightarrow> adapter_trading_pair list option) \<Rightarrow> nat \<Rightarrow> dex_adapter list
    \<Rightarrow> quote_engine \<Rightarrow> unit option \<times> quote_engine" where
  "refresh_loop clocks answers k [] eng = (Some (), eng)"
| "refresh_loop clocks answers k (adapter # rest) eng =
     (case answers k of
        None \<Rightarrow> refresh_loop clocks answers (Suc k) rest eng
      | Some pairs \<Rightarrow>
          (let (done_upd, pf) = update_from_source (da_id adapter) (clocks k)
                 (map (to_trading_pair (da_id adapter)) pairs) (qe_path_finder eng);
               eng = eng\<lparr>qe_path_finder := pf\<rparr>
           in case done_upd of None \<Rightarrow> (None, eng) | Some _ \<Rightarrow> refresh_loop clocks answers (Suc k) rest eng))"

definition refresh_pairs ::
  "(nat \<Rightarrow> nat \<Rightarrow> nat) \<Rightarrow> (nat \<Rightarrow> adapter_trading_pair list option) \<Rightarrow> quote_engine \<Rightarrow> unit option \<times> quote_engine" where
  "refresh_pairs clocks answers eng = refresh_loop clocks answers 0 (qe_adapters eng) eng"

section \<open>Looking up the state\<close>

definition cached_pool_edges :: "quote_engine \<Rightarrow> trading_pair list" where
  "cached_pool_edges eng = qe_cached_pools eng"

definition get_all_tokens :: "quote_engine \<Rightarrow> string list" where
  "get_all_tokens eng = sorted_list_of_set (fold (\<lambda>pair tokens. insert (canonical (tp_token_b pair))
     (insert (canonical (tp_token_a pair)) tokens)) (qe_cached_pools eng) {})"

definition find_pool_edge ::
  "trading_pair list \<Rightarrow> string \<Rightarrow> token_id \<Rightarrow> token_id \<Rightarrow> trading_pair option" where
  "find_pool_edge pools pool_address token_in token_out =
     (let in_key = canonical token_in; out_key = canonical token_out
      in List.find (\<lambda>p. tp_pool_address p = pool_address
           \<and> (canonical (tp_token_a p) = in_key \<and> canonical (tp_token_b p) = out_key
              \<or> canonical (tp_token_b p) = in_key \<and> canonical (tp_token_a p) = out_key)) pools)"

definition get_pool_indices :: "string \<Rightarrow> token_id \<Rightarrow> token_id \<Rightarrow> quote_engine \<Rightarrow> (nat \<times> nat) option" where
  "get_pool_indices pool_address token_in token_out eng =
     (let in_key = canonical token_in; out_key = canonical token_out
      in case qe_aquarius_pools eng pool_address of
           Some state \<Rightarrow>
             (case (position_of in_key (ap_tokens state), position_of out_key (ap_tokens state)) of
                (Some in_idx, Some out_idx) \<Rightarrow> Some (as_u32 in_idx, as_u32 out_idx)
              | _ \<Rightarrow> None)
         | None \<Rightarrow>
             map_option (\<lambda>pair. if in_key = canonical (tp_token_a pair) then (0, 1) else (1, 0))
               (find_pool_edge (qe_cached_pools eng) pool_address token_in token_out))"

definition reserves_for_edge :: "token_id \<Rightarrow> token_id \<Rightarrow> xyk_pool_state \<Rightarrow> (nat \<times> nat) option" where
  "reserves_for_edge token_in token_out hydrated =
     (let in_key = canonical token_in; out_key = canonical token_out
      in if in_key = xy_token_a hydrated \<and> out_key = xy_token_b hydrated
         then Some (xy_reserve_a hydrated, xy_reserve_b hydrated)
         else if in_key = xy_token_b hydrated \<and> out_key = xy_token_a hydrated
         then Some (xy_reserve_b hydrated, xy_reserve_a hydrated)
         else None)"

definition find_candidate_paths ::
  "nat \<Rightarrow> route_request \<Rightarrow> quote_engine \<Rightarrow> route_path list option \<times> quote_engine" where
  "find_candidate_paths now request eng =
     (let pf = qe_path_finder eng;
          max_hops = (case rq_max_hops request of Some n \<Rightarrow> n | None \<Rightarrow> default_max_hops pf);
          (paths, pf') = find_paths_with_limits now (rq_token_in request) (rq_token_out request) max_hops
             (default_max_multi_hop_paths pf) (default_max_direct_paths pf) pf
      in (paths, eng\<lparr>qe_path_finder := pf'\<rparr>))"

section \<open>Local quotes\<close>

definition clmm_coverage_input :: "clmm_quote_state \<Rightarrow> coverage_input option" where
  "clmm_coverage_input state =
     (case cq_coverage state of
        Some coverage \<Rightarrow> Some (coverage_from_snapshot (cq_pool state) coverage)
      | None \<Rightarrow>
          Option.bind (loaded_tick_range (cq_ticks state) (cp_tick_spacing (cq_pool state))) (\<lambda>range.
          Some \<lparr>ci_pool_tick = cp_tick (cq_pool state), ci_tick_spacing = cp_tick_spacing (cq_pool state),
                ci_is_complete = cq_is_complete state,
                ci_min_loaded_tick = map_option fst range, ci_max_loaded_tick = map_option snd range,
                ci_scanned_word_start = None, ci_scanned_word_end = None\<rparr>))"

definition clmm_impact_bps :: "nat \<Rightarrow> nat \<Rightarrow> nat option" where
  "clmm_impact_bps amount_in liquidity =
     (if liquidity > 0 then
        Option.bind (u128_checked_mul 2 liquidity) (\<lambda>twice.
        Some (min (u128_saturating_mul amount_in 10000 div twice) 10000))
      else Some 0)"

text \<open>The direction of a swap through a pool, when the tokens are the pool's.\<close>

definition clmm_direction :: "clmm_pool \<Rightarrow> token_id \<Rightarrow> token_id \<Rightarrow> bool option" where
  "clmm_direction pool token_in token_out =
     (if canonical token_in = cp_token0 pool \<and> canonical token_out = cp_token1 pool then Some True
      else if canonical token_in = cp_token1 pool \<and> canonical token_out = cp_token0 pool then Some False
      else None)"

definition clmm_state_quote ::
  "clmm_quote_state \<Rightarrow> token_id \<Rightarrow> token_id \<Rightarrow> nat \<Rightarrow> adapter_quote option option" where
  "clmm_state_quote state token_in token_out amount_in =
     Option.bind (clmm_coverage_input state) (\<lambda>coverage.
     case clmm_direction (cq_pool state) token_in token_out of
       None \<Rightarrow> Some None
     | Some zero_for_one \<Rightarrow>
         Option.bind (clmm_swap_allowed (cq_pool state) (cq_ticks state) amount_in zero_for_one coverage) (\<lambda>allowed.
         if \<not> allowed then Some None
         else
           Option.bind (simulate_swap (cq_pool state) (cq_ticks state) amount_in zero_for_one) (\<lambda>simulated.
           case simulated of
             None \<Rightarrow> Some None
           | Some (amount_out, _, _) \<Rightarrow>
               Option.bind (clmm_impact_bps amount_in (cp_liquidity (cq_pool state))) (\<lambda>impact.
               Some (Some \<lparr>aq_amount_out = amount_out, aq_fee_bps = cp_fee_bps (cq_pool state),
                           aq_price_impact_bps = impact\<rparr>)))))"

definition local_clmm_quote ::
  "token_id \<Rightarrow> token_id \<Rightarrow> nat \<Rightarrow> string \<Rightarrow> string \<Rightarrow> (string \<Rightarrow> clmm_quote_state option)
    \<Rightarrow> quote_hydration option \<Rightarrow> adapter_quote option option" where
  "local_clmm_quote token_in token_out amount_in pool_address source clmm_quote_states hydration =
     (if source \<noteq> ''sushi'' \<and> source \<noteq> ''aquarius_clmm'' then Some None
      else
        let key = pool_key source pool_address in
        case (case Option.bind hydration (\<lambda>h. hy_clmm_pools h key) of
                Some state \<Rightarrow> Some state
              | None \<Rightarrow> clmm_quote_states key) of
          None \<Rightarrow> Some None
        | Some state \<Rightarrow> clmm_state_quote state token_in token_out amount_in)"

definition local_comet_quote ::
  "token_id \<Rightarrow> token_id \<Rightarrow> nat \<Rightarrow> string \<Rightarrow> quote_hydration option \<Rightarrow> adapter_quote option option" where
  "local_comet_quote token_in token_out amount_in pool_address hydration =
     (case Option.bind hydration (\<lambda>h. hy_comet_pools h pool_address) of
        None \<Rightarrow> Some None
      | Some state \<Rightarrow> quote_comet_pool state (canonical token_in) (canonical token_out) amount_in)"

definition local_aquarius_quote ::
  "token_id \<Rightarrow> token_id \<Rightarrow> nat \<Rightarrow> string \<Rightarrow> quote_hydration option \<Rightarrow> adapter_quote option option" where
  "local_aquarius_quote token_in token_out amount_in pool_address hydration =
     (case Option.bind hydration (\<lambda>h. hy_aquarius_pools h pool_address) of
        None \<Rightarrow> Some None
      | Some state \<Rightarrow> quote_aquarius_pool state (canonical token_in) (canonical token_out) amount_in)"

text \<open>The formula of the source: the output and the fee reported.\<close>

definition product_out :: "nat \<Rightarrow> nat \<Rightarrow> nat \<Rightarrow> nat option" where
  "product_out in_after_fee reserve_in reserve_out =
     Option.bind (u128_checked_mul in_after_fee reserve_out) (\<lambda>numerator.
     Option.bind (u128_checked_add reserve_in in_after_fee) (\<lambda>denominator.
     if denominator = 0 then None else Some (numerator div denominator)))"

definition xyk_amount_out :: "string \<Rightarrow> nat \<Rightarrow> nat \<Rightarrow> nat \<Rightarrow> nat \<Rightarrow> (nat \<times> nat) option" where
  "xyk_amount_out source amount_in reserve_in reserve_out fee_bps =
     (if source = ''soroswap'' then
        Option.bind (u128_checked_mul amount_in 3) (\<lambda>t.
        Option.bind (u128_checked_add t 999) (\<lambda>t.
        Option.bind (u128_checked_sub amount_in (t div 1000)) (\<lambda>in_after_fee.
        Option.bind (product_out in_after_fee reserve_in reserve_out) (\<lambda>out.
        Some (out, 30)))))
      else if source = ''phoenix'' then
        Option.bind (product_out amount_in reserve_in reserve_out) (\<lambda>gross.
        Option.bind (u128_checked_mul gross fee_bps) (\<lambda>t.
        Option.bind (u128_checked_sub gross (t div 10000)) (\<lambda>net.
        Some (net, fee_bps))))
      else
        Option.bind (u128_checked_sub 10000 fee_bps) (\<lambda>keep.
        Option.bind (u128_checked_mul amount_in keep) (\<lambda>kept.
        Option.bind (product_out (kept div 10000) reserve_in reserve_out) (\<lambda>out.
        Some (out, fee_bps)))))"

definition xyk_price_impact :: "nat \<Rightarrow> nat \<Rightarrow> nat \<Rightarrow> nat \<Rightarrow> nat option" where
  "xyk_price_impact amount_in amount_out reserve_in reserve_out =
     Option.bind (u128_checked_mul amount_in reserve_out) (\<lambda>t.
     if reserve_in = 0 then None
     else
       let ideal_out = t div reserve_in in
       if ideal_out > 0 \<and> amount_out < ideal_out then
         Option.bind (u128_checked_mul (ideal_out - amount_out) 10000) (\<lambda>t. Some (as_u32 (t div ideal_out)))
       else Some 0)"

definition xyk_quote :: "string \<Rightarrow> nat \<Rightarrow> nat \<Rightarrow> nat \<Rightarrow> nat \<Rightarrow> adapter_quote option option" where
  "xyk_quote source amount_in reserve_in reserve_out fee_bps =
     (if reserve_in = 0 \<or> reserve_out = 0 \<or> reserve_in < MIN_XYK_RESERVE_STROOPS
         \<or> reserve_out < MIN_XYK_RESERVE_STROOPS then Some None
      else
        Option.bind (xyk_amount_out source amount_in reserve_in reserve_out fee_bps) (\<lambda>(amount_out, fee_bps).
        if amount_out = 0 then Some None
        else
          Option.bind (xyk_price_impact amount_in amount_out reserve_in reserve_out) (\<lambda>impact.
          Some (Some \<lparr>aq_amount_out = amount_out, aq_fee_bps = fee_bps, aq_price_impact_bps = impact\<rparr>))))"

text \<open>The reserves in the direction of the hop: the hydrated ones, else those of the cached edge.\<close>

definition xyk_reserves ::
  "token_id \<Rightarrow> token_id \<Rightarrow> trading_pair \<Rightarrow> xyk_pool_state option \<Rightarrow> (nat \<times> nat) option" where
  "xyk_reserves token_in token_out pair hydrated =
     (case hydrated of
        Some h \<Rightarrow> reserves_for_edge token_in token_out h
      | None \<Rightarrow>
          if canonical token_in = canonical (tp_token_a pair) then
            Option.bind (tp_reserve_a pair) (\<lambda>a. map_option (\<lambda>b. (a, b)) (tp_reserve_b pair))
          else if canonical token_in = canonical (tp_token_b pair) then
            Option.bind (tp_reserve_b pair) (\<lambda>b. map_option (\<lambda>a. (b, a)) (tp_reserve_a pair))
          else None)"

definition local_xyk_quote ::
  "token_id \<Rightarrow> token_id \<Rightarrow> nat \<Rightarrow> string \<Rightarrow> string \<Rightarrow> trading_pair list \<Rightarrow> quote_hydration option
    \<Rightarrow> adapter_quote option option" where
  "local_xyk_quote token_in token_out amount_in pool_address source cached_pools hydration =
     (case find_pool_edge cached_pools pool_address token_in token_out of
        None \<Rightarrow> Some None
      | Some pair \<Rightarrow>
          let hydrated = Option.bind hydration (\<lambda>h. hy_xyk_pools h (pool_key source pool_address));
              fee_bps = (case hydrated of Some h \<Rightarrow> xy_fee_bps h | None \<Rightarrow> tp_fee_bps pair)
          in (case xyk_reserves token_in token_out pair hydrated of
                None \<Rightarrow> Some None
              | Some (reserve_in, reserve_out) \<Rightarrow> xyk_quote source amount_in reserve_in reserve_out fee_bps))"

definition local_quote ::
  "token_id \<Rightarrow> token_id \<Rightarrow> nat \<Rightarrow> string \<Rightarrow> string \<Rightarrow> trading_pair list
    \<Rightarrow> (string \<Rightarrow> clmm_quote_state option) \<Rightarrow> quote_hydration option \<Rightarrow> adapter_quote option option" where
  "local_quote token_in token_out amount_in pool_address source cached_pools clmm_quote_states hydration =
     Option.bind (local_clmm_quote token_in token_out amount_in pool_address source clmm_quote_states hydration)
       (\<lambda>clmm_quote.
     case clmm_quote of
       Some q \<Rightarrow> Some (Some q)
     | None \<Rightarrow>
         if source = ''comet'' then local_comet_quote token_in token_out amount_in pool_address hydration
         else if source = ''aquarius'' then local_aquarius_quote token_in token_out amount_in pool_address hydration
         else local_xyk_quote token_in token_out amount_in pool_address source cached_pools hydration)"

section \<open>Quoting a path\<close>

definition hop_quote ::
  "quote_engine \<Rightarrow> dex_adapter list \<Rightarrow> quote_hydration option \<Rightarrow> token_id \<Rightarrow> token_id \<Rightarrow> nat
    \<Rightarrow> string \<Rightarrow> string \<Rightarrow> adapter_quote option option" where
  "hop_quote eng adapters hydration token_in token_out amount pool_address source =
     (if source = ''sushi'' \<or> source = ''aquarius_clmm'' then
        local_clmm_quote token_in token_out amount pool_address source (qe_clmm_quote_states eng) hydration
      else if source = ''comet'' then local_comet_quote token_in token_out amount pool_address hydration
      else if source = ''aquarius'' then local_aquarius_quote token_in token_out amount pool_address hydration
      else
        let local = local_quote token_in token_out amount pool_address source (qe_cached_pools eng)
              (qe_clmm_quote_states eng) hydration
        in if source = CLASSIC_SOURCE then
             Option.bind local (\<lambda>q.
             case q of
               Some q \<Rightarrow> Some (Some q)
             | None \<Rightarrow>
                 Some (case List.find (\<lambda>a. da_id a = source) adapters of
                         Some adapter \<Rightarrow> da_get_quote adapter token_in token_out amount pool_address
                       | None \<Rightarrow> None))
           else local)"

text \<open>The loop over the hops from the \<open>i\<close>-th on, with the amount that reaches it, the fees so far
  and the largest impact. Indexing past the tokens or the pools panics.\<close>

fun quote_hops ::
  "quote_engine \<Rightarrow> dex_adapter list \<Rightarrow> quote_hydration option \<Rightarrow> route_path \<Rightarrow> nat \<Rightarrow> string list
    \<Rightarrow> nat \<Rightarrow> nat \<Rightarrow> nat \<Rightarrow> (nat \<times> nat \<times> nat) option option" where
  "quote_hops eng adapters hydration path i [] amount fee impact = Some (Some (amount, fee, impact))"
| "quote_hops eng adapters hydration path i (source # rest) amount fee impact =
     Option.bind (nth_opt (rp_tokens path) i) (\<lambda>token_in.
     Option.bind (nth_opt (rp_tokens path) (i + 1)) (\<lambda>token_out.
     Option.bind (nth_opt (rp_pool_addresses path) i) (\<lambda>pool_address.
     Option.bind (hop_quote eng adapters hydration token_in token_out amount pool_address source) (\<lambda>hop.
     case hop of
       None \<Rightarrow> Some None
     | Some q \<Rightarrow>
         Option.bind (u32_checked_add fee (aq_fee_bps q)) (\<lambda>fee'.
         quote_hops eng adapters hydration path (i + 1) rest (aq_amount_out q) fee'
           (max impact (aq_price_impact_bps q)))))))"

definition quote_path ::
  "quote_engine \<Rightarrow> dex_adapter list \<Rightarrow> quote_hydration option \<Rightarrow> nat \<Rightarrow> quote_fn" where
  "quote_path eng adapters hydration now path amount_in =
     (if \<not> path_allowed (qe_path_finder eng) path then Some None
      else
        Option.bind (quote_hops eng adapters hydration path 0 (rp_sources path) amount_in 0 0) (\<lambda>hops.
        case hops of
          None \<Rightarrow> Some None
        | Some (amount_out, fee_bps, impact) \<Rightarrow>
            if rp_tokens path = [] then Some None
            else if length (rp_tokens path) < 2 then None
            else
              Some (Some \<lparr>qt_source = join ''+'' (rp_sources path),
                          qt_pool_address = join ''+'' (rp_pool_addresses path),
                          qt_token_in = hd (rp_tokens path), qt_token_out = last (rp_tokens path),
                          qt_amount_in = amount_in, qt_amount_out = amount_out,
                          qt_price_impact_bps = impact, qt_fee_bps = fee_bps,
                          qt_path = butlast (tl (rp_tokens path)), qt_timestamp_ms = now\<rparr>)))"

definition quote_path_at_amount ::
  "quote_engine \<Rightarrow> route_path \<Rightarrow> nat \<Rightarrow> quote_hydration option \<Rightarrow> nat \<Rightarrow> quote option option" where
  "quote_path_at_amount eng path amount_in hydration now =
     quote_path eng (qe_adapters eng) hydration now path amount_in"

section \<open>Which paths may be returned\<close>

definition is_classic_only_path :: "route_path \<Rightarrow> bool" where
  "is_classic_only_path path \<longleftrightarrow>
     rp_sources path \<noteq> [] \<and> list_all (\<lambda>source. source = CLASSIC_SOURCE) (rp_sources path)"

definition path_contains_classic :: "route_path \<Rightarrow> bool" where
  "path_contains_classic path \<longleftrightarrow> list_ex (\<lambda>source. source = CLASSIC_SOURCE) (rp_sources path)"

definition path_is_executable :: "route_path \<Rightarrow> bool" where
  "path_is_executable path \<longleftrightarrow> is_classic_only_path path \<or> \<not> path_contains_classic path"

section \<open>The cache of quotes\<close>

text \<open>The closure given to the split optimiser: one map per request, keyed by the joined pool
  addresses and the amount rounded down to a multiple of the bucket. An entry is used only when it was
  quoted for exactly the amount asked for.\<close>

type_synonym quote_cache = "string \<times> nat \<Rightarrow> quote option option"

definition amount_bucket :: "nat \<Rightarrow> nat" where "amount_bucket amount_in = max (amount_in div 512) 1"

definition cache_key :: "nat \<Rightarrow> route_path \<Rightarrow> nat \<Rightarrow> string \<times> nat" where
  "cache_key bucket path amount =
     (join ''+'' (rp_pool_addresses path), if amount = 0 then 0 else amount div bucket * bucket)"

definition cached_quote ::
  "nat \<Rightarrow> quote_fn \<Rightarrow> route_path \<Rightarrow> nat \<Rightarrow> quote_cache \<Rightarrow> (quote option \<times> quote_cache) option" where
  "cached_quote bucket quote_fn path amount cache =
     (let key = cache_key bucket path amount;
          hit = (case cache key of
                   Some (Some q) \<Rightarrow> if qt_amount_in q = amount then Some q else None
                 | _ \<Rightarrow> None)
      in case hit of
           Some q \<Rightarrow> Some (Some q, cache)
         | None \<Rightarrow>
             Option.bind (quote_fn path amount) (\<lambda>quote. Some (quote, cache(key \<mapsto> quote))))"

section \<open>Routes\<close>

text \<open>The quotes of all paths, those without a quote left out.\<close>

fun quote_all :: "quote_fn \<Rightarrow> nat \<Rightarrow> route_path list \<Rightarrow> quoted_path list option" where
  "quote_all qf amount [] = Some []"
| "quote_all qf amount (p # ps) =
     Option.bind (qf p amount) (\<lambda>quote.
     Option.bind (quote_all qf amount ps) (\<lambda>rest.
     Some (case quote of Some q \<Rightarrow> \<lparr>qp_path = p, qp_quote = q\<rparr> # rest | None \<Rightarrow> rest)))"

text \<open>\<open>max_by_key\<close>: the last of the elements with the greatest output.\<close>

fun max_by_output :: "quoted_path list \<Rightarrow> quoted_path option" where
  "max_by_output [] = None"
| "max_by_output (p # ps) =
     (case max_by_output ps of
        None \<Rightarrow> Some p
      | Some q \<Rightarrow> Some (if qt_amount_out (qp_quote p) > qt_amount_out (qp_quote q) then p else q))"

definition classic_route :: "quoted_path list \<Rightarrow> nat \<Rightarrow> nat \<Rightarrow> nat \<Rightarrow> optimal_route option option" where
  "classic_route quoted amount_in slippage_bps elapsed =
     (case max_by_output quoted of
        None \<Rightarrow> Some None
      | Some top_path \<Rightarrow>
          Option.bind (apply_slippage (qt_amount_out (qp_quote top_path)) slippage_bps) (\<lambda>minimum_out.
          Some (Some
            \<lparr>rt_sub_orders = [\<lparr>so_path = qp_path top_path, so_amount_in = amount_in,
                               so_expected_amount_out = qt_amount_out (qp_quote top_path), so_fraction = 1\<rparr>],
             rt_total_amount_in = amount_in, rt_total_expected_out = qt_amount_out (qp_quote top_path),
             rt_price_impact_bps = qt_price_impact_bps (qp_quote top_path), rt_is_split = False,
             rt_improvement_bps = 0, rt_minimum_out = minimum_out, rt_compute_time_ms = elapsed,
             rt_debug = None\<rparr>)))"

definition better_route :: "nat \<Rightarrow> nat \<Rightarrow> optimal_route option \<Rightarrow> optimal_route option \<Rightarrow> optimal_route" where
  "better_route amount_in elapsed classic soroban =
     (case (classic, soroban) of
        (Some c, Some s) \<Rightarrow> if rt_total_expected_out c > rt_total_expected_out s then c else s
      | (Some c, None) \<Rightarrow> c
      | (None, Some s) \<Rightarrow> s
      | (None, None) \<Rightarrow> empty_route amount_in elapsed)"

definition candidate_filter :: "quote_engine \<Rightarrow> bool \<Rightarrow> route_path \<Rightarrow> bool" where
  "candidate_filter eng prefer_soroban path \<longleftrightarrow>
     path_allowed (qe_path_finder eng) path
     \<and> (if prefer_soroban then \<not> path_contains_classic path else path_is_executable path)"

text \<open>The optimiser asks \<open>quote_path\<close> itself: the cache in front of it only shortens the run, as
  long as no two candidates share a key.\<close>

definition get_route_with_paths ::
  "nat \<Rightarrow> nat \<Rightarrow> route_request \<Rightarrow> route_path list \<Rightarrow> quote_hydration option \<Rightarrow> quote_engine
    \<Rightarrow> optimal_route option \<times> quote_engine" where
  "get_route_with_paths now elapsed request paths hydration eng =
     (let slippage_bps = (case rq_slippage_bps request of Some s \<Rightarrow> s | None \<Rightarrow> 50);
          prefer_soroban = (case rq_prefer_soroban request of Some b \<Rightarrow> b | None \<Rightarrow> False);
          amount_in = rq_amount_in request;
          paths = filter (candidate_filter eng prefer_soroban) paths
      in if paths = [] then (Some (empty_route amount_in elapsed), eng)
         else
           let eng = set_aquarius_pools (case hydration of Some h \<Rightarrow> hy_aquarius_pools h | None \<Rightarrow> Map.empty) eng;
               qf = quote_path eng (qe_adapters eng) hydration now
           in (Option.bind (quote_all qf amount_in paths) (\<lambda>quoted.
               if quoted = [] then Some (empty_route amount_in elapsed)
               else
                 let (classic, soroban) = partition (\<lambda>q. is_classic_only_path (qp_path q)) quoted
                 in Option.bind (classic_route classic amount_in slippage_bps elapsed) (\<lambda>best_classic.
                    Option.bind
                      (if soroban = [] then Some None
                       else map_option Some (optimize (qe_split_config eng) qf elapsed soroban amount_in
                              slippage_bps (rq_max_splits request))) (\<lambda>best_soroban.
                    Some (better_route amount_in elapsed best_classic best_soroban)))),
               eng))"

definition get_route ::
  "nat \<Rightarrow> nat \<Rightarrow> route_request \<Rightarrow> quote_engine \<Rightarrow> optimal_route option \<times> quote_engine" where
  "get_route now elapsed request eng =
     (case find_candidate_paths now request eng of
        (None, eng) \<Rightarrow> (None, eng)
      | (Some paths, eng) \<Rightarrow> get_route_with_paths now elapsed request paths None eng)"

end
