(* ===== verification/Quote_Runs.thy ===== *)
theory Quote_Runs
  imports Quote_Engine Split_Properties
begin

text \<open>
  The states a quote engine can reach, by any sequence of its operations with any answers of the
  adapters and any clock readings, and what holds of all of them; the paths of the sub-orders of a
  route; and the cache in front of the quoting function.
\<close>

section \<open>Reachable engines\<close>

text \<open>Every operation but \<open>refresh_pairs\<close>, which \<open>engine_run\<close> adds. The callers of
  \<open>update_pairs_from_cache\<close> pass the pairs of the source they name.\<close>

inductive engine_step :: "quote_engine \<Rightarrow> quote_engine \<Rightarrow> bool" where
  step_register: "engine_step eng (snd (register_adapter clock answer adapter eng))"
| step_register_quote: "engine_step eng (register_quote_adapter adapter eng)"
| step_update: "\<forall>p \<in> set pairs. tp_source p = source
    \<Longrightarrow> engine_step eng (snd (update_pairs_from_cache source clock pairs eng))"
| step_unregister: "engine_step eng (unregister_adapter adapter_id eng)"
| step_clmm: "engine_step eng (update_clmm_quote_state source pool pstate ts whole coverage eng)"
| step_aquarius: "engine_step eng (set_aquarius_pools pools eng)"
| step_paths: "canonical_token (rq_token_in request) \<Longrightarrow> canonical_token (rq_token_out request)
    \<Longrightarrow> engine_step eng (snd (find_candidate_paths now request eng))"
| step_route_with: "engine_step eng (snd (get_route_with_paths now elapsed request paths hydration eng))"
| step_route: "canonical_token (rq_token_in request) \<Longrightarrow> canonical_token (rq_token_out request)
    \<Longrightarrow> engine_step eng (snd (get_route now elapsed request eng))"

inductive engine_run :: "path_finder_config \<Rightarrow> split_config \<Rightarrow> quote_engine \<Rightarrow> bool" for config splits where
  run_start: "engine_run config splits (quote_engine_new config splits)"
| run_step: "engine_run config splits eng \<Longrightarrow> engine_step eng eng' \<Longrightarrow> engine_run config splits eng'"
| run_refresh: "engine_run config splits eng \<Longrightarrow> engine_run config splits (snd (refresh_pairs clocks answers eng))"

text \<open>The runs without \<open>refresh_pairs\<close>.\<close>

inductive plain_run :: "path_finder_config \<Rightarrow> split_config \<Rightarrow> quote_engine \<Rightarrow> bool" for config splits where
  plain_start: "plain_run config splits (quote_engine_new config splits)"
| plain_step: "plain_run config splits eng \<Longrightarrow> engine_step eng eng' \<Longrightarrow> plain_run config splits eng'"

lemma plain_run_engine: "plain_run config splits eng \<Longrightarrow> engine_run config splits eng"
  by (induction rule: plain_run.induct) (auto intro: engine_run.intros)

text \<open>What a step does to the path finder: nothing, or one of its operations.\<close>

lemma update_pairs_finder:
  "qe_path_finder (snd (update_pairs_from_cache source clock pairs eng))
     = snd (update_from_source source clock pairs (qe_path_finder eng))"
  "qe_split_config (snd (update_pairs_from_cache source clock pairs eng)) = qe_split_config eng"
  by (auto simp: update_pairs_from_cache_def Let_def split: prod.splits option.splits)

lemma register_adapter_finder:
  "qe_path_finder (snd (register_adapter clock answer adapter eng)) =
     (case answer of
        None \<Rightarrow> qe_path_finder eng
      | Some pairs \<Rightarrow> snd (update_from_source (da_id adapter) clock
          (map (to_trading_pair (da_id adapter)) pairs) (qe_path_finder eng)))"
  "qe_split_config (snd (register_adapter clock answer adapter eng)) = qe_split_config eng"
proof -
  have "qe_path_finder (snd (case update_pairs_from_cache source clock pairs eng of
      (None, eng) \<Rightarrow> (None, eng) | (Some _, eng) \<Rightarrow> (Some (), push_adapter adapter eng)))
    = qe_path_finder (snd (update_pairs_from_cache source clock pairs eng))" for source pairs
    by (auto simp: push_adapter_def split: prod.splits option.splits)
  moreover have "qe_split_config (snd (case update_pairs_from_cache source clock pairs eng of
      (None, eng) \<Rightarrow> (None, eng) | (Some _, eng) \<Rightarrow> (Some (), push_adapter adapter eng)))
    = qe_split_config eng" for source pairs
    using update_pairs_finder(2) [of source clock pairs eng]
    by (auto simp: push_adapter_def split: prod.splits option.splits)
  ultimately show "qe_path_finder (snd (register_adapter clock answer adapter eng)) =
     (case answer of
        None \<Rightarrow> qe_path_finder eng
      | Some pairs \<Rightarrow> snd (update_from_source (da_id adapter) clock
          (map (to_trading_pair (da_id adapter)) pairs) (qe_path_finder eng)))"
    "qe_split_config (snd (register_adapter clock answer adapter eng)) = qe_split_config eng"
    by (simp_all add: register_adapter_def push_adapter_def update_pairs_finder Let_def split: option.split)
qed

lemma find_candidate_paths_finder:
  "find_candidate_paths now request eng = (paths, eng') \<Longrightarrow>
     \<exists>h. find_paths_with_limits now (rq_token_in request) (rq_token_out request) h
           (default_max_multi_hop_paths (qe_path_finder eng)) (default_max_direct_paths (qe_path_finder eng))
           (qe_path_finder eng) = (paths, qe_path_finder eng')
       \<and> eng' = eng\<lparr>qe_path_finder := qe_path_finder eng'\<rparr>"
  by (auto simp: find_candidate_paths_def Let_def split: prod.splits)

lemma route_with_paths_state:
  "snd (get_route_with_paths now elapsed request paths hydration eng)
     = eng\<lparr>qe_aquarius_pools := qe_aquarius_pools (snd (get_route_with_paths now elapsed request paths hydration eng))\<rparr>"
  by (simp add: get_route_with_paths_def Let_def set_aquarius_pools_def)

lemma route_with_paths_finder [simp]:
  "qe_path_finder (snd (get_route_with_paths now elapsed request paths hydration eng)) = qe_path_finder eng"
  "qe_split_config (snd (get_route_with_paths now elapsed request paths hydration eng)) = qe_split_config eng"
  "qe_cached_pools (snd (get_route_with_paths now elapsed request paths hydration eng)) = qe_cached_pools eng"
  by (subst route_with_paths_state, simp)+

lemma find_candidate_paths_run:
  assumes "finder_run config (qe_path_finder eng)" "canonical_token (rq_token_in request)"
    "canonical_token (rq_token_out request)"
  shows "finder_run config (qe_path_finder (snd (find_candidate_paths now request eng)))"
    and "qe_split_config (snd (find_candidate_paths now request eng)) = qe_split_config eng"
    and "qe_cached_pools (snd (find_candidate_paths now request eng)) = qe_cached_pools eng"
proof -
  obtain paths eng' where f: "find_candidate_paths now request eng = (paths, eng')" by force
  obtain h where h: "find_paths_with_limits now (rq_token_in request) (rq_token_out request) h
      (default_max_multi_hop_paths (qe_path_finder eng)) (default_max_direct_paths (qe_path_finder eng))
      (qe_path_finder eng) = (paths, qe_path_finder eng')" and e: "eng' = eng\<lparr>qe_path_finder := qe_path_finder eng'\<rparr>"
    using find_candidate_paths_finder [OF f] by blast
  show "finder_run config (qe_path_finder (snd (find_candidate_paths now request eng)))"
    using run_find [OF assms] h f by (metis snd_conv)
  show "qe_split_config (snd (find_candidate_paths now request eng)) = qe_split_config eng"
    unfolding f snd_conv by (subst e) simp
  show "qe_cached_pools (snd (find_candidate_paths now request eng)) = qe_cached_pools eng"
    unfolding f snd_conv by (subst e) simp
qed

lemma get_route_state:
  "snd (get_route now elapsed request eng) =
     (case find_candidate_paths now request eng of
        (None, eng1) \<Rightarrow> eng1
      | (Some paths, eng1) \<Rightarrow> snd (get_route_with_paths now elapsed request paths None eng1))"
  by (simp add: get_route_def split: prod.split option.split)

lemma get_route_fields:
  "qe_path_finder (snd (get_route now elapsed request eng)) = qe_path_finder (snd (find_candidate_paths now request eng))"
  "qe_split_config (snd (get_route now elapsed request eng)) = qe_split_config (snd (find_candidate_paths now request eng))"
  "qe_cached_pools (snd (get_route now elapsed request eng)) = qe_cached_pools (snd (find_candidate_paths now request eng))"
  unfolding get_route_state by (simp_all split: prod.split option.split)

lemma engine_step_finder:
  assumes "engine_step eng eng'" "finder_run config (qe_path_finder eng)"
  shows "finder_run config (qe_path_finder eng') \<and> qe_split_config eng' = qe_split_config eng"
  using assms
proof (cases rule: engine_step.cases)
  case (step_register clock answer adapter)
  then show ?thesis using assms(2) register_adapter_finder [of clock answer adapter eng]
    by (auto intro: run_update split: option.split)
next
  case (step_update source clock pairs)
  then show ?thesis using assms(2) by (auto simp: update_pairs_finder intro: run_update)
next
  case (step_unregister adapter_id)
  then show ?thesis using assms(2) by (simp add: unregister_adapter_def run_clear)
next
  case (step_paths request now)
  then show ?thesis using find_candidate_paths_run [OF assms(2)] by simp
next
  case (step_route request now elapsed)
  then show ?thesis using find_candidate_paths_run [OF assms(2)] by (simp add: get_route_fields)
qed (simp_all add: register_quote_adapter_def push_adapter_def update_clmm_quote_state_def set_aquarius_pools_def)

lemma refresh_loop_finder:
  "finder_run config (qe_path_finder eng) \<Longrightarrow>
     finder_run config (qe_path_finder (snd (refresh_loop clocks answers k adapters eng)))
     \<and> qe_split_config (snd (refresh_loop clocks answers k adapters eng)) = qe_split_config eng
     \<and> qe_cached_pools (snd (refresh_loop clocks answers k adapters eng)) = qe_cached_pools eng"
proof (induction clocks answers k adapters eng rule: refresh_loop.induct)
  case (2 clocks answers k adapter rest eng)
  show ?case
  proof (cases "answers k")
    case None
    then show ?thesis using 2 by simp
  next
    case (Some pairs)
    obtain u pf where u: "update_from_source (da_id adapter) (clocks k)
        (map (to_trading_pair (da_id adapter)) pairs) (qe_path_finder eng) = (u, pf)" by force
    then have "finder_run config pf" using run_update [OF "2.prems"] by (metis snd_conv)
    then show ?thesis using "2.IH"(2) [OF Some u [symmetric]] Some u by (cases u) (simp_all add: Let_def)
  qed
qed simp

lemma engine_run_finder: "engine_run config splits eng \<Longrightarrow> finder_run config (qe_path_finder eng) \<and> qe_split_config eng = splits"
proof (induction rule: engine_run.induct)
  case run_start
  then show ?case by (simp add: quote_engine_new_def run_new)
next
  case (run_step eng eng')
  then show ?case using engine_step_finder by metis
next
  case (run_refresh eng clocks answers)
  then show ?case using refresh_loop_finder by (metis refresh_pairs_def)
qed

section \<open>The paths of a route\<close>

lemma lookup_paths:
  assumes "finder_run config pf" "canonical_token token_in" "canonical_token token_out"
    and "find_paths_with_limits now token_in token_out h m d pf = (Some paths, pf')"
  shows "paths = Token_Graph.find_paths (pf_graph pf) token_in token_out h m d"
proof (cases rule: find_cases [of pf token_in token_out h m d now])
  case (hit cached)
  then show ?thesis
    using cache_coherentD [OF finder_run_coherent [OF assms(1)] _ assms(2,3)] assms(4) by auto
qed (use assms(4) in auto)

lemma lookup_allowed:
  assumes "find_paths_with_limits now token_in token_out h m d pf = (paths, pf')"
  shows "path_allowed pf' = path_allowed pf"
proof -
  have "pf_excluded_tokens pf' = pf_excluded_tokens pf"
    using excluded_unchanged(4) [of now token_in token_out h m d pf] assms by simp
  then have "token_allowed pf' = token_allowed pf" by (simp add: token_allowed_def fun_eq_iff)
  then show ?thesis by (intro ext) (simp only: path_allowed_def)
qed

lemma found_paths_are_routes:
  assumes "finder_run config pf" "canonical_token token_in" "canonical_token token_out"
    and "find_paths_with_limits now token_in token_out h m d pf = (Some paths, pf')" "p \<in> set paths"
  shows "\<exists>es. p = route token_in es \<and> swap_route (pf_graph pf) token_in (canonical token_out) es
     \<and> (length es = 1 \<or> length es \<le> h)" and "path_allowed pf p"
proof -
  obtain es where es: "p = route token_in es" "swap_route (pf_graph pf) token_in (canonical token_out) es"
    "length es = 1 \<or> length es \<le> h"
    using find_paths_routes [of p "pf_graph pf" token_in token_out h m d] assms(5) lookup_paths [OF assms(1-4)] by blast
  then show "\<exists>es. p = route token_in es \<and> swap_route (pf_graph pf) token_in (canonical token_out) es
     \<and> (length es = 1 \<or> length es \<le> h)" by blast
  show "path_allowed pf p" using swap_route_allowed [OF finder_run_allowed [OF assms(1)] es(2)] es(1) by simp
qed

lemma dust_loop_in:
  assumes "dust_loop cfg qf candidates T active split dust = Some (active', split', dust')"
    and "\<forall>k \<in> set active. k < length candidates"
  shows "\<forall>k \<in> set active'. k < length candidates"
  using assms
proof (induction cfg qf candidates T active split dust rule: dust_loop.induct)
  case (1 cfg qf candidates T active split dust)
  note eq = dust_loop.simps [of cfg qf candidates T active split dust]
  from 1(2) [unfolded eq] obtain total_out where t: "u128_sum_checked (map snd split) = Some total_out"
    by (auto simp: bind_eq_Some_conv)
  show ?case
  proof (cases "total_out = 0 \<or> length active < 2")
    case True
    then show ?thesis using 1(2,3) by (simp add: eq t)
  next
    case go: False
    from 1(2) obtain kept where k: "kept_positions cfg candidates active T total_out 0 split = Some kept"
      unfolding eq t bind.simps if_not_P [OF go] by (auto simp: bind_eq_Some_conv)
    show ?thesis
    proof (cases "length kept = nonzero_legs split \<or> kept = []")
      case True
      then show ?thesis using 1(2,3) go by (simp add: eq t k)
    next
      case False
      define act where "act = map (\<lambda>position. active ! position) kept"
      define cs where "cs = map (\<lambda>idx. candidates ! idx) act"
      from 1(2) obtain split1 where s1: "(if length cs = 1 then
            Option.bind (quote_out qf (qp_path (hd cs)) T) (\<lambda>out. Some [(T, out)])
          else optimize_n_paths cfg qf cs T) = Some split1"
        "dust_loop cfg qf candidates T act split1 (dust + (nonzero_legs split - length kept)) = Some (active', split', dust')"
        unfolding eq t bind.simps if_not_P [OF go] k if_not_P [OF False] Let_def act_def [symmetric] cs_def [symmetric]
        by (auto simp: bind_eq_Some_conv)
      have "\<forall>k \<in> set act. k < length candidates" using kept_positions_in [OF k] by (auto simp: act_def)
      then show ?thesis using 1(1) [OF t go k False act_def cs_def s1] by blast
    qed
  qed
qed

lemma sub_orders_from_paths:
  "sub_orders_from cs T i legs = Some os \<Longrightarrow> so \<in> set os \<Longrightarrow> so_path so \<in> qp_path ` set cs"
proof (induction legs arbitrary: i os)
  case (Cons leg legs)
  obtain amount out where leg: "leg = (amount, out)" by force
  from Cons.prems(1) obtain rest where r: "i < length cs" "sub_orders_from cs T (Suc i) legs = Some rest"
    "os = \<lparr>so_path = qp_path (cs ! i), so_amount_in = amount, so_expected_amount_out = out,
      so_fraction = f64_div (f64_of_nat amount) (f64_of_nat T)\<rparr> # rest"
    by (auto simp: leg bind_eq_Some_conv nth_opt_def split: if_splits)
  show ?case
  proof (cases "so \<in> set rest")
    case True
    then show ?thesis using Cons.IH [OF r(2)] by blast
  next
    case False
    then have "so_path so = qp_path (cs ! i)" using Cons.prems(2) r(3) by auto
    then show ?thesis using nth_mem [OF r(1)] by blast
  qed
qed simp

text \<open>The optimiser returns no path but those it was given.\<close>

lemma optimize_paths_in:
  assumes "optimize cfg qf elapsed quoted T slippage max_splits = Some r" "so \<in> set (rt_sub_orders r)"
  shows "so_path so \<in> qp_path ` set quoted"
proof (cases "quoted = []")
  case True
  then show ?thesis using assms by (auto simp: optimize_def empty_route_def)
next
  case False
  from assms(1) False show ?thesis
  proof (cases rule: optimize_routeE)
    case (single debug)
    have "so_path so = qp_path (hd (sort_by_output quoted))"
      using single_routeD(6) [OF single] assms(2) by (auto simp: map_eq_Cons_conv)
    then show ?thesis using ranked_best(2) [of "hd quoted" quoted] False by auto
  next
    case (split n candidates split0 indices split' dust)
    have "\<forall>k \<in> set indices. k < length candidates"
      using split(6) dust_loop_in [of cfg qf candidates T "[0..<length candidates]" split0 0 indices split' dust]
      by (auto simp: filter_dust_split_legs_def split: if_splits)
    then have "set (map (\<lambda>idx. candidates ! idx) indices) \<subseteq> set candidates" by auto
    moreover have "set candidates \<subseteq> set quoted" unfolding split(4) by (auto simp: sort_by_output_def dest: in_set_takeD)
    moreover have "so_path so \<in> qp_path ` set (map (\<lambda>idx. candidates ! idx) indices)"
      using sub_orders_from_paths split(10) assms(2) unfolding build_sub_orders_def by blast
    ultimately show ?thesis by blast
  qed
qed

section \<open>The cache in front of the quotes\<close>

text \<open>A sequence of questions answered through the cache, and answered directly.\<close>

fun cached_answers :: "nat \<Rightarrow> quote_fn \<Rightarrow> (route_path \<times> nat) list \<Rightarrow> quote_cache \<Rightarrow> quote option list option" where
  "cached_answers bucket qf [] cache = Some []"
| "cached_answers bucket qf ((path, amount) # rest) cache =
     Option.bind (cached_quote bucket qf path amount cache) (\<lambda>(answer, cache).
     map_option ((#) answer) (cached_answers bucket qf rest cache))"

fun direct_answers :: "quote_fn \<Rightarrow> (route_path \<times> nat) list \<Rightarrow> quote option list option" where
  "direct_answers qf [] = Some []"
| "direct_answers qf ((path, amount) # rest) =
     Option.bind (qf path amount) (\<lambda>answer. map_option ((#) answer) (direct_answers qf rest))"

text \<open>Every quote in the cache is the answer for the amount it names, of every path with that key.\<close>

definition cache_valid :: "quote_fn \<Rightarrow> route_path set \<Rightarrow> quote_cache \<Rightarrow> bool" where
  "cache_valid qf P cache \<longleftrightarrow> (\<forall>p \<in> P. \<forall>b q.
     cache (join ''+'' (rp_pool_addresses p), b) = Some (Some q) \<longrightarrow> qf p (qt_amount_in q) = Some (Some q))"

definition reports_amount :: "quote_fn \<Rightarrow> bool" where
  "reports_amount qf \<longleftrightarrow> (\<forall>p a q. qf p a = Some (Some q) \<longrightarrow> qt_amount_in q = a)"

definition keys_agree :: "quote_fn \<Rightarrow> route_path set \<Rightarrow> bool" where
  "keys_agree qf P \<longleftrightarrow> (\<forall>p \<in> P. \<forall>p' \<in> P.
     join ''+'' (rp_pool_addresses p) = join ''+'' (rp_pool_addresses p') \<longrightarrow> qf p = qf p')"

lemma cached_quote_valid:
  assumes "cache_valid qf P cache" "reports_amount qf" "keys_agree qf P" "p \<in> P"
  shows "(qf p a = None \<longrightarrow> cached_quote bucket qf p a cache = None)
    \<and> (\<forall>q. qf p a = Some q \<longrightarrow>
        (\<exists>cache'. cached_quote bucket qf p a cache = Some (q, cache') \<and> cache_valid qf P cache'))"
proof -
  let ?k = "cache_key bucket p a"
  consider (hit) x where "cache ?k = Some (Some x)" "qt_amount_in x = a"
    | (miss) "cached_quote bucket qf p a cache = Option.bind (qf p a) (\<lambda>q. Some (q, cache(?k \<mapsto> q)))"
  proof (cases "\<exists>x. cache ?k = Some (Some x) \<and> qt_amount_in x = a")
    case False
    have "(case cache ?k of Some (Some q) \<Rightarrow> if qt_amount_in q = a then Some q else None | _ \<Rightarrow> None) = None"
      using False by (auto split: option.split)
    then show ?thesis using miss by (simp add: cached_quote_def Let_def)
  next
    case True
    then obtain x where "cache ?k = Some (Some x)" "qt_amount_in x = a" by (elim exE conjE)
    then show ?thesis by (rule hit)
  qed
  then show ?thesis
  proof cases
    case hit
    obtain b where k: "?k = (join ''+'' (rp_pool_addresses p), b)" by (simp add: cache_key_def)
    have "qf p (qt_amount_in x) = Some (Some x)"
      using assms(1) [unfolded cache_valid_def, rule_format, OF assms(4)] hit(1) unfolding k .
    then have "qf p a = Some (Some x)" using hit(2) by simp
    moreover have "cached_quote bucket qf p a cache = Some (Some x, cache)"
      using hit by (simp add: cached_quote_def Let_def)
    ultimately show ?thesis using assms(1) by simp
  next
    case miss
    have "cache_valid qf P (cache(?k \<mapsto> q))" if q: "qf p a = Some q" for q
      unfolding cache_valid_def
    proof (intro ballI allI impI)
      fix p' b x assume p': "p' \<in> P" "(cache(?k \<mapsto> q)) (join ''+'' (rp_pool_addresses p'), b) = Some (Some x)"
      show "qf p' (qt_amount_in x) = Some (Some x)"
      proof (cases "(join ''+'' (rp_pool_addresses p'), b) = ?k")
        case True
        then have x: "q = Some x" using p'(2) by simp
        have "join ''+'' (rp_pool_addresses p') = join ''+'' (rp_pool_addresses p)"
          using True by (simp add: cache_key_def)
        then have x': "qf p' = qf p"
          using assms(3) [unfolded keys_agree_def, rule_format, OF p'(1) assms(4)] by simp
        have "qt_amount_in x = a" using q assms(2) unfolding x reports_amount_def by blast
        then show ?thesis using x x' q by simp
      next
        case False
        then have "cache (join ''+'' (rp_pool_addresses p'), b) = Some (Some x)" using p'(2) by simp
        then show ?thesis by (rule assms(1) [unfolded cache_valid_def, rule_format, OF p'(1)])
      qed
    qed
    then show ?thesis by (auto simp: miss)
  qed
qed

lemma cached_answers_direct:
  assumes "reports_amount qf" "keys_agree qf P"
  shows "cache_valid qf P cache \<Longrightarrow> fst ` set rs \<subseteq> P \<Longrightarrow> cached_answers bucket qf rs cache = direct_answers qf rs"
proof (induction rs arbitrary: cache)
  case (Cons r rs)
  obtain p a where r: "r = (p, a)" by force
  have v: "(qf p a = None \<longrightarrow> cached_quote bucket qf p a cache = None)
    \<and> (\<forall>q. qf p a = Some q \<longrightarrow>
        (\<exists>cache'. cached_quote bucket qf p a cache = Some (q, cache') \<and> cache_valid qf P cache'))"
    by (rule cached_quote_valid [OF Cons.prems(1) assms]) (use Cons.prems(2) r in simp)
  show ?case
  proof (cases "qf p a")
    case None
    then show ?thesis using v r by simp
  next
    case (Some q)
    then obtain cache' where "cached_quote bucket qf p a cache = Some (q, cache')" "cache_valid qf P cache'" using v by blast
    then show ?thesis using Cons.IH [of cache'] Cons.prems(2) r Some by simp
  qed
qed simp

lemma quote_path_Some:
  assumes "quote_path eng adapters hydration now path amount = Some (Some q)"
  shows "path_allowed (qe_path_finder eng) path" "qt_amount_in q = amount"
    "\<exists>fee impact. quote_hops eng adapters hydration path 0 (rp_sources path) amount 0 0
       = Some (Some (qt_amount_out q, fee, impact))"
proof -
  show a: "path_allowed (qe_path_finder eng) path" using assms by (auto simp: quote_path_def split: if_splits)
  with assms obtain hops where h: "quote_hops eng adapters hydration path 0 (rp_sources path) amount 0 0 = Some (Some hops)"
    by (auto simp: quote_path_def bind_eq_Some_conv split: option.splits)
  show "qt_amount_in q = amount"
    "\<exists>fee impact. quote_hops eng adapters hydration path 0 (rp_sources path) amount 0 0
       = Some (Some (qt_amount_out q, fee, impact))"
    using assms a h by (cases hops; auto simp: quote_path_def split: if_splits)+
qed

lemma quote_path_reports: "reports_amount (quote_path eng adapters hydration now)"
  unfolding reports_amount_def using quote_path_Some(2) by blast

text \<open>A quote depends on the tokens, the sources and the pools of a path alone.\<close>

lemma quote_hops_hops [simp]:
  "quote_hops eng adapters hydration (p\<lparr>rp_hops := h\<rparr>) i ss amount fee impact
     = quote_hops eng adapters hydration p i ss amount fee impact"
  by (induction ss arbitrary: i amount fee impact) simp_all

lemma quote_path_cong:
  assumes "rp_tokens p = rp_tokens p'" "rp_sources p = rp_sources p'" "rp_pool_addresses p = rp_pool_addresses p'"
  shows "quote_path eng adapters hydration now p = quote_path eng adapters hydration now p'"
proof -
  have "p = p'\<lparr>rp_hops := rp_hops p\<rparr>" using assms by (cases p; cases p') simp
  moreover have "quote_path eng adapters hydration now (p'\<lparr>rp_hops := h\<rparr>) = quote_path eng adapters hydration now p'" for h
  proof (intro ext)
    fix x
    show "quote_path eng adapters hydration now (p'\<lparr>rp_hops := h\<rparr>) x = quote_path eng adapters hydration now p' x"
      by (cases "quote_hops eng adapters hydration p' 0 (rp_sources p') x 0 0")
         (auto simp: quote_path_def path_allowed_def split: option.split)
  qed
  ultimately show ?thesis by metis
qed

section \<open>Every edge of the graph is priced\<close>

definition pair_joins :: "string \<Rightarrow> string \<Rightarrow> trading_pair \<Rightarrow> bool" where
  "pair_joins k l p \<longleftrightarrow> canonical (tp_token_a p) = k \<and> canonical (tp_token_b p) = l
     \<or> canonical (tp_token_b p) = k \<and> canonical (tp_token_a p) = l"

text \<open>The edges of a source are the pairs the engine keeps of it.\<close>

definition edges_cached :: "quote_engine \<Rightarrow> bool" where
  "edges_cached eng \<longleftrightarrow> pf_poisoned (qe_path_finder eng) \<or>
     (\<forall>k. \<forall>e \<in> set (edges_at (pf_graph (qe_path_finder eng)) k). \<exists>p \<in> set (qe_cached_pools eng).
        tp_source p = ed_source e \<and> tp_pool_address p = ed_pool_address e \<and> pair_joins k (key_of e) p)"

lemma pair_edges_pair:
  "e \<in> set (pair_edges pf source clock i ps k) \<Longrightarrow>
     \<exists>p \<in> set ps. tp_pool_address p = ed_pool_address e \<and> pair_joins k (key_of e) p"
  by (induction ps arbitrary: i) (auto simp: half_edge_def pair_joins_def split: if_splits)

lemma edges_cached_update:
  assumes "edges_cached eng" "\<forall>p \<in> set pairs. tp_source p = source"
  shows "edges_cached (snd (update_pairs_from_cache source clock pairs eng))"
proof (cases "pf_poisoned (qe_path_finder eng)")
  case True
  then show ?thesis
    by (simp add: edges_cached_def update_pairs_from_cache_def update_from_source_def Let_def)
next
  case False
  let ?eng = "snd (update_pairs_from_cache source clock pairs eng)"
  have c: "qe_cached_pools ?eng = replace_cached source pairs (qe_cached_pools eng)"
    using False by (simp add: update_pairs_from_cache_def update_from_source_def Let_def)
  have g: "edges_at (pf_graph (qe_path_finder ?eng)) k =
      filter (\<lambda>e. ed_source e \<noteq> source) (edges_at (pf_graph (qe_path_finder eng)) k)
        @ pair_edges (qe_path_finder eng) source clock 0 pairs k" for k
    unfolding update_pairs_finder edges_at_update ..
  have "\<exists>p \<in> set (qe_cached_pools ?eng). tp_source p = ed_source e \<and> tp_pool_address p = ed_pool_address e
      \<and> pair_joins k (key_of e) p" if e: "e \<in> set (edges_at (pf_graph (qe_path_finder ?eng)) k)" for k e
  proof (cases "e \<in> set (pair_edges (qe_path_finder eng) source clock 0 pairs k)")
    case True
    then obtain p where "p \<in> set pairs" "tp_pool_address p = ed_pool_address e" "pair_joins k (key_of e) p"
      using pair_edges_pair by blast
    moreover have "ed_source e = source" using pair_edges_source [OF True] .
    ultimately show ?thesis using assms(2) unfolding c replace_cached_def by auto
  next
    case no: False
    then have "e \<in> set (edges_at (pf_graph (qe_path_finder eng)) k)" "ed_source e \<noteq> source"
      using e unfolding g by auto
    then obtain p where "p \<in> set (qe_cached_pools eng)" "tp_source p = ed_source e" "tp_pool_address p = ed_pool_address e"
      "pair_joins k (key_of e) p" using assms(1) False unfolding edges_cached_def by blast
    then show ?thesis using \<open>ed_source e \<noteq> source\<close> unfolding c replace_cached_def by auto
  qed
  then show ?thesis unfolding edges_cached_def by blast
qed

lemma edges_cached_fields:
  assumes "edges_cached eng" "qe_cached_pools eng' = qe_cached_pools eng"
    "pf_graph (qe_path_finder eng') = pf_graph (qe_path_finder eng)"
    "pf_poisoned (qe_path_finder eng) \<Longrightarrow> pf_poisoned (qe_path_finder eng')"
  shows "edges_cached eng'"
  using assms unfolding edges_cached_def by auto

lemma find_paths_keeps:
  "pf_graph (snd (find_paths_with_limits now ti to_tok h m d pf)) = pf_graph pf"
  "pf_poisoned pf \<Longrightarrow> pf_poisoned (snd (find_paths_with_limits now ti to_tok h m d pf))"
  by (cases rule: find_cases [of pf ti to_tok h m d now]; auto)+

lemma edges_cached_find:
  assumes "edges_cached eng"
  shows "edges_cached (snd (find_candidate_paths now request eng))"
proof -
  obtain paths eng' where f: "find_candidate_paths now request eng = (paths, eng')" by force
  obtain h where h: "find_paths_with_limits now (rq_token_in request) (rq_token_out request) h
      (default_max_multi_hop_paths (qe_path_finder eng)) (default_max_direct_paths (qe_path_finder eng))
      (qe_path_finder eng) = (paths, qe_path_finder eng')" and e: "eng' = eng\<lparr>qe_path_finder := qe_path_finder eng'\<rparr>"
    using find_candidate_paths_finder [OF f] by blast
  have c: "qe_cached_pools eng' = qe_cached_pools eng" by (subst e) simp
  show ?thesis
    unfolding f snd_conv
    by (rule edges_cached_fields [OF assms c]) (use find_paths_keeps h in \<open>metis snd_conv\<close>)+
qed

lemma engine_step_edges:
  assumes "engine_step eng eng'" "edges_cached eng"
  shows "edges_cached eng'"
  using assms
proof (cases rule: engine_step.cases)
  case (step_register clock answer adapter)
  show ?thesis
  proof (cases answer)
    case None
    then show ?thesis using step_register assms(2)
      by (auto simp: register_adapter_def push_adapter_def intro: edges_cached_fields)
  next
    case (Some pairs)
    let ?up = "update_pairs_from_cache (da_id adapter) clock (map (to_trading_pair (da_id adapter)) pairs) eng"
    have "edges_cached (snd ?up)"
      by (rule edges_cached_update [OF assms(2)]) (auto simp: to_trading_pair_def)
    moreover have "eng' = snd ?up \<or> eng' = push_adapter adapter (snd ?up)"
      using Some step_register(1) by (auto simp: register_adapter_def Let_def split: prod.splits option.splits)
    ultimately show ?thesis by (auto simp: push_adapter_def intro: edges_cached_fields)
  qed
next
  case (step_update pairs source clock)
  then show ?thesis using edges_cached_update [OF assms(2)] by blast
next
  case (step_paths request now)
  then show ?thesis using edges_cached_find [OF assms(2)] by blast
next
  case (step_route_with now elapsed request paths hydration)
  then show ?thesis using assms(2) by (auto intro: edges_cached_fields)
next
  case (step_route request now elapsed)
  then show ?thesis using edges_cached_find [OF assms(2), of now request]
    by (auto simp: get_route_fields intro: edges_cached_fields [of "snd (find_candidate_paths now request eng)"])
qed (use assms(2) in \<open>auto simp: register_quote_adapter_def push_adapter_def update_clmm_quote_state_def
    set_aquarius_pools_def unregister_adapter_def clear_cache_def intro: edges_cached_fields\<close>)

lemma plain_run_edges: "plain_run config splits eng \<Longrightarrow> edges_cached eng"
proof (induction rule: plain_run.induct)
  case plain_start
  then show ?case
    by (simp add: edges_cached_def quote_engine_new_def path_finder_new_def tg_new_def edges_at_def)
qed (rule engine_step_edges)

end
