(* ===== verification/Quote_Properties.thy ===== *)
theory Quote_Properties
  imports Quote_Runs Router_Properties
begin

text \<open>
  What the quote engine guarantees: the routes it returns, their value against every candidate, the
  soundness of each kind of pool quote, and the cache in front of the optimiser.
\<close>

section \<open>Routes\<close>

lemma quote_all_in:
  "quote_all qf amount ps = Some quoted \<Longrightarrow> x \<in> set quoted \<Longrightarrow>
     qp_path x \<in> set ps \<and> qf (qp_path x) amount = Some (Some (qp_quote x))"
  by (induction ps arbitrary: quoted) (auto simp: bind_eq_Some_conv split: option.splits)

lemma quote_all_has:
  "quote_all qf amount ps = Some quoted \<Longrightarrow> p \<in> set ps \<Longrightarrow> qf p amount = Some (Some q) \<Longrightarrow>
     \<lparr>qp_path = p, qp_quote = q\<rparr> \<in> set quoted"
  by (induction ps arbitrary: quoted) (auto simp: bind_eq_Some_conv split: option.splits)

lemma max_by_output_None: "max_by_output ps = None \<longleftrightarrow> ps = []"
  by (cases ps) (auto split: option.splits)

lemma max_by_output_Some:
  "max_by_output ps = Some win \<Longrightarrow>
     win \<in> set ps \<and> (\<forall>p \<in> set ps. qt_amount_out (qp_quote p) \<le> qt_amount_out (qp_quote win))"
proof (induction ps arbitrary: win)
  case (Cons a ps)
  show ?case
  proof (cases "max_by_output ps")
    case None
    then show ?thesis using Cons.prems max_by_output_None [of ps] by simp
  next
    case (Some q)
    note IH = Cons.IH [OF Some]
    have "win = (if qt_amount_out (qp_quote a) > qt_amount_out (qp_quote q) then a else q)"
      using Cons.prems Some by simp
    then show ?thesis using IH by (auto dest: order_trans less_imp_le)
  qed
qed simp

lemma quote_path_aquarius [simp]:
  "quote_path (set_aquarius_pools pools eng) = quote_path eng"
proof -
  have h: "hop_quote (set_aquarius_pools pools eng) = hop_quote eng"
    by (intro ext) (simp add: hop_quote_def set_aquarius_pools_def)
  have "quote_hops (set_aquarius_pools pools eng) adapters hyd p i ss amount fee impact
      = quote_hops eng adapters hyd p i ss amount fee impact" for adapters hyd p i ss amount fee impact
    by (induction ss arbitrary: i amount fee impact) (simp_all add: h)
  then show ?thesis by (intro ext) (simp add: quote_path_def set_aquarius_pools_def)
qed

definition slippage_of :: "route_request \<Rightarrow> nat" where
  "slippage_of request = (case rq_slippage_bps request of Some s \<Rightarrow> s | None \<Rightarrow> 50)"

definition soroban_only :: "route_request \<Rightarrow> bool" where
  "soroban_only request = (case rq_prefer_soroban request of Some b \<Rightarrow> b | None \<Rightarrow> False)"

text \<open>The quoting function of a request, and its candidates.\<close>

abbreviation engine_quote :: "quote_engine \<Rightarrow> quote_hydration option \<Rightarrow> nat \<Rightarrow> quote_fn" where
  "engine_quote eng hydration now \<equiv> quote_path eng (qe_adapters eng) hydration now"

definition candidates_of :: "quote_engine \<Rightarrow> route_request \<Rightarrow> route_path list \<Rightarrow> route_path list" where
  "candidates_of eng request paths = filter (candidate_filter eng (soroban_only request)) paths"

lemma route_with_pathsE:
  assumes "get_route_with_paths now elapsed request paths hydration eng = (Some r, eng')"
  obtains (none) quoted where "quote_all (engine_quote eng hydration now) (rq_amount_in request) (candidates_of eng request paths) = Some quoted"
      "quoted = []" "r = empty_route (rq_amount_in request) elapsed"
  | (found) quoted best_classic best_soroban classic soroban where
      "quote_all (engine_quote eng hydration now) (rq_amount_in request) (candidates_of eng request paths) = Some quoted"
      "quoted \<noteq> []"
      "classic = filter (\<lambda>q. is_classic_only_path (qp_path q)) quoted"
      "soroban = filter (\<lambda>q. \<not> is_classic_only_path (qp_path q)) quoted"
      "classic_route classic (rq_amount_in request) (slippage_of request) elapsed = Some best_classic"
      "if soroban = [] then best_soroban = None
       else \<exists>s. best_soroban = Some s \<and> optimize (qe_split_config eng) (engine_quote eng hydration now) elapsed soroban
              (rq_amount_in request) (slippage_of request) (rq_max_splits request) = Some s"
      "r = better_route (rq_amount_in request) elapsed best_classic best_soroban"
proof (cases "candidates_of eng request paths = []")
  case True
  then have "r = empty_route (rq_amount_in request) elapsed"
    using assms by (simp add: get_route_with_paths_def Let_def candidates_of_def soroban_only_def)
  then show ?thesis using none [of "[]"] True by simp
next
  case False
  define eng1 where "eng1 = set_aquarius_pools (case hydration of Some h \<Rightarrow> hy_aquarius_pools h | None \<Rightarrow> Map.empty) eng"
  have same: "quote_path eng1 = quote_path eng" "qe_adapters eng1 = qe_adapters eng" "qe_split_config eng1 = qe_split_config eng"
    by (simp_all add: eng1_def) (simp_all add: set_aquarius_pools_def)
  have F: "filter (candidate_filter eng (soroban_only request)) paths \<noteq> []" using False by (simp add: candidates_of_def)
  have main: "Option.bind (quote_all (engine_quote eng hydration now) (rq_amount_in request) (candidates_of eng request paths)) (\<lambda>quoted.
      if quoted = [] then Some (empty_route (rq_amount_in request) elapsed)
      else
        let (classic, soroban) = partition (\<lambda>q. is_classic_only_path (qp_path q)) quoted
        in Option.bind (classic_route classic (rq_amount_in request) (slippage_of request) elapsed) (\<lambda>best_classic.
           Option.bind
             (if soroban = [] then Some None
              else map_option Some (optimize (qe_split_config eng) (engine_quote eng hydration now) elapsed soroban (rq_amount_in request)
                     (slippage_of request) (rq_max_splits request))) (\<lambda>best_soroban.
           Some (better_route (rq_amount_in request) elapsed best_classic best_soroban)))) = Some r"
    using assms F
    unfolding get_route_with_paths_def Let_def soroban_only_def [symmetric] slippage_of_def [symmetric]
      candidates_of_def [symmetric] eng1_def [symmetric] same
    by (simp add: candidates_of_def)
  then obtain quoted where q: "quote_all (engine_quote eng hydration now) (rq_amount_in request) (candidates_of eng request paths) = Some quoted"
    by (auto simp: bind_eq_Some_conv)
  show ?thesis
  proof (cases "quoted = []")
    case True
    then show ?thesis using main q none [of quoted] by simp
  next
    case ne: False
    let ?c = "filter (\<lambda>q. is_classic_only_path (qp_path q)) quoted"
    let ?s = "filter (\<lambda>q. \<not> is_classic_only_path (qp_path q)) quoted"
    from main ne q obtain bc bs where "classic_route ?c (rq_amount_in request) (slippage_of request) elapsed = Some bc"
      "(if ?s = [] then Some None
              else map_option Some (optimize (qe_split_config eng) (engine_quote eng hydration now) elapsed ?s (rq_amount_in request)
                     (slippage_of request) (rq_max_splits request))) = Some bs"
      "r = better_route (rq_amount_in request) elapsed bc bs"
      by (auto simp: bind_eq_Some_conv comp_def)
    then show ?thesis using found [OF q ne refl refl, of bc bs] by (simp split: if_splits) blast
  qed
qed

text \<open>Each side of a route: its sub-orders are among the paths of that side, and its value is at least
  that of every path of the side.\<close>

lemma classic_side:
  assumes "classic_route quoted amount slippage elapsed = Some (Some c)"
  shows "\<forall>so \<in> set (rt_sub_orders c). so_path so \<in> qp_path ` set quoted"
    "map so_amount_in (rt_sub_orders c) = [amount]" "rt_total_amount_in c = amount"
    "\<forall>x \<in> set quoted. qt_amount_out (qp_quote x) \<le> rt_total_expected_out c" "\<not> rt_is_split c"
    "rt_minimum_out c \<le> rt_total_expected_out c"
proof -
  obtain w m where w: "max_by_output quoted = Some w" "apply_slippage (qt_amount_out (qp_quote w)) slippage = Some m"
    "c = \<lparr>rt_sub_orders = [\<lparr>so_path = qp_path w, so_amount_in = amount,
                               so_expected_amount_out = qt_amount_out (qp_quote w), so_fraction = 1\<rparr>],
             rt_total_amount_in = amount, rt_total_expected_out = qt_amount_out (qp_quote w),
             rt_price_impact_bps = qt_price_impact_bps (qp_quote w), rt_is_split = False,
             rt_improvement_bps = 0, rt_minimum_out = m, rt_compute_time_ms = elapsed,
             rt_debug = None\<rparr>"
    using assms by (auto simp: classic_route_def bind_eq_Some_conv split: option.splits)
  note mx = max_by_output_Some [OF w(1)]
  show "\<forall>so \<in> set (rt_sub_orders c). so_path so \<in> qp_path ` set quoted" using w(3) mx by simp
  show "map so_amount_in (rt_sub_orders c) = [amount]" "rt_total_amount_in c = amount" "\<not> rt_is_split c" using w(3) by simp_all
  show "\<forall>x \<in> set quoted. qt_amount_out (qp_quote x) \<le> rt_total_expected_out c" using w(3) mx by simp
  show "rt_minimum_out c \<le> rt_total_expected_out c" using w(3) apply_slippageD(3) [OF w(2)] by simp
qed

lemma classic_none: "classic_route quoted amount slippage elapsed = Some None \<Longrightarrow> quoted = []"
  using max_by_output_None [of quoted] by (auto simp: classic_route_def bind_eq_Some_conv split: option.splits)

text \<open>The route returned is one of the two sides, and worth both.\<close>

lemma route_side:
  assumes "get_route_with_paths now elapsed request paths hydration eng = (Some r, eng')"
  obtains (empty) "rt_sub_orders r = []" "rt_total_expected_out r = 0" "rt_total_amount_in r = rq_amount_in request"
      "\<forall>p \<in> set (candidates_of eng request paths). \<forall>q. engine_quote eng hydration now p (rq_amount_in request) \<noteq> Some (Some q)"
  | (side) quoted classic where
      "quote_all (engine_quote eng hydration now) (rq_amount_in request) (candidates_of eng request paths) = Some quoted"
      "quoted \<noteq> []"
      "\<forall>x \<in> set quoted. qt_amount_out (qp_quote x) \<le> rt_total_expected_out r"
      "rt_total_amount_in r = rq_amount_in request"
      "classic \<Longrightarrow> \<exists>bc. classic_route (filter (\<lambda>q. is_classic_only_path (qp_path q)) quoted)
          (rq_amount_in request) (slippage_of request) elapsed = Some (Some bc) \<and> r = bc"
      "\<not> classic \<Longrightarrow> filter (\<lambda>q. \<not> is_classic_only_path (qp_path q)) quoted \<noteq> []
         \<and> optimize (qe_split_config eng) (engine_quote eng hydration now) elapsed
             (filter (\<lambda>q. \<not> is_classic_only_path (qp_path q)) quoted)
             (rq_amount_in request) (slippage_of request) (rq_max_splits request) = Some r"
  using assms
proof (cases rule: route_with_pathsE)
  case (none quoted)
  then show ?thesis using empty quote_all_has [OF none(1)] by (fastforce simp: empty_route_def)
next
  case (found quoted bc bs classic soroban)
  have S: "optimize (qe_split_config eng) (engine_quote eng hydration now) elapsed soroban
             (rq_amount_in request) (slippage_of request) (rq_max_splits request) = Some s"
    "soroban \<noteq> []" if "bs = Some s" for s
    using found(6) that by (auto split: if_splits)
  have sb: "\<forall>x \<in> set soroban. qt_amount_out (qp_quote x) \<le> rt_total_expected_out s"
    "rt_total_amount_in s = rq_amount_in request" if "bs = Some s" for s
    using optimize_never_worse [OF S(1) [OF that]] hd_in_set [OF S(2) [OF that]] by blast+
  have s0: "soroban = []" if "bs = None" using found(6) that by (auto split: if_splits)
  have c0: "classic = []" if "bc = None" using classic_none found(5) that by blast
  have all: "x \<in> set classic \<or> x \<in> set soroban" if "x \<in> set quoted" for x using that found(3,4) by auto
  have nn: "bc \<noteq> None \<or> bs \<noteq> None"
    using all [OF hd_in_set [OF found(2)]] s0 c0 by (metis empty_iff empty_set)
  show ?thesis
  proof (cases "\<exists>c. bc = Some c \<and> r = c \<and> (\<forall>s. bs = Some s \<longrightarrow> rt_total_expected_out s \<le> rt_total_expected_out c)")
    case True
    then obtain c where c: "bc = Some c" "r = c" "\<forall>s. bs = Some s \<longrightarrow> rt_total_expected_out s \<le> rt_total_expected_out c" by blast
    note cs = classic_side [OF found(5) [unfolded c(1)]]
    have "\<forall>x \<in> set quoted. qt_amount_out (qp_quote x) \<le> rt_total_expected_out r"
      using all cs(4) sb(1) c s0 by (cases bs) (auto dest: order_trans)
    then show ?thesis using side [OF found(1,2), of True] cs(3) c found(3,5) by blast
  next
    case False
    then obtain s where s: "bs = Some s" "r = s" "\<forall>c. bc = Some c \<longrightarrow> rt_total_expected_out c \<le> rt_total_expected_out s"
      using found(7) nn by (cases bc; cases bs) (auto simp: better_route_def split: if_splits)
    have cb: "\<forall>x \<in> set classic. qt_amount_out (qp_quote x) \<le> rt_total_expected_out s"
    proof (cases bc)
      case (Some c)
      then show ?thesis using classic_side(4) [OF found(5) [unfolded Some]] s(3) by (auto dest: order_trans)
    qed (use c0 in simp)
    have "\<forall>x \<in> set quoted. qt_amount_out (qp_quote x) \<le> rt_total_expected_out r"
      using all sb(1) [OF s(1)] s(2) cb by blast
    then show ?thesis using side [OF found(1,2), of False] sb(2) [OF s(1)] S [OF s(1)] s(2) found(4) by blast
  qed
qed

lemma candidates_in:
  "p \<in> set (candidates_of eng request paths) \<longleftrightarrow>
     p \<in> set paths \<and> candidate_filter eng (soroban_only request) p"
  by (auto simp: candidates_of_def)

lemma candidate_ok:
  assumes "candidate_filter eng (soroban_only request) p"
  shows "path_allowed (qe_path_finder eng) p \<and> path_is_executable p
    \<and> (rq_prefer_soroban request = Some True \<longrightarrow> \<not> path_contains_classic p)"
    and "\<not> is_classic_only_path p \<Longrightarrow> \<not> path_contains_classic p"
  using assms by (auto simp: candidate_filter_def soroban_only_def path_is_executable_def split: if_splits option.splits)

text \<open>A route can be put into one transaction.\<close>

lemma route_shape:
  assumes "get_route_with_paths now elapsed request paths hydration eng = (Some r, eng')"
  shows "(\<forall>so \<in> set (rt_sub_orders r). so_path so \<in> set paths \<and> path_allowed (qe_path_finder eng) (so_path so)
        \<and> path_is_executable (so_path so) \<and> (rq_prefer_soroban request = Some True \<longrightarrow> \<not> path_contains_classic (so_path so)))
    \<and> ((\<exists>so. rt_sub_orders r = [so] \<and> is_classic_only_path (so_path so))
       \<or> (\<forall>so \<in> set (rt_sub_orders r). \<not> path_contains_classic (so_path so)))
    \<and> (rt_sub_orders r \<noteq> [] \<longrightarrow> rq_amount_in request \<le> 2 ^ 53
        \<longrightarrow> sum_list (map so_amount_in (rt_sub_orders r)) = rq_amount_in request)"
  using assms
proof (cases rule: route_side)
  case (side quoted classic)
  have in_side: "so_path so \<in> set paths \<and> candidate_filter eng (soroban_only request) (so_path so)
      \<and> P (so_path so)" if "so_path so \<in> qp_path ` set (filter (\<lambda>q. P (qp_path q)) quoted)" for so P
    using that quote_all_in [OF side(1)] candidates_in by fastforce
  show ?thesis
  proof (cases classic)
    case True
    then obtain bc where c: "classic_route (filter (\<lambda>q. is_classic_only_path (qp_path q)) quoted)
        (rq_amount_in request) (slippage_of request) elapsed = Some (Some bc)" "r = bc" using side(5) by blast
    obtain so where so: "rt_sub_orders r = [so]" "so_amount_in so = rq_amount_in request"
      using classic_side(2) [OF c(1)] c(2) by (auto simp: map_eq_Cons_conv)
    have "so_path so \<in> set paths \<and> candidate_filter eng (soroban_only request) (so_path so) \<and> is_classic_only_path (so_path so)"
      using in_side classic_side(1) [OF c(1)] c(2) so(1) by simp
    then show ?thesis using candidate_ok(1) [of eng request "so_path so"] so by simp
  next
    case False
    note o = side(6) [OF this]
    have c: "so_path so \<in> set paths \<and> candidate_filter eng (soroban_only request) (so_path so) \<and> \<not> is_classic_only_path (so_path so)"
      if "so \<in> set (rt_sub_orders r)" for so
      using in_side [of so "\<lambda>p. \<not> is_classic_only_path p"] optimize_paths_in [OF conjunct2 [OF o] that] by blast
    have k: "so_path so \<in> set paths \<and> path_allowed (qe_path_finder eng) (so_path so)
        \<and> path_is_executable (so_path so) \<and> (rq_prefer_soroban request = Some True \<longrightarrow> \<not> path_contains_classic (so_path so))"
      "\<not> path_contains_classic (so_path so)" if "so \<in> set (rt_sub_orders r)" for so
      using c [OF that] candidate_ok [of eng request "so_path so"] by simp_all
    have "rq_amount_in request \<le> 2 ^ 53 \<Longrightarrow> sum_list (map so_amount_in (rt_sub_orders r)) = rq_amount_in request"
      using split_conserves_input o by blast
    then show ?thesis using k by auto
  qed
qed simp

lemma route_paths:
  assumes "get_route_with_paths now elapsed request paths hydration eng = (Some r, eng')"
  shows "\<forall>so \<in> set (rt_sub_orders r). so_path so \<in> set paths"
  using route_shape [OF assms] by blast

text \<open>C17: A route can be put into one transaction: every sub-order follows one of the given paths, over
  allowed tokens only, and the sub-orders are either a single one over the classic exchange or all of
  them free of it; with \<open>prefer_soroban\<close> the classic exchange does not occur at all. The amounts
  of the sub-orders sum to the requested amount when it is at most \<open>2 ^ 53\<close>.\<close>

theorem routes_are_executable:
  assumes "get_route_with_paths now elapsed request paths hydration eng = (Some r, eng')"
  shows "(\<forall>so \<in> set (rt_sub_orders r). so_path so \<in> set paths \<and> path_allowed (qe_path_finder eng) (so_path so)
        \<and> path_is_executable (so_path so) \<and> (rq_prefer_soroban request = Some True \<longrightarrow> \<not> path_contains_classic (so_path so)))
    \<and> ((\<exists>so. rt_sub_orders r = [so] \<and> is_classic_only_path (so_path so))
       \<or> (\<forall>so \<in> set (rt_sub_orders r). \<not> path_contains_classic (so_path so)))
    \<and> (rt_sub_orders r \<noteq> [] \<longrightarrow> rq_amount_in request \<le> 2 ^ 53
        \<longrightarrow> sum_list (map so_amount_in (rt_sub_orders r)) = rq_amount_in request)"
  by (rule route_shape [OF assms])

lemma route_value:
  assumes "get_route_with_paths now elapsed request paths hydration eng = (Some r, eng')"
    and "p \<in> set paths" "candidate_filter eng (soroban_only request) p"
    and "engine_quote eng hydration now p (rq_amount_in request) = Some (Some q)"
  shows "qt_amount_out q \<le> rt_total_expected_out r"
  using assms(1)
proof (cases rule: route_side)
  case empty
  then show ?thesis using assms(2-4) candidates_in by blast
next
  case (side quoted classic)
  have "\<lparr>qp_path = p, qp_quote = q\<rparr> \<in> set quoted"
    using quote_all_has [OF side(1) _ assms(4)] assms(2,3) candidates_in by blast
  then show ?thesis using side(3) by fastforce
qed

lemma quote_path_finder_update:
  assumes "path_allowed (qe_path_finder eng') = path_allowed (qe_path_finder eng)"
    and "eng' = eng\<lparr>qe_path_finder := qe_path_finder eng'\<rparr>"
  shows "quote_path eng' = quote_path eng" "candidate_filter eng' = candidate_filter eng"
    "qe_adapters eng' = qe_adapters eng"
proof -
  have f: "qe_cached_pools eng' = qe_cached_pools eng" "qe_clmm_quote_states eng' = qe_clmm_quote_states eng"
    by (subst assms(2), simp)+
  show "qe_adapters eng' = qe_adapters eng" by (subst assms(2)) simp
  have h: "hop_quote eng' = hop_quote eng" by (intro ext) (simp add: hop_quote_def f)
  have "quote_hops eng' adapters hyd p i ss amount fee impact
      = quote_hops eng adapters hyd p i ss amount fee impact" for adapters hyd p i ss amount fee impact
    by (induction ss arbitrary: i amount fee impact) (simp_all add: h)
  then show "quote_path eng' = quote_path eng" by (intro ext) (simp add: quote_path_def assms(1))
  show "candidate_filter eng' = candidate_filter eng" by (intro ext) (simp add: candidate_filter_def assms(1))
qed

text \<open>The hop limit a request uses.\<close>

definition hops_of :: "quote_engine \<Rightarrow> route_request \<Rightarrow> nat" where
  "hops_of eng request = (case rq_max_hops request of Some n \<Rightarrow> n | None \<Rightarrow> default_max_hops (qe_path_finder eng))"

text \<open>The paths a request searches: those of the graph as it is, under the limits of the request.\<close>

definition searched_paths :: "quote_engine \<Rightarrow> route_request \<Rightarrow> route_path list" where
  "searched_paths eng request =
     Token_Graph.find_paths (pf_graph (qe_path_finder eng)) (rq_token_in request) (rq_token_out request)
       (hops_of eng request) (default_max_multi_hop_paths (qe_path_finder eng))
       (default_max_direct_paths (qe_path_finder eng))"

text \<open>C16: From request to route, on an engine in any state that its operations lead to: every sub-order
  is a chain of edges of the current graph from the input to the output token without a repeated
  token or pool; and the route is worth at least the quote of every path that the graph has under the
  request's limits, as long as the path is allowed and executable.\<close>

theorem get_route_sound:
  assumes run: "engine_run config splits eng"
    and tokens: "canonical_token (rq_token_in request)" "canonical_token (rq_token_out request)"
    and r: "get_route now elapsed request eng = (Some r, eng')"
  shows "(\<forall>so \<in> set (rt_sub_orders r). so_path so \<in> set (searched_paths eng request)
        \<and> (\<exists>es. so_path so = route (rq_token_in request) es
             \<and> swap_route (pf_graph (qe_path_finder eng)) (rq_token_in request) (canonical (rq_token_out request)) es))
    \<and> (\<forall>p \<in> set (searched_paths eng request). \<forall>q. candidate_filter eng (soroban_only request) p \<longrightarrow>
        quote_path eng (qe_adapters eng) None now p (rq_amount_in request) = Some (Some q) \<longrightarrow>
        qt_amount_out q \<le> rt_total_expected_out r)"
proof -
  let ?pf = "qe_path_finder eng"
  have fr: "finder_run config ?pf" using engine_run_finder [OF run] by simp
  from r obtain paths eng1 where f: "find_candidate_paths now request eng = (Some paths, eng1)"
    and g: "get_route_with_paths now elapsed request paths None eng1 = (Some r, eng')"
    by (auto simp: get_route_def split: prod.splits option.splits)
  have h: "find_paths_with_limits now (rq_token_in request) (rq_token_out request) (hops_of eng request)
      (default_max_multi_hop_paths ?pf) (default_max_direct_paths ?pf) ?pf = (Some paths, qe_path_finder eng1)"
    and e: "eng1 = eng\<lparr>qe_path_finder := qe_path_finder eng1\<rparr>"
    using f by (auto simp: find_candidate_paths_def hops_of_def Let_def split: prod.splits)
  have paths: "paths = searched_paths eng request"
    using lookup_paths [OF fr tokens h] by (simp add: searched_paths_def)
  have allowed: "path_allowed (qe_path_finder eng1) = path_allowed ?pf"
    using lookup_allowed [OF h] .
  note same = quote_path_finder_update [OF allowed e]
  have "so_path so \<in> set paths" if "so \<in> set (rt_sub_orders r)" for so
    using route_paths [OF g] that by blast
  then have "\<forall>so \<in> set (rt_sub_orders r). so_path so \<in> set (searched_paths eng request)
        \<and> (\<exists>es. so_path so = route (rq_token_in request) es
             \<and> swap_route (pf_graph ?pf) (rq_token_in request) (canonical (rq_token_out request)) es)"
    using found_paths_are_routes(1) [OF fr tokens h] paths by blast
  moreover have "qt_amount_out q \<le> rt_total_expected_out r"
    if "p \<in> set paths" "candidate_filter eng (soroban_only request) p"
      "quote_path eng (qe_adapters eng) None now p (rq_amount_in request) = Some (Some q)" for p q
    using route_value [OF g that(1)] that(2,3) unfolding same by blast
  ultimately show ?thesis unfolding paths by blast
qed

section \<open>The hops of a route can be priced\<close>

lemma find_Some_ex: "x \<in> set xs \<Longrightarrow> P x \<Longrightarrow> \<exists>y. List.find P xs = Some y \<and> y \<in> set xs \<and> P y"
  by (induction xs) auto

lemma chain_hops:
  "chain g (canonical start) es \<Longrightarrow> i < length es \<Longrightarrow>
     es ! i \<in> set (edges_at g (canonical ((start # map ed_target es) ! i)))"
proof (induction es arbitrary: start i)
  case (Cons e es)
  show ?case
  proof (cases i)
    case (Suc j)
    then show ?thesis using Cons.IH [of "ed_target e" j] Cons.prems by (cases j) auto
  qed (use Cons.prems in simp)
qed simp

lemma priced_hop:
  assumes "edges_cached eng" "\<not> pf_poisoned (qe_path_finder eng)"
    and "swap_route (pf_graph (qe_path_finder eng)) start end_key es" "i < length es"
  shows "\<exists>pair. find_pool_edge (qe_cached_pools eng) (rp_pool_addresses (route start es) ! i)
           (rp_tokens (route start es) ! i) (rp_tokens (route start es) ! (i + 1)) = Some pair
     \<and> pair \<in> set (qe_cached_pools eng)
     \<and> tp_pool_address pair = rp_pool_addresses (route start es) ! i
     \<and> pair_joins (canonical (rp_tokens (route start es) ! i)) (canonical (rp_tokens (route start es) ! (i + 1))) pair"
proof -
  let ?k = "canonical ((start # map ed_target es) ! i)"
  have "chain (pf_graph (qe_path_finder eng)) (canonical start) es"
    using assms(3) by (simp add: swap_route_def simple_chain_def)
  then have "es ! i \<in> set (edges_at (pf_graph (qe_path_finder eng)) ?k)" using chain_hops assms(4) by blast
  then obtain p where p: "p \<in> set (qe_cached_pools eng)" "tp_pool_address p = ed_pool_address (es ! i)"
    "pair_joins ?k (key_of (es ! i)) p"
    using assms(1,2) unfolding edges_cached_def by blast
  let ?P = "\<lambda>p. tp_pool_address p = ed_pool_address (es ! i) \<and> pair_joins ?k (key_of (es ! i)) p"
  obtain y where "List.find ?P (qe_cached_pools eng) = Some y" "y \<in> set (qe_cached_pools eng)" "?P y"
    using find_Some_ex [OF p(1), of ?P] p(2,3) by blast
  then show ?thesis using assms(4)
    by (simp add: find_pool_edge_def route_def pair_joins_def Let_def)
qed

text \<open>The graph and the pools agree: on an engine whose pairs were never refreshed by
  \<open>refresh_pairs\<close>, and whose path cache is not poisoned, every hop of every route of the graph has
  an edge among the cached pools, with the pool and both tokens of the hop; so no local quote fails
  for want of a pair.\<close>

lemma route_hops_are_cached:
  assumes "plain_run config splits eng" "\<not> pf_poisoned (qe_path_finder eng)"
    and "swap_route (pf_graph (qe_path_finder eng)) start end_key es" "i < length es"
  shows "\<exists>pair. find_pool_edge (qe_cached_pools eng) (rp_pool_addresses (route start es) ! i)
           (rp_tokens (route start es) ! i) (rp_tokens (route start es) ! (i + 1)) = Some pair
     \<and> pair \<in> set (qe_cached_pools eng)
     \<and> tp_pool_address pair = rp_pool_addresses (route start es) ! i
     \<and> pair_joins (canonical (rp_tokens (route start es) ! i)) (canonical (rp_tokens (route start es) ! (i + 1))) pair"
  by (rule priced_hop [OF plain_run_edges [OF assms(1)] assms(2-4)])

section \<open>Constant-product quotes\<close>





section \<open>A sample engine\<close>

definition sample_pair :: "string \<Rightarrow> string \<Rightarrow> nat \<Rightarrow> trading_pair" where
  "sample_pair source pool reserve_b =
     \<lparr>tp_token_a = Contract ''a'', tp_token_b = Contract ''b'', tp_source = source, tp_pool_address = pool,
      tp_fee_bps = 30, tp_reserve_a = Some 1000000000, tp_reserve_b = Some reserve_b\<rparr>"

definition sample_engine1 :: quote_engine where
  "sample_engine1 = snd (update_pairs_from_cache ''soroswap'' (\<lambda>_. 0) [sample_pair ''soroswap'' ''p1'' 1000000000]
     (quote_engine_new path_finder_config_default split_config_default))"

definition sample_engine :: quote_engine where
  "sample_engine = snd (update_pairs_from_cache ''phoenix'' (\<lambda>_. 0) [sample_pair ''phoenix'' ''p2'' 1000000010] sample_engine1)"

definition sample_request :: route_request where
  "sample_request = \<lparr>rq_token_in = Contract ''a'', rq_token_out = Contract ''b'', rq_amount_in = 1000000,
     rq_slippage_bps = None, rq_max_hops = None, rq_max_splits = Some 1, rq_prefer_soroban = None\<rparr>"

definition direct_path :: "string \<Rightarrow> string \<Rightarrow> route_path" where
  "direct_path source pool = \<lparr>rp_tokens = [Contract ''a'', Contract ''b''], rp_sources = [source],
     rp_pool_addresses = [pool], rp_hops = 1\<rparr>"

lemma sample_engine_fields:
  "qe_cached_pools sample_engine = [sample_pair ''soroswap'' ''p1'' 1000000000, sample_pair ''phoenix'' ''p2'' 1000000010]"
  "qe_adapters sample_engine = []" "qe_split_config sample_engine = split_config_default"
  "pf_excluded_tokens (qe_path_finder sample_engine) = {}" "\<not> pf_poisoned (qe_path_finder sample_engine)"
  "pf_config (qe_path_finder sample_engine) = path_finder_config_default"
  by (simp_all add: sample_engine_def sample_engine1_def update_pairs_from_cache_def quote_engine_new_def
      update_from_source_def path_finder_new_def path_finder_config_default_def replace_cached_def sample_pair_def Let_def)

lemma sample_run: "plain_run path_finder_config_default split_config_default sample_engine"
  unfolding sample_engine_def sample_engine1_def
  by (intro plain_step [OF _ step_update] plain_start) (simp_all add: sample_pair_def)

lemma sample_hops:
  "hop_quote sample_engine [] hyd (Contract ''a'') (Contract ''b'') 1000000 ''p1'' ''soroswap''
     = (case Option.bind hyd (\<lambda>h. hy_xyk_pools h ''soroswap:p1'') of
          None \<Rightarrow> xyk_quote ''soroswap'' 1000000 1000000000 1000000000 30
        | Some h \<Rightarrow> (case reserves_for_edge (Contract ''a'') (Contract ''b'') h of None \<Rightarrow> Some None
            | Some (i, j) \<Rightarrow> xyk_quote ''soroswap'' 1000000 i j (xy_fee_bps h)))"
  by (simp add: hop_quote_def local_quote_def local_clmm_quote_def local_xyk_quote_def find_pool_edge_def
      sample_engine_fields sample_pair_def CLASSIC_SOURCE_def xyk_reserves_def pool_key_def Let_def split: option.split)

lemma sample_quotes:
  "xyk_quote ''soroswap'' 1000000 1000000000 1000000000 30
     = Some (Some \<lparr>aq_amount_out = 996006, aq_fee_bps = 30, aq_price_impact_bps = 39\<rparr>)"
  "xyk_quote ''phoenix'' 1000000 1000000000 1000000010 30
     = Some (Some \<lparr>aq_amount_out = 996004, aq_fee_bps = 30, aq_price_impact_bps = 39\<rparr>)"
  by (simp_all add: xyk_quote_def xyk_amount_out_def product_out_def xyk_price_impact_def MIN_XYK_RESERVE_STROOPS_def
      u128_checked_mul_def u128_checked_add_def u128_checked_sub_def u128_max_def as_u32_def Let_def)

lemma sample_hop2:
  "hop_quote sample_engine [] None (Contract ''a'') (Contract ''b'') 1000000 ''p2'' ''phoenix''
     = xyk_quote ''phoenix'' 1000000 1000000000 1000000010 30"
  by (simp add: hop_quote_def local_quote_def local_clmm_quote_def local_xyk_quote_def find_pool_edge_def
      sample_engine_fields sample_pair_def CLASSIC_SOURCE_def xyk_reserves_def pool_key_def Let_def)

lemma sample_path_quote:
  "quote_path sample_engine [] None now (direct_path ''soroswap'' ''p1'') 1000000 = Some (Some
     \<lparr>qt_source = ''soroswap'', qt_pool_address = ''p1'', qt_token_in = Contract ''a'', qt_token_out = Contract ''b'',
      qt_amount_in = 1000000, qt_amount_out = 996006, qt_price_impact_bps = 39, qt_fee_bps = 30, qt_path = [],
      qt_timestamp_ms = now\<rparr>)"
  "quote_path sample_engine [] None now (direct_path ''phoenix'' ''p2'') 1000000 = Some (Some
     \<lparr>qt_source = ''phoenix'', qt_pool_address = ''p2'', qt_token_in = Contract ''a'', qt_token_out = Contract ''b'',
      qt_amount_in = 1000000, qt_amount_out = 996004, qt_price_impact_bps = 39, qt_fee_bps = 30, qt_path = [],
      qt_timestamp_ms = now\<rparr>)"
  by (simp_all add: quote_path_def direct_path_def path_allowed_def token_allowed_def sample_engine_fields
      nth_opt_def sample_hops sample_hop2 sample_quotes u32_checked_add_def u32_max_def)

lemma sample_candidates:
  "fst (find_candidate_paths now sample_request sample_engine)
     = Some [direct_path ''soroswap'' ''p1'', direct_path ''phoenix'' ''p2'']"
proof -
  have g: "pf_graph (qe_path_finder sample_engine) = \<lparr>tg_adjacency =
      [(''a'', [half_edge (Contract ''b'') ''soroswap'' ''p1'' 30 0, half_edge (Contract ''b'') ''phoenix'' ''p2'' 30 0]),
       (''b'', [half_edge (Contract ''a'') ''soroswap'' ''p1'' 30 0, half_edge (Contract ''a'') ''phoenix'' ''p2'' 30 0])],
      tg_tokens = {''a'', ''b''}\<rparr>"
    by (simp add: sample_engine_def sample_engine1_def update_pairs_from_cache_def quote_engine_new_def
      update_from_source_def path_finder_new_def path_finder_config_default_def replace_cached_def sample_pair_def Let_def
      token_allowed_def add_pair_def push_edge_def tg_new_def remove_source_def half_edge_def insert_commute)
  have c: "pf_cache (qe_path_finder sample_engine) = Map.empty"
    by (simp add: sample_engine_def sample_engine1_def update_pairs_from_cache_def quote_engine_new_def
      update_from_source_def path_finder_new_def path_finder_config_default_def Let_def)
  have "Token_Graph.find_paths (pf_graph (qe_path_finder sample_engine)) (Contract ''a'') (Contract ''b'') 3 50 0
      = [direct_path ''soroswap'' ''p1'', direct_path ''phoenix'' ''p2'']"
    unfolding g by (simp add: Token_Graph.find_paths_def direct_paths_def half_edge_def direct_path_def Let_def)
  then show ?thesis
    by (simp add: find_candidate_paths_def find_paths_with_limits_def default_max_hops_def default_max_multi_hop_paths_def
      default_max_direct_paths_def sample_engine_fields path_finder_config_default_def sample_request_def c Let_def
      split: prod.split)
qed

lemma sample_filter:
  "candidate_filter sample_engine False (direct_path ''soroswap'' ''p1'')"
  "candidate_filter sample_engine False (direct_path ''phoenix'' ''p2'')"
  by (simp_all add: candidate_filter_def path_is_executable_def path_contains_classic_def direct_path_def
      CLASSIC_SOURCE_def path_allowed_def token_allowed_def sample_engine_fields)

lemma sample_route_with_paths:
  "\<exists>r. fst (get_route_with_paths now elapsed sample_request
      [direct_path ''soroswap'' ''p1'', direct_path ''phoenix'' ''p2''] None sample_engine) = Some r"
proof -
  have kinds: "\<not> is_classic_only_path (direct_path s p)" if "s \<noteq> CLASSIC_SOURCE" for s p
    using that by (simp add: is_classic_only_path_def direct_path_def)
  have o: "\<exists>r. optimize split_config_default qf elapsed
      [\<lparr>qp_path = p, qp_quote = q\<rparr>, \<lparr>qp_path = p', qp_quote = q'\<rparr>] 1000000 50 (Some 1) = Some r"
    if "qt_amount_out q = 996006" "qt_amount_out q' = 996004" for qf p p' q q'
    using that by (simp add: optimize_def single_route_def apply_slippage_def u128_checked_sub_def u128_checked_mul_def
        u128_max_def sort_by_output_def base_debug_def competitive_enough_def split_config_default_def nth_opt_def gap_bps_def as_u32_def Let_def)
  have f: "filter (candidate_filter sample_engine False)
      [direct_path ''soroswap'' ''p1'', direct_path ''phoenix'' ''p2''] =
      [direct_path ''soroswap'' ''p1'', direct_path ''phoenix'' ''p2'']"
    using sample_filter by simp
  have s: "qe_adapters (set_aquarius_pools ps eng) = qe_adapters eng"
    "qe_split_config (set_aquarius_pools ps eng) = qe_split_config eng" for ps eng
    by (simp_all add: set_aquarius_pools_def)
  obtain r where "optimize split_config_default (quote_path sample_engine [] None now) elapsed
      [\<lparr>qp_path = direct_path ''soroswap'' ''p1'', qp_quote =
         \<lparr>qt_source = ''soroswap'', qt_pool_address = ''p1'', qt_token_in = Contract ''a'', qt_token_out = Contract ''b'',
          qt_amount_in = 1000000, qt_amount_out = 996006, qt_price_impact_bps = 39, qt_fee_bps = 30, qt_path = [],
          qt_timestamp_ms = now\<rparr>\<rparr>,
       \<lparr>qp_path = direct_path ''phoenix'' ''p2'', qp_quote =
         \<lparr>qt_source = ''phoenix'', qt_pool_address = ''p2'', qt_token_in = Contract ''a'', qt_token_out = Contract ''b'',
          qt_amount_in = 1000000, qt_amount_out = 996004, qt_price_impact_bps = 39, qt_fee_bps = 30, qt_path = [],
          qt_timestamp_ms = now\<rparr>\<rparr>] 1000000 50 (Some 1) = Some r"
    using o [where qf = "quote_path sample_engine [] None now"] by (metis (no_types, lifting) quote.select_convs(6))
  then show ?thesis
    unfolding get_route_with_paths_def sample_request_def
    by (simp add: f s quote_path_aquarius sample_engine_fields sample_path_quote kinds CLASSIC_SOURCE_def classic_route_def
        sample_filter Let_def)
qed

lemma route_with_paths_same:
  assumes "quote_path eng' = quote_path eng" "candidate_filter eng' = candidate_filter eng"
    "qe_adapters eng' = qe_adapters eng" "qe_split_config eng' = qe_split_config eng"
  shows "fst (get_route_with_paths now elapsed request paths hyd eng') = fst (get_route_with_paths now elapsed request paths hyd eng)"
proof -
  have s: "qe_adapters (set_aquarius_pools ps eng) = qe_adapters eng"
    "qe_split_config (set_aquarius_pools ps eng) = qe_split_config eng" for ps eng
    by (simp_all add: set_aquarius_pools_def)
  show ?thesis unfolding get_route_with_paths_def Let_def quote_path_aquarius s assms by simp
qed

lemma sample_get_route: "\<exists>r eng'. get_route now elapsed sample_request sample_engine = (Some r, eng')"
proof -
  let ?paths = "[direct_path ''soroswap'' ''p1'', direct_path ''phoenix'' ''p2'']"
  obtain eng1 where f: "find_candidate_paths now sample_request sample_engine = (Some ?paths, eng1)"
    using sample_candidates [of now] by (metis prod.collapse)
  obtain h where h: "find_paths_with_limits now (rq_token_in sample_request) (rq_token_out sample_request) h
      (default_max_multi_hop_paths (qe_path_finder sample_engine)) (default_max_direct_paths (qe_path_finder sample_engine))
      (qe_path_finder sample_engine) = (Some ?paths, qe_path_finder eng1)"
    and e: "eng1 = sample_engine\<lparr>qe_path_finder := qe_path_finder eng1\<rparr>"
    using find_candidate_paths_finder [OF f] by blast
  note same = quote_path_finder_update [OF lookup_allowed [OF h] e]
  have "qe_split_config eng1 = qe_split_config sample_engine" by (subst e) simp
  then have "fst (get_route_with_paths now elapsed sample_request ?paths None eng1)
      = fst (get_route_with_paths now elapsed sample_request ?paths None sample_engine)"
    by (rule route_with_paths_same [OF same])
  then show ?thesis using sample_route_with_paths [of now elapsed] by (simp add: get_route_def f) (metis prod.collapse)
qed

theorem routes_are_executable_witness:
  "\<exists>r. fst (get_route_with_paths 5 0 sample_request [direct_path ''soroswap'' ''p1'', direct_path ''phoenix'' ''p2'']
        None sample_engine) = Some r \<and> (\<forall>so \<in> set (rt_sub_orders r). path_is_executable (so_path so))"
proof -
  let ?g = "get_route_with_paths 5 0 sample_request [direct_path ''soroswap'' ''p1'', direct_path ''phoenix'' ''p2'']
        None sample_engine"
  obtain r where "fst ?g = Some r" using sample_route_with_paths by blast
  then have "?g = (Some r, snd ?g)" by (simp add: prod_eq_iff)
  from routes_are_executable [OF this] show ?thesis using \<open>fst ?g = Some r\<close> by blast
qed

theorem get_route_sound_witness:
  "\<exists>r. fst (get_route 5 0 sample_request sample_engine) = Some r \<and> 996006 \<le> rt_total_expected_out r
     \<and> (\<forall>so \<in> set (rt_sub_orders r). so_path so \<in> set (searched_paths sample_engine sample_request))"
proof -
  obtain r eng' where g: "get_route 5 0 sample_request sample_engine = (Some r, eng')" using sample_get_route by blast
  have t: "canonical_token (rq_token_in sample_request)" "canonical_token (rq_token_out sample_request)"
    by (simp_all add: sample_request_def canonical_token_def from_str_auto_def)
  note sound = get_route_sound [OF plain_run_engine [OF sample_run] t g]
  have "searched_paths sample_engine sample_request = [direct_path ''soroswap'' ''p1'', direct_path ''phoenix'' ''p2'']"
  proof -
    have fr: "finder_run path_finder_config_default (qe_path_finder sample_engine)"
      using engine_run_finder [OF plain_run_engine [OF sample_run]] by simp
    obtain eng1 where f: "find_candidate_paths 5 sample_request sample_engine
        = (Some [direct_path ''soroswap'' ''p1'', direct_path ''phoenix'' ''p2''], eng1)"
      using sample_candidates [of 5] by (metis prod.collapse)
    then have "find_paths_with_limits 5 (rq_token_in sample_request) (rq_token_out sample_request)
        (hops_of sample_engine sample_request) (default_max_multi_hop_paths (qe_path_finder sample_engine))
        (default_max_direct_paths (qe_path_finder sample_engine)) (qe_path_finder sample_engine)
        = (Some [direct_path ''soroswap'' ''p1'', direct_path ''phoenix'' ''p2''], qe_path_finder eng1)"
      by (auto simp: find_candidate_paths_def hops_of_def Let_def split: prod.splits)
    from lookup_paths [OF fr t this] show ?thesis by (simp add: searched_paths_def)
  qed
  then have "direct_path ''soroswap'' ''p1'' \<in> set (searched_paths sample_engine sample_request)" by simp
  moreover have "candidate_filter sample_engine (soroban_only sample_request) (direct_path ''soroswap'' ''p1'')"
    using sample_filter(1) by (simp add: soroban_only_def sample_request_def)
  moreover have "quote_path sample_engine (qe_adapters sample_engine) None 5 (direct_path ''soroswap'' ''p1'')
      (rq_amount_in sample_request) = Some (Some
     \<lparr>qt_source = ''soroswap'', qt_pool_address = ''p1'', qt_token_in = Contract ''a'', qt_token_out = Contract ''b'',
      qt_amount_in = 1000000, qt_amount_out = 996006, qt_price_impact_bps = 39, qt_fee_bps = 30, qt_path = [],
      qt_timestamp_ms = 5\<rparr>)"
    using sample_path_quote(1) [of 5] by (simp add: sample_engine_fields sample_request_def)
  ultimately have "996006 \<le> rt_total_expected_out r" using sound by fastforce
  then show ?thesis using g sound by auto
qed

lemma route_hops_are_cached_witness:
  "\<exists>pair. find_pool_edge (qe_cached_pools sample_engine) ''p2'' (Contract ''a'') (Contract ''b'') = Some pair
     \<and> pair \<in> set (qe_cached_pools sample_engine)"
proof -
  let ?es = "[half_edge (Contract ''b'') ''phoenix'' ''p2'' 30 0]"
  have "half_edge (Contract ''b'') ''phoenix'' ''p2'' 30 0 \<in> set (edges_at (pf_graph (qe_path_finder sample_engine)) ''a'')"
    unfolding sample_engine_def update_pairs_finder edges_at_update
    by (simp add: sample_engine1_def sample_pair_def token_allowed_def update_pairs_from_cache_def update_from_source_def
        quote_engine_new_def path_finder_new_def path_finder_config_default_def Let_def)
  then have "swap_route (pf_graph (qe_path_finder sample_engine)) (Contract ''a'') ''b'' ?es"
    by (simp add: swap_route_def simple_chain_def half_edge_def)
  from route_hops_are_cached [OF sample_run sample_engine_fields(5) this, of 0] show ?thesis
    by (auto simp: route_def half_edge_def)
qed


section \<open>The cache in front of the optimiser\<close>

text \<open>C18: The cache of quotes changes no answer: when paths with the same joined pool addresses are the
  same path, any sequence of questions, for any amounts, is answered through the cache exactly as by
  quoting every time, panics included.\<close>

theorem quote_cache_transparent:
  assumes "\<forall>p \<in> P. \<forall>p' \<in> P. join ''+'' (rp_pool_addresses p) = join ''+'' (rp_pool_addresses p') \<longrightarrow>
      rp_tokens p = rp_tokens p' \<and> rp_sources p = rp_sources p' \<and> rp_pool_addresses p = rp_pool_addresses p'"
    and "fst ` set asked \<subseteq> P"
  shows "cached_answers bucket (quote_path eng adapters hydration now) asked Map.empty
    = direct_answers (quote_path eng adapters hydration now) asked"
proof (rule cached_answers_direct [OF quote_path_reports _ _ assms(2)])
  show "keys_agree (quote_path eng adapters hydration now) P"
    unfolding keys_agree_def using assms(1) quote_path_cong by blast
  show "cache_valid (quote_path eng adapters hydration now) P Map.empty" by (simp add: cache_valid_def)
qed

theorem quote_cache_transparent_witness:
  "cached_answers 1953 (quote_path sample_engine [] None 0)
       [(direct_path ''soroswap'' ''p1'', 1000000), (direct_path ''soroswap'' ''p1'', 1000000)] Map.empty
     = direct_answers (quote_path sample_engine [] None 0)
       [(direct_path ''soroswap'' ''p1'', 1000000), (direct_path ''soroswap'' ''p1'', 1000000)]"
  by (rule quote_cache_transparent [of "{direct_path ''soroswap'' ''p1''}"]) simp_all





section \<open>Refreshing the pairs\<close>

definition soroswap_adapter :: dex_adapter where
  "soroswap_adapter = \<lparr>da_id = ''soroswap'', da_get_quote = (\<lambda>_ _ _ _. None)\<rparr>"

definition refreshed_engine :: quote_engine where
  "refreshed_engine = snd (refresh_pairs (\<lambda>_ _. 0)
     (\<lambda>_. Some [\<lparr>at_token_a = Contract ''a'', at_token_b = Contract ''b'', at_pool_address = ''p1'', at_fee_bps = 30,
                 at_reserve_a = Some 1000000000, at_reserve_b = Some 1000000000\<rparr>])
     (register_quote_adapter soroswap_adapter (quote_engine_new path_finder_config_default split_config_default)))"

lemma refresh_keeps_pools: "qe_cached_pools (snd (refresh_loop clocks answers k adapters eng)) = qe_cached_pools eng"
proof (induction clocks answers k adapters eng rule: refresh_loop.induct)
  case (2 clocks answers k adapter rest eng)
  show ?case
  proof (cases "answers k")
    case None
    then show ?thesis using 2(1) by simp
  next
    case (Some pairs)
    obtain u pf where u: "update_from_source (da_id adapter) (clocks k)
        (map (to_trading_pair (da_id adapter)) pairs) (qe_path_finder eng) = (u, pf)" by force
    then show ?thesis using 2(2) [OF Some u [symmetric]] Some u by (cases u) (simp_all add: Let_def)
  qed
qed simp

text \<open>C36: \<open>refresh_pairs\<close> brings new pairs into the graph but not into the pools that are quoted from:
  whatever the adapters answer, the cached pools stay as they were. So a pool that first appears in a
  refresh is found as a path, has no quote, and the engine returns no route over it.\<close>

theorem refreshed_pairs_have_no_quote:
  "(\<forall>clocks answers eng. qe_cached_pools (snd (refresh_pairs clocks answers eng)) = qe_cached_pools eng)
   \<and> direct_path ''soroswap'' ''p1'' \<in> set (searched_paths refreshed_engine sample_request)
   \<and> quote_path refreshed_engine (qe_adapters refreshed_engine) None now (direct_path ''soroswap'' ''p1'') 1000000 = Some None"
proof (intro conjI allI)
  show "qe_cached_pools (snd (refresh_pairs clocks answers eng)) = qe_cached_pools eng" for clocks answers eng
    unfolding refresh_pairs_def by (rule refresh_keeps_pools)
  then have c: "qe_cached_pools refreshed_engine = []"
    unfolding refreshed_engine_def by (simp add: register_quote_adapter_def push_adapter_def quote_engine_new_def)
  have f: "pf_graph (qe_path_finder refreshed_engine) = \<lparr>tg_adjacency =
      [(''a'', [half_edge (Contract ''b'') ''soroswap'' ''p1'' 30 0]), (''b'', [half_edge (Contract ''a'') ''soroswap'' ''p1'' 30 0])],
      tg_tokens = {''a'', ''b''}\<rparr>"
    "pf_excluded_tokens (qe_path_finder refreshed_engine) = {}"
    "pf_config (qe_path_finder refreshed_engine) = path_finder_config_default"
    by (simp_all add: refreshed_engine_def refresh_pairs_def register_quote_adapter_def push_adapter_def quote_engine_new_def
      update_from_source_def path_finder_new_def path_finder_config_default_def soroswap_adapter_def to_trading_pair_def
      Let_def token_allowed_def add_pair_def push_edge_def tg_new_def remove_source_def half_edge_def insert_commute)
  show "direct_path ''soroswap'' ''p1'' \<in> set (searched_paths refreshed_engine sample_request)"
    by (simp add: searched_paths_def hops_of_def default_max_hops_def default_max_multi_hop_paths_def
      default_max_direct_paths_def f path_finder_config_default_def sample_request_def Token_Graph.find_paths_def
      direct_paths_def half_edge_def direct_path_def Let_def)
  show "quote_path refreshed_engine (qe_adapters refreshed_engine) None now (direct_path ''soroswap'' ''p1'') 1000000 = Some None"
    by (simp add: quote_path_def direct_path_def path_allowed_def token_allowed_def f nth_opt_def hop_quote_def
      local_quote_def local_clmm_quote_def local_xyk_quote_def find_pool_edge_def c CLASSIC_SOURCE_def Let_def)
qed

end
