(* ===== verification/Keeper_Book.thy ===== *)
theory Keeper_Book
  imports Dex_Prelude "HOL-Library.RBT" "HOL-Library.Product_Lexorder"
begin

text \<open>
  The order book of the limit keeper (\<open>crates/limit-keeper/src/book.rs\<close>) and its checkpoint
  (\<open>ledger.rs\<close>): a \<open>BTreeMap\<close> from the kind and the number of an order to what is left of it,
  a red-black tree here, updated by the events of the escrow contract.
\<close>

section \<open>Orders and events\<close>

datatype order_kind = Limit | Dca

text \<open>The derived order of the enumeration, used by the keys of the map.\<close>

instantiation order_kind :: linorder
begin

definition less_eq_order_kind :: "order_kind \<Rightarrow> order_kind \<Rightarrow> bool" where
  "less_eq_order_kind a b \<longleftrightarrow> a = Limit \<or> b = Dca"

definition less_order_kind :: "order_kind \<Rightarrow> order_kind \<Rightarrow> bool" where
  "less_order_kind a b \<longleftrightarrow> a = Limit \<and> b = Dca"

instance
proof
  fix a b c :: order_kind
  show "(a < b) = (a \<le> b \<and> \<not> b \<le> a)"
    by (cases a; cases b) (simp_all add: less_eq_order_kind_def less_order_kind_def)
  show "a \<le> a" by (cases a) (simp_all add: less_eq_order_kind_def)
  show "a \<le> b \<Longrightarrow> b \<le> c \<Longrightarrow> a \<le> c" "a \<le> b \<Longrightarrow> b \<le> a \<Longrightarrow> a = b" "a \<le> b \<or> b \<le> a"
    by (cases a; cases b; cases c; simp add: less_eq_order_kind_def)+
qed

end

record open_order =
  oo_kind :: order_kind
  oo_order_id :: nat
  oo_owner :: string
  oo_token_in :: string
  oo_token_out :: string
  oo_remaining :: int
  oo_limit_e7 :: int
  oo_expires :: nat
  oo_chunk :: "int option"
  oo_next_ledger :: "nat option"

datatype order_event =
    EvCreated open_order
  | EvFilled order_kind nat int "nat option"
  | EvCancelled order_kind nat
  | EvExpired order_kind nat

section \<open>The book\<close>

type_synonym order_key = "order_kind \<times> nat"
type_synonym order_book = "(order_key, open_order) rbt"

definition book_get :: "order_book \<Rightarrow> order_kind \<Rightarrow> nat \<Rightarrow> open_order option" where
  "book_get book kind order_id = RBT.lookup book (kind, order_id)"

definition apply_created :: "open_order \<Rightarrow> order_book \<Rightarrow> order_book" where
  "apply_created order book = RBT.insert (oo_kind order, oo_order_id order) order book"

definition apply_filled :: "order_kind \<Rightarrow> nat \<Rightarrow> int \<Rightarrow> nat option \<Rightarrow> order_book \<Rightarrow> order_book" where
  "apply_filled kind order_id remaining next_ledger book =
     (if remaining = 0 then RBT.delete (kind, order_id) book
      else RBT.map_entry (kind, order_id)
             (\<lambda>order. order\<lparr>oo_remaining := remaining,
                oo_next_ledger := (if next_ledger \<noteq> None then next_ledger else oo_next_ledger order)\<rparr>) book)"

definition apply_cancelled :: "order_kind \<Rightarrow> nat \<Rightarrow> order_book \<Rightarrow> order_book" where
  "apply_cancelled kind order_id book = RBT.delete (kind, order_id) book"

definition apply_expired :: "order_kind \<Rightarrow> nat \<Rightarrow> order_book \<Rightarrow> order_book" where
  "apply_expired kind order_id book = RBT.delete (kind, order_id) book"

fun book_apply :: "order_event \<Rightarrow> order_book \<Rightarrow> order_book" where
  "book_apply (EvCreated order) = apply_created order"
| "book_apply (EvFilled kind order_id remaining next_ledger) = apply_filled kind order_id remaining next_ledger"
| "book_apply (EvCancelled kind order_id) = apply_cancelled kind order_id"
| "book_apply (EvExpired kind order_id) = apply_expired kind order_id"

text \<open>\<open>iter\<close>: the orders in the order of their keys.\<close>

definition book_iter :: "order_book \<Rightarrow> open_order list" where
  "book_iter book = map snd (RBT.entries book)"

definition from_orders :: "open_order list \<Rightarrow> order_book" where
  "from_orders orders = fold apply_created orders RBT.empty"

section \<open>Checkpoints\<close>

record keeper_checkpoint =
  kc_cursor :: nat
  kc_orders :: "open_order list"

definition capture :: "nat \<Rightarrow> order_book \<Rightarrow> keeper_checkpoint" where
  "capture cursor book = \<lparr>kc_cursor = cursor, kc_orders = book_iter book\<rparr>"

definition into_parts :: "keeper_checkpoint \<Rightarrow> nat \<times> order_book" where
  "into_parts checkpoint = (kc_cursor checkpoint, from_orders (kc_orders checkpoint))"

section \<open>What an event does to one key\<close>

fun event_key :: "order_event \<Rightarrow> order_key" where
  "event_key (EvCreated order) = (oo_kind order, oo_order_id order)"
| "event_key (EvFilled kind order_id _ _) = (kind, order_id)"
| "event_key (EvCancelled kind order_id) = (kind, order_id)"
| "event_key (EvExpired kind order_id) = (kind, order_id)"

text \<open>The entry of an order before and after an event that names it.\<close>

fun event_effect :: "order_event \<Rightarrow> open_order option \<Rightarrow> open_order option" where
  "event_effect (EvCreated order) entry = Some order"
| "event_effect (EvFilled _ _ remaining next_ledger) entry =
     (if remaining = 0 then None
      else map_option (\<lambda>order. order\<lparr>oo_remaining := remaining,
             oo_next_ledger := (if next_ledger \<noteq> None then next_ledger else oo_next_ledger order)\<rparr>) entry)"
| "event_effect (EvCancelled _ _) entry = None"
| "event_effect (EvExpired _ _) entry = None"

lemma lookup_book_apply:
  "RBT.lookup (book_apply e book) k =
     (if k = event_key e then event_effect e (RBT.lookup book k) else RBT.lookup book k)"
  by (cases e) (auto simp: apply_created_def apply_filled_def apply_cancelled_def apply_expired_def)

text \<open>Replaying a log acts on each key through the events of that key alone.\<close>

definition events_of :: "order_key \<Rightarrow> order_event list \<Rightarrow> order_event list" where
  "events_of k es = filter (\<lambda>e. event_key e = k) es"

lemma lookup_book_fold:
  "RBT.lookup (fold book_apply es book) k = fold event_effect (events_of k es) (RBT.lookup book k)"
  by (induction es arbitrary: book) (simp_all add: events_of_def lookup_book_apply)

section \<open>Entries stand under their own key\<close>

definition book_keyed :: "order_book \<Rightarrow> bool" where
  "book_keyed book \<longleftrightarrow> (\<forall>k order. RBT.lookup book k = Some order \<longrightarrow> k = (oo_kind order, oo_order_id order))"

lemma book_keyed_empty [simp]: "book_keyed RBT.empty"
  by (simp add: book_keyed_def)

lemma event_effect_key:
  assumes "event_effect e entry = Some order" "\<And>o'. entry = Some o' \<Longrightarrow> (oo_kind o', oo_order_id o') = event_key e"
  shows "(oo_kind order, oo_order_id order) = event_key e"
proof (cases e)
  case (EvFilled kind i r due)
  then show ?thesis using assms by (cases entry) (auto split: if_splits)
qed (use assms(1) in simp_all)

lemma book_keyed_apply:
  assumes "book_keyed book"
  shows "book_keyed (book_apply e book)"
  unfolding book_keyed_def
proof (intro allI impI)
  fix k order assume l: "RBT.lookup (book_apply e book) k = Some order"
  show "k = (oo_kind order, oo_order_id order)"
  proof (cases "k = event_key e")
    case True
    have "event_effect e (RBT.lookup book k) = Some order" using l True by (simp add: lookup_book_apply)
    moreover have "(oo_kind o', oo_order_id o') = event_key e" if "RBT.lookup book k = Some o'" for o'
      using assms [unfolded book_keyed_def, rule_format, OF that] True by simp
    ultimately have "(oo_kind order, oo_order_id order) = event_key e" by (rule event_effect_key)
    then show ?thesis using True by simp
  next
    case False
    then have "RBT.lookup book k = Some order" using l by (simp add: lookup_book_apply)
    then show ?thesis by (rule assms [unfolded book_keyed_def, rule_format])
  qed
qed

lemma book_keyed_fold: "book_keyed book \<Longrightarrow> book_keyed (fold book_apply es book)"
  by (induction es arbitrary: book) (simp_all add: book_keyed_apply)

lemma from_orders_events: "from_orders orders = fold book_apply (map EvCreated orders) RBT.empty"
  by (simp add: from_orders_def fold_map comp_def)

lemma book_keyed_from_orders: "book_keyed (from_orders orders)"
  unfolding from_orders_events by (rule book_keyed_fold) simp

lemma lookup_apply_created_fold:
  "RBT.lookup (fold apply_created orders book)
     = RBT.lookup book ++ map_of (rev (map (\<lambda>order. ((oo_kind order, oo_order_id order), order)) orders))"
proof (induction orders arbitrary: book)
  case (Cons order orders)
  then show ?case
    by (auto simp: fun_eq_iff apply_created_def map_add_def split: option.splits)
qed simp

lemma map_of_rev_distinct:
  assumes "distinct (map fst xs)"
  shows "map_of (rev xs) = map_of xs"
proof (rule map_of_inject_set [THEN iffD2])
  show "distinct (map fst (rev xs))" using assms by (simp add: rev_map [symmetric])
qed (use assms in simp_all)

lemma restore_keyed:
  assumes "book_keyed book"
  shows "RBT.lookup (from_orders (book_iter book)) = RBT.lookup book"
proof -
  have "map (\<lambda>order. ((oo_kind order, oo_order_id order), order)) (book_iter book) = RBT.entries book"
    unfolding book_iter_def list.map_comp
    using assms by (intro map_idI) (auto simp: book_keyed_def RBT.lookup_in_tree)
  then show ?thesis
    by (simp add: from_orders_def lookup_apply_created_fold map_of_rev_distinct [OF RBT.distinct_entries] RBT.map_of_entries)
qed

section \<open>Replaying the end of a log\<close>

text \<open>What a list of events of one key, none of them a creation, does to the entry: it removes it, or
  it overwrites what is left and when it is due.\<close>

fun is_created :: "order_event \<Rightarrow> bool" where
  "is_created (EvCreated _) = True"
| "is_created _ = False"

lemma effect_None: "list_all (\<lambda>e. \<not> is_created e) es \<Longrightarrow> fold event_effect es None = None"
proof (induction es)
  case (Cons e es)
  then show ?case by (cases e) auto
qed simp

lemma effect_updates:
  assumes "list_all (\<lambda>e. \<not> is_created e) es"
  shows "(\<forall>entry. fold event_effect es entry = None)
    \<or> (\<exists>rem due. (\<forall>entry. fold event_effect es entry = map_option (\<lambda>order. order\<lparr>oo_remaining :=
           (case rem of Some r \<Rightarrow> r | None \<Rightarrow> oo_remaining order),
           oo_next_ledger := (case due of Some _ \<Rightarrow> due | None \<Rightarrow> oo_next_ledger order)\<rparr>) entry))"
  using assms
proof (induction es)
  case Nil
  have "\<forall>entry. fold event_effect [] entry = map_option (\<lambda>order. order\<lparr>oo_remaining :=
           (case None of Some r \<Rightarrow> r | None \<Rightarrow> oo_remaining order),
           oo_next_ledger := (case None of Some _ \<Rightarrow> None | None \<Rightarrow> oo_next_ledger order)\<rparr>) entry"
    by (simp add: option.map_ident)
  then show ?case by blast
next
  case (Cons e es)
  have n: "list_all (\<lambda>e. \<not> is_created e) es" using Cons.prems by simp
  show ?case
  proof (cases "\<forall>entry. event_effect e entry = None")
    case True
    then show ?thesis using effect_None [OF n] by simp
  next
    case False
    then obtain kind i r due where e: "e = EvFilled kind i r due" "r \<noteq> 0"
      using Cons.prems by (cases e) (auto split: if_splits)
    from Cons.IH [OF n] show ?thesis
    proof (elim disjE exE)
      assume "\<forall>entry. fold event_effect es entry = None"
      then show ?thesis by simp
    next
      fix rem due' assume h: "\<forall>entry. fold event_effect es entry = map_option (\<lambda>order. order\<lparr>oo_remaining :=
           (case rem of Some r \<Rightarrow> r | None \<Rightarrow> oo_remaining order),
           oo_next_ledger := (case due' of Some _ \<Rightarrow> due' | None \<Rightarrow> oo_next_ledger order)\<rparr>) entry"
      show ?thesis
        by (rule disjI2, rule exI [of _ "Some (case rem of Some r' \<Rightarrow> r' | None \<Rightarrow> r)"],
            rule exI [of _ "case due' of Some _ \<Rightarrow> due' | None \<Rightarrow> due"])
          (auto simp: h e option.map_comp comp_def split: option.splits intro!: option.map_cong)
    qed
  qed
qed

text \<open>A log tail in which only the first event of an order can be its creation.\<close>

definition created_first :: "order_event list \<Rightarrow> bool" where
  "created_first es \<longleftrightarrow> list_all (\<lambda>e. \<not> is_created e) (tl es)"

lemma effect_idempotent:
  assumes "created_first es"
  shows "fold event_effect es (fold event_effect es entry) = fold event_effect es entry"
proof (cases es)
  case (Cons e rest)
  show ?thesis
  proof (cases "is_created e")
    case True
    then show ?thesis using Cons by (cases e) simp_all
  next
    case False
    then have "list_all (\<lambda>e. \<not> is_created e) es" using assms Cons by (simp add: created_first_def)
    from effect_updates [OF this] show ?thesis
      by (elim disjE exE) (auto simp: option.map_comp comp_def split: option.splits intro!: option.map_cong)
  qed
qed simp

lemma replay_tail:
  assumes "\<And>k. created_first (events_of k log_tail)"
  shows "RBT.lookup (fold book_apply log_tail (fold book_apply log_tail book)) = RBT.lookup (fold book_apply log_tail book)"
  by (simp add: fun_eq_iff lookup_book_fold effect_idempotent assms)

end
