(* ===== verification/Keeper_Events.thy ===== *)
theory Keeper_Events
  imports Keeper_Book Order_Escrow
begin

text \<open>
  \<open>crates/limit-keeper/src/events.rs\<close>: from the events the RPC server returns to updates of the
  order book. Decoding a string of base64 and XDR, printing an address and reading a contract's are
  third-party code and parameters (\<open>xdr_codec\<close>) over an arbitrary type \<open>'x\<close> of encoded strings; the values
  \<open>ScVal\<close> that come out of it are a datatype with the constructors the sources name.

  \<open>escrow_wire\<close> is the other end: the topics and the data that every \<open>publish\<close> of
  \<open>contracts/order-escrow/src/lib.rs\<close> gives for an event.
\<close>

section \<open>Values and events on the wire\<close>

datatype sc_address = ScAccount address | ScContract address | ScOtherAddress

text \<open>\<open>ScVal::I128\<close> has the signed high and the unsigned low half.\<close>

datatype scval =
    ScSymbol string
  | ScU32 nat
  | ScU64 nat
  | ScI128 int nat
  | ScAddress sc_address
  | ScVec "scval list option"
  | ScMap "(scval \<times> scval) list option"
  | ScOther

datatype 'x json_value = JsonString 'x | JsonObject "(string \<times> 'x json_value) list" | JsonOther

record 'x contract_event =
  ce_event_type :: string
  ce_ledger :: nat
  ce_contract_id :: string
  ce_in_successful_call :: "bool option"
  ce_topic :: "'x list option"
  ce_value :: "'x json_value option"

record 'x xdr_codec =
  xc_decode :: "'x \<Rightarrow> scval option"
  xc_account :: "address \<Rightarrow> string"
  xc_contract :: "address \<Rightarrow> string"
  xc_contract_id :: "string \<Rightarrow> address option"

datatype keeper_error =
    KE_Decode
  | KE_MissingValue
  | KE_NotAVector
  | KE_FieldCount
  | KE_NotAnAddress
  | KE_NotAnAmount
  | KE_NotALedger
  | KE_LedgerTooLarge
  | KE_Quote
  | KE_PathLength
  | KE_HopMetadata
  | KE_DexSource
  | KE_ParseAmount
  | KE_SubRoute
  | KE_NoSubRoutes
  | KE_RouteAmount
  | KE_FillAmount
  | KE_ContractId
  | KE_SecretRequired
  | KE_PollSecs
  | KE_Network

type_synonym 'a keeper_res = "keeper_error + 'a"

section \<open>Reading values\<close>

definition decode_scval :: "'x xdr_codec \<Rightarrow> 'x \<Rightarrow> scval keeper_res" where
  "decode_scval codec encoded = or_fail (xc_decode codec encoded) KE_Decode"

definition scval_address :: "'x xdr_codec \<Rightarrow> scval \<Rightarrow> string keeper_res" where
  "scval_address codec v =
     (case v of
        ScAddress (ScAccount a) \<Rightarrow> Inr (xc_account codec a)
      | ScAddress (ScContract a) \<Rightarrow> Inr (xc_contract codec a)
      | _ \<Rightarrow> Inl KE_NotAnAddress)"

text \<open>\<open>((parts.hi as i128) << 64) | parts.lo as i128\<close>\<close>

definition scval_i128 :: "scval \<Rightarrow> int keeper_res" where
  "scval_i128 v =
     (case v of
        ScI128 hi lo \<Rightarrow> Inr (or (push_bit 64 hi) (int lo))
      | ScU64 n \<Rightarrow> Inr (int n)
      | ScU32 n \<Rightarrow> Inr (int n)
      | _ \<Rightarrow> Inl KE_NotAnAmount)"

definition scval_u32 :: "scval \<Rightarrow> nat keeper_res" where
  "scval_u32 v =
     (case v of
        ScU32 n \<Rightarrow> Inr n
      | ScU64 n \<Rightarrow> if n \<le> u32_max then Inr n else Inl KE_LedgerTooLarge
      | _ \<Rightarrow> Inl KE_NotALedger)"

definition require_fields :: "scval list \<Rightarrow> nat \<Rightarrow> unit keeper_res" where
  "require_fields flds count = ensure (\<not> length flds < count) KE_FieldCount"

section \<open>Reading events\<close>

definition event_topic :: "'x xdr_codec \<Rightarrow> 'x contract_event \<Rightarrow> (string \<times> nat) option keeper_res" where
  "event_topic codec event =
     (case ce_topic event of
        None \<Rightarrow> Inr None
      | Some topics \<Rightarrow>
          if length topics < 2 then Inr None
          else
            and_then (decode_scval codec (topics ! 0)) (\<lambda>first.
            case first of
              ScSymbol kind \<Rightarrow>
                and_then (decode_scval codec (topics ! 1)) (\<lambda>second.
                case second of
                  ScU64 order_id \<Rightarrow> Inr (Some (kind, order_id))
                | ScU32 order_id \<Rightarrow> Inr (Some (kind, order_id))
                | _ \<Rightarrow> Inr None)
            | _ \<Rightarrow> Inr None))"

text \<open>The encoded string of a value: the value itself, or its member \<open>xdr\<close>.\<close>

definition encoded_value :: "'x json_value \<Rightarrow> 'x option" where
  "encoded_value value =
     (case value of
        JsonString encoded \<Rightarrow> Some encoded
      | JsonObject members \<Rightarrow>
          (case map_of members ''xdr'' of Some (JsonString encoded) \<Rightarrow> Some encoded | _ \<Rightarrow> None)
      | JsonOther \<Rightarrow> None)"

definition event_data_fields :: "'x xdr_codec \<Rightarrow> 'x contract_event \<Rightarrow> scval list keeper_res" where
  "event_data_fields codec event =
     and_then (or_fail (Option.bind (ce_value event) encoded_value) KE_MissingValue) (\<lambda>encoded.
     and_then (decode_scval codec encoded) (\<lambda>v.
     case v of ScVec (Some flds) \<Rightarrow> Inr flds | _ \<Rightarrow> Inl KE_NotAVector))"

definition parse_order_created :: "'x xdr_codec \<Rightarrow> nat \<Rightarrow> scval list \<Rightarrow> order_event option keeper_res" where
  "parse_order_created codec order_id flds =
     and_then (require_fields flds 6) (\<lambda>_.
     and_then (scval_address codec (flds ! 0)) (\<lambda>owner.
     and_then (scval_address codec (flds ! 1)) (\<lambda>tin.
     and_then (scval_address codec (flds ! 2)) (\<lambda>tout.
     and_then (scval_i128 (flds ! 3)) (\<lambda>amount.
     and_then (scval_i128 (flds ! 4)) (\<lambda>limit_e7.
     and_then (scval_u32 (flds ! 5)) (\<lambda>expires.
     Inr (Some (EvCreated \<lparr>oo_kind = Limit, oo_order_id = order_id, oo_owner = owner, oo_token_in = tin,
       oo_token_out = tout, oo_remaining = amount, oo_limit_e7 = limit_e7, oo_expires = expires,
       oo_chunk = None, oo_next_ledger = None\<rparr>)))))))))"

definition parse_dca_created :: "'x xdr_codec \<Rightarrow> nat \<Rightarrow> scval list \<Rightarrow> order_event option keeper_res" where
  "parse_dca_created codec order_id flds =
     and_then (require_fields flds 9) (\<lambda>_.
     and_then (scval_address codec (flds ! 0)) (\<lambda>owner.
     and_then (scval_address codec (flds ! 1)) (\<lambda>tin.
     and_then (scval_address codec (flds ! 2)) (\<lambda>tout.
     and_then (scval_i128 (flds ! 3)) (\<lambda>amount.
     and_then (scval_i128 (flds ! 4)) (\<lambda>chunk.
     and_then (scval_u32 (flds ! 6)) (\<lambda>next_ledger.
     and_then (scval_i128 (flds ! 7)) (\<lambda>limit_e7.
     and_then (scval_u32 (flds ! 8)) (\<lambda>expires.
     Inr (Some (EvCreated \<lparr>oo_kind = Dca, oo_order_id = order_id, oo_owner = owner, oo_token_in = tin,
       oo_token_out = tout, oo_remaining = amount, oo_limit_e7 = limit_e7, oo_expires = expires,
       oo_chunk = Some chunk, oo_next_ledger = Some next_ledger\<rparr>)))))))))))"

definition parse_escrow_event :: "'x xdr_codec \<Rightarrow> 'x contract_event \<Rightarrow> order_event option keeper_res" where
  "parse_escrow_event codec event =
     (if ce_event_type event \<noteq> ''contract'' \<or> ce_in_successful_call event = Some False then Inr None
      else
        and_then (event_topic codec event) (\<lambda>topic.
        case topic of
          None \<Rightarrow> Inr None
        | Some (kind, order_id) \<Rightarrow>
            and_then (event_data_fields codec event) (\<lambda>flds.
            if kind = ''order_created'' then parse_order_created codec order_id flds
            else if kind = ''order_filled'' then
              and_then (require_fields flds 4) (\<lambda>_.
              and_then (scval_i128 (flds ! 3)) (\<lambda>remaining.
              Inr (Some (EvFilled Limit order_id remaining None))))
            else if kind = ''order_cancelled'' then
              and_then (require_fields flds 2) (\<lambda>_. Inr (Some (EvCancelled Limit order_id)))
            else if kind = ''order_expired'' then
              and_then (require_fields flds 2) (\<lambda>_. Inr (Some (EvExpired Limit order_id)))
            else if kind = ''dca_created'' then parse_dca_created codec order_id flds
            else if kind = ''dca_filled'' then
              and_then (require_fields flds 5) (\<lambda>_.
              and_then (scval_i128 (flds ! 3)) (\<lambda>remaining.
              and_then (scval_u32 (flds ! 4)) (\<lambda>next_ledger.
              Inr (Some (EvFilled Dca order_id remaining (Some next_ledger))))))
            else if kind = ''dca_cancelled'' then Inr (Some (EvCancelled Dca order_id))
            else if kind = ''dca_expired'' then Inr (Some (EvExpired Dca order_id))
            else Inr None)))"

text \<open>The loop over a page of events in \<open>main\<close>: malformed events are logged and skipped.\<close>

definition apply_event :: "'x xdr_codec \<Rightarrow> 'x contract_event \<Rightarrow> order_book \<Rightarrow> order_book" where
  "apply_event codec event book =
     (case parse_escrow_event codec event of Inr (Some update) \<Rightarrow> book_apply update book | _ \<Rightarrow> book)"

definition apply_events :: "'x xdr_codec \<Rightarrow> 'x contract_event list \<Rightarrow> order_book \<Rightarrow> order_book" where
  "apply_events codec events book = fold (apply_event codec) events book"

section \<open>What the contract publishes\<close>

text \<open>The value of an amount: \<open>i128\<close> in two halves.\<close>

definition i128_scval :: "int \<Rightarrow> scval" where
  "i128_scval value = ScI128 (drop_bit 64 value) (nat (take_bit 64 value))"

text \<open>\<open>account a\<close>: the address is an account, not a contract.\<close>

definition address_scval :: "(address \<Rightarrow> bool) \<Rightarrow> address \<Rightarrow> scval" where
  "address_scval account a = ScAddress (if account a then ScAccount a else ScContract a)"

definition address_name :: "(address \<Rightarrow> bool) \<Rightarrow> 'x xdr_codec \<Rightarrow> address \<Rightarrow> string" where
  "address_name account codec a = (if account a then xc_account codec a else xc_contract codec a)"

fun escrow_wire :: "(address \<Rightarrow> bool) \<Rightarrow> escrow_event \<Rightarrow> string \<times> nat \<times> scval list" where
  "escrow_wire account (OrderCreated i owner tin tout amount limit_e7 expires) =
     (''order_created'', i, [address_scval account owner, address_scval account tin, address_scval account tout,
        i128_scval amount, i128_scval limit_e7, ScU32 expires])"
| "escrow_wire account (OrderCancelled i owner refunded) =
     (''order_cancelled'', i, [address_scval account owner, i128_scval refunded])"
| "escrow_wire account (OrderExpiredEvent i owner refunded) =
     (''order_expired'', i, [address_scval account owner, i128_scval refunded])"
| "escrow_wire account (OrderFilled i owner amount out remaining) =
     (''order_filled'', i, [address_scval account owner, i128_scval amount, i128_scval out, i128_scval remaining])"
| "escrow_wire account (DcaCreated i owner tin tout amount chunk interval start min_rate expires) =
     (''dca_created'', i, [address_scval account owner, address_scval account tin, address_scval account tout,
        i128_scval amount, i128_scval chunk, ScU32 interval, ScU32 start, i128_scval min_rate, ScU32 expires])"
| "escrow_wire account (DcaFilled i owner amount out remaining next_ledger) =
     (''dca_filled'', i, [address_scval account owner, i128_scval amount, i128_scval out, i128_scval remaining,
        ScU32 next_ledger])"
| "escrow_wire account (DcaCancelled i owner refunded) =
     (''dca_cancelled'', i, [address_scval account owner, i128_scval refunded])"
| "escrow_wire account (DcaExpired i owner refunded) =
     (''dca_expired'', i, [address_scval account owner, i128_scval refunded])"

end
