(* ===== verification/Keeper_Execute.thy ===== *)
theory Keeper_Execute
  imports Keeper_Events
begin

text \<open>
  What the limit keeper does with the open orders: the quote of the HTTP API (\<open>quote.rs\<close>), the
  limit price (\<open>limit.rs\<close>), the operation it submits (\<open>execute.rs\<close>), the loop of \<open>main.rs\<close> with
  the paged event query of \<open>dex-adapters/src/rpc/events.rs\<close>, and the checks of \<open>config.rs\<close>.
  Answers of the network are parameters; an outer \<open>option\<close> is a panic, which ends the process.
\<close>

section \<open>The limit price\<close>

definition keeper_required_min_out :: "int \<Rightarrow> int \<Rightarrow> int option" where
  "keeper_required_min_out amount limit_e7 =
     (if \<not> amount \<ge> 0 then None
      else if \<not> limit_e7 > 0 then None
      else map_option (\<lambda>product. product sdiv RATE_SCALE_E7) (i128_checked_mul amount limit_e7))"

section \<open>Quotes\<close>

record quote_sub_route =
  qs_path :: "string list"
  qs_pool_addresses :: "string list"
  qs_dex_types :: "string list"
  qs_in_indices :: "nat list"
  qs_out_indices :: "nat list"
  qs_amount_in :: string
  qs_amount_out :: string

record quote_step =
  ks_dex_type :: string
  ks_pool_address :: string
  ks_token_in :: string
  ks_token_out :: string
  ks_in_idx :: nat
  ks_out_idx :: nat

record keeper_quote =
  kq_expected_output :: int
  kq_minimum_output :: int
  kq_sub_routes :: "quote_sub_route list"

record quote_api_data =
  ad_expected_output :: string
  ad_minimum_output :: string
  ad_sub_routes :: "quote_sub_route list"

record quote_api_response =
  ar_success :: bool
  ar_data :: "quote_api_data option"

text \<open>\<open>str::parse::<i128>\<close> of the standard library: an optional sign, at least one digit, nothing
  else, and a value in range.\<close>

fun parse_digits :: "int \<Rightarrow> string \<Rightarrow> int option" where
  "parse_digits acc [] = Some acc"
| "parse_digits acc (c # cs) =
     (let d = of_char c - (48 :: int)
      in if 0 \<le> d \<and> d \<le> 9 then parse_digits (acc * 10 + d) cs else None)"

definition parse_i128 :: "string \<Rightarrow> int option" where
  "parse_i128 s =
     (let (negative, digits) =
        (case s of
           [] \<Rightarrow> (False, [])
         | c # cs \<Rightarrow> if c = CHR ''-'' then (True, cs) else if c = CHR ''+'' then (False, cs) else (False, s))
      in if digits = [] then None
         else Option.bind (parse_digits 0 digits) (\<lambda>v.
           let value = (if negative then - v else v)
           in if in_i128 value then Some value else None))"

definition quote_from_api_data :: "quote_api_data \<Rightarrow> keeper_quote keeper_res" where
  "quote_from_api_data data =
     and_then (or_fail (parse_i128 (ad_expected_output data)) KE_Quote) (\<lambda>expected_output.
     and_then (or_fail (parse_i128 (ad_minimum_output data)) KE_Quote) (\<lambda>minimum_output.
     Inr \<lparr>kq_expected_output = expected_output, kq_minimum_output = minimum_output,
          kq_sub_routes = ad_sub_routes data\<rparr>))"

text \<open>\<open>http token_in token_out amount_in\<close> is the parsed answer of the API, \<open>None\<close> a failed request.\<close>

type_synonym quote_http = "string \<Rightarrow> string \<Rightarrow> int \<Rightarrow> quote_api_response option"

definition fetch_quote :: "quote_http \<Rightarrow> string \<Rightarrow> string \<Rightarrow> int \<Rightarrow> keeper_quote keeper_res" where
  "fetch_quote http tin tout amount =
     (if amount \<le> 0 then Inl KE_Quote
      else
        and_then (or_fail (http tin tout amount) KE_Quote) (\<lambda>response.
        if \<not> ar_success response then Inl KE_Quote
        else and_then (or_fail (ar_data response) KE_Quote) quote_from_api_data))"

definition source_to_dex_type :: "string \<Rightarrow> string keeper_res" where
  "source_to_dex_type source =
     (if source = ''aquarius'' \<or> source = ''aquarius_clmm'' then Inr ''aquarius''
      else if source = ''soroswap'' then Inr ''soroswap''
      else if source = ''phoenix'' then Inr ''phoenix''
      else if source = ''sushi'' then Inr ''sushi''
      else if source = ''comet'' then Inr ''comet''
      else Inl KE_DexSource)"

text \<open>\<open>collect\<close> into a \<open>Result\<close>: the first error, or all values.\<close>

fun collect_results :: "('e + 'a) list \<Rightarrow> 'e + 'a list" where
  "collect_results [] = Inr []"
| "collect_results (r # rs) = and_then r (\<lambda>v. and_then (collect_results rs) (\<lambda>vs. Inr (v # vs)))"

definition steps_from_api_sub_route :: "quote_sub_route \<Rightarrow> quote_step list keeper_res" where
  "steps_from_api_sub_route route =
     (let hops = length (qs_pool_addresses route)
      in if length (qs_path route) \<noteq> hops + 1 then Inl KE_PathLength
         else if length (qs_dex_types route) \<noteq> hops \<or> length (qs_in_indices route) \<noteq> hops
           \<or> length (qs_out_indices route) \<noteq> hops then Inl KE_HopMetadata
         else
           collect_results (map (\<lambda>i.
             and_then (source_to_dex_type (qs_dex_types route ! i)) (\<lambda>dex_type.
             Inr \<lparr>ks_dex_type = dex_type, ks_pool_address = qs_pool_addresses route ! i,
                  ks_token_in = qs_path route ! i, ks_token_out = qs_path route ! (i + 1),
                  ks_in_idx = qs_in_indices route ! i, ks_out_idx = qs_out_indices route ! i\<rparr>)) [0..<hops]))"

definition is_fillable_for :: "open_order \<Rightarrow> int \<Rightarrow> int \<Rightarrow> bool option" where
  "is_fillable_for order amount expected_out =
     (if oo_limit_e7 order = 0 then Some True
      else map_option (\<lambda>required. expected_out \<ge> required) (keeper_required_min_out amount (oo_limit_e7 order)))"

definition is_fillable :: "open_order \<Rightarrow> int \<Rightarrow> bool option" where
  "is_fillable order expected_out = is_fillable_for order (oo_remaining order) expected_out"

section \<open>Operations\<close>

definition fill_amount :: "open_order \<Rightarrow> int option \<Rightarrow> int" where
  "fill_amount order max_fill =
     (let requested = (case oo_chunk order of Some chunk \<Rightarrow> chunk | None \<Rightarrow> oo_remaining order);
          capped = (case max_fill of Some cap \<Rightarrow> if cap > 0 then min requested cap else requested | None \<Rightarrow> requested)
      in min capped (oo_remaining order))"

definition fill_min_amount_out :: "open_order \<Rightarrow> int \<Rightarrow> keeper_quote \<Rightarrow> int option" where
  "fill_min_amount_out order amount quote =
     (if oo_limit_e7 order > 0 then
        map_option (\<lambda>required. max required (kq_minimum_output quote))
          (keeper_required_min_out amount (oo_limit_e7 order))
      else Some (kq_minimum_output quote))"

record keeper_operation =
  op_contract :: address
  op_function :: string
  op_args :: "scval list"

definition contract_operation :: "'x xdr_codec \<Rightarrow> string \<Rightarrow> string \<Rightarrow> scval list \<Rightarrow> keeper_operation keeper_res" where
  "contract_operation codec contract func args =
     and_then (or_fail (xc_contract_id codec contract) KE_ContractId) (\<lambda>id.
     Inr \<lparr>op_contract = id, op_function = func, op_args = args\<rparr>)"

definition build_reclaim_operation :: "'x xdr_codec \<Rightarrow> string \<Rightarrow> order_kind \<Rightarrow> nat \<Rightarrow> keeper_operation keeper_res" where
  "build_reclaim_operation codec escrow_contract kind order_id =
     contract_operation codec escrow_contract
       (case kind of Limit \<Rightarrow> ''reclaim_expired'' | Dca \<Rightarrow> ''reclaim_expired_dca'') [ScU64 order_id]"

definition map_scval :: "(string \<times> scval) list \<Rightarrow> scval" where
  "map_scval entries = ScMap (Some (map (\<lambda>(key, v). (ScSymbol key, v)) entries))"

definition contract_scval :: "'x xdr_codec \<Rightarrow> string \<Rightarrow> scval keeper_res" where
  "contract_scval codec value =
     and_then (or_fail (xc_contract_id codec value) KE_ContractId) (\<lambda>id. Inr (ScAddress (ScContract id)))"

definition keeper_dex_symbol :: "string \<Rightarrow> string keeper_res" where
  "keeper_dex_symbol dex_type =
     (if dex_type = ''aquarius'' \<or> dex_type = ''aquarius_clmm'' then Inr ''Aquarius''
      else if dex_type = ''soroswap'' then Inr ''SoroswapPair''
      else if dex_type = ''phoenix'' then Inr ''Phoenix''
      else if dex_type = ''sushi'' then Inr ''Sushi''
      else if dex_type = ''comet'' then Inr ''CometDex''
      else Inl KE_DexSource)"

definition quote_step_scval :: "'x xdr_codec \<Rightarrow> quote_step \<Rightarrow> scval keeper_res" where
  "quote_step_scval codec step =
     and_then (keeper_dex_symbol (ks_dex_type step)) (\<lambda>dex_type.
     and_then (contract_scval codec (ks_pool_address step)) (\<lambda>dex_id.
     and_then (contract_scval codec (ks_token_in step)) (\<lambda>tin.
     and_then (contract_scval codec (ks_token_out step)) (\<lambda>tout.
     Inr (map_scval [(''dex_id'', dex_id), (''dex_type'', ScVec (Some [ScSymbol dex_type])),
       (''in_idx'', ScU32 (ks_in_idx step)), (''out_idx'', ScU32 (ks_out_idx step)),
       (''token_in'', tin), (''token_out'', tout)])))))"

definition quote_sub_route_scval :: "'x xdr_codec \<Rightarrow> quote_sub_route \<Rightarrow> scval keeper_res" where
  "quote_sub_route_scval codec route =
     and_then (or_fail (parse_i128 (qs_amount_in route)) KE_ParseAmount) (\<lambda>amount.
     and_then (steps_from_api_sub_route route) (\<lambda>route_steps.
     and_then (ensure (\<not> (amount \<le> 0 \<or> route_steps = [])) KE_SubRoute) (\<lambda>_.
     and_then (collect_results (map (quote_step_scval codec) route_steps)) (\<lambda>step_vals.
     Inr (map_scval [(''amount_in'', i128_scval amount), (''steps'', ScVec (Some step_vals))])))))"

text \<open>The sum of the amounts, checked.\<close>

fun i128_sum :: "int list \<Rightarrow> int \<Rightarrow> int option" where
  "i128_sum [] acc = Some acc"
| "i128_sum (x # xs) acc = Option.bind (i128_checked_add acc x) (i128_sum xs)"

definition build_fill_operation ::
  "'x xdr_codec \<Rightarrow> string \<Rightarrow> order_kind \<Rightarrow> nat \<Rightarrow> int \<Rightarrow> quote_sub_route list \<Rightarrow> int
    \<Rightarrow> keeper_operation keeper_res option" where
  "build_fill_operation codec escrow_contract kind order_id amount sub_routes min_amount_out =
     (if sub_routes = [] then Some (Inl KE_NoSubRoutes)
      else case collect_results (map (quote_sub_route_scval codec) sub_routes) of
        Inl e \<Rightarrow> Some (Inl e)
      | Inr routes \<Rightarrow>
          (case collect_results (map (\<lambda>route. or_fail (parse_i128 (qs_amount_in route)) KE_ParseAmount) sub_routes) of
             Inl e \<Rightarrow> Some (Inl e)
           | Inr amounts \<Rightarrow>
               Option.bind (i128_sum amounts 0) (\<lambda>routed. Some (
                 if routed \<noteq> amount then Inl KE_RouteAmount
                 else case kind of
                   Limit \<Rightarrow> contract_operation codec escrow_contract ''fill''
                     [ScU64 order_id, i128_scval amount, ScVec (Some routes), i128_scval min_amount_out]
                 | Dca \<Rightarrow> contract_operation codec escrow_contract ''fill_dca''
                     [ScU64 order_id, ScVec (Some routes), i128_scval min_amount_out]))))"

text \<open>The operation \<open>execute_fill\<close> signs and submits.\<close>

definition fill_operation ::
  "'x xdr_codec \<Rightarrow> string \<Rightarrow> open_order \<Rightarrow> int \<Rightarrow> keeper_quote \<Rightarrow> keeper_operation keeper_res option" where
  "fill_operation codec escrow_contract order amount quote =
     (if amount \<le> 0 \<or> amount > oo_remaining order then Some (Inl KE_FillAmount)
      else
        Option.bind (fill_min_amount_out order amount quote) (\<lambda>min_amount_out.
        build_fill_operation codec escrow_contract (oo_kind order) (oo_order_id order) amount
          (kq_sub_routes quote) min_amount_out))"

section \<open>Configuration\<close>

record keeper_config =
  kf_secret :: string
  kf_network :: string
  kf_escrow_contract :: string
  kf_poll_secs :: nat
  kf_dry_run :: bool
  kf_max_fill :: "int option"
  kf_reclaim :: bool

text \<open>\<open>trim\<close>, of the white space of ASCII.\<close>

definition is_space :: "char \<Rightarrow> bool" where
  "is_space c \<longleftrightarrow> of_char c \<in> {9, 10, 11, 12, 13, 32 :: nat}"

definition str_trim :: "string \<Rightarrow> string" where
  "str_trim s = rev (dropWhile is_space (rev (dropWhile is_space s)))"

definition validate_config :: "keeper_config \<Rightarrow> keeper_config keeper_res" where
  "validate_config config =
     (if \<not> kf_dry_run config \<and> str_trim (kf_secret config) = [] then Inl KE_SecretRequired
      else if kf_poll_secs config = 0 then Inl KE_PollSecs
      else Inr config)"

definition network_passphrase :: "string \<Rightarrow> string \<Rightarrow> string \<Rightarrow> string keeper_res" where
  "network_passphrase public testnet network =
     (if network = ''public'' then Inr public
      else if network = ''testnet'' then Inr testnet
      else Inl KE_Network)"

section \<open>The events of the escrow, page by page\<close>

definition MAX_LEDGER_SCAN_PER_REQUEST :: nat where "MAX_LEDGER_SCAN_PER_REQUEST = 10000"

definition MAX_PAGES :: nat where "MAX_PAGES = 32"

text \<open>\<open>page start end cursor\<close> is the answer of one \<open>getEvents\<close> request, its events and its cursor, or
  \<open>None\<close> for an error.\<close>

type_synonym 'x page_fn = "nat \<Rightarrow> nat option \<Rightarrow> string option \<Rightarrow> ('x contract_event list \<times> string option) option"

fun pages_loop :: "nat \<Rightarrow> 'x page_fn \<Rightarrow> nat \<Rightarrow> nat option \<Rightarrow> string option \<Rightarrow> string set
    \<Rightarrow> 'x contract_event list \<Rightarrow> 'x contract_event list option" where
  "pages_loop 0 page start end_ledger cursor seen acc = Some acc"
| "pages_loop (Suc n) page start end_ledger cursor seen acc =
     Option.bind (page start end_ledger cursor) (\<lambda>(events, next_cursor).
     if events = [] then Some acc
     else case next_cursor of
       Some c \<Rightarrow> if c \<noteq> [] \<and> c \<notin> seen
                 then pages_loop n page start end_ledger (Some c) (insert c seen) (acc @ events)
                 else Some (acc @ events)
     | None \<Rightarrow> Some (acc @ events))"

definition get_contract_events :: "'x page_fn \<Rightarrow> nat \<Rightarrow> nat option \<Rightarrow> 'x contract_event list option" where
  "get_contract_events page start end_ledger =
     (if start = 0 then None
      else case end_ledger of
        Some e \<Rightarrow> if e \<le> start then Some []
                  else if e - start > MAX_LEDGER_SCAN_PER_REQUEST then None
                  else pages_loop MAX_PAGES page start end_ledger None {} []
      | None \<Rightarrow> pages_loop MAX_PAGES page start end_ledger None {} [])"

text \<open>The inner loop of \<open>main\<close>: the book follows the events up to the latest ledger, or up to the first
  range that could not be read. Ledger numbers are \<open>u32\<close>, which the guard repeats.\<close>

function keeper_poll ::
  "'x xdr_codec \<Rightarrow> 'x page_fn \<Rightarrow> nat \<Rightarrow> nat \<Rightarrow> order_book \<Rightarrow> nat \<times> order_book" where
  "keeper_poll codec page latest cursor book =
     (if cursor < latest \<and> latest \<le> u32_max then
        let end_ledger = min (u32_saturating_add cursor MAX_LEDGER_SCAN_PER_REQUEST) latest
        in case get_contract_events page cursor (Some end_ledger) of
             None \<Rightarrow> (cursor, book)
           | Some events \<Rightarrow> keeper_poll codec page latest end_ledger (apply_events codec events book)
      else (cursor, book))"
  by pat_completeness auto
termination
  by (relation "measure (\<lambda>(codec, page, latest, cursor, book). latest - cursor)")
    (auto simp: u32_saturating_add_def MAX_LEDGER_SCAN_PER_REQUEST_def)

declare keeper_poll.simps [simp del]

text \<open>The first run starts one range before the latest ledger, with an empty book.\<close>

definition keeper_start :: "nat \<Rightarrow> keeper_checkpoint option \<Rightarrow> nat \<times> order_book" where
  "keeper_start latest checkpoint =
     (case checkpoint of
        Some c \<Rightarrow> into_parts c
      | None \<Rightarrow> (max (latest - MAX_LEDGER_SCAN_PER_REQUEST) 1, RBT.empty))"

section \<open>One pass over the orders\<close>

datatype keeper_action =
    Skipped
  | Failed keeper_error
  | DryReclaim
  | DryFill int int
  | SubmitReclaim keeper_operation
  | SubmitFill keeper_operation

definition order_action ::
  "'x xdr_codec \<Rightarrow> keeper_config \<Rightarrow> quote_http \<Rightarrow> nat \<Rightarrow> open_order \<Rightarrow> keeper_action option" where
  "order_action codec config http latest order =
     (if latest > oo_expires order then
        Some (if \<not> kf_reclaim config then Skipped
              else if kf_dry_run config then DryReclaim
              else case build_reclaim_operation codec (kf_escrow_contract config) (oo_kind order) (oo_order_id order) of
                Inl e \<Rightarrow> Failed e | Inr operation \<Rightarrow> SubmitReclaim operation)
      else if latest = oo_expires order then Some Skipped
      else if (case oo_next_ledger order of Some due \<Rightarrow> latest < due | None \<Rightarrow> False) then Some Skipped
      else
        let amount = fill_amount order (kf_max_fill config)
        in if amount \<le> 0 then Some Skipped
           else case fetch_quote http (oo_token_in order) (oo_token_out order) amount of
             Inl e \<Rightarrow> Some (Failed e)
           | Inr quote \<Rightarrow>
               Option.bind (is_fillable_for order amount (kq_expected_output quote)) (\<lambda>fillable.
               if \<not> fillable then Some Skipped
               else
                 Option.bind (fill_min_amount_out order amount quote) (\<lambda>min_amount_out.
                 if kf_dry_run config then Some (DryFill amount min_amount_out)
                 else
                   Option.bind (fill_operation codec (kf_escrow_contract config) order amount quote) (\<lambda>operation.
                   Some (case operation of Inl e \<Rightarrow> Failed e | Inr operation \<Rightarrow> SubmitFill operation)))))"

text \<open>\<open>accepted k\<close>: the \<open>k\<close>-th operation was submitted and confirmed. Only a confirmed reclaim changes the
  book at once; a fill comes back as an event.\<close>

fun pass_loop ::
  "'x xdr_codec \<Rightarrow> keeper_config \<Rightarrow> quote_http \<Rightarrow> (nat \<Rightarrow> bool) \<Rightarrow> nat \<Rightarrow> nat \<Rightarrow> open_order list \<Rightarrow> order_book
    \<Rightarrow> (keeper_action list \<times> order_book) option" where
  "pass_loop codec config http accepted latest k [] book = Some ([], book)"
| "pass_loop codec config http accepted latest k (order # orders) book =
     Option.bind (order_action codec config http latest order) (\<lambda>action.
     let book' = (case action of
            SubmitReclaim _ \<Rightarrow> if accepted k then apply_expired (oo_kind order) (oo_order_id order) book else book
          | _ \<Rightarrow> book)
     in Option.bind (pass_loop codec config http accepted latest (Suc k) orders book') (\<lambda>(actions, book'').
        Some (action # actions, book'')))"

definition keeper_pass ::
  "'x xdr_codec \<Rightarrow> keeper_config \<Rightarrow> quote_http \<Rightarrow> (nat \<Rightarrow> bool) \<Rightarrow> nat \<Rightarrow> order_book
    \<Rightarrow> (keeper_action list \<times> order_book) option" where
  "keeper_pass codec config http accepted latest book =
     pass_loop codec config http accepted latest 0 (book_iter book) book"

end
