(* ===== verification/Keeper_Mirror.thy ===== *)
theory Keeper_Mirror
  imports Keeper_Events Escrow_Steps
begin

text \<open>
  The keeper's book against the contract's storage: what the keeper reads from an event that the
  contract published, what that says of the open orders, and that following the log from the start
  gives exactly the open orders of the contract.
\<close>

section \<open>Reading back what was published\<close>

lemma i128_halves: "or (push_bit 64 (drop_bit 64 v)) (take_bit 64 v) = (v :: int)"
  using bits_ident [of 64 v] by (simp add: disjunctive_add [symmetric] bit_simps)

lemma scval_i128_i128_scval [simp]: "scval_i128 (i128_scval v) = Inr v"
  by (simp add: scval_i128_def i128_scval_def i128_halves)

lemma scval_address_scval [simp]: "scval_address codec (address_scval account a) = Inr (address_name account codec a)"
  by (simp add: scval_address_def address_scval_def address_name_def)

lemma scval_u32_U32 [simp]: "scval_u32 (ScU32 n) = Inr n"
  by (simp add: scval_u32_def)

text \<open>The event as the RPC server returns it, \<open>encode\<close> being base64 of XDR.\<close>

definition published :: "(scval \<Rightarrow> 'x) \<Rightarrow> (address \<Rightarrow> bool) \<Rightarrow> string \<Rightarrow> nat \<times> escrow_event \<Rightarrow> 'x contract_event" where
  "published encode account contract_id ev =
     (let (kind, order_id, data) = escrow_wire account (snd ev)
      in \<lparr>ce_event_type = ''contract'', ce_ledger = fst ev, ce_contract_id = contract_id,
          ce_in_successful_call = Some True,
          ce_topic = Some [encode (ScSymbol kind), encode (ScU64 order_id)],
          ce_value = Some (JsonString (encode (ScVec (Some data))))\<rparr>)"

text \<open>What the event means for the book.\<close>

fun book_event :: "(address \<Rightarrow> string) \<Rightarrow> escrow_event \<Rightarrow> order_event" where
  "book_event nm (OrderCreated i owner tin tout amount limit_e7 expires) =
     EvCreated \<lparr>oo_kind = Limit, oo_order_id = i, oo_owner = nm owner, oo_token_in = nm tin, oo_token_out = nm tout,
       oo_remaining = amount, oo_limit_e7 = limit_e7, oo_expires = expires, oo_chunk = None, oo_next_ledger = None\<rparr>"
| "book_event nm (OrderCancelled i owner refunded) = EvCancelled Limit i"
| "book_event nm (OrderExpiredEvent i owner refunded) = EvExpired Limit i"
| "book_event nm (OrderFilled i owner amount out remaining) = EvFilled Limit i remaining None"
| "book_event nm (DcaCreated i owner tin tout amount chunk interval start min_rate expires) =
     EvCreated \<lparr>oo_kind = Dca, oo_order_id = i, oo_owner = nm owner, oo_token_in = nm tin, oo_token_out = nm tout,
       oo_remaining = amount, oo_limit_e7 = min_rate, oo_expires = expires, oo_chunk = Some chunk,
       oo_next_ledger = Some start\<rparr>"
| "book_event nm (DcaFilled i owner amount out remaining next_ledger) = EvFilled Dca i remaining (Some next_ledger)"
| "book_event nm (DcaCancelled i owner refunded) = EvCancelled Dca i"
| "book_event nm (DcaExpired i owner refunded) = EvExpired Dca i"

lemma parse_published:
  assumes "\<And>v. xc_decode codec (encode v) = Some v"
  shows "parse_escrow_event codec (published encode account contract_id ev)
    = Inr (Some (book_event (address_name account codec) (snd ev)))"
  by (cases "snd ev")
    (simp_all add: published_def parse_escrow_event_def event_topic_def event_data_fields_def encoded_value_def
      decode_scval_def assms or_fail_def and_then_def parse_order_created_def parse_dca_created_def
      require_fields_def ensure_def)

lemma apply_published:
  assumes "\<And>v. xc_decode codec (encode v) = Some v"
  shows "apply_events codec (map (published encode account contract_id) evs) book
    = fold book_apply (map (book_event (address_name account codec) \<circ> snd) evs) book"
  by (induction evs arbitrary: book) (simp_all add: apply_events_def apply_event_def parse_published [OF assms])

section \<open>The open orders of the contract\<close>

definition limit_view :: "(address \<Rightarrow> string) \<Rightarrow> nat \<Rightarrow> limit_order \<Rightarrow> open_order" where
  "limit_view nm i ord =
     \<lparr>oo_kind = Limit, oo_order_id = i, oo_owner = nm (lo_owner ord), oo_token_in = nm (lo_token_in ord),
      oo_token_out = nm (lo_token_out ord), oo_remaining = lo_remaining ord, oo_limit_e7 = lo_limit_e7 ord,
      oo_expires = lo_expires ord, oo_chunk = None, oo_next_ledger = None\<rparr>"

definition dca_view :: "(address \<Rightarrow> string) \<Rightarrow> nat \<Rightarrow> dca_order \<Rightarrow> open_order" where
  "dca_view nm i ord =
     \<lparr>oo_kind = Dca, oo_order_id = i, oo_owner = nm (do_owner ord), oo_token_in = nm (do_token_in ord),
      oo_token_out = nm (do_token_out ord), oo_remaining = do_remaining ord, oo_limit_e7 = do_min_rate_e7 ord,
      oo_expires = do_expires ord, oo_chunk = Some (do_chunk ord), oo_next_ledger = Some (do_next_ledger ord)\<rparr>"

fun open_orders :: "(address \<Rightarrow> string) \<Rightarrow> 'w escrow \<Rightarrow> order_key \<Rightarrow> open_order option" where
  "open_orders nm s (Limit, i) =
     Option.bind (es_orders s i) (\<lambda>ord. if lo_status ord = Open then Some (limit_view nm i ord) else None)"
| "open_orders nm s (Dca, i) =
     Option.bind (es_dca_orders s i) (\<lambda>ord. if do_status ord = Open then Some (dca_view nm i ord) else None)"

lemma limit_view_filled:
  "limit_view nm i (limit_after x ord) = (limit_view nm i ord)\<lparr>oo_remaining := lo_remaining ord - x\<rparr>"
  by (simp add: limit_view_def)

text \<open>What one step adds to the log, it does to the open orders.\<close>

definition log_step :: "(address \<Rightarrow> string) \<Rightarrow> 'w escrow \<Rightarrow> 'w escrow \<Rightarrow> bool" where
  "log_step nm s s' \<longleftrightarrow> (\<exists>added. es_events s' = es_events s @ added
     \<and> (\<forall>k. open_orders nm s' k = fold event_effect (events_of k (map (book_event nm) added)) (open_orders nm s k)))"

lemma log_stepI:
  assumes "es_events s' = es_events s @ [e]"
    and "\<And>k. open_orders nm s' k = (if event_key (book_event nm e) = k then event_effect (book_event nm e) (open_orders nm s k)
           else open_orders nm s k)"
  shows "log_step nm s s'"
  unfolding log_step_def using assms by (intro exI [of _ "[e]"]) (simp add: events_of_def)

lemma log_step_same:
  assumes "es_events s' = es_events s" "es_orders s' = es_orders s" "es_dca_orders s' = es_dca_orders s"
  shows "log_step nm s s'"
proof -
  have "open_orders nm s' k = open_orders nm s k" for k
    using assms by (cases k; cases "fst k") simp_all
  then show ?thesis unfolding log_step_def using assms by (intro exI [of _ "[]"]) (simp add: events_of_def)
qed

lemma key_cases:
  assumes "\<And>i. k = (Limit, i) \<Longrightarrow> P" "\<And>i. k = (Dca, i) \<Longrightarrow> P"
  shows P
  using assms by (cases k; cases "fst k") auto

lemma log_step_limit:
  assumes "es_events s' = es_events s @ [e]" "es_dca_orders s' = es_dca_orders s"
    and "es_orders s' = (es_orders s)(i \<mapsto> ord)" "event_key (book_event nm e) = (Limit, i)"
    and "event_effect (book_event nm e) (open_orders nm s (Limit, i))
      = (if lo_status ord = Open then Some (limit_view nm i ord) else None)"
  shows "log_step nm s s'"
  using assms(1)
proof (rule log_stepI)
  show "open_orders nm s' k = (if event_key (book_event nm e) = k then event_effect (book_event nm e) (open_orders nm s k)
           else open_orders nm s k)" for k
    by (rule key_cases [of k]) (use assms in auto)
qed

lemma log_step_dca:
  assumes "es_events s' = es_events s @ [e]" "es_orders s' = es_orders s"
    and "es_dca_orders s' = (es_dca_orders s)(i \<mapsto> ord)" "event_key (book_event nm e) = (Dca, i)"
    and "event_effect (book_event nm e) (open_orders nm s (Dca, i))
      = (if do_status ord = Open then Some (dca_view nm i ord) else None)"
  shows "log_step nm s s'"
  using assms(1)
proof (rule log_stepI)
  show "open_orders nm s' k = (if event_key (book_event nm e) = k then event_effect (book_event nm e) (open_orders nm s k)
           else open_orders nm s k)" for k
    by (rule key_cases [of k]) (use assms in auto)
qed

lemma escrow_step_log:
  assumes "escrow_step H me outside s s'"
  shows "log_step nm s s'"
  using assms
proof cases
  case (step_initialize env admin aggregator)
  then show ?thesis by (intro log_step_same) (simp_all add: initialize_Inr)
next
  case (step_create_limit env owner tin tout amount limit_e7 expires i)
  from step_create_limit(2) show ?thesis
    by (rule create_limit_cases) (rule log_step_limit [where i = i], (simp add: limit_view_def; fail)+)
next
  case (step_cancel env i)
  from step_cancel(2) show ?thesis
    by (rule cancel_cases) (rule log_step_limit [where i = i], (simp; fail)+)
next
  case (step_reclaim env i)
  from step_reclaim(2) show ?thesis
    by (rule reclaim_expired_cases) (rule log_step_limit [where i = i], (simp; fail)+)
next
  case (step_fill env i amount rs m out)
  from step_fill(2) show ?thesis
    by (rule fill_cases) (rule log_step_limit [where i = i], (simp add: limit_view_def; fail)+)
next
  case (step_create_dca env owner tin tout amount chunk interval start min_rate expires i)
  from step_create_dca(2) show ?thesis
    by (rule create_dca_cases) (rule log_step_dca [where i = i], (simp add: dca_view_def; fail)+)
next
  case (step_fill_dca env i rs m out)
  from step_fill_dca(2) show ?thesis
    by (rule fill_dca_cases) (rule log_step_dca [where i = i], (simp add: dca_view_def; fail)+)
next
  case (step_cancel_dca env i)
  from step_cancel_dca(2) show ?thesis
    by (rule cancel_dca_cases) (rule log_step_dca [where i = i], (simp; fail)+)
next
  case (step_reclaim_dca env i)
  from step_reclaim_dca(2) show ?thesis
    by (rule reclaim_expired_dca_cases) (rule log_step_dca [where i = i], (simp; fail)+)
next
  case (step_outside w)
  then show ?thesis by (intro log_step_same) simp_all
qed

lemma log_step_fold:
  assumes "log_step nm s s'"
    and "\<And>k. open_orders nm s k = fold event_effect (events_of k (map (book_event nm) (es_events s))) None"
  shows "open_orders nm s' k = fold event_effect (events_of k (map (book_event nm) (es_events s'))) None"
  using assms by (cases k) (auto simp: log_step_def events_of_def)

lemma escrow_run_open_orders:
  assumes "escrow_run H me outside s0 s" "escrow_start s0"
  shows "open_orders nm s k = fold event_effect (events_of k (map (book_event nm) (es_events s))) None"
  using assms
proof (induction arbitrary: k)
  case base
  then show ?case by (cases k; cases "fst k") (simp_all add: escrow_start_def events_of_def)
next
  case (step s s')
  show ?case by (rule log_step_fold [OF escrow_step_log [OF step(2)] step.IH [OF step.prems]])
qed

text \<open>So the book after the whole log is the map of open orders.\<close>

lemma replayed_book:
  assumes "escrow_run H me outside s0 s" "escrow_start s0"
  shows "RBT.lookup (fold book_apply (map (book_event nm) (es_events s)) RBT.empty) = open_orders nm s"
  by (simp add: fun_eq_iff lookup_book_fold escrow_run_open_orders [OF assms])

section \<open>An order is created once\<close>

text \<open>The log of an order starts with its creation, and an order is stored as soon as it has a log.\<close>

definition stored :: "'w escrow \<Rightarrow> order_key \<Rightarrow> bool" where
  "stored s k = (case k of (Limit, i) \<Rightarrow> es_orders s i \<noteq> None | (Dca, i) \<Rightarrow> es_dca_orders s i \<noteq> None)"

lemma stored_simps [simp]:
  "stored s (Limit, i) \<longleftrightarrow> es_orders s i \<noteq> None" "stored s (Dca, i) \<longleftrightarrow> es_dca_orders s i \<noteq> None"
  by (simp_all add: stored_def)

abbreviation order_log :: "(address \<Rightarrow> string) \<Rightarrow> 'w escrow \<Rightarrow> order_key \<Rightarrow> order_event list" where
  "order_log nm s k \<equiv> events_of k (map (book_event nm) (es_events s))"

definition log_starts :: "(address \<Rightarrow> string) \<Rightarrow> 'w escrow \<Rightarrow> bool" where
  "log_starts nm s \<longleftrightarrow> (\<forall>k. created_first (order_log nm s k) \<and> (order_log nm s k \<noteq> [] \<longrightarrow> stored s k))"

lemma created_first_snoc: "created_first es \<Longrightarrow> \<not> is_created e \<Longrightarrow> created_first (es @ [e])"
  by (cases es) (simp_all add: created_first_def)

lemma log_startsI:
  assumes "log_starts nm s" "es_events s' = es_events s @ [e]"
    and "\<And>k. stored s k \<Longrightarrow> stored s' k" "stored s' (event_key (book_event nm e))"
    and "is_created (book_event nm e) \<Longrightarrow> \<not> stored s (event_key (book_event nm e))"
  shows "log_starts nm s'"
  unfolding log_starts_def
proof (intro allI conjI impI)
  fix k
  have l: "order_log nm s' k = order_log nm s k @ (if event_key (book_event nm e) = k then [book_event nm e] else [])"
    using assms(2) by (simp add: events_of_def)
  have c: "created_first (order_log nm s k)" and st: "order_log nm s k \<noteq> [] \<Longrightarrow> stored s k"
    using assms(1) unfolding log_starts_def by blast+
  show "created_first (order_log nm s' k)"
  proof (cases "event_key (book_event nm e) = k \<and> is_created (book_event nm e)")
    case True
    then have "order_log nm s k = []" using assms(5) st by blast
    then show ?thesis unfolding l by (simp add: created_first_def)
  next
    case False
    then show ?thesis unfolding l using c created_first_snoc [OF c, of "book_event nm e"] by auto
  qed
  show "stored s' k" if "order_log nm s' k \<noteq> []"
    using that assms(3,4) st unfolding l by (cases "event_key (book_event nm e) = k") auto
qed

lemma log_starts_same:
  assumes "log_starts nm s" "es_events s' = es_events s" "es_orders s' = es_orders s" "es_dca_orders s' = es_dca_orders s"
  shows "log_starts nm s'"
proof -
  have "stored s' k = stored s k" for k by (rule key_cases [of k]) (simp_all add: assms)
  then show ?thesis using assms(1,2) by (simp add: log_starts_def)
qed

lemma stored_upd:
  "es_orders s' = (es_orders s)(i \<mapsto> ord) \<Longrightarrow> es_dca_orders s' = es_dca_orders s \<Longrightarrow> stored s k \<Longrightarrow> stored s' k"
  "es_orders s' = es_orders s \<Longrightarrow> es_dca_orders s' = (es_dca_orders s)(i \<mapsto> dord) \<Longrightarrow> stored s k \<Longrightarrow> stored s' k"
  by (rule key_cases [of k]; auto)+

lemma log_starts_limit:
  assumes "log_starts nm s" "es_events s' = es_events s @ [e]" "event_key (book_event nm e) = (Limit, i)"
    and "es_orders s' = (es_orders s)(i \<mapsto> ord)" "es_dca_orders s' = es_dca_orders s"
    and "is_created (book_event nm e) \<longrightarrow> es_orders s i = None"
  shows "log_starts nm s'"
  by (rule log_startsI [OF assms(1,2)]) (use assms stored_upd(1) in auto)

lemma log_starts_dca:
  assumes "log_starts nm s" "es_events s' = es_events s @ [e]" "event_key (book_event nm e) = (Dca, i)"
    and "es_dca_orders s' = (es_dca_orders s)(i \<mapsto> ord)" "es_orders s' = es_orders s"
    and "is_created (book_event nm e) \<longrightarrow> es_dca_orders s i = None"
  shows "log_starts nm s'"
  by (rule log_startsI [OF assms(1,2)]) (use assms stored_upd(2) in auto)

lemma escrow_step_starts:
  assumes "escrow_step H me outside s s'" "log_starts nm s" "storage_wf me s"
  shows "log_starts nm s'"
  using assms(1)
proof cases
  case (step_initialize env admin aggregator)
  then show ?thesis by (intro log_starts_same [OF assms(2)]) (simp_all add: initialize_Inr)
next
  case (step_create_limit env owner tin tout amount limit_e7 expires i)
  from step_create_limit(2) show ?thesis
    by (rule create_limit_cases) (rule log_starts_limit [OF assms(2), where i = i], (simp add: storage_wf_fresh(1) [OF assms(3)]; fail)+)
next
  case (step_cancel env i)
  from step_cancel(2) show ?thesis
    by (rule cancel_cases) (rule log_starts_limit [OF assms(2), where i = i], (simp; fail)+)
next
  case (step_reclaim env i)
  from step_reclaim(2) show ?thesis
    by (rule reclaim_expired_cases) (rule log_starts_limit [OF assms(2), where i = i], (simp; fail)+)
next
  case (step_fill env i amount rs m out)
  from step_fill(2) show ?thesis
    by (rule fill_cases) (rule log_starts_limit [OF assms(2), where i = i], (simp; fail)+)
next
  case (step_create_dca env owner tin tout amount chunk interval start min_rate expires i)
  from step_create_dca(2) show ?thesis
    by (rule create_dca_cases) (rule log_starts_dca [OF assms(2), where i = i], (simp add: storage_wf_fresh(2) [OF assms(3)]; fail)+)
next
  case (step_fill_dca env i rs m out)
  from step_fill_dca(2) show ?thesis
    by (rule fill_dca_cases) (rule log_starts_dca [OF assms(2), where i = i], (simp; fail)+)
next
  case (step_cancel_dca env i)
  from step_cancel_dca(2) show ?thesis
    by (rule cancel_dca_cases) (rule log_starts_dca [OF assms(2), where i = i], (simp; fail)+)
next
  case (step_reclaim_dca env i)
  from step_reclaim_dca(2) show ?thesis
    by (rule reclaim_expired_dca_cases) (rule log_starts_dca [OF assms(2), where i = i], (simp; fail)+)
next
  case (step_outside w)
  then show ?thesis by (intro log_starts_same [OF assms(2)]) simp_all
qed

lemma escrow_run_starts:
  assumes "escrow_run H me outside s0 s" "escrow_start s0"
  shows "log_starts nm s"
  using assms(1)
proof (induction)
  case base
  then show ?case using assms(2) by (simp add: escrow_start_def log_starts_def created_first_def events_of_def)
next
  case (step s s')
  show ?case
    by (rule escrow_step_starts [OF step(2) step.IH escrow_run_wf [OF step(1) escrow_start_wf [OF assms(2)]]])
qed

section \<open>Reading a part of the log again\<close>

lemma created_first_parts: "created_first (xs @ ys) \<Longrightarrow> created_first xs \<and> created_first ys"
  by (cases xs; cases ys) (auto simp: created_first_def)

text \<open>A segment of the log read twice: whatever comes before and after it.\<close>

lemma reread_segment:
  assumes "\<And>k. created_first (events_of k (pre @ seg @ post))"
  shows "RBT.lookup (fold book_apply (seg @ post) (fold book_apply (pre @ seg) book))
    = RBT.lookup (fold book_apply (pre @ seg @ post) book)"
proof (rule ext)
  fix k
  have "created_first (events_of k seg)"
    using assms [of k] created_first_parts by (metis events_of_def filter_append)
  then show "RBT.lookup (fold book_apply (seg @ post) (fold book_apply (pre @ seg) book)) k
      = RBT.lookup (fold book_apply (pre @ seg @ post) book) k"
    by (simp only: lookup_book_fold) (simp add: events_of_def effect_idempotent)
qed

lemma reread_log:
  assumes "\<And>k. created_first (events_of k es)" "n \<le> m"
  shows "RBT.lookup (fold book_apply (drop n es) (fold book_apply (take m es) book)) = RBT.lookup (fold book_apply es book)"
proof -
  have t: "take m es = take n es @ drop n (take m es)" by (metis append_take_drop_id assms(2) min.absorb1 take_take)
  have d: "drop n es = drop n (take m es) @ drop m es"
  proof -
    have "drop m es = drop (m - n) (drop n es)" using assms(2) by simp
    then show ?thesis by (simp only: drop_take append_take_drop_id)
  qed
  have e: "es = take n es @ drop n (take m es) @ drop m es" by (metis append_take_drop_id append_assoc t)
  show ?thesis
    by (subst (3) e, subst t, subst d, rule reread_segment) (use assms(1) e in metis)
qed

end
