(* ===== verification/Keeper_Fills.thy ===== *)
theory Keeper_Fills
  imports Keeper_Execute Keeper_Mirror
begin

text \<open>
  The keeper's operations as calls of the contract: the arguments it encodes are those of \<open>fill\<close> and
  \<open>fill_dca\<close>, and for an order of the mirrored book they pass every check of the contract.
\<close>

section \<open>Arguments as the contract reads them\<close>

text \<open>Contract types as values: structs are maps with sorted field names, an enumeration is a vector of
  the variant's name.\<close>

fun dex_symbol :: "dex_type \<Rightarrow> string" where
  "dex_symbol Aquarius = ''Aquarius''"
| "dex_symbol SoroswapPair = ''SoroswapPair''"
| "dex_symbol Phoenix = ''Phoenix''"
| "dex_symbol Sushi = ''Sushi''"
| "dex_symbol CometDex = ''CometDex''"

definition step_value :: "swap_step \<Rightarrow> scval" where
  "step_value st = map_scval [(''dex_id'', ScAddress (ScContract (dex_id st))),
     (''dex_type'', ScVec (Some [ScSymbol (dex_symbol (dex_type_of st))])),
     (''in_idx'', ScU32 (in_idx st)), (''out_idx'', ScU32 (out_idx st)),
     (''token_in'', ScAddress (ScContract (token_in st))), (''token_out'', ScAddress (ScContract (token_out st)))]"

definition route_value :: "sub_route \<Rightarrow> scval" where
  "route_value r = map_scval [(''amount_in'', i128_scval (amount_in r)), (''steps'', ScVec (Some (map step_value (steps r))))]"

lemma keeper_dex_symbol_value: "keeper_dex_symbol d = Inr nm \<Longrightarrow> \<exists>dt. nm = dex_symbol dt"
  unfolding keeper_dex_symbol_def
  by (auto split: if_splits intro: exI [of _ Aquarius] exI [of _ SoroswapPair] exI [of _ Phoenix] exI [of _ Sushi] exI [of _ CometDex])

lemma quote_step_value:
  assumes "quote_step_scval codec q = Inr v"
  shows "\<exists>st. v = step_value st"
proof -
  from assms obtain nm d i out where q: "keeper_dex_symbol (ks_dex_type q) = Inr nm"
    "v = map_scval [(''dex_id'', ScAddress (ScContract d)), (''dex_type'', ScVec (Some [ScSymbol nm])),
       (''in_idx'', ScU32 (ks_in_idx q)), (''out_idx'', ScU32 (ks_out_idx q)),
       (''token_in'', ScAddress (ScContract i)), (''token_out'', ScAddress (ScContract out))]"
    by (auto simp: quote_step_scval_def contract_scval_def res_simps)
  from keeper_dex_symbol_value [OF q(1)] obtain dt where "nm = dex_symbol dt" by blast
  then have "v = step_value \<lparr>dex_id = d, dex_type_of = dt, token_in = i, token_out = out,
      in_idx = ks_in_idx q, out_idx = ks_out_idx q\<rparr>"
    using q(2) by (simp add: step_value_def)
  then show ?thesis by blast
qed

lemma collect_results_Inr: "collect_results rs = Inr vs \<longleftrightarrow> rs = map Inr vs"
proof (induction rs arbitrary: vs)
  case (Cons r rs)
  then show ?case by (cases vs) (auto simp: res_simps)
qed auto

lemma map_Inr_values:
  assumes "map f qs = map Inr vs" "\<And>q v. q \<in> set qs \<Longrightarrow> f q = Inr v \<Longrightarrow> \<exists>x. v = g x \<and> P q x"
  shows "\<exists>xs. vs = map g xs \<and> list_all2 P qs xs"
  using assms
proof (induction qs arbitrary: vs)
  case (Cons q qs)
  then obtain v vs' where v: "vs = v # vs'" "f q = Inr v" "map f qs = map Inr vs'" by (cases vs) auto
  from Cons.IH [OF v(3)] Cons.prems(2) obtain xs where xs: "vs' = map g xs" "list_all2 P qs xs" by auto
  from Cons.prems(2) [OF _ v(2)] obtain x where "v = g x" "P q x" by auto
  then show ?case using v(1) xs by (intro exI [of _ "x # xs"]) simp
qed simp

lemma quote_route_value:
  assumes "quote_sub_route_scval codec q = Inr v"
  shows "\<exists>r. v = route_value r \<and> parse_i128 (qs_amount_in q) = Some (amount_in r) \<and> 0 < amount_in r \<and> steps r \<noteq> []"
proof -
  from assms obtain amount qsteps vals where q: "parse_i128 (qs_amount_in q) = Some amount"
    "0 < amount" "qsteps \<noteq> []" "collect_results (map (quote_step_scval codec) qsteps) = Inr vals"
    "v = map_scval [(''amount_in'', i128_scval amount), (''steps'', ScVec (Some vals))]"
    by (auto simp: quote_sub_route_scval_def res_simps)
  have "map (quote_step_scval codec) qsteps = map Inr vals" using q(4) by (simp add: collect_results_Inr)
  from map_Inr_values [OF this, of step_value "\<lambda>_ _. True"] quote_step_value
  obtain sts where "vals = map step_value sts" "length sts = length qsteps"
    by (metis list_all2_lengthD)
  then show ?thesis using q by (intro exI [of _ "\<lparr>amount_in = amount, steps = sts\<rparr>"]) (auto simp: route_value_def)
qed

lemma i128_sum_routed:
  assumes "list_all2 (\<lambda>q r. parse_i128 (qs_amount_in q) = Some (amount_in r)) qs rs"
    and "map (\<lambda>q. or_fail (parse_i128 (qs_amount_in q)) KE_ParseAmount) qs = map Inr amounts"
    and "i128_sum amounts acc = Some sumv"
  shows "routed_amount_loop rs acc = Inr sumv"
  using assms
proof (induction arbitrary: amounts acc rule: list_all2_induct)
  case (Cons q qs r rs)
  then obtain as where "amounts = amount_in r # as" "map (\<lambda>q. or_fail (parse_i128 (qs_amount_in q)) KE_ParseAmount) qs = map Inr as"
    by (cases amounts) (auto simp: or_fail_def)
  then show ?case using Cons.IH [of as] Cons.prems(2) by (auto simp: bind_eq_Some_conv res_simps)
qed simp

section \<open>The call\<close>

definition fill_call :: "keeper_operation \<Rightarrow> nat \<Rightarrow> int \<Rightarrow> sub_route list \<Rightarrow> int \<Rightarrow> bool" where
  "fill_call op i amount rs m \<longleftrightarrow> op_function op = ''fill''
     \<and> op_args op = [ScU64 i, i128_scval amount, ScVec (Some (map route_value rs)), i128_scval m]"

definition fill_dca_call :: "keeper_operation \<Rightarrow> nat \<Rightarrow> sub_route list \<Rightarrow> int \<Rightarrow> bool" where
  "fill_dca_call op i rs m \<longleftrightarrow> op_function op = ''fill_dca''
     \<and> op_args op = [ScU64 i, ScVec (Some (map route_value rs)), i128_scval m]"

lemma build_fill_call:
  assumes "build_fill_operation codec escrow_contract kind i amount qs m = Some (Inr op)"
  shows "\<exists>rs. routed_amount_loop rs 0 = Inr amount
    \<and> (if kind = Limit then fill_call op i amount rs m else fill_dca_call op i rs m)"
proof -
  from assms obtain routes where r: "collect_results (map (quote_sub_route_scval codec) qs) = Inr routes"
    by (auto simp: build_fill_operation_def split: if_splits sum.splits)
  with assms obtain amounts where a: "collect_results (map (\<lambda>q. or_fail (parse_i128 (qs_amount_in q)) KE_ParseAmount) qs) = Inr amounts"
    by (auto simp: build_fill_operation_def split: if_splits sum.splits)
  with assms r obtain routed where s: "i128_sum amounts 0 = Some routed" "routed = amount"
    and op: "(case kind of
        Limit \<Rightarrow> contract_operation codec escrow_contract ''fill'' [ScU64 i, i128_scval amount, ScVec (Some routes), i128_scval m]
      | Dca \<Rightarrow> contract_operation codec escrow_contract ''fill_dca'' [ScU64 i, ScVec (Some routes), i128_scval m]) = Inr op"
    by (auto simp: build_fill_operation_def bind_eq_Some_conv split: if_splits)
  have "map (quote_sub_route_scval codec) qs = map Inr routes" using r by (simp add: collect_results_Inr)
  from map_Inr_values [OF this, of route_value "\<lambda>q r. parse_i128 (qs_amount_in q) = Some (amount_in r)"]
  obtain rs where rs: "routes = map route_value rs"
    "list_all2 (\<lambda>q r. parse_i128 (qs_amount_in q) = Some (amount_in r)) qs rs"
    using quote_route_value by blast
  have "routed_amount_loop rs 0 = Inr amount"
    using i128_sum_routed [OF rs(2) a [unfolded collect_results_Inr] s(1)] s(2) by simp
  then show ?thesis using op rs(1)
    by (intro exI [of _ rs]) (cases kind, auto simp: fill_call_def fill_dca_call_def contract_operation_def res_simps)
qed

section \<open>The limit price of both sides\<close>

lemma keeper_required_min_out_contract:
  assumes "keeper_required_min_out amount limit_e7 = Some v"
  shows "required_min_out amount limit_e7 = v" "0 < limit_e7"
  using assms by (auto simp: keeper_required_min_out_def required_min_out_def split: if_splits)

lemma fill_min_covers:
  assumes "fill_min_amount_out order amount quote = Some m" "0 < oo_limit_e7 order"
  shows "required_min_out amount (oo_limit_e7 order) \<le> m"
  using assms keeper_required_min_out_contract(1) by (fastforce simp: fill_min_amount_out_def)

text \<open>What the keeper checked before it submits a fill.\<close>

lemma submit_fill_cases:
  assumes "order_action codec config http latest order = Some (SubmitFill op)"
  obtains quote rs m where
    "latest < oo_expires order" "\<And>due. oo_next_ledger order = Some due \<Longrightarrow> due \<le> latest"
    "0 < fill_amount order (kf_max_fill config)" "fill_amount order (kf_max_fill config) \<le> oo_remaining order"
    "fetch_quote http (oo_token_in order) (oo_token_out order) (fill_amount order (kf_max_fill config)) = Inr quote"
    "is_fillable_for order (fill_amount order (kf_max_fill config)) (kq_expected_output quote) = Some True"
    "fill_min_amount_out order (fill_amount order (kf_max_fill config)) quote = Some m"
    "routed_amount_loop rs 0 = Inr (fill_amount order (kf_max_fill config))"
    "if oo_kind order = Limit then fill_call op (oo_order_id order) (fill_amount order (kf_max_fill config)) rs m
     else fill_dca_call op (oo_order_id order) rs m"
    "\<not> kf_dry_run config"
proof -
  define amount where "amount = fill_amount order (kf_max_fill config)"
  have act: "latest < oo_expires order" "\<not> (case oo_next_ledger order of Some due \<Rightarrow> latest < due | None \<Rightarrow> False)" "0 < amount"
    using assms unfolding order_action_def amount_def [symmetric] Let_def
    by (auto split: if_splits sum.splits)
  then have "\<not> latest > oo_expires order" "latest \<noteq> oo_expires order" "\<not> amount \<le> 0" by simp_all
  with assms act(2) obtain quote where q: "fetch_quote http (oo_token_in order) (oo_token_out order) amount = Inr quote"
    and rest: "Option.bind (is_fillable_for order amount (kq_expected_output quote)) (\<lambda>fillable.
               if \<not> fillable then Some Skipped
               else
                 Option.bind (fill_min_amount_out order amount quote) (\<lambda>min_amount_out.
                 if kf_dry_run config then Some (DryFill amount min_amount_out)
                 else
                   Option.bind (fill_operation codec (kf_escrow_contract config) order amount quote) (\<lambda>operation.
                   Some (case operation of Inl e \<Rightarrow> Failed e | Inr operation \<Rightarrow> SubmitFill operation)))) = Some (SubmitFill op)"
    unfolding order_action_def amount_def [symmetric] Let_def by (cases "fetch_quote http (oo_token_in order) (oo_token_out order) amount") simp_all
  from rest obtain m r where "is_fillable_for order amount (kq_expected_output quote) = Some True"
    "fill_min_amount_out order amount quote = Some m" "\<not> kf_dry_run config"
    "fill_operation codec (kf_escrow_contract config) order amount quote = Some r"
    "(case r of Inl e \<Rightarrow> Failed e | Inr operation \<Rightarrow> SubmitFill operation) = SubmitFill op"
    by (auto simp: bind_eq_Some_conv split: if_splits)
  then have f: "is_fillable_for order amount (kq_expected_output quote) = Some True"
    "fill_min_amount_out order amount quote = Some m" "\<not> kf_dry_run config"
    "fill_operation codec (kf_escrow_contract config) order amount quote = Some (Inr op)"
    by (cases r; simp)+
  then have g: "amount \<le> oo_remaining order"
    "build_fill_operation codec (kf_escrow_contract config) (oo_kind order) (oo_order_id order) amount (kq_sub_routes quote) m = Some (Inr op)"
    by (auto simp: fill_operation_def split: if_splits)
  from build_fill_call [OF g(2)] obtain rs where "routed_amount_loop rs 0 = Inr amount"
    "if oo_kind order = Limit then fill_call op (oo_order_id order) amount rs m else fill_dca_call op (oo_order_id order) rs m"
    by blast
  from that [OF act(1) _ act(3) [unfolded amount_def] g(1) [unfolded amount_def] q [unfolded amount_def] f(1,2) [unfolded amount_def]
      this [unfolded amount_def] f(3)] act(2)
  show ?thesis by (auto split: option.splits)
qed

section \<open>The contract's side\<close>

lemma escrow_step_aggregator:
  assumes "escrow_step H me outside s s'" "es_admin s \<noteq> None \<longrightarrow> es_aggregator s \<noteq> None"
  shows "es_admin s' \<noteq> None \<longrightarrow> es_aggregator s' \<noteq> None"
  using assms(1)
proof cases
  case (step_create_limit env owner tin tout amount limit_e7 expires i)
  from step_create_limit(2) show ?thesis by (rule create_limit_cases) (use assms(2) in simp)
next
  case (step_cancel env i)
  from step_cancel(2) show ?thesis by (rule cancel_cases) (use assms(2) in simp)
next
  case (step_reclaim env i)
  from step_reclaim(2) show ?thesis by (rule reclaim_expired_cases) (use assms(2) in simp)
next
  case (step_fill env i amount rs m out)
  from step_fill(2) show ?thesis by (rule fill_cases) (use assms(2) in simp)
next
  case (step_create_dca env owner tin tout amount chunk interval start min_rate expires i)
  from step_create_dca(2) show ?thesis by (rule create_dca_cases) (use assms(2) in simp)
next
  case (step_fill_dca env i rs m out)
  from step_fill_dca(2) show ?thesis by (rule fill_dca_cases) (use assms(2) in simp)
next
  case (step_cancel_dca env i)
  from step_cancel_dca(2) show ?thesis by (rule cancel_dca_cases) (use assms(2) in simp)
next
  case (step_reclaim_dca env i)
  from step_reclaim_dca(2) show ?thesis by (rule reclaim_expired_dca_cases) (use assms(2) in simp)
qed (use assms(2) in \<open>simp_all add: initialize_Inr\<close>)

lemma escrow_run_aggregator:
  assumes "escrow_run H me outside s0 s" "escrow_start s0"
  shows "es_admin s \<noteq> None \<longrightarrow> es_aggregator s \<noteq> None"
  using assms(1)
proof (induction)
  case base
  then show ?case using assms(2) by (simp add: escrow_start_def)
next
  case (step s s')
  show ?case by (rule escrow_step_aggregator [OF step(2) step.IH])
qed

lemma swap_and_pay_error:
  assumes "es_aggregator s \<noteq> None" "swap_and_pay H env owner tin tout amount rs m s = Inl f"
  shows "f = CallTrapped"
  using assms by (auto simp: swap_and_pay_def es_transfer_def and_then_def or_fail_def Let_def split: option.splits prod.splits)

lemma fill_error:
  assumes "es_orders s i = Some ord" "lo_status ord = Open" "env_sequence env < lo_expires ord"
    and "0 < amount" "amount \<le> lo_remaining ord" "routed_amount_loop rs 0 = Inr amount"
    and "required_min_out amount (lo_limit_e7 ord) \<le> m" "es_aggregator s \<noteq> None"
    and "fill H env i amount rs m s = Inl f"
  shows "f = CallTrapped"
proof -
  have "swap_and_pay H env (lo_owner ord) (lo_token_in ord) (lo_token_out ord) amount rs m s = Inl f"
    using assms by (cases "swap_and_pay H env (lo_owner ord) (lo_token_in ord) (lo_token_out ord) amount rs m s")
      (auto simp: fill_def ensure_def Let_def)
  then show ?thesis by (rule swap_and_pay_error [OF assms(8)])
qed

lemma fill_dca_error:
  assumes "es_dca_orders s i = Some ord" "do_status ord = Open" "env_sequence env < do_expires ord"
    and "do_next_ledger ord \<le> env_sequence env" "routed_amount_loop rs 0 = Inr (dca_chunk ord)"
    and "0 < do_min_rate_e7 ord \<longrightarrow> required_min_out (dca_chunk ord) (do_min_rate_e7 ord) \<le> m"
    and "es_aggregator s \<noteq> None" "fill_dca H env i rs m s = Inl f"
  shows "f = CallTrapped \<or> f = Error EE_InvalidAmount \<and> \<not> 0 < do_min_rate_e7 ord \<and> m \<le> 0"
proof (cases "0 < do_min_rate_e7 ord \<or> 0 < m")
  case True
  have "swap_and_pay H env (do_owner ord) (do_token_in ord) (do_token_out ord) (dca_chunk ord) rs m s = Inl f"
    using assms True by (cases "swap_and_pay H env (do_owner ord) (do_token_in ord) (do_token_out ord) (dca_chunk ord) rs m s")
      (auto simp: fill_dca_def ensure_def Let_def dca_chunk_def split: if_splits)
  then show ?thesis using swap_and_pay_error [OF assms(7)] by blast
next
  case False
  then have "fill_dca H env i rs m s = Inl (Error EE_InvalidAmount)"
    using assms by (simp add: fill_dca_def ensure_def Let_def dca_chunk_def [symmetric])
  then show ?thesis using assms(8) False by simp
qed

end
