(* ===== verification/Keeper_Properties.thy ===== *)
theory Keeper_Properties
  imports Keeper_Fills Escrow_Properties
begin

text \<open>
  The limit keeper and the escrow contract together: the keeper's book is the contract's set of open
  orders, the fills it submits are accepted, and where they are not. The samples run on the sample
  ledger of the contracts, with values that are their own encoding.
\<close>

section \<open>A sample keeper\<close>

text \<open>Addresses are printed in unary after their kind.\<close>

definition sample_codec :: "scval xdr_codec" where
  "sample_codec = \<lparr>xc_decode = Some, xc_account = (\<lambda>a. CHR ''G'' # replicate a (CHR ''1'')),
     xc_contract = (\<lambda>a. CHR ''C'' # replicate a (CHR ''1'')),
     xc_contract_id = (\<lambda>s. case s of [] \<Rightarrow> None | c # cs \<Rightarrow> if c = CHR ''C'' then Some (length cs) else None)\<rparr>"

abbreviation sample_account :: "address \<Rightarrow> bool" where "sample_account a \<equiv> a = 3"

abbreviation sample_name :: "address \<Rightarrow> string" where "sample_name \<equiv> address_name sample_account sample_codec"

definition sample_config :: keeper_config where
  "sample_config = \<lparr>kf_secret = ''secret'', kf_network = ''public'', kf_escrow_contract = ''C1'',
     kf_poll_secs = 10, kf_dry_run = False, kf_max_fill = None, kf_reclaim = True\<rparr>"

text \<open>The API answers every request with one route through pool 5.\<close>

definition sample_http :: "string \<Rightarrow> quote_http" where
  "sample_http amount tin tout x = Some \<lparr>ar_success = True, ar_data = Some
     \<lparr>ad_expected_output = amount, ad_minimum_output = ''90'', ad_sub_routes =
       [\<lparr>qs_path = [tin, tout], qs_pool_addresses = [CHR ''C'' # replicate 5 (CHR ''1'')], qs_dex_types = [''aquarius''],
         qs_in_indices = [0], qs_out_indices = [1], qs_amount_in = amount, qs_amount_out = amount\<rparr>]\<rparr>\<rparr>"

section \<open>The book is the set of open orders\<close>

text \<open>C3: The keeper's book mirrors the contract. In any run of the escrow from its start, with any token
  and aggregator, the keeper that has read the first \<open>m\<close> of its events, restarts, and reads again from
  any earlier point to the end of the log, holds exactly the open orders of the contract: the same
  owners, tokens, remainders, limits, chunks and due ledgers, and no other order.\<close>

theorem keeper_book_mirrors_escrow:
  assumes "\<forall>v. xc_decode codec (encode v) = Some v"
    and "escrow_run H me outside s0 s" "escrow_start s0" "map snd evs = es_events s" "n \<le> m"
  shows "RBT.lookup (apply_events codec (map (published encode account contract_id) (drop n evs))
           (apply_events codec (map (published encode account contract_id) (take m evs)) RBT.empty))
    = open_orders (address_name account codec) s"
proof -
  let ?nm = "address_name account codec"
  have d: "xc_decode codec (encode v) = Some v" for v using assms(1) by blast
  have log: "map (book_event ?nm \<circ> snd) evs = map (book_event ?nm) (es_events s)"
    using assms(4) by (metis list.map_comp)
  have c: "created_first (events_of k (map (book_event ?nm \<circ> snd) evs))" for k
    using escrow_run_starts [OF assms(2,3), of ?nm] unfolding log log_starts_def by blast
  show ?thesis
    unfolding apply_published [OF d]
    unfolding drop_map [symmetric] take_map [symmetric] reread_log [OF c assms(5)]
    unfolding log by (rule replayed_book [OF assms(2,3)])
qed

text \<open>C38: A checkpoint restores the cursor and the book: of every book that events lead to, from any
  orders it was loaded with.\<close>

theorem keeper_checkpoint_roundtrip:
  "fst (into_parts (capture cursor (fold book_apply events (from_orders orders)))) = cursor
   \<and> RBT.lookup (snd (into_parts (capture cursor (fold book_apply events (from_orders orders)))))
       = RBT.lookup (fold book_apply events (from_orders orders))
   \<and> book_iter (snd (into_parts (capture cursor (fold book_apply events (from_orders orders)))))
       = book_iter (fold book_apply events (from_orders orders))"
proof -
  let ?b = "fold book_apply events (from_orders orders)"
  have "RBT.lookup (from_orders (book_iter ?b)) = RBT.lookup ?b"
    by (rule restore_keyed [OF book_keyed_fold [OF book_keyed_from_orders]])
  then show ?thesis
    by (simp add: into_parts_def capture_def book_iter_def RBT.entries_lookup [symmetric])
qed

section \<open>The fills are accepted\<close>

lemma limit_order_of:
  assumes "open_orders nm s (Limit, i) = Some order"
  obtains ord where "es_orders s i = Some ord" "lo_status ord = Open" "order = limit_view nm i ord"
  using assms by (auto simp: bind_eq_Some_conv split: if_splits)

lemma dca_order_of:
  assumes "open_orders nm s (Dca, i) = Some order"
  obtains ord where "es_dca_orders s i = Some ord" "do_status ord = Open" "order = dca_view nm i ord"
  using assms by (auto simp: bind_eq_Some_conv split: if_splits)

lemma limit_fill_accepted:
  assumes run: "escrow_run H me outside s0 s" "escrow_start s0"
    and "open_orders nm s (Limit, i) = Some order"
    and act: "order_action codec config http latest order = Some (SubmitFill op)"
    and env: "env_sequence env < oo_expires order"
  shows "\<exists>amount rs m. fill_call op i amount rs m \<and> (\<forall>f. fill H env i amount rs m s = Inl f \<longrightarrow> f = CallTrapped)"
proof -
  obtain ord where o: "es_orders s i = Some ord" "lo_status ord = Open" "order = limit_view nm i ord"
    using assms(3) by (rule limit_order_of)
  have wf: "storage_wf me s" by (rule escrow_run_wf [OF run(1) escrow_start_wf [OF run(2)]])
  have agg: "es_aggregator s \<noteq> None"
    using escrow_run_aggregator [OF run] storage_wf_admin(3) [OF wf o(1)] by blast
  have lim: "0 < lo_limit_e7 ord" using storage_wf_limitD [OF wf o(1)] by (simp add: limit_wf_def)
  from act show ?thesis
  proof (rule submit_fill_cases)
    fix quote rs m
    assume a: "0 < fill_amount order (kf_max_fill config)" "fill_amount order (kf_max_fill config) \<le> oo_remaining order"
      "fill_min_amount_out order (fill_amount order (kf_max_fill config)) quote = Some m"
      "routed_amount_loop rs 0 = Inr (fill_amount order (kf_max_fill config))"
      "if oo_kind order = Limit then fill_call op (oo_order_id order) (fill_amount order (kf_max_fill config)) rs m
       else fill_dca_call op (oo_order_id order) rs m"
    have "required_min_out (fill_amount order (kf_max_fill config)) (lo_limit_e7 ord) \<le> m"
      using fill_min_covers [OF a(3)] lim o(3) by (simp add: limit_view_def)
    moreover have "env_sequence env < lo_expires ord" "fill_amount order (kf_max_fill config) \<le> lo_remaining ord"
      using env a(2) o(3) by (simp_all add: limit_view_def)
    ultimately have "\<forall>f. fill H env i (fill_amount order (kf_max_fill config)) rs m s = Inl f \<longrightarrow> f = CallTrapped"
      using fill_error [OF o(1,2) _ a(1) _ a(4) _ agg] by blast
    then show ?thesis using a(5) o(3) by (auto simp: limit_view_def)
  qed
qed

lemma dca_fill_amount:
  assumes "order = dca_view nm i ord" "\<forall>cap. max_fill = Some cap \<longrightarrow> 0 < cap \<longrightarrow> dca_chunk ord \<le> cap"
  shows "fill_amount order max_fill = dca_chunk ord"
  using assms by (cases max_fill) (auto simp: fill_amount_def dca_view_def dca_chunk_def min_def Let_def split: if_splits)

lemma dca_fill_accepted:
  assumes run: "escrow_run H me outside s0 s" "escrow_start s0"
    and "open_orders nm s (Dca, i) = Some order"
    and act: "order_action codec config http latest order = Some (SubmitFill op)"
    and env: "latest \<le> env_sequence env" "env_sequence env < oo_expires order"
    and cap: "\<forall>cap chunk. kf_max_fill config = Some cap \<longrightarrow> 0 < cap \<longrightarrow> oo_chunk order = Some chunk \<longrightarrow> min chunk (oo_remaining order) \<le> cap"
  shows "\<exists>rs m. fill_dca_call op i rs m \<and> (\<forall>f. fill_dca H env i rs m s = Inl f \<longrightarrow>
      f = CallTrapped \<or> f = Error EE_InvalidAmount \<and> oo_limit_e7 order = 0 \<and> m \<le> 0)"
proof -
  obtain ord where o: "es_dca_orders s i = Some ord" "do_status ord = Open" "order = dca_view nm i ord"
    using assms(3) by (rule dca_order_of)
  have wf: "storage_wf me s" by (rule escrow_run_wf [OF run(1) escrow_start_wf [OF run(2)]])
  have agg: "es_aggregator s \<noteq> None"
    using escrow_run_aggregator [OF run] storage_wf_admin(4) [OF wf o(1)] by blast
  have rate: "0 \<le> do_min_rate_e7 ord" using storage_wf_dcaD [OF wf o(1)] by (simp add: dca_wf_def)
  have chunk: "fill_amount order (kf_max_fill config) = dca_chunk ord"
    by (rule dca_fill_amount [OF o(3)]) (use cap o(3) in \<open>auto simp: dca_view_def dca_chunk_def min_def split: if_splits\<close>)
  from act show ?thesis
  proof (rule submit_fill_cases)
    fix quote rs m
    assume a: "\<And>due. oo_next_ledger order = Some due \<Longrightarrow> due \<le> latest"
      "fill_min_amount_out order (fill_amount order (kf_max_fill config)) quote = Some m"
      "routed_amount_loop rs 0 = Inr (fill_amount order (kf_max_fill config))"
      "if oo_kind order = Limit then fill_call op (oo_order_id order) (fill_amount order (kf_max_fill config)) rs m
       else fill_dca_call op (oo_order_id order) rs m"
    have "0 < do_min_rate_e7 ord \<longrightarrow> required_min_out (dca_chunk ord) (do_min_rate_e7 ord) \<le> m"
      using fill_min_covers [OF a(2)] o(3) chunk by (simp add: dca_view_def)
    moreover have "env_sequence env < do_expires ord" "do_next_ledger ord \<le> env_sequence env"
      using env a(1) o(3) by (auto simp: dca_view_def)
    ultimately have "\<forall>f. fill_dca H env i rs m s = Inl f \<longrightarrow>
        f = CallTrapped \<or> f = Error EE_InvalidAmount \<and> \<not> 0 < do_min_rate_e7 ord \<and> m \<le> 0"
      using fill_dca_error [OF o(1,2) _ _ a(3) [unfolded chunk] _ agg] by blast
    then show ?thesis using a(4) o(3) rate by (auto simp: dca_view_def)
  qed
qed

text \<open>C4: Whatever fill the keeper submits for an open order, from whatever quote, the contract's checks
  accept: the order, the amount, the sum of the routes, the limit price and the due ledger. Until it
  expires, the call fails only where the swap or a transfer traps. For a DCA order this needs a
  \<open>max_fill\<close> that is not below the chunk, and an order without a minimum rate can still be refused for
  a quote whose minimum is not positive.\<close>

theorem keeper_fill_accepted:
  assumes "escrow_run H me outside s0 s" "escrow_start s0" "open_orders nm s k = Some order"
    and "order_action codec config http latest order = Some (SubmitFill op)"
    and "latest \<le> env_sequence env" "env_sequence env < oo_expires order"
    and "\<forall>cap chunk. kf_max_fill config = Some cap \<longrightarrow> 0 < cap \<longrightarrow> oo_chunk order = Some chunk \<longrightarrow>
      min chunk (oo_remaining order) \<le> cap"
  shows "(\<exists>i amount rs m. k = (Limit, i) \<and> fill_call op i amount rs m
        \<and> (\<forall>f. fill H env i amount rs m s = Inl f \<longrightarrow> f = CallTrapped))
    \<or> (\<exists>i rs m. k = (Dca, i) \<and> fill_dca_call op i rs m
        \<and> (\<forall>f. fill_dca H env i rs m s = Inl f \<longrightarrow>
            f = CallTrapped \<or> f = Error EE_InvalidAmount \<and> oo_limit_e7 order = 0 \<and> m \<le> 0))"
proof (rule key_cases [of k])
  fix i assume k: "k = (Limit, i)"
  with assms(3) have "open_orders nm s (Limit, i) = Some order" by simp
  then show ?thesis using limit_fill_accepted [OF assms(1,2) _ assms(4,6)] k by blast
next
  fix i assume k: "k = (Dca, i)"
  with assms(3) have "open_orders nm s (Dca, i) = Some order" by simp
  then show ?thesis using dca_fill_accepted [OF assms(1,2) _ assms(4-7)] k by blast
qed

lemma sample_escrow_run: "escrow_run sample_escrow_host 1 (escrow_undisturbed sample_host 1) escrow_fresh escrow_limit"
  using sample_run_limit by (simp add: sample_escrow_host_def)

lemma sample_open_order:
  "open_orders sample_name escrow_limit (Limit, 0) = Some \<lparr>oo_kind = Limit, oo_order_id = 0, oo_owner = ''G111'',
     oo_token_in = ''C1111111111'', oo_token_out = ''C11111111111'', oo_remaining = 200, oo_limit_e7 = 9000000,
     oo_expires = 500, oo_chunk = None, oo_next_ledger = None\<rparr>"
  by (simp add: limit_view_def address_name_def sample_codec_def numeral_eq_Suc)

lemma sample_log: "es_events escrow_limit = [OrderCreated 0 3 10 11 200 9000000 500]"
  by (simp add: escrow_limit_def escrow_ready_def escrow_sample_defs sample_defs require_auth_def sdiv_pos)

theorem keeper_book_mirrors_escrow_witness:
  "RBT.lookup (apply_events sample_codec (map (published id sample_account ''C1'') (drop 0 [(60, OrderCreated 0 3 10 11 200 9000000 500)]))
       (apply_events sample_codec (map (published id sample_account ''C1'') (take 1 [(60, OrderCreated 0 3 10 11 200 9000000 500)])) RBT.empty))
     = open_orders sample_name escrow_limit"
  by (rule keeper_book_mirrors_escrow [OF _ sample_escrow_run escrow_fresh_start]) (simp_all add: sample_codec_def sample_log)

definition sample_order :: open_order where
  "sample_order = \<lparr>oo_kind = Limit, oo_order_id = 0, oo_owner = ''G111'',
     oo_token_in = ''C1111111111'', oo_token_out = ''C11111111111'', oo_remaining = 200, oo_limit_e7 = 9000000,
     oo_expires = 500, oo_chunk = None, oo_next_ledger = None\<rparr>"

definition sample_fill_op :: keeper_operation where
  "sample_fill_op = \<lparr>op_contract = 1, op_function = ''fill'',
     op_args = [ScU64 0, i128_scval 200, ScVec (Some [route_value (route_there 200)]), i128_scval 180]\<rparr>"

lemma parse_samples:
  "parse_i128 ''200'' = Some 200" "parse_i128 ''90'' = Some 90" "parse_i128 ''50'' = Some 50" "parse_i128 ''100'' = Some 100"
  by (simp_all add: parse_i128_def in_i128_def)

lemma sample_quote:
  assumes "parse_i128 amount = Some x"
  shows "fetch_quote (sample_http amount) tin tout x' = (if x' \<le> 0 then Inl KE_Quote else Inr
      \<lparr>kq_expected_output = x, kq_minimum_output = 90, kq_sub_routes =
       [\<lparr>qs_path = [tin, tout], qs_pool_addresses = [''C11111''], qs_dex_types = [''aquarius''],
         qs_in_indices = [0], qs_out_indices = [1], qs_amount_in = amount, qs_amount_out = amount\<rparr>]\<rparr>)"
  by (simp add: fetch_quote_def sample_http_def quote_from_api_data_def assms parse_samples or_fail_def and_then_def numeral_eq_Suc)

lemma sample_route_value:
  assumes "parse_i128 amount = Some x" "0 < x" "tin = CHR ''C'' # replicate 10 (CHR ''1'')" "tout = CHR ''C'' # replicate 11 (CHR ''1'')"
  shows "quote_sub_route_scval sample_codec \<lparr>qs_path = [tin, tout], qs_pool_addresses = [''C11111''], qs_dex_types = [''aquarius''],
         qs_in_indices = [0], qs_out_indices = [1], qs_amount_in = amount, qs_amount_out = amount\<rparr>
    = Inr (route_value (route_there x))"
  using assms(1,2) by (simp add: quote_sub_route_scval_def steps_from_api_sub_route_def source_to_dex_type_def quote_step_scval_def
      keeper_dex_symbol_def contract_scval_def sample_codec_def assms(3,4) or_fail_def and_then_def ensure_def
      route_value_def step_value_def route_there_def eval_nat_numeral)

lemma sample_action:
  "order_action sample_codec sample_config (sample_http ''200'') 70 sample_order = Some (SubmitFill sample_fill_op)"
proof -
  have r: "quote_sub_route_scval sample_codec \<lparr>qs_path = [''C1111111111'', ''C11111111111''], qs_pool_addresses = [''C11111''],
         qs_dex_types = [''aquarius''], qs_in_indices = [0], qs_out_indices = [1], qs_amount_in = ''200'', qs_amount_out = ''200''\<rparr>
    = Inr (route_value (route_there 200))"
    by (rule sample_route_value) (simp_all add: parse_samples eval_nat_numeral)
  have c: "xc_contract_id sample_codec ''C1'' = Some 1" by (simp add: sample_codec_def)
  show ?thesis
    by (simp add: order_action_def sample_order_def fill_amount_def sample_config_def sample_quote [OF parse_samples(1)]
      is_fillable_for_def keeper_required_min_out_def i128_checked_mul_def in_i128_def RATE_SCALE_E7_def sdiv_pos
      fill_min_amount_out_def fill_operation_def build_fill_operation_def r [simplified] parse_samples or_fail_def and_then_def
      i128_checked_add_def contract_operation_def c sample_fill_op_def)
qed

theorem keeper_fill_accepted_witness:
  "\<exists>amount rs m. fill_call sample_fill_op 0 amount rs m
     \<and> (\<forall>f. fill sample_escrow_host (escrow_call 7 70) 0 amount rs m escrow_limit = Inl f \<longrightarrow> f = CallTrapped)"
  using keeper_fill_accepted [OF sample_escrow_run escrow_fresh_start sample_open_order sample_action [unfolded sample_order_def],
      of "escrow_call 7 70"]
  by (simp add: escrow_call_def sample_config_def)

section \<open>Following the ledger\<close>







lemma pages_loop_pages:
  assumes "\<forall>k. ps k \<noteq> [] \<and> cs k \<noteq> [] \<and> page start end_ledger (if k = 0 then None else Some (cs (k - 1))) = Some (ps k, Some (cs k))"
    and "inj cs"
  shows "pages_loop n page start end_ledger (if k = 0 then None else Some (cs (k - 1))) (cs ` {..<k}) acc
    = Some (acc @ concat (map ps [k..<k + n]))"
proof (induction n arbitrary: k acc)
  case (Suc n)
  have "cs k \<notin> cs ` {..<k}" using assms(2) by (simp add: inj_image_mem_iff)
  moreover have "insert (cs k) (cs ` {..<k}) = cs ` {..<Suc k}" by (simp add: lessThan_Suc)
  moreover have "[k..<k + Suc n] = k # [Suc k..<Suc k + n]" by (simp add: upt_conv_Cons)
  moreover have "page start end_ledger (if k = 0 then None else Some (cs (k - 1))) = Some (ps k, Some (cs k))" "ps k \<noteq> []" "cs k \<noteq> []"
    using assms(1) by blast+
  ultimately show ?case using Suc.IH [of "Suc k" "acc @ ps k"] by simp
qed simp

text \<open>A query stops after 32 pages: of a server that has more, each page with a new cursor, it returns
  the first 32 pages and no error. The keeper then moves its cursor past the range, and the rest of
  its events is never read.\<close>

lemma event_query_truncated:
  assumes "\<forall>k. ps k \<noteq> [] \<and> cs k \<noteq> [] \<and> page start (Some e) (if k = 0 then None else Some (cs (k - 1))) = Some (ps k, Some (cs k))"
    and "inj cs" "0 < start" "start < e" "e \<le> start + MAX_LEDGER_SCAN_PER_REQUEST"
  shows "get_contract_events page start (Some e) = Some (concat (map ps [0..<32]))"
  using pages_loop_pages [of ps cs page start "Some e" MAX_PAGES 0 "[]", OF assms(1,2)] assms(3-5)
  by (simp add: get_contract_events_def MAX_PAGES_def)

section \<open>Where the keeper fails\<close>

text \<open>C40: A DCA order whose chunk is above \<open>max_fill\<close> is never filled: the keeper quotes and routes the
  capped amount, but \<open>fill_dca\<close> takes no amount and always fills a whole chunk, so every operation the
  keeper submits for it fails, in every ledger.\<close>

theorem keeper_dca_cap_never_fills:
  assumes "open_orders nm s (Dca, i) = Some order" "oo_chunk order = Some chunk"
    and "kf_max_fill config = Some cap" "0 < cap" "cap < chunk" "cap < oo_remaining order"
    and "order_action codec config http latest order = Some (SubmitFill op)"
  shows "\<exists>rs m. fill_dca_call op i rs m \<and> routes_total rs = cap \<and> (\<forall>H env. \<exists>f. fill_dca H env i rs m s = Inl f)"
proof -
  obtain ord where o: "es_dca_orders s i = Some ord" "do_status ord = Open" "order = dca_view nm i ord"
    using assms(1) by (rule dca_order_of)
  have amount: "fill_amount order (kf_max_fill config) = cap"
    using assms(2-6) by (simp add: fill_amount_def)
  have "cap < dca_chunk ord" using assms(2,5,6) o(3) by (simp add: dca_chunk_def dca_view_def)
  from assms(7) show ?thesis
  proof (rule submit_fill_cases)
    fix quote rs m
    assume a: "routed_amount_loop rs 0 = Inr (fill_amount order (kf_max_fill config))"
      "if oo_kind order = Limit then fill_call op (oo_order_id order) (fill_amount order (kf_max_fill config)) rs m
       else fill_dca_call op (oo_order_id order) rs m"
    have t: "routes_total rs = cap" using routed_amount_loop_Inr [OF a(1)] amount by simp
    have "fill_dca H env i rs m s \<noteq> Inr r" for H :: "'a escrow_host" and env r
    proof
      assume "fill_dca H env i rs m s = Inr r"
      then have "fill_dca H env i rs m s = Inr (fst r, snd r)" by simp
      then show False by (rule fill_dca_cases) (use o(1) t \<open>cap < dca_chunk ord\<close> in auto)
    qed
    then have "\<exists>f. fill_dca H env i rs m s = Inl f" for H :: "'a escrow_host" and env
      by (cases "fill_dca H env i rs m s") auto
    then show ?thesis using a(2) t o(3) by (auto simp: dca_view_def)
  qed
qed

lemma sample_dca_open:
  "open_orders sample_name escrow_dca (Dca, 0) = Some \<lparr>oo_kind = Dca, oo_order_id = 0, oo_owner = ''G111'',
     oo_token_in = ''C1111111111'', oo_token_out = ''C11111111111'', oo_remaining = 300, oo_limit_e7 = 0,
     oo_expires = 500, oo_chunk = Some 100, oo_next_ledger = Some 90\<rparr>"
  by (simp add: sample_dca_order dca_view_def address_name_def sample_codec_def numeral_eq_Suc)

theorem keeper_dca_cap_never_fills_witness:
  "\<exists>op rs m. order_action sample_codec (sample_config\<lparr>kf_max_fill := Some 50\<rparr>) (sample_http ''50'') 90
       (the (open_orders sample_name escrow_dca (Dca, 0))) = Some (SubmitFill op)
     \<and> fill_dca_call op 0 rs m \<and> (\<forall>H env. \<exists>f. fill_dca H env 0 rs m escrow_dca = Inl f)"
proof -
  have r: "quote_sub_route_scval sample_codec \<lparr>qs_path = [''C1111111111'', ''C11111111111''], qs_pool_addresses = [''C11111''],
         qs_dex_types = [''aquarius''], qs_in_indices = [0], qs_out_indices = [1], qs_amount_in = ''50'', qs_amount_out = ''50''\<rparr>
    = Inr (route_value (route_there 50))"
    by (rule sample_route_value) (simp_all add: parse_samples eval_nat_numeral)
  have c: "xc_contract_id sample_codec ''C1'' = Some 1" by (simp add: sample_codec_def)
  have act: "\<exists>op. order_action sample_codec (sample_config\<lparr>kf_max_fill := Some 50\<rparr>) (sample_http ''50'') 90
       (the (open_orders sample_name escrow_dca (Dca, 0))) = Some (SubmitFill op)"
    unfolding sample_dca_open option.sel
    by (simp add: order_action_def fill_amount_def sample_config_def sample_quote [OF parse_samples(3)]
      is_fillable_for_def fill_min_amount_out_def fill_operation_def build_fill_operation_def r [simplified] parse_samples
      or_fail_def and_then_def i128_checked_add_def in_i128_def contract_operation_def c)
  then obtain op where op: "order_action sample_codec (sample_config\<lparr>kf_max_fill := Some 50\<rparr>) (sample_http ''50'') 90
       (the (open_orders sample_name escrow_dca (Dca, 0))) = Some (SubmitFill op)" by blast
  have "\<exists>rs m. fill_dca_call op 0 rs m \<and> routes_total rs = 50 \<and> (\<forall>H env. \<exists>f. fill_dca H env 0 rs m escrow_dca = Inl f)"
    by (rule keeper_dca_cap_never_fills [where cap = 50 and chunk = 100, OF sample_dca_open _ _ _ _ _ op [unfolded sample_dca_open option.sel]])
      simp_all
  then show ?thesis using op by blast
qed

lemma sample_names: "sample_name 3 = ''G111''" "sample_name 10 = ''C1111111111''" "sample_name 11 = ''C11111111111''"
  by (simp_all add: address_name_def sample_codec_def numeral_eq_Suc)

lemma sample_codec_decode: "xc_decode sample_codec v = Some v"
  by (simp add: sample_codec_def)

lemma pass_loop_None:
  assumes "order \<in> set orders" "order_action codec config http latest order = None"
  shows "pass_loop codec config http accepted latest k orders book = None"
  using assms(1)
proof (induction orders arbitrary: k book)
  case (Cons o' orders)
  then show ?case
    using assms(2) by (cases "order_action codec config http latest o'") (auto simp: Let_def)
qed simp

text \<open>C39: One order can stop the keeper: if the amount times the limit of an order in its book leaves
  \<open>i128\<close>, the keeper panics as soon as it gets a quote for the order, before it serves the orders
  behind it, and again after every restart. The contract accepts such an order from anyone; its own
  limit check saturates where the keeper's panics.\<close>

theorem keeper_stopped_by_one_order:
  assumes "RBT.lookup book k = Some order" "latest < oo_expires order"
    and "\<forall>due. oo_next_ledger order = Some due \<longrightarrow> due \<le> latest"
    and "0 < fill_amount order (kf_max_fill config)" "0 < oo_limit_e7 order"
    and "i128_max < fill_amount order (kf_max_fill config) * oo_limit_e7 order"
    and "fetch_quote http (oo_token_in order) (oo_token_out order) (fill_amount order (kf_max_fill config)) = Inr quote"
  shows "keeper_pass codec config http accepted latest book = None"
proof -
  have "(k, order) \<in> set (RBT.entries book)" using assms(1) by (simp add: RBT.lookup_in_tree)
  then have m: "order \<in> set (book_iter book)" by (force simp: book_iter_def)
  have d: "\<not> (case oo_next_ledger order of Some due \<Rightarrow> latest < due | None \<Rightarrow> False)"
    using assms(3) by (cases "oo_next_ledger order") auto
  have "i128_checked_mul (fill_amount order (kf_max_fill config)) (oo_limit_e7 order) = None"
    using assms(6) by (simp add: i128_checked_mul_def in_i128_def)
  then have "is_fillable_for order (fill_amount order (kf_max_fill config)) (kq_expected_output quote) = None"
    using assms(4,5) by (simp add: is_fillable_for_def keeper_required_min_out_def)
  then have "order_action codec config http latest order = None"
    using assms(2,4,7) d by (simp add: order_action_def Let_def)
  then show ?thesis unfolding keeper_pass_def by (rule pass_loop_None [OF m])
qed

theorem keeper_stopped_by_one_order_witness:
  "\<exists>s. create_limit sample_escrow_host (escrow_call 3 60) 3 10 11 100 (2 ^ 126) 500 escrow_ready = Inr (0, s)
     \<and> keeper_pass sample_codec sample_config (sample_http ''100'') (\<lambda>_. True) 61
         (apply_events sample_codec (map (published id sample_account ''C1'') (map (Pair 60) (es_events s))) RBT.empty) = None"
proof -
  have "\<exists>s. create_limit sample_escrow_host (escrow_call 3 60) 3 10 11 100 (2 ^ 126) 500 escrow_ready = Inr (0, s)
    \<and> es_events s = [OrderCreated 0 3 10 11 100 (2 ^ 126) 500]"
    by (simp add: escrow_limit_def escrow_ready_def escrow_sample_defs sample_defs require_auth_def sdiv_pos)
  then obtain s where s: "create_limit sample_escrow_host (escrow_call 3 60) 3 10 11 100 (2 ^ 126) 500 escrow_ready = Inr (0, s)"
    "es_events s = [OrderCreated 0 3 10 11 100 (2 ^ 126) 500]" by blast
  let ?book = "apply_events sample_codec (map (published id sample_account ''C1'') (map (Pair 60) (es_events s))) RBT.empty"
  have b: "RBT.lookup ?book (Limit, 0) = Some \<lparr>oo_kind = Limit, oo_order_id = 0, oo_owner = ''G111'',
     oo_token_in = ''C1111111111'', oo_token_out = ''C11111111111'', oo_remaining = 100, oo_limit_e7 = 2 ^ 126,
     oo_expires = 500, oo_chunk = None, oo_next_ledger = None\<rparr>"
    using sample_names by (subst apply_published) (simp_all add: sample_codec_decode s(2) apply_created_def)
  have "keeper_pass sample_codec sample_config (sample_http ''100'') (\<lambda>_. True) 61 ?book = None"
    by (rule keeper_stopped_by_one_order [OF b, where quote = "projr (fetch_quote (sample_http ''100'') ''C1111111111'' ''C11111111111'' 100)"])
      (simp_all add: fill_amount_def sample_config_def sample_quote [OF parse_samples(4)])
  then show ?thesis using s(1) by blast
qed

end
