(* ===== verification/Spec2Isabelle.thy ===== *)
theory Spec2Isabelle
  imports Aggregator_Properties Escrow_Properties Vault_Properties Clmm_Swap_Properties
    Stable_Properties Router_Properties Split_Properties Comet_Properties Quote_Properties
    Keeper_Properties
begin

text \<open>
  A verification library for LumAgg, a DEX aggregator for Stellar's Soroban network.

  \<^bold>\<open>The program.\<close> Three smart contracts hold or move users' funds: the aggregator
  (\<open>contracts/aggregator\<close>) executes multi-hop and split swaps across DEX pools in one call, the
  order escrow (\<open>contracts/order-escrow\<close>) keeps limit and DCA orders and fills them through the
  aggregator's restricted entry point, and the vault (\<open>contracts/vault\<close>) lends its float to
  registered callers for round trips through the aggregator. Off chain, the router quotes pools
  locally, for which \<open>crates/dex-adapters\<close> re-implements the pools' arithmetic; the limit keeper
  (\<open>crates/limit-keeper\<close>) follows the escrow's events and submits the fills that are due.

  \<^bold>\<open>The theories, in import order.\<close>
  \<^item> \<open>Dex_Prelude\<close>: results with errors, checked and saturating integers, the two simplifier
    collections. \<open>Soroban_Host\<close>: addresses, invocations and the external functions, a parameter.
    \<open>Contract_Types\<close>: \<open>contracts/shared-types\<close>.
  \<^item> \<open>Agg_Math\<close> (\<open>math.rs\<close>, \<open>errors.rs\<close>), \<open>Agg_Invoke\<close> (\<open>invoke.rs\<close>, \<open>events.rs\<close>,
    \<open>storage.rs\<close>), \<open>Aggregator\<close> (\<open>validate.rs\<close>, \<open>swap.rs\<close>, \<open>round_trip.rs\<close>,
    \<open>admin.rs\<close>, \<open>auth.rs\<close>, \<open>lib.rs\<close>) model the aggregator; \<open>Token_Ledger\<close> states the laws of
    tokens and of Soroban authorisation as locales and interprets them on a concrete ledger;
    \<open>Sample_Ledger\<close> and \<open>Aggregator_Properties\<close> hold the properties.
  \<^item> \<open>Order_Escrow\<close> models \<open>order-escrow/src/lib.rs\<close> and \<open>errors.rs\<close>; \<open>Escrow_Steps\<close> its
    step relation and the invariants of its runs; \<open>Escrow_Solvency\<close> the interface to tokens and
    aggregator (\<open>escrow_world\<close>), solvency, and the deployment against the modelled aggregator;
    \<open>Escrow_Properties\<close> the properties.
  \<^item> \<open>Vault\<close>, \<open>Vault_Principal\<close>, \<open>Vault_Properties\<close>: the same for \<open>contracts/vault/src\<close>.
  \<^item> \<open>U256_Arith\<close>, \<open>U256_Division\<close>, \<open>Mul_Div\<close>: the four-limb \<open>U256\<close> of
    \<open>clmm_math.rs\<close> with its abstraction function \<open>val\<close> to the naturals; every operation has a
    lemma \<open>val (op x y) = ... val x ... val y\<close>. \<open>Tick_Math\<close>: tick and price; \<open>Tick_Price\<close>:
    the error of the price against the real logarithm, \<open>Tick_Log\<close>: the inverse. \<open>Swap_Math\<close>: amounts
    and swap steps. \<open>Tick_Bitmap\<close>, \<open>Tick_Search\<close>: the tick store and its three-level search.
    \<open>Clmm_Pool\<close>: snapshots, coverage guards, \<open>simulate_swap\<close>; \<open>Clmm_Range\<close>: the loaded range;
    \<open>Clmm_Simulation\<close>: the simulation as a sequence of legs. \<open>Clmm_Properties\<close> and
    \<open>Clmm_Swap_Properties\<close>: the properties.
  \<^item> \<open>Stable_Math\<close> (\<open>stable_math.rs\<close>): the StableSwap invariant and the Newton iterations, with
    the proof that the one for \<open>y\<close> converges to the integer root; \<open>Stable_Properties\<close>.
  \<^item> \<open>Token_Graph\<close> (\<open>TokenId\<close> of \<open>traits.rs\<close> and \<open>graph.rs\<close> of \<open>crates/router-engine\<close>): the
    routing graph and its breadth-first path search; \<open>Path_Enumeration\<close>: the chains of edges it
    should return, soundness and completeness; \<open>Path_Finder\<close> (\<open>path_finder.rs\<close>): the finder with
    its cache, its runs and their invariants; \<open>Router_Properties\<close>.
  \<^item> \<open>F64\<close>: double-precision arithmetic on rationals, with the error of a rounding;
    \<open>Split_Optimizer\<close> (\<open>split_optimizer.rs\<close>): Brent's method, the split over several paths, the
    dust filter and the route; \<open>Split_Legs\<close>: the invariants of a split; \<open>Split_Properties\<close>.
  \<^item> \<open>Comet_Math\<close> (\<open>comet_math.rs\<close>): the fixed-point power of weighted pools and its division in
    double precision; \<open>Comet_Bounds\<close>: no operation of a quote leaves \<open>i128\<close>. \<open>Pool_Quotes\<close>
    (\<open>quote_comet_pool\<close> of \<open>comet.rs\<close>, \<open>quote_aquarius_pool\<close> of \<open>aquarius.rs\<close>);
    \<open>Comet_Properties\<close>.
  \<^item> \<open>Quote_Engine\<close> (\<open>quote_engine.rs\<close>): the engine that joins path finder, local quotes and
    split optimiser, from request to route; \<open>Quote_Runs\<close>: the runs of an engine, their invariants, and
    the quote cache against quoting every time; \<open>Quote_Properties\<close>.
  \<^item> \<open>Keeper_Book\<close> (\<open>book.rs\<close>, \<open>ledger.rs\<close> of the keeper), \<open>Keeper_Events\<close> (\<open>events.rs\<close>, and
    what the escrow publishes), \<open>Keeper_Execute\<close> (\<open>quote.rs\<close>, \<open>limit.rs\<close>, \<open>execute.rs\<close>, the loops of
    \<open>main.rs\<close>, the paged query of \<open>rpc/events.rs\<close>); \<open>Keeper_Mirror\<close>: the book against the storage of
    the modelled escrow over its runs; \<open>Keeper_Fills\<close>: the operations as calls of the modelled escrow;
    \<open>Keeper_Properties\<close>.

  \<^bold>\<open>How state and calls are modelled.\<close> A contract's storage is a record; an entry point maps
  (invocation, arguments, state) to an error or to (result, new state). A failed call carries no
  state, since the host rolls the transaction back. Calls out of the repository (tokens, DEX pools)
  are fields of a host record over an arbitrary external state; what the proofs need of them are the
  named assumptions of \<open>token_contract\<close>, \<open>guarded_host\<close> and \<open>allowance_token\<close>, which
  \<open>ledger_host\<close> satisfies. Cross-contract calls inside the repository are composed: the external
  state of the escrow and the vault is the aggregator's state. \<open>i128\<close> and \<open>u32\<close> values are
  \<open>int\<close> and \<open>nat\<close> with the range written out in each checked or saturating operation; the limbs
  of \<open>U256\<close> are 64-bit words. An outer \<open>option\<close> in the off-chain code is a panic.

  \<^bold>\<open>Bounds.\<close> \<open>simulate_swap\<close> has the code's own limit of 500 iterations as its fuel, the
  iterations of \<open>stable_math.rs\<close> their 255 rounds (enough for \<open>y\<close>: the distance to the root halves in
  every round). The path search ends because every round lowers the weight \<open>queue_weight\<close> of its
  queue, the dust filter because every round keeps fewer paths; Brent's method has the configured
  number of rounds. The power series of \<open>comet_math.rs\<close> has the code's 50 terms, the integer power
  halves its exponent in every round. Every other loop is structural.

  \<^bold>\<open>The quote cache.\<close> The optimiser of \<open>Split_Optimizer\<close> asks a function for its quotes, and
  \<open>get_route_with_paths\<close> gives it \<open>quote_path\<close>. The cache that the code puts in front is
  \<open>cached_quote\<close>; it answers as \<open>quote_path\<close> does while no two candidate paths have the same joined
  pool addresses, and \<open>Quote_Properties\<close> shows both that and a case of two paths that do.

  \<^bold>\<open>Not modelled.\<close> The RPC adapters, HTTP API, indexer, workers and bots are network, database
  and serialisation code around the modelled arithmetic. Storage lifetimes (TTL) and
  resource limits of the host are not modelled. The wall clock
  and the poison flag of the cache mutex are modelled in \<open>Path_Finder\<close>; logging is not.
\<close>

end
